(* ===== verification/Prelude.thy ===== *)
theory Prelude
  imports "HOL-Library.Word" "HOL-Library.Sublist"
begin

text \<open>
  Shared vocabulary of the development: machine-integer types, Rust results with panics as a
  third outcome, arithmetic with the overflow checks of a checked build, big-endian byte
  conversion, and the generic facts on lists and bits that the components use.

  A Rust \<open>Result<T, E>\<close> is \<open>('a, 'e) result\<close> with the constructors \<open>Ok\<close> and \<open>Err\<close>;
  \<open>Panic\<close> stands for an \<open>assert!\<close>, \<open>expect\<close>, \<open>unwrap\<close>, out-of-range index or arithmetic
  overflow that stops the thread. \<open>usize\<close> values, which only count bytes held in memory, are
  \<open>nat\<close>; integers whose width matters are words. Arithmetic that can overflow is checked, as in
  a build with overflow checks; where the development proves that no \<open>Panic\<close> arises, the
  wrapping arithmetic of a release build computes the same.
\<close>

unbundle bit_operations_syntax

type_synonym u8 = "8 word"
type_synonym u16 = "16 word"
type_synonym u32 = "32 word"
type_synonym u64 = "64 word"
type_synonym u128 = "128 word"
type_synonym bytes = "u8 list"

section \<open>Results\<close>

datatype ('a, 'e) result = Ok 'a | Err 'e | Panic

named_theorems ok_iff \<open>when a computation returns a value\<close>
named_theorems panic_iff \<open>when a computation panics\<close>

fun and_then :: "('a, 'e) result \<Rightarrow> ('a \<Rightarrow> ('b, 'e) result) \<Rightarrow> ('b, 'e) result" where
  "and_then (Ok a) f = f a"
| "and_then (Err e) f = Err e"
| "and_then Panic f = Panic"

fun map_err :: "('e \<Rightarrow> 'f) \<Rightarrow> ('a, 'e) result \<Rightarrow> ('a, 'f) result" where
  "map_err f (Ok a) = Ok a"
| "map_err f (Err e) = Err (f e)"
| "map_err f Panic = Panic"

fun map_ok :: "('a \<Rightarrow> 'b) \<Rightarrow> ('a, 'e) result \<Rightarrow> ('b, 'e) result" where
  "map_ok f (Ok a) = Ok (f a)"
| "map_ok f (Err e) = Err e"
| "map_ok f Panic = Panic"

definition ok_or :: "'a option \<Rightarrow> 'e \<Rightarrow> ('a, 'e) result" where
  "ok_or x e = (case x of None \<Rightarrow> Err e | Some a \<Rightarrow> Ok a)"

definition unwrap_opt :: "'a option \<Rightarrow> ('a, 'e) result" where
  "unwrap_opt x = (case x of None \<Rightarrow> Panic | Some a \<Rightarrow> Ok a)"

fun unwrap :: "('a, 'f) result \<Rightarrow> ('a, 'e) result" where
  "unwrap (Ok a) = Ok a"
| "unwrap (Err e) = Panic"
| "unwrap Panic = Panic"

definition assert_that :: "bool \<Rightarrow> (unit, 'e) result" where
  "assert_that b = (if b then Ok () else Panic)"

definition check :: "bool \<Rightarrow> 'e \<Rightarrow> (unit, 'e) result" where
  "check b e = (if b then Ok () else Err e)"

definition is_ok :: "('a, 'e) result \<Rightarrow> bool" where
  "is_ok r = (case r of Ok _ \<Rightarrow> True | _ \<Rightarrow> False)"

lemma and_then_cong [fundef_cong]:
  "m = m' \<Longrightarrow> (\<And>a. m' = Ok a \<Longrightarrow> f a = g a) \<Longrightarrow> and_then m f = and_then m' g"
  by (cases m) auto

lemma and_then_ok_iff [ok_iff]: "and_then m f = Ok b \<longleftrightarrow> (\<exists>a. m = Ok a \<and> f a = Ok b)"
  by (cases m) auto

lemma and_then_panic_iff [panic_iff]:
  "and_then m f = Panic \<longleftrightarrow> m = Panic \<or> (\<exists>a. m = Ok a \<and> f a = Panic)"
  by (cases m) auto

lemma and_then_err_iff:
  "and_then m f = Err e \<longleftrightarrow> m = Err e \<or> (\<exists>a. m = Ok a \<and> f a = Err e)"
  by (cases m) auto

lemma map_err_ok_iff [ok_iff, simp]: "map_err f m = Ok b \<longleftrightarrow> m = Ok b"
  by (cases m) auto

lemma map_err_panic_iff [panic_iff, simp]: "map_err f m = Panic \<longleftrightarrow> m = Panic"
  by (cases m) auto

lemma map_ok_ok_iff [ok_iff]: "map_ok f m = Ok b \<longleftrightarrow> (\<exists>a. m = Ok a \<and> b = f a)"
  by (cases m) auto

lemma map_ok_panic_iff [panic_iff, simp]: "map_ok f m = Panic \<longleftrightarrow> m = Panic"
  by (cases m) auto

lemma ok_or_simps [simp]: "ok_or None e = Err e" "ok_or (Some a) e = Ok a"
  by (simp_all add: ok_or_def)

lemma ok_or_ok_iff [ok_iff]: "ok_or x e = Ok a \<longleftrightarrow> x = Some a"
  by (cases x) auto

lemma ok_or_not_panic [panic_iff, simp]: "ok_or x e \<noteq> Panic"
  by (cases x) auto

lemma unwrap_opt_simps [simp]: "unwrap_opt None = Panic" "unwrap_opt (Some a) = Ok a"
  by (simp_all add: unwrap_opt_def)

lemma unwrap_opt_ok_iff [ok_iff]: "unwrap_opt x = Ok a \<longleftrightarrow> x = Some a"
  by (cases x) auto

lemma unwrap_ok_iff [ok_iff]: "unwrap m = Ok a \<longleftrightarrow> m = Ok a"
  by (cases m) auto

lemma assert_that_simps [simp]: "assert_that True = Ok ()" "assert_that False = Panic"
  by (simp_all add: assert_that_def)

lemma assert_that_ok_iff [ok_iff]: "assert_that b = Ok u \<longleftrightarrow> b"
  by (simp add: assert_that_def)

lemma assert_that_panic_iff [panic_iff]: "assert_that b = Panic \<longleftrightarrow> \<not> b"
  by (simp add: assert_that_def)

lemma check_simps [simp]: "check True e = Ok ()" "check False e = Err e"
  by (simp_all add: check_def)

lemma check_ok_iff [ok_iff]: "check b e = Ok u \<longleftrightarrow> b"
  by (simp add: check_def)

lemma check_not_panic [panic_iff, simp]: "check b e \<noteq> Panic"
  by (simp add: check_def)

lemma is_ok_simps [simp]: "is_ok (Ok a)" "\<not> is_ok (Err e)" "\<not> is_ok Panic"
  by (simp_all add: is_ok_def)

lemma is_ok_iff: "is_ok r \<longleftrightarrow> (\<exists>a. r = Ok a)"
  by (cases r) auto

section \<open>Checked arithmetic\<close>

definition add_chk :: "'a::len word \<Rightarrow> 'a word \<Rightarrow> ('a word, 'e) result" where
  "add_chk a b = (if unat a + unat b < 2 ^ LENGTH('a) then Ok (a + b) else Panic)"

definition sub_chk :: "'a::len word \<Rightarrow> 'a word \<Rightarrow> ('a word, 'e) result" where
  "sub_chk a b = (if b \<le> a then Ok (a - b) else Panic)"

definition shl_chk :: "'a::len word \<Rightarrow> nat \<Rightarrow> ('a word, 'e) result" where
  "shl_chk a n = (if n < LENGTH('a) then Ok (push_bit n a) else Panic)"

definition shr_chk :: "'a::len word \<Rightarrow> nat \<Rightarrow> ('a word, 'e) result" where
  "shr_chk a n = (if n < LENGTH('a) then Ok (drop_bit n a) else Panic)"

definition nat_sub_chk :: "nat \<Rightarrow> nat \<Rightarrow> (nat, 'e) result" where
  "nat_sub_chk a b = (if b \<le> a then Ok (a - b) else Panic)"

definition index_chk :: "'a list \<Rightarrow> nat \<Rightarrow> ('a, 'e) result" where
  "index_chk xs i = (if i < length xs then Ok (xs ! i) else Panic)"

lemma shl_chk_ok [simp]: "n < LENGTH('a) \<Longrightarrow> shl_chk (a :: 'a::len word) n = Ok (push_bit n a)"
  by (simp add: shl_chk_def)

lemma shr_chk_ok [simp]: "n < LENGTH('a) \<Longrightarrow> shr_chk (a :: 'a::len word) n = Ok (drop_bit n a)"
  by (simp add: shr_chk_def)

lemma nat_sub_chk_ok [simp]: "b \<le> a \<Longrightarrow> nat_sub_chk a b = Ok (a - b)"
  by (simp add: nat_sub_chk_def)

lemma nat_sub_chk_panic [simp]: "a < b \<Longrightarrow> nat_sub_chk a b = Panic"
  by (simp add: nat_sub_chk_def)

lemma index_chk_ok [simp]: "i < length xs \<Longrightarrow> index_chk xs i = Ok (xs ! i)"
  by (simp add: index_chk_def)

section \<open>Bits\<close>

lemma not_bit_of_less:
  assumes "unat (w :: 'a::len word) < 2 ^ k" and "k \<le> i"
  shows "\<not> bit w i"
proof -
  have "unat w < 2 ^ i" using assms by (meson less_le_trans power_increasing one_le_numeral)
  then have "\<not> bit (unat w) i" by (simp add: bit_iff_odd)
  then show ?thesis by (simp add: bit_unsigned_iff)
qed

lemma unat_less_of_bits:
  assumes "\<And>i. k \<le> i \<Longrightarrow> \<not> bit (w :: 'a::len word) i"
  shows "unat w < 2 ^ k"
proof -
  have "take_bit k w = w"
    by (rule bit_word_eqI) (use assms in \<open>auto simp: bit_take_bit_iff not_le[symmetric]\<close>)
  then have "take_bit k (unat w) = unat w"
    by (metis unsigned_take_bit_eq)
  then show ?thesis by (metis take_bit_nat_less_exp)
qed

lemma unat_ucast_up: "LENGTH('a) \<le> LENGTH('b) \<Longrightarrow> unat (ucast (w :: 'a::len word) :: 'b::len word) = unat w"
  by (auto simp: unsigned_ucast_eq take_bit_nat_eq_self_iff
      intro: less_le_trans [OF unsigned_less power_increasing])

lemma ucast_ucast_down:
  "LENGTH('a) \<le> LENGTH('b) \<Longrightarrow> ucast (ucast (w :: 'a::len word) :: 'b::len word) = w"
  by (rule bit_word_eqI) (auto simp: bit_ucast_iff)

lemma unat_exp: "k < LENGTH('a) \<Longrightarrow> unat (2 ^ k :: 'a::len word) = 2 ^ k"
  by (metis of_nat_numeral of_nat_power take_bit_nat_eq_self_iff unsigned_of_nat
      power_strict_increasing one_less_numeral_iff semiring_norm(76))

lemma drop_suffix:
  assumes "drop (n - cur) xs = ys @ zs" and "cur \<le> n" and "length xs = n"
  shows "drop (n - length zs) xs = zs" and "length zs \<le> n"
proof -
  have c: "cur = length ys + length zs"
    using arg_cong [OF assms(1), of length] assms(2,3) by simp
  then show "length zs \<le> n" using assms(2) by simp
  have "drop (length ys) (drop (n - cur) xs) = zs" using assms(1) by simp
  moreover have "length ys + (n - cur) = n - length zs" using c assms(2) by simp
  ultimately show "drop (n - length zs) xs = zs" by simp
qed

section \<open>Iterators and numbers as text\<close>

text \<open>\<open>Iterator::min_by_key\<close> returns the first of several minimal elements.\<close>

fun min_by_key :: "('a \<Rightarrow> 'k::linorder) \<Rightarrow> 'a list \<Rightarrow> 'a option" where
  "min_by_key key [] = None"
| "min_by_key key (x # xs) =
     (case min_by_key key xs of None \<Rightarrow> Some x | Some y \<Rightarrow> if key y < key x then Some y else Some x)"

lemma min_by_key_None [simp]: "min_by_key key xs = None \<longleftrightarrow> xs = []"
  by (cases xs) (auto split: option.splits)

lemma min_by_key_Some:
  "min_by_key key xs = Some x \<Longrightarrow> x \<in> set xs \<and> (\<forall>y \<in> set xs. key x \<le> key y)"
proof (induction xs arbitrary: x)
  case Nil
  then show ?case by simp
next
  case (Cons z zs)
  show ?case
  proof (cases "min_by_key key zs")
    case None
    with Cons.prems show ?thesis by simp
  next
    case (Some y)
    from Cons.IH [OF Some] Cons.prems Some show ?thesis
      by (auto split: if_splits)
  qed
qed

definition dec_digit :: "nat \<Rightarrow> char" where
  "dec_digit d = char_of (48 + d)"

fun dec_string :: "nat \<Rightarrow> string" where
  "dec_string n = (if n < 10 then [dec_digit n] else dec_string (n div 10) @ [dec_digit (n mod 10)])"

declare dec_string.simps [simp del]

end
