(* ===== verification/Benc_Object.thy ===== *)
theory Benc_Object
  imports Prelude "HOL-Library.List_Lexorder"
begin

text \<open>
  The value type of \<^verbatim>\<open>cjdns-bencode\<close> (\<^verbatim>\<open>object.rs\<close>): byte strings, dictionaries, integers and
  lists, with the accessors of the trait \<open>Get\<close> and the conversions to Rust types.

  A \<open>BTreeMap\<close> is the list of its entries in ascending key order; the keys are byte strings,
  ordered lexicographically. Borrowed and owned values (\<open>Cow\<close>, \<open>into_owned\<close>) are not told
  apart, and a \<open>str\<close> is the list of its UTF-8 bytes. An \<open>i64\<close> is an \<open>int\<close> whose range is part
  of \<open>obj_ok\<close>.
\<close>

section \<open>Ordered maps\<close>

fun bt_insert :: "'k::linorder \<Rightarrow> 'v \<Rightarrow> ('k \<times> 'v) list \<Rightarrow> ('k \<times> 'v) list" where
  "bt_insert k v [] = [(k, v)]"
| "bt_insert k v ((k', v') # d) =
     (if k < k' then (k, v) # (k', v') # d
      else if k = k' then (k, v) # d
      else (k', v') # bt_insert k v d)"

fun bt_get :: "'k::linorder \<Rightarrow> ('k \<times> 'v) list \<Rightarrow> 'v option" where
  "bt_get k [] = None"
| "bt_get k ((k', v') # d) = (if k = k' then Some v' else bt_get k d)"

fun bt_remove :: "'k::linorder \<Rightarrow> ('k \<times> 'v) list \<Rightarrow> ('k \<times> 'v) list" where
  "bt_remove k [] = []"
| "bt_remove k ((k', v') # d) = (if k = k' then d else (k', v') # bt_remove k d)"

definition bt_ok :: "('k::linorder \<times> 'v) list \<Rightarrow> bool" where
  "bt_ok d \<longleftrightarrow> sorted_wrt (<) (map fst d)"

lemma bt_ok_simps [simp]:
  "bt_ok []" "bt_ok ((k, v) # d) \<longleftrightarrow> (\<forall>x \<in> fst ` set d. k < x) \<and> bt_ok d"
  by (auto simp: bt_ok_def)

lemma fst_set_bt_insert [simp]: "fst ` set (bt_insert k v d) = insert k (fst ` set d)"
  by (induction k v d rule: bt_insert.induct) auto

lemma bt_ok_insert [simp]: "bt_ok d \<Longrightarrow> bt_ok (bt_insert k v d)"
  by (induction k v d rule: bt_insert.induct) (auto simp: less_trans)

lemma set_bt_remove: "set (bt_remove k d) \<subseteq> set d"
  by (induction k d rule: bt_remove.induct) auto

lemma bt_ok_remove [simp]: "bt_ok d \<Longrightarrow> bt_ok (bt_remove k d)"
  by (induction k d rule: bt_remove.induct) (use set_bt_remove in fastforce)+

lemma bt_get_insert [simp]: "bt_get k (bt_insert k' v d) = (if k = k' then Some v else bt_get k d)"
  by (induction k' v d rule: bt_insert.induct) auto

lemma bt_get_None_iff: "bt_get k d = None \<longleftrightarrow> k \<notin> fst ` set d"
  by (induction d) (auto simp del: not_None_eq split: if_splits)

lemma bt_get_in_set: "bt_get k d = Some v \<Longrightarrow> (k, v) \<in> set d"
  by (induction d) (auto split: if_splits)

lemma bt_get_remove [simp]: "bt_ok d \<Longrightarrow> bt_get k (bt_remove k' d) = (if k = k' then None else bt_get k d)"
proof (induction k' d rule: bt_remove.induct)
  case (2 k' k'' v d)
  have "k' = k'' \<Longrightarrow> bt_ok ((k'', v) # d) \<Longrightarrow> bt_get k' d = None"
    by (auto simp: bt_get_None_iff)
  with 2 show ?case by (cases "k' = k''") auto
qed simp

lemma bt_insert_snoc: "\<forall>x \<in> fst ` set d. x < k \<Longrightarrow> bt_insert k v d = d @ [(k, v)]"
  by (induction d) (auto simp: less_not_sym)

lemma bt_ok_append:
  "bt_ok (d @ d') \<longleftrightarrow> bt_ok d \<and> bt_ok d' \<and> (\<forall>x \<in> fst ` set d. \<forall>y \<in> fst ` set d'. x < y)"
  by (auto simp: bt_ok_def sorted_wrt_append)

lemma bt_insert_twice [simp]: "bt_insert k v (bt_insert k w d) = bt_insert k v d"
  by (induction k w d rule: bt_insert.induct) auto

text \<open>The contract of an ordered map, and what its clients get from it.\<close>

locale ordered_map =
  fixes get :: "'k \<Rightarrow> 'm \<Rightarrow> 'v option" and ins :: "'k \<Rightarrow> 'v \<Rightarrow> 'm \<Rightarrow> 'm" and rem :: "'k \<Rightarrow> 'm \<Rightarrow> 'm"
    and emp :: 'm and inv :: "'m \<Rightarrow> bool"
  assumes inv_emp: "inv emp" and inv_ins: "inv m \<Longrightarrow> inv (ins k v m)" and inv_rem: "inv m \<Longrightarrow> inv (rem k m)"
    and get_emp: "get k emp = None"
    and get_ins: "inv m \<Longrightarrow> get k (ins k' v m) = (if k = k' then Some v else get k m)"
    and get_rem: "inv m \<Longrightarrow> get k (rem k' m) = (if k = k' then None else get k m)"
begin

definition of_seq :: "('k \<times> 'v) list \<Rightarrow> 'm" where
  "of_seq kvs = fold (\<lambda>(k, v). ins k v) kvs emp"

lemma fold_ins: "inv m \<Longrightarrow> inv (fold (\<lambda>(k, v). ins k v) kvs m)
    \<and> get k (fold (\<lambda>(k, v). ins k v) kvs m) = (case map_of (rev kvs) k of Some v \<Rightarrow> Some v | None \<Rightarrow> get k m)"
  by (induction kvs arbitrary: m) (auto simp: inv_ins get_ins map_add_def split: option.splits)

lemma get_of_seq: "get k (of_seq kvs) = map_of (rev kvs) k"
  using fold_ins [OF inv_emp] by (simp add: of_seq_def get_emp split: option.splits)

lemma inv_of_seq: "inv (of_seq kvs)"
  using fold_ins [OF inv_emp] by (simp add: of_seq_def)

end

interpretation btree: ordered_map bt_get bt_insert bt_remove "[]" bt_ok
  by unfold_locales auto

section \<open>Values\<close>

datatype object =
    Object_Bytes bytes
  | Object_Dict "(bytes \<times> object) list"
  | Object_Integer int
  | Object_List "object list"

datatype obj_error = IncorrectType | MissingEntry | NotUtf8 | NumberOutOfRange

definition dict_insert :: "bytes \<Rightarrow> object \<Rightarrow> (bytes \<times> object) list \<Rightarrow> (bytes \<times> object) list" where
  "dict_insert key v d = bt_insert key v d"

definition dict_remove :: "bytes \<Rightarrow> (bytes \<times> object) list \<Rightarrow> (bytes \<times> object) list" where
  "dict_remove key d = bt_remove key d"

definition dict_from_iter :: "(bytes \<times> object) list \<Rightarrow> (bytes \<times> object) list" where
  "dict_from_iter kvs = fold (\<lambda>(k, v). dict_insert k v) kvs []"

definition list_push :: "object \<Rightarrow> object list \<Rightarrow> object list" where
  "list_push v l = l @ [v]"

definition list_insert :: "nat \<Rightarrow> object \<Rightarrow> object list \<Rightarrow> (object list, obj_error) result" where
  "list_insert i v l = (if i \<le> length l then Ok (take i l @ v # drop i l) else Panic)"

section \<open>Reading entries\<close>

text \<open>A string literal of the code as its bytes.\<close>

definition str_bytes :: "string \<Rightarrow> bytes" where
  "str_bytes s = map of_char s"

lemma str_bytes_eq_iff [simp]: "str_bytes s = str_bytes t \<longleftrightarrow> s = t"
proof -
  have unat: "unat (of_char c :: u8) = of_char c" for c
  proof -
    have "unat (of_char c :: u8) = unat (of_nat (of_char c) :: u8)" by (simp only: of_nat_of_char)
    also have "\<dots> = of_char c mod 2 ^ 8" by (simp only: unat_of_nat len_of_numeral_defs) simp
    finally show ?thesis by simp
  qed
  have "inj (of_char :: char \<Rightarrow> u8)"
  proof (rule injI)
    fix a b :: char
    assume "(of_char a :: u8) = of_char b"
    then have "unat (of_char a :: u8) = unat (of_char b :: u8)" by (rule arg_cong)
    then have "(of_char a :: nat) = of_char b" by (simp only: unat)
    then show "a = b" by (simp only: of_char_eq_iff)
  qed
  then show ?thesis by (simp add: str_bytes_def inj_map_eq_map)
qed


text \<open>\<open>try_get_obj\<close> of the two implementations of the trait \<open>Get\<close>.\<close>

definition dict_try_get_obj :: "(bytes \<times> object) list \<Rightarrow> bytes \<Rightarrow> (object option, obj_error) result" where
  "dict_try_get_obj d k = Ok (bt_get k d)"

definition list_try_get_obj :: "object list \<Rightarrow> nat \<Rightarrow> (object option, obj_error) result" where
  "list_try_get_obj l i = Ok (if i < length l then Some (l ! i) else None)"

text \<open>
  The provided methods of \<open>Get\<close>, over any \<open>try_get_obj\<close> and any conversion from \<open>Object\<close>. The
  \<open>_mut\<close> variants run the same steps and hand out a reference to the same entry.
\<close>

type_synonym ('c, 'k) getter = "'c \<Rightarrow> 'k \<Rightarrow> (object option, obj_error) result"
type_synonym 'a conv = "object \<Rightarrow> ('a, obj_error) result"

definition get_has :: "('c, 'k) getter \<Rightarrow> 'c \<Rightarrow> 'k \<Rightarrow> bool" where
  "get_has tg c k = (case tg c k of Ok (Some _) \<Rightarrow> True | _ \<Rightarrow> False)"

definition get_obj :: "('c, 'k) getter \<Rightarrow> 'c \<Rightarrow> 'k \<Rightarrow> (object, obj_error) result" where
  "get_obj tg c k = and_then (tg c k) (\<lambda>o'. ok_or o' MissingEntry)"

definition try_get :: "'a conv \<Rightarrow> ('c, 'k) getter \<Rightarrow> 'c \<Rightarrow> 'k \<Rightarrow> ('a option, obj_error) result" where
  "try_get conv tg c k =
     and_then (tg c k) (\<lambda>o'. case o' of None \<Rightarrow> Ok None | Some obj \<Rightarrow> map_ok Some (conv obj))"

definition get_as :: "'a conv \<Rightarrow> ('c, 'k) getter \<Rightarrow> 'c \<Rightarrow> 'k \<Rightarrow> ('a, obj_error) result" where
  "get_as conv tg c k = and_then (try_get conv tg c k) (\<lambda>o'. ok_or o' MissingEntry)"

section \<open>Conversions\<close>

fun as_bstr :: "bytes conv" where
  "as_bstr (Object_Bytes b) = Ok b"
| "as_bstr _ = Err IncorrectType"

fun as_list :: "object list conv" where
  "as_list (Object_List l) = Ok l"
| "as_list _ = Err IncorrectType"

fun as_dict :: "(bytes \<times> object) list conv" where
  "as_dict (Object_Dict d) = Ok d"
| "as_dict _ = Err IncorrectType"

fun as_int :: "int conv" where
  "as_int (Object_Integer i) = Ok i"
| "as_int _ = Err IncorrectType"

text \<open>
  \<open>std::str::from_utf8\<close>: well-formed UTF-8, so no overlong forms, no surrogates and nothing
  above U+10FFFF.
\<close>

definition utf8_cont :: "u8 \<Rightarrow> bool" where
  "utf8_cont b \<longleftrightarrow> 0x80 \<le> b \<and> b \<le> 0xBF"

fun valid_utf8 :: "bytes \<Rightarrow> bool" where
  "valid_utf8 [] = True"
| "valid_utf8 (a # r) =
     (if a \<le> 0x7F then valid_utf8 r
      else if 0xC2 \<le> a \<and> a \<le> 0xDF then
        (case r of b # r1 \<Rightarrow> utf8_cont b \<and> valid_utf8 r1 | [] \<Rightarrow> False)
      else if 0xE0 \<le> a \<and> a \<le> 0xEF then
        (case r of b # c # r1 \<Rightarrow>
             (if a = 0xE0 then 0xA0 \<le> b \<and> b \<le> 0xBF else if a = 0xED then 0x80 \<le> b \<and> b \<le> 0x9F else utf8_cont b)
               \<and> utf8_cont c \<and> valid_utf8 r1
           | _ \<Rightarrow> False)
      else if 0xF0 \<le> a \<and> a \<le> 0xF4 then
        (case r of b # c # d # r1 \<Rightarrow>
             (if a = 0xF0 then 0x90 \<le> b \<and> b \<le> 0xBF else if a = 0xF4 then 0x80 \<le> b \<and> b \<le> 0x8F else utf8_cont b)
               \<and> utf8_cont c \<and> utf8_cont d \<and> valid_utf8 r1
           | _ \<Rightarrow> False)
      else False)"

definition bstr_as_str :: "bytes \<Rightarrow> (bytes, obj_error) result" where
  "bstr_as_str b = (if valid_utf8 b then Ok b else Err NotUtf8)"

definition as_str :: "bytes conv" where
  "as_str obj = and_then (as_bstr obj) bstr_as_str"

definition convert_number :: "int \<Rightarrow> int \<Rightarrow> int \<Rightarrow> (int, obj_error) result" where
  "convert_number lo hi n = (if n < lo \<or> n > hi then Err NumberOutOfRange else Ok n)"

definition as_u8 :: "int conv" where "as_u8 obj = and_then (as_int obj) (convert_number 0 (2 ^ 8 - 1))"
definition as_u16 :: "int conv" where "as_u16 obj = and_then (as_int obj) (convert_number 0 (2 ^ 16 - 1))"
definition as_u32 :: "int conv" where "as_u32 obj = and_then (as_int obj) (convert_number 0 (2 ^ 32 - 1))"
definition as_i8 :: "int conv" where "as_i8 obj = and_then (as_int obj) (convert_number (- (2 ^ 7)) (2 ^ 7 - 1))"
definition as_i16 :: "int conv" where "as_i16 obj = and_then (as_int obj) (convert_number (- (2 ^ 15)) (2 ^ 15 - 1))"
definition as_i32 :: "int conv" where "as_i32 obj = and_then (as_int obj) (convert_number (- (2 ^ 31)) (2 ^ 31 - 1))"
definition as_bool :: "bool conv" where "as_bool obj = map_ok (\<lambda>i. i \<noteq> 0) (as_int obj)"

definition obj_of_bool :: "bool \<Rightarrow> object" where
  "obj_of_bool b = Object_Integer (if b then 1 else 0)"

definition obj_of_list :: "object list \<Rightarrow> object" where
  "obj_of_list l = Object_List l"

text \<open>The typed getters of \<open>Get\<close>.\<close>

definition try_get_bstr :: "('c, 'k) getter \<Rightarrow> 'c \<Rightarrow> 'k \<Rightarrow> (bytes option, obj_error) result" where
  "try_get_bstr = try_get as_bstr"

definition get_bstr :: "('c, 'k) getter \<Rightarrow> 'c \<Rightarrow> 'k \<Rightarrow> (bytes, obj_error) result" where
  "get_bstr = get_as as_bstr"

definition try_get_str :: "('c, 'k) getter \<Rightarrow> 'c \<Rightarrow> 'k \<Rightarrow> (bytes option, obj_error) result" where
  "try_get_str tg c k =
     and_then (try_get_bstr tg c k) (\<lambda>o'. case o' of None \<Rightarrow> Ok None | Some b \<Rightarrow> map_ok Some (bstr_as_str b))"

definition get_str :: "('c, 'k) getter \<Rightarrow> 'c \<Rightarrow> 'k \<Rightarrow> (bytes, obj_error) result" where
  "get_str tg c k = and_then (get_bstr tg c k) bstr_as_str"

definition try_get_int :: "('c, 'k) getter \<Rightarrow> 'c \<Rightarrow> 'k \<Rightarrow> (int option, obj_error) result" where
  "try_get_int = try_get as_int"

definition get_int :: "('c, 'k) getter \<Rightarrow> 'c \<Rightarrow> 'k \<Rightarrow> (int, obj_error) result" where
  "get_int = get_as as_int"

definition try_get_dict :: "('c, 'k) getter \<Rightarrow> 'c \<Rightarrow> 'k \<Rightarrow> ((bytes \<times> object) list option, obj_error) result" where
  "try_get_dict = try_get as_dict"

definition get_dict :: "('c, 'k) getter \<Rightarrow> 'c \<Rightarrow> 'k \<Rightarrow> ((bytes \<times> object) list, obj_error) result" where
  "get_dict = get_as as_dict"

definition try_get_list :: "('c, 'k) getter \<Rightarrow> 'c \<Rightarrow> 'k \<Rightarrow> (object list option, obj_error) result" where
  "try_get_list = try_get as_list"

definition get_list :: "('c, 'k) getter \<Rightarrow> 'c \<Rightarrow> 'k \<Rightarrow> (object list, obj_error) result" where
  "get_list = get_as as_list"

section \<open>Well-formed values\<close>

definition i64_range :: "int \<Rightarrow> bool" where
  "i64_range i \<longleftrightarrow> - (2 ^ 63) \<le> i \<and> i < 2 ^ 63"

text \<open>Integers in the range of \<open>i64\<close> and dictionaries sorted.\<close>

fun obj_ok :: "object \<Rightarrow> bool" where
  "obj_ok (Object_Bytes b) \<longleftrightarrow> True"
| "obj_ok (Object_Integer i) \<longleftrightarrow> i64_range i"
| "obj_ok (Object_List l) \<longleftrightarrow> (\<forall>x \<in> set l. obj_ok x)"
| "obj_ok (Object_Dict d) \<longleftrightarrow> bt_ok d \<and> (\<forall>(k, v) \<in> set d. obj_ok v)"

fun obj_depth :: "object \<Rightarrow> nat" where
  "obj_depth (Object_Bytes b) = 1"
| "obj_depth (Object_Integer i) = 1"
| "obj_depth (Object_List l) = Suc (Max (insert 0 (obj_depth ` set l)))"
| "obj_depth (Object_Dict d) = Suc (Max (insert 0 ((\<lambda>(k, v). obj_depth v) ` set d)))"

lemma obj_depth_pos [simp]: "0 < obj_depth obj"
  by (cases obj) auto

lemma obj_depth_list: "x \<in> set l \<Longrightarrow> obj_depth x < obj_depth (Object_List l)"
  by (simp add: less_Suc_eq_le)

lemma obj_depth_dict: "(k, v) \<in> set d \<Longrightarrow> obj_depth v < obj_depth (Object_Dict d)"
  by (force simp: less_Suc_eq_le intro!: Max_ge)

lemma obj_depth_list_le: "\<forall>x \<in> set l. obj_depth x \<le> n \<Longrightarrow> obj_depth (Object_List l) \<le> Suc n"
  by auto

lemma obj_depth_dict_le: "\<forall>(k, v) \<in> set d. obj_depth v \<le> n \<Longrightarrow> obj_depth (Object_Dict d) \<le> Suc n"
  by auto

section \<open>Entries as the callers see them\<close>

lemma dict_from_iter_btree: "dict_from_iter kvs = btree.of_seq kvs"
  unfolding dict_from_iter_def btree.of_seq_def dict_insert_def [abs_def] ..

lemma dict_from_iter_ok: "bt_ok (dict_from_iter kvs)"
  unfolding dict_from_iter_btree by (rule btree.inv_of_seq)

text \<open>
  A typed getter fails exactly when the entry has another type, and \<open>get\<close> fails on a missing
  entry where \<open>try_get\<close> returns \<open>None\<close>.
\<close>

lemma get_as_cases:
  assumes "tg c k = Ok o'"
  shows "get_as conv tg c k = (case o' of None \<Rightarrow> Err MissingEntry | Some obj \<Rightarrow> conv obj)"
  using assms by (cases o'; cases "conv (the o')") (auto simp: get_as_def try_get_def)

lemma has_iff_get_obj: "tg c k \<noteq> Panic \<Longrightarrow> get_has tg c k \<longleftrightarrow> is_ok (get_obj tg c k)"
  by (cases "tg c k") (auto simp: get_has_def get_obj_def split: option.splits)

theorem built_dict_lookup:
  "get_as conv dict_try_get_obj (dict_from_iter kvs) k
     = (case map_of (rev kvs) k of None \<Rightarrow> Err MissingEntry | Some obj \<Rightarrow> conv obj)"
  by (simp only: get_as_cases [where tg = dict_try_get_obj, OF dict_try_get_obj_def] dict_from_iter_btree
      btree.get_of_seq)

end
