(* ===== verification/Bencode.thy ===== *)
theory Bencode
  imports Benc_Object
begin

text \<open>
  The bencode parser and serializer (\<^verbatim>\<open>cjdns-bencode/src/standard.rs\<close>).

  The parser reads from an object that hands out its content from the front, here the list of
  the bytes it still holds (contract \<open>byte_source\<close> of the theory \<open>Stdio\<close>). Lists and
  dictionaries call back into the generic reader, so the three readers are one mutual recursion;
  that it terminates rests on the fact that no reader lengthens its input, which is proved first
  on the domain of the recursion. The field \<open>depth\<close> of the parser is an argument: it is
  incremented on entry and decremented on a successful exit, and an error ends the parse.

  The serializer writes backwards into an \<open>RWrite\<close>, whose content is the byte list that grows at
  its front (contract \<open>byte_stack\<close>); writing to a \<open>Message\<close> does not fail.
\<close>

datatype benc_error =
    EofRead
  | IntNoBody | IntBadChar u8 | IntegerOverflow | IntLeadingZeros | NegativeZero
  | StrBadChar u8 | StrLenOverflow | StrLeadingZeros
  | TooDeep | UnexpectedCharacter u8

definition is_ascii_digit :: "u8 \<Rightarrow> bool" where
  "is_ascii_digit b \<longleftrightarrow> 48 \<le> b \<and> b \<le> 57"

definition checked_i64 :: "int \<Rightarrow> int option" where
  "checked_i64 x = (if i64_range x then Some x else None)"

definition checked_usize :: "nat \<Rightarrow> nat option" where
  "checked_usize x = (if x < 2 ^ 64 then Some x else None)"

section \<open>Reading bytes, integers and strings\<close>

fun read_byte :: "bytes \<Rightarrow> (u8 \<times> bytes, benc_error) result" where
  "read_byte [] = Err EofRead"
| "read_byte (b # r) = Ok (b, r)"

text \<open>The digits of an integer up to the closing \<open>e\<close> (101).\<close>

fun read_int_loop :: "u8 \<Rightarrow> int \<Rightarrow> bytes \<Rightarrow> (int \<times> bytes, benc_error) result" where
  "read_int_loop byte num r =
     (if byte = 101 then Ok (num, r)
      else if \<not> is_ascii_digit byte then Err (IntBadChar byte)
      else case Option.bind (checked_i64 (num * 10)) (\<lambda>n. checked_i64 (n + uint (byte - 48))) of
          None \<Rightarrow> Err IntegerOverflow
        | Some num' \<Rightarrow>
            (case r of
               [] \<Rightarrow> Err EofRead
             | byte' # r' \<Rightarrow>
                 if num' = 0 \<and> byte' \<noteq> 101 then Err IntLeadingZeros else read_int_loop byte' num' r'))"

declare read_int_loop.simps [simp del]

definition read_int :: "bytes \<Rightarrow> (int \<times> bytes, benc_error) result" where
  "read_int r =
     and_then (read_byte r) (\<lambda>(byte0, r0).
     let is_negative = (byte0 = 45) in
     and_then (if is_negative then read_byte r0 else Ok (byte0, r0)) (\<lambda>(byte, r1).
     if byte = 101 then Err IntNoBody
     else and_then (read_int_loop byte 0 r1) (\<lambda>(num, r2).
       if is_negative then if num = 0 then Err NegativeZero else Ok (- num, r2)
       else Ok (num, r2))))"

text \<open>
  The length digits of a string up to the colon (58). With \<open>accept_zero_pad\<close> zeros may precede
  the length.
\<close>

fun read_len_loop :: "u8 \<Rightarrow> bool \<Rightarrow> nat \<Rightarrow> bytes \<Rightarrow> (nat \<times> bytes, benc_error) result" where
  "read_len_loop byte accept_zero_pad len r =
     (if byte = 58 then Ok (len, r)
      else if \<not> is_ascii_digit byte then Err (StrBadChar byte)
      else case Option.bind (checked_usize (len * 10)) (\<lambda>n. checked_usize (n + unat (byte - 48))) of
          None \<Rightarrow> Err StrLenOverflow
        | Some len' \<Rightarrow>
            (case r of
               [] \<Rightarrow> Err EofRead
             | byte' # r' \<Rightarrow>
                 if byte' \<noteq> 58 \<and> len' = 0 \<and> \<not> accept_zero_pad then Err StrLeadingZeros
                 else read_len_loop byte' accept_zero_pad len' r'))"

declare read_len_loop.simps [simp del]

text \<open>
  \<open>vec![0u8; len]\<close> panics when \<open>len\<close> exceeds \<open>isize::MAX\<close> ("capacity overflow"); running out of
  memory below that bound is left out.
\<close>

definition read_string_with_byte :: "u8 \<Rightarrow> bool \<Rightarrow> bytes \<Rightarrow> (bytes \<times> bytes, benc_error) result" where
  "read_string_with_byte byte accept_zero_pad r =
     and_then (read_len_loop byte accept_zero_pad 0 r) (\<lambda>(len, r1).
     if len \<ge> 2 ^ 63 then Panic
     else if length r1 < len then Err EofRead
     else Ok (take len r1, drop len r1))"

lemma read_byte_Ok [simp]: "read_byte r = Ok (b, r') \<longleftrightarrow> r = b # r'"
  by (cases r) auto

lemma read_int_loop_length: "read_int_loop byte num r = Ok (i, r') \<Longrightarrow> length r' \<le> length r"
proof (induction byte num r rule: read_int_loop.induct)
  case (1 byte num r)
  from "1.prems" show ?case
    by (subst (asm) read_int_loop.simps) (auto split: if_splits option.splits list.splits dest!: "1.IH")
qed

lemma read_int_length: "read_int r = Ok (i, r') \<Longrightarrow> length r' < length r"
  unfolding read_int_def Let_def
  by (auto simp: and_then_ok_iff split: if_splits dest!: read_int_loop_length)

lemma read_len_loop_length: "read_len_loop byte z len r = Ok (n, r') \<Longrightarrow> length r' \<le> length r"
proof (induction byte z len r rule: read_len_loop.induct)
  case (1 byte z len r)
  from "1.prems" show ?case
    by (subst (asm) read_len_loop.simps) (auto split: if_splits option.splits list.splits dest!: "1.IH")
qed

lemma read_string_length: "read_string_with_byte byte z r = Ok (s, r') \<Longrightarrow> length r' \<le> length r"
  unfolding read_string_with_byte_def
  by (auto simp: and_then_ok_iff split: if_splits dest!: read_len_loop_length)

section \<open>Reading values\<close>

function (domintros)
  read_generic_with_byte :: "nat \<Rightarrow> bool \<Rightarrow> nat \<Rightarrow> u8 \<Rightarrow> bytes \<Rightarrow> (object \<times> bytes, benc_error) result"
and read_list :: "nat \<Rightarrow> bool \<Rightarrow> nat \<Rightarrow> object list \<Rightarrow> bytes \<Rightarrow> (object list \<times> bytes, benc_error) result"
and read_dict :: "nat \<Rightarrow> bool \<Rightarrow> nat \<Rightarrow> bool \<Rightarrow> (bytes \<times> object) list \<Rightarrow> bytes
      \<Rightarrow> ((bytes \<times> object) list \<times> bytes, benc_error) result" where
  "read_generic_with_byte max_rec pad depth chr r =
     (if depth > max_rec then Err TooDeep
      else if chr = 108 then map_ok (\<lambda>(l, r'). (Object_List l, r')) (read_list max_rec pad (depth + 1) [] r)
      else if chr = 100 then
        map_ok (\<lambda>(d, r'). (Object_Dict d, r'))
          (read_dict max_rec pad (depth + 1) (pad \<and> depth + 1 = 1) [] r)
      else if chr = 105 then map_ok (\<lambda>(i, r'). (Object_Integer i, r')) (read_int r)
      else if is_ascii_digit chr then
        map_ok (\<lambda>(s, r'). (Object_Bytes s, r')) (read_string_with_byte chr False r)
      else Err (UnexpectedCharacter chr))"
| "read_list max_rec pad depth acc r =
     and_then (read_byte r) (\<lambda>(byte, r1).
     if byte = 101 then Ok (acc, r1)
     else and_then (read_generic_with_byte max_rec pad depth byte r1) (\<lambda>(obj, r2).
       read_list max_rec pad depth (list_push obj acc) r2))"
| "read_dict max_rec pad depth accept_zero_pad acc r =
     and_then (read_byte r) (\<lambda>(byte, r1).
     if byte = 101 then Ok (acc, r1)
     else and_then (read_string_with_byte byte accept_zero_pad r1) (\<lambda>(key, r2).
       and_then (read_byte r2) (\<lambda>(chr, r3).
       and_then (read_generic_with_byte max_rec pad depth chr r3) (\<lambda>(v, r4).
       read_dict max_rec pad depth False (dict_insert key v acc) r4))))"
  by pat_completeness auto

definition read_generic :: "nat \<Rightarrow> bool \<Rightarrow> nat \<Rightarrow> bytes \<Rightarrow> (object \<times> bytes, benc_error) result" where
  "read_generic max_rec pad depth r =
     and_then (read_byte r) (\<lambda>(chr, r'). read_generic_with_byte max_rec pad depth chr r')"

lemma readers_length_dom:
  "read_generic_with_byte_read_list_read_dict_dom (Inl (max_rec, pad, depth, chr, r)) \<Longrightarrow>
     (\<forall>obj r'. read_generic_with_byte max_rec pad depth chr r = Ok (obj, r') \<longrightarrow> length r' \<le> length r)"
  "read_generic_with_byte_read_list_read_dict_dom (Inr (Inl (max_rec, pad, depth, acc, r))) \<Longrightarrow>
     (\<forall>l r'. read_list max_rec pad depth acc r = Ok (l, r') \<longrightarrow> length r' < length r)"
  "read_generic_with_byte_read_list_read_dict_dom (Inr (Inr (max_rec, pad, depth, z, dacc, r))) \<Longrightarrow>
     (\<forall>d r'. read_dict max_rec pad depth z dacc r = Ok (d, r') \<longrightarrow> length r' < length r)"
proof (induction max_rec pad depth chr r and max_rec pad depth acc r and max_rec pad depth z dacc r
    rule: read_generic_with_byte_read_list_read_dict.pinduct)
  case (1 max_rec pad depth chr r)
  show ?case
    using "1.IH" read_int_length [of r] read_string_length [of chr False r]
    by (auto simp: read_generic_with_byte.psimps [OF "1.hyps"] map_ok_ok_iff less_imp_le split: if_splits)
next
  case (2 max_rec pad depth acc r)
  show ?case
  proof (intro allI impI)
    fix l r' assume "read_list max_rec pad depth acc r = Ok (l, r')"
    then show "length r' < length r"
      using "2.IH" by (fastforce simp: read_list.psimps [OF "2.hyps"] and_then_ok_iff split: if_splits)
  qed
next
  case (3 max_rec pad depth z dacc r)
  show ?case
  proof (intro allI impI)
    fix d r' assume ok: "read_dict max_rec pad depth z dacc r = Ok (d, r')"
    then obtain byte r1 where r: "r = byte # r1"
      by (auto simp: read_dict.psimps [OF "3.hyps"] and_then_ok_iff)
    note ok' = ok [unfolded read_dict.psimps [OF "3.hyps"], unfolded r, simplified]
    show "length r' < length r"
    proof (cases "byte = 101")
      case True
      with ok' r show ?thesis by simp
    next
      case False
      with ok' obtain key r2 chr r3 v r4
        where key: "read_string_with_byte byte z r1 = Ok (key, r2)" and r2: "r2 = chr # r3"
          and v: "read_generic_with_byte max_rec pad depth chr r3 = Ok (v, r4)"
          and d: "read_dict max_rec pad depth False (dict_insert key v dacc) r4 = Ok (d, r')"
        by (auto simp: and_then_ok_iff)
      have b: "read_byte r = Ok (byte, r1)" and c: "read_byte r2 = Ok (chr, r3)" using r r2 by auto
      have "length r4 \<le> length r3"
        using "3.IH"(1) [OF b refl False key refl c refl] v by blast
      moreover have "length r' < length r4"
        using "3.IH"(2) [OF b refl False key refl c refl v refl] d by blast
      ultimately show ?thesis using read_string_length [OF key] r r2 by simp
    qed
  qed
qed

termination read_generic_with_byte
proof (relation "measure (\<lambda>x. case x of Inl (_, _, _, _, r) \<Rightarrow> 2 * length r + 1
    | Inr (Inl (_, _, _, _, r)) \<Rightarrow> 2 * length r | Inr (Inr (_, _, _, _, _, r)) \<Rightarrow> 2 * length r)", goal_cases)
qed (auto dest!: read_string_length dest: readers_length_dom)

declare read_generic_with_byte.simps [simp del] read_list.simps [simp del] read_dict.simps [simp del]

definition benc_parse :: "nat \<Rightarrow> bool \<Rightarrow> bytes \<Rightarrow> (object \<times> bytes, benc_error) result" where
  "benc_parse max_rec pad r = read_generic max_rec pad 0 r"

section \<open>Writing values\<close>

text \<open>Each write puts bytes in front of what the writer holds.\<close>

definition benc_put :: "bytes \<Rightarrow> bytes \<Rightarrow> bytes" where
  "benc_put bs w = bs @ w"

definition write_byte :: "u8 \<Rightarrow> bytes \<Rightarrow> bytes" where
  "write_byte b w = benc_put [b] w"

text \<open>\<open>to_string\<close> of an unsigned and of a signed number.\<close>

fun dec_bytes :: "nat \<Rightarrow> bytes" where
  "dec_bytes n = (if n < 10 then [48 + of_nat n] else dec_bytes (n div 10) @ [48 + of_nat (n mod 10)])"

declare dec_bytes.simps [simp del]

definition int_bytes :: "int \<Rightarrow> bytes" where
  "int_bytes i = (if i < 0 then 45 # dec_bytes (nat (- i)) else dec_bytes (nat i))"

definition write_int :: "int \<Rightarrow> bytes \<Rightarrow> bytes" where
  "write_int num w = write_byte 105 (benc_put (int_bytes num) (write_byte 101 w))"

definition write_string :: "bytes \<Rightarrow> bytes \<Rightarrow> bytes" where
  "write_string bs w = benc_put (dec_bytes (length bs)) (write_byte 58 (benc_put bs w))"

text \<open>
  The entries are written last to first. The zeros that align the start of a dictionary are
  written right before its \<open>d\<close>, so they stand in front of the length of its first key.
\<close>

definition padding_needed :: "nat \<Rightarrow> nat \<Rightarrow> nat" where
  "padding_needed align len = (align - ((len + 1) mod align)) mod align"

function (sequential) write_value :: "object \<Rightarrow> nat \<Rightarrow> bytes \<Rightarrow> bytes" where
  "write_value (Object_Bytes b) align w = write_string b w"
| "write_value (Object_Dict d) align w =
     (let w1 = foldr (\<lambda>(key, v) w'. write_string key (write_value v 0 w')) d (write_byte 101 w);
          w2 = (if align > 1 then (write_byte 48 ^^ padding_needed align (length w1)) w1 else w1)
      in write_byte 100 w2)"
| "write_value (Object_List l) align w =
     write_byte 108 (foldr (\<lambda>item w'. write_value item 0 w') l (write_byte 101 w))"
| "write_value (Object_Integer i) align w = write_int i w"
  by pat_completeness auto

termination
  by (relation "measure (\<lambda>(obj, align, w). size obj)") (auto simp: less_Suc_eq_le elim!: size_list_estimation' intro: le_trans [rotated])

definition benc_serialize :: "bytes \<Rightarrow> object \<Rightarrow> nat \<Rightarrow> bytes" where
  "benc_serialize w obj cjdns_align = write_value obj cjdns_align w"


end
