(* ===== verification/Json.thy ===== *)
theory Json
  imports Bencode
begin

text \<open>
  The JSON dialect of cjdns configuration files (\<^verbatim>\<open>cjdns-bencode/src/json.rs\<close>): a parser with
  comments, a strict and a lax mode and one byte of push-back, the serializer, and the reader and
  cleaner of configurations.

  The parser reads from bytes in memory (\<open>read_conf\<close> is the only caller outside the tests), so
  its branch for a failing reader does not occur. Nesting is bounded by the stack only, which is
  not modelled.
\<close>

datatype json_fault =
    UnexpectedChar u8 | RanOut
  | DictNoComma u8 | DictTrailingComma | DictNoColon u8 | DictTwoColons | DictNoValue u8
  | DictUnexpectedComma | DictUnexpectedChar u8
  | ListNoComma u8 | ListTrailingComma | ListUnexpectedComma | ListUnexpectedChar u8
  | InvalidEscape u8 | InvalidInteger | IncompleteHex | InvalidHexEscape | InvalidHexDigits

datatype json_error = MalformedInput json_fault nat

record json_state =
  js_input :: bytes
  js_line :: nat
  js_last :: "u8 option"

definition json_new :: "bytes \<Rightarrow> json_state" where
  "json_new input = \<lparr>js_input = input, js_line = 1, js_last = None\<rparr>"

text \<open>The bytes still to be read, the one pushed back included.\<close>

definition pending :: "json_state \<Rightarrow> nat" where
  "pending s = length (js_input s) + (case js_last s of None \<Rightarrow> 0 | Some _ \<Rightarrow> 1)"

section \<open>Bytes, blanks and comments\<close>

definition json_read_byte :: "json_state \<Rightarrow> u8 option \<times> json_state" where
  "json_read_byte s =
     (case js_last s of
        Some lc \<Rightarrow> (Some lc, s\<lparr>js_last := None\<rparr>)
      | None \<Rightarrow> (case js_input s of [] \<Rightarrow> (None, s) | b # r \<Rightarrow> (Some b, s\<lparr>js_input := r\<rparr>)))"

lemma json_read_byte_pending:
  "json_read_byte s = (Some b, s') \<Longrightarrow> pending s' < pending s"
  "json_read_byte s = (None, s') \<Longrightarrow> s' = s"
  "json_read_byte s = (x, s') \<Longrightarrow> pending s' \<le> pending s"
  by (auto simp: json_read_byte_def pending_def split: option.splits list.splits)

lemma json_read_byte_sym:
  "(Some b, s') = json_read_byte s \<Longrightarrow> pending s' < pending s"
  "(None, s') = json_read_byte s \<Longrightarrow> s' = s"
  using json_read_byte_pending(1,2) by metis+

definition json_push_back :: "u8 \<Rightarrow> json_state \<Rightarrow> json_state" where
  "json_push_back b s = s\<lparr>js_last := Some b\<rparr>"

definition next_line :: "json_state \<Rightarrow> json_state" where
  "next_line s = s\<lparr>js_line := js_line s + 1\<rparr>"

lemma pending_next_line [simp]: "pending (next_line s) = pending s"
  by (simp add: pending_def next_line_def)

function consume_singleline_comment :: "json_state \<Rightarrow> json_state" where
  "consume_singleline_comment s =
     (case json_read_byte s of
        (None, s1) \<Rightarrow> s1
      | (Some byte, s1) \<Rightarrow> if byte = 10 then next_line s1 else consume_singleline_comment s1)"
  by pat_completeness auto

termination
  by (relation "measure pending") (auto dest: json_read_byte_sym)

text \<open>The byte after an asterisk is consumed and not looked at again when it is not a slash.\<close>

function consume_multiline_comment :: "json_state \<Rightarrow> json_state" where
  "consume_multiline_comment s =
     (case json_read_byte s of
        (None, s1) \<Rightarrow> s1
      | (Some byte, s1) \<Rightarrow>
          if byte = 42 then
            (case json_read_byte s1 of
               (Some c, s2) \<Rightarrow> if c = 47 then s2 else consume_multiline_comment s2
             | (None, s2) \<Rightarrow> consume_multiline_comment s2)
          else consume_multiline_comment s1)"
  by pat_completeness auto

termination
  by (relation "measure pending") (auto dest!: json_read_byte_sym)

declare consume_singleline_comment.simps [simp del] consume_multiline_comment.simps [simp del]

definition handle_comment :: "json_state \<Rightarrow> json_state" where
  "handle_comment s =
     (case json_read_byte s of
        (Some c, s1) \<Rightarrow> if c = 42 then consume_multiline_comment s1
                        else if c = 47 then consume_singleline_comment s1 else s1
      | (None, s1) \<Rightarrow> s1)"

lemma consume_singleline_pending: "pending (consume_singleline_comment s) \<le> pending s"
proof (induction s rule: consume_singleline_comment.induct)
  case (1 s)
  show ?case
    by (subst consume_singleline_comment.simps)
      (use 1 in \<open>fastforce split: prod.splits option.splits dest: json_read_byte_pending\<close>)
qed

lemma consume_multiline_pending: "pending (consume_multiline_comment s) \<le> pending s"
proof (induction s rule: consume_multiline_comment.induct)
  case (1 s)
  show ?case
  proof (cases "json_read_byte s")
    case (Pair o1 s1)
    show ?thesis
    proof (cases o1)
      case None
      then show ?thesis using Pair json_read_byte_pending(2)
        by (subst consume_multiline_comment.simps) auto
    next
      case (Some b)
      have s1: "pending s1 < pending s" using Pair Some json_read_byte_pending(1) by auto
      obtain o2 s2 where r2: "json_read_byte s1 = (o2, s2)" by (cases "json_read_byte s1")
      have "pending s2 \<le> pending s1" using r2 json_read_byte_pending(3) by auto
      moreover have "b = 42 \<Longrightarrow> o2 \<noteq> Some 47 \<Longrightarrow> pending (consume_multiline_comment s2) \<le> pending s2"
        using "1.IH" Pair Some r2 by (cases o2) auto
      moreover have "b \<noteq> 42 \<Longrightarrow> pending (consume_multiline_comment s1) \<le> pending s1"
        using "1.IH" Pair Some by auto
      ultimately show ?thesis using Pair Some r2 s1
        by (subst consume_multiline_comment.simps) (auto split: option.splits)
    qed
  qed
qed

lemma handle_comment_pending: "pending (handle_comment s) \<le> pending s"
proof -
  obtain x s1 where r: "json_read_byte s = (x, s1)" by (cases "json_read_byte s")
  then have "pending s1 \<le> pending s" by (rule json_read_byte_pending(3))
  with r consume_singleline_pending [of s1] consume_multiline_pending [of s1] show ?thesis
    by (auto simp: handle_comment_def split: option.splits)
qed

function next_meaningful_char :: "json_state \<Rightarrow> (u8 \<times> json_state, json_error) result" where
  "next_meaningful_char s =
     (case json_read_byte s of
        (None, s1) \<Rightarrow> Err (MalformedInput RanOut (js_line s1))
      | (Some byte, s1) \<Rightarrow>
          if byte = 47 then next_meaningful_char (handle_comment s1)
          else if byte = 32 \<or> byte = 9 then next_meaningful_char s1
          else if byte = 10 then next_meaningful_char (next_line s1)
          else Ok (byte, s1))"
  by pat_completeness auto

termination
  using le_less_trans [OF handle_comment_pending]
  by (relation "measure pending") (auto dest!: json_read_byte_sym)

declare next_meaningful_char.simps [simp del]

section \<open>Strings and integers\<close>

text \<open>\<open>u8::from_str_radix\<close> of two characters in base 16: a leading plus sign is allowed.\<close>

definition hex_val :: "u8 \<Rightarrow> nat option" where
  "hex_val b =
     (if is_ascii_digit b then Some (unat b - 48)
      else if 65 \<le> b \<and> b \<le> 70 then Some (unat b - 55)
      else if 97 \<le> b \<and> b \<le> 102 then Some (unat b - 87)
      else None)"

definition u8_from_hex :: "u8 \<Rightarrow> u8 \<Rightarrow> u8 option" where
  "u8_from_hex a b =
     (if a = 43 then map_option of_nat (hex_val b)
      else Option.bind (hex_val a) (\<lambda>x. map_option (\<lambda>y. of_nat (x * 16 + y)) (hex_val b)))"

definition read_two_hex_digits :: "json_state \<Rightarrow> (u8 \<times> json_state, json_error) result" where
  "read_two_hex_digits s =
     (case json_read_byte s of
        (None, s1) \<Rightarrow> Err (MalformedInput IncompleteHex (js_line s1))
      | (Some a, s1) \<Rightarrow>
          (case json_read_byte s1 of
             (None, s2) \<Rightarrow> Err (MalformedInput IncompleteHex (js_line s2))
           | (Some b, s2) \<Rightarrow>
               if \<not> valid_utf8 [a, b] then Err (MalformedInput InvalidHexEscape (js_line s2))
               else (case u8_from_hex a b of
                       None \<Rightarrow> Err (MalformedInput InvalidHexDigits (js_line s2))
                     | Some v \<Rightarrow> Ok (v, s2))))"

lemma read_two_hex_pending: "read_two_hex_digits s = Ok (v, s') \<Longrightarrow> pending s' < pending s"
  by (auto simp: read_two_hex_digits_def split: prod.splits option.splits if_splits dest!: json_read_byte_pending(1))

text \<open>A string ends at its closing quote or with the input. The error names the backslash.\<close>

function json_string_loop :: "bytes \<Rightarrow> json_state \<Rightarrow> (bytes \<times> json_state, json_error) result" where
  "json_string_loop acc s =
     (case json_read_byte s of
        (None, s1) \<Rightarrow> Ok (acc, s1)
      | (Some byte, s1) \<Rightarrow>
          if byte = 34 then Ok (acc, s1)
          else if byte = 92 then
            (case json_read_byte s1 of
               (None, s2) \<Rightarrow> json_string_loop acc s2
             | (Some escaped_byte, s2) \<Rightarrow>
                 if escaped_byte = 120 then
                   and_then (read_two_hex_digits s2) (\<lambda>(hex, s3). json_string_loop (acc @ [hex]) s3)
                 else Err (MalformedInput (InvalidEscape byte) (js_line s2)))
          else json_string_loop (acc @ [byte]) s1)"
  by pat_completeness auto

termination
  by (relation "measure (\<lambda>(acc, s). pending s)") (auto dest!: json_read_byte_sym read_two_hex_pending)

declare json_string_loop.simps [simp del]

definition json_parse_string :: "json_state \<Rightarrow> (bytes \<times> json_state, json_error) result" where
  "json_parse_string s = json_string_loop [] s"

function json_int_loop :: "bytes \<Rightarrow> json_state \<Rightarrow> bytes \<times> json_state" where
  "json_int_loop num_str s =
     (case json_read_byte s of
        (None, s1) \<Rightarrow> (num_str, s1)
      | (Some byte, s1) \<Rightarrow>
          if is_ascii_digit byte \<or> byte = 45 then json_int_loop (num_str @ [byte]) s1
          else (num_str, json_push_back byte s1))"
  by pat_completeness auto

termination
  by (relation "measure (\<lambda>(acc, s). pending s)") (auto dest!: json_read_byte_sym)

declare json_int_loop.simps [simp del]

text \<open>\<open>parse::<i64>\<close> of digits and minus signs.\<close>

definition parse_digits :: "bytes \<Rightarrow> nat option" where
  "parse_digits ds = (if ds \<noteq> [] \<and> list_all is_ascii_digit ds then Some (foldl (\<lambda>a d. a * 10 + unat (d - 48)) 0 ds) else None)"

definition parse_i64 :: "bytes \<Rightarrow> int option" where
  "parse_i64 str =
     (case str of
        [] \<Rightarrow> None
      | c # r \<Rightarrow>
          if c = 45 then Option.bind (parse_digits r) (\<lambda>n. checked_i64 (- int n))
          else Option.bind (parse_digits str) (\<lambda>n. checked_i64 (int n)))"

definition json_parse_int :: "u8 \<Rightarrow> json_state \<Rightarrow> (int \<times> json_state, json_error) result" where
  "json_parse_int first_byte s =
     (case json_int_loop [first_byte] s of (num_str, s1) \<Rightarrow>
        (case parse_i64 num_str of
           Some num \<Rightarrow> Ok (num, s1)
         | None \<Rightarrow> Err (MalformedInput InvalidInteger (js_line s1))))"

lemma pending_push_back:
  assumes "json_read_byte s = (Some b, s')"
  shows "pending (json_push_back c s') \<le> pending s"
  using assms by (auto simp: json_push_back_def json_read_byte_def pending_def split: option.splits list.splits)

lemma next_meaningful_pending:
  "next_meaningful_char s = Ok (b, s') \<Longrightarrow> pending s' < pending s \<and> js_last s' = None"
proof (induction s rule: next_meaningful_char.induct)
  case (1 s)
  obtain byte s1 where r: "json_read_byte s = (Some byte, s1)"
    using "1.prems" by (subst (asm) next_meaningful_char.simps) (auto split: prod.splits option.splits)
  have lt: "pending s1 < pending s" using r by (rule json_read_byte_pending)
  have n: "js_last s1 = None" using r by (auto simp: json_read_byte_def split: option.splits list.splits)
  show ?case
    using "1.prems" r lt n "1.IH" [OF r [symmetric] refl] handle_comment_pending [of s1]
    by (subst (asm) next_meaningful_char.simps) (auto split: if_splits)
qed

lemma pending_push_back_meaningful:
  "next_meaningful_char s = Ok (b, s') \<Longrightarrow> pending (json_push_back c s') \<le> pending s"
  using next_meaningful_pending [of s b s'] by (auto simp: json_push_back_def pending_def)

lemma json_string_pending: "json_string_loop acc s = Ok (str, s') \<Longrightarrow> pending s' \<le> pending s"
proof (induction acc s rule: json_string_loop.induct)
  case (1 acc s)
  show ?case
  proof (cases "json_read_byte s")
    case (Pair x s1)
    show ?thesis
    proof (cases x)
      case None
      with "1.prems" Pair show ?thesis
        by (subst (asm) json_string_loop.simps) (auto dest: json_read_byte_pending)
    next
      case (Some byte)
      have lt: "pending s1 < pending s" using Pair Some json_read_byte_pending(1) by auto
      obtain y s2 where r2: "json_read_byte s1 = (y, s2)" by (cases "json_read_byte s1")
      then have le: "pending s2 \<le> pending s1" by (rule json_read_byte_pending)
      consider "byte = 34" | "byte = 92" "y = None" | esc where "byte = 92" "y = Some esc" | "byte \<noteq> 34" "byte \<noteq> 92"
        by fastforce
      then show ?thesis
      proof cases
        case 1
        with "1.prems" Pair Some lt show ?thesis by (subst (asm) json_string_loop.simps) auto
      next
        case 2
        with "1.prems" Pair Some r2 have "json_string_loop acc s2 = Ok (str, s')"
          by (subst (asm) json_string_loop.simps) auto
        with 2 "1.IH"(1) Pair Some r2 lt le show ?thesis by fastforce
      next
        case 3
        with "1.prems" Pair Some r2 obtain hex s3 where h: "read_two_hex_digits s2 = Ok (hex, s3)" "esc = 120"
          "json_string_loop (acc @ [hex]) s3 = Ok (str, s')"
          by (subst (asm) json_string_loop.simps) (auto simp: and_then_ok_iff split: if_splits)
        then have "pending s' \<le> pending s3" using 3 "1.IH"(2) Pair Some r2 by fastforce
        then show ?thesis using read_two_hex_pending [OF h(1)] lt le by simp
      next
        case 4
        with "1.prems" Pair Some have "json_string_loop (acc @ [byte]) s1 = Ok (str, s')"
          by (subst (asm) json_string_loop.simps) auto
        with 4 "1.IH"(3) Pair Some lt show ?thesis by fastforce
      qed
    qed
  qed
qed

lemma json_int_pending: "pending (snd (json_int_loop acc s)) \<le> pending s"
proof (induction acc s rule: json_int_loop.induct)
  case (1 acc s)
  then show ?case
    by (subst json_int_loop.simps)
      (fastforce split: prod.splits option.splits intro: pending_push_back dest: json_read_byte_pending)
qed

lemma json_parse_int_pending: "json_parse_int b s = Ok (i, s') \<Longrightarrow> pending s' \<le> pending s"
  using json_int_pending [of "[b]" s]
  by (auto simp: json_parse_int_def split: prod.splits option.splits)

section \<open>Values\<close>

definition starts_value :: "u8 \<Rightarrow> bool" where
  "starts_value b \<longleftrightarrow> b = 123 \<or> b = 91 \<or> b = 34 \<or> is_ascii_digit b \<or> b = 45"

definition json_fail :: "json_fault \<Rightarrow> json_state \<Rightarrow> ('a, json_error) result" where
  "json_fail e s = Err (MalformedInput e (js_line s))"

text \<open>
  The loops of \<open>parse_dict\<close>, of the value after a key, and of \<open>parse_list\<close>, with the locals of
  the loops (the entries so far, \<open>need_comma\<close>, \<open>need_colon\<close>) as arguments.
\<close>

function (domintros)
  json_value :: "bool \<Rightarrow> json_state \<Rightarrow> (object \<times> json_state, json_error) result"
and json_dict :: "bool \<Rightarrow> (bytes \<times> object) list \<Rightarrow> bool \<Rightarrow> json_state
      \<Rightarrow> ((bytes \<times> object) list \<times> json_state, json_error) result"
and json_entry :: "bool \<Rightarrow> bool \<Rightarrow> json_state \<Rightarrow> (object \<times> json_state, json_error) result"
and json_list :: "bool \<Rightarrow> object list \<Rightarrow> bool \<Rightarrow> json_state \<Rightarrow> (object list \<times> json_state, json_error) result" where
  "json_value lax s =
     and_then (next_meaningful_char s) (\<lambda>(byte, s1).
     if byte = 123 then map_ok (\<lambda>(d, s2). (Object_Dict d, s2)) (json_dict lax [] False s1)
     else if byte = 91 then map_ok (\<lambda>(l, s2). (Object_List l, s2)) (json_list lax [] False s1)
     else if byte = 34 then map_ok (\<lambda>(b, s2). (Object_Bytes b, s2)) (json_parse_string s1)
     else if is_ascii_digit byte \<or> byte = 45 then map_ok (\<lambda>(i, s2). (Object_Integer i, s2)) (json_parse_int byte s1)
     else json_fail (UnexpectedChar byte) s1)"
| "json_dict lax dict need_comma s =
     and_then (next_meaningful_char s) (\<lambda>(byte, s1).
     if need_comma \<and> byte \<noteq> 125 \<and> byte \<noteq> 44 \<and> \<not> lax then json_fail (DictNoComma byte) s1
     else if byte = 125 then
       if dict \<noteq> [] \<and> \<not> need_comma \<and> \<not> lax then json_fail DictTrailingComma s1 else Ok (dict, s1)
     else if byte = 34 then
       and_then (json_parse_string s1) (\<lambda>(key, s2).
       and_then (json_entry lax True s2) (\<lambda>(v, s3).
       json_dict lax (dict_insert key v dict) True s3))
     else if byte = 44 then
       if \<not> need_comma \<and> \<not> lax then json_fail DictUnexpectedComma s1 else json_dict lax dict False s1
     else json_fail (DictUnexpectedChar byte) s1)"
| "json_entry lax need_colon s =
     and_then (next_meaningful_char s) (\<lambda>(byte, s1).
     if need_colon \<and> byte \<noteq> 58 \<and> \<not> lax then json_fail (DictNoColon byte) s1
     else if byte = 58 then
       if \<not> need_colon \<and> \<not> lax then json_fail DictTwoColons s1 else json_entry lax False s1
     else if starts_value byte then json_value lax (json_push_back byte s1)
     else json_fail (DictNoValue byte) s1)"
| "json_list lax items need_comma s =
     and_then (next_meaningful_char s) (\<lambda>(byte, s1).
     if need_comma \<and> byte \<noteq> 93 \<and> byte \<noteq> 44 \<and> \<not> lax then json_fail (ListNoComma byte) s1
     else if byte = 93 then
       if items \<noteq> [] \<and> \<not> need_comma \<and> \<not> lax then json_fail ListTrailingComma s1 else Ok (items, s1)
     else if byte = 44 then
       if \<not> need_comma \<and> \<not> lax then json_fail ListUnexpectedComma s1 else json_list lax items False s1
     else if starts_value byte then
       and_then (json_value lax (json_push_back byte s1)) (\<lambda>(obj, s2). json_list lax (list_push obj items) True s2)
     else json_fail (ListUnexpectedChar byte) s1)"
  by pat_completeness auto

lemma pending_push_back_None [simp]: "js_last s = None \<Longrightarrow> pending (json_push_back b s) = Suc (pending s)"
  by (simp add: pending_def json_push_back_def)

lemma json_fail_neq [simp]: "json_fail e s \<noteq> Ok x"
  by (simp add: json_fail_def)

lemma json_string_pending': "json_parse_string s = Ok (str, s') \<Longrightarrow> pending s' \<le> pending s"
  unfolding json_parse_string_def by (rule json_string_pending)

lemma json_pending_dom:
  "json_value_json_dict_json_entry_json_list_dom (Inl (Inl (lax, s))) \<Longrightarrow>
     \<forall>x s'. json_value lax s = Ok (x, s') \<longrightarrow> pending s' < pending s"
  "json_value_json_dict_json_entry_json_list_dom (Inl (Inr (lax, d, n, s))) \<Longrightarrow>
     \<forall>x s'. json_dict lax d n s = Ok (x, s') \<longrightarrow> pending s' < pending s"
  "json_value_json_dict_json_entry_json_list_dom (Inr (Inl (lax, n, s))) \<Longrightarrow>
     \<forall>x s'. json_entry lax n s = Ok (x, s') \<longrightarrow> pending s' < pending s"
  "json_value_json_dict_json_entry_json_list_dom (Inr (Inr (lax, l, n, s))) \<Longrightarrow>
     \<forall>x s'. json_list lax l n s = Ok (x, s') \<longrightarrow> pending s' < pending s"
proof (induction lax s and lax d n s and lax n s and lax l n s
    rule: json_value_json_dict_json_entry_json_list.pinduct)
  case (1 lax s)
  show ?case
  proof (intro allI impI)
    fix x s' assume "json_value lax s = Ok (x, s')"
    then obtain byte s1 where n: "next_meaningful_char s = Ok (byte, s1)"
      by (auto simp: json_value.psimps [OF "1.hyps"] and_then_ok_iff)
    with \<open>json_value lax s = Ok (x, s')\<close> next_meaningful_pending [OF n] show "pending s' < pending s"
      using "1.IH" [OF n refl]
      by (auto simp: json_value.psimps [OF "1.hyps"] map_ok_ok_iff split: if_splits
          dest!: json_string_pending' json_parse_int_pending)
  qed
next
  case (2 lax d n s)
  show ?case
  proof (intro allI impI)
    fix x s' assume ok: "json_dict lax d n s = Ok (x, s')"
    then obtain byte s1 where c: "next_meaningful_char s = Ok (byte, s1)"
      by (auto simp: json_dict.psimps [OF "2.hyps"] and_then_ok_iff)
    have lt: "pending s1 < pending s" using next_meaningful_pending [OF c] by simp
    note ok' = ok [unfolded json_dict.psimps [OF "2.hyps"] c, simplified]
    consider "byte = 125" | "byte = 34" | "byte = 44" using ok' by (auto split: if_splits)
    then show "pending s' < pending s"
    proof cases
      case 1
      with ok' lt show ?thesis by (auto split: if_splits)
    next
      case 2
      with ok' obtain key s2 v s3 where k: "json_parse_string s1 = Ok (key, s2)"
        and v: "json_entry lax True s2 = Ok (v, s3)" and r: "json_dict lax (dict_insert key v d) True s3 = Ok (x, s')"
        and g: "\<not> (n \<and> byte \<noteq> 125 \<and> byte \<noteq> 44 \<and> \<not> lax)"
        by (auto simp: and_then_ok_iff split: if_splits)
      have "pending s3 < pending s2" using "2.IH"(1) [OF c refl g _ 2 k refl] v 2 by auto
      moreover have "pending s' < pending s3" using "2.IH"(2) [OF c refl g _ 2 k refl v refl] r 2 by auto
      ultimately show ?thesis using json_string_pending' [OF k] lt by simp
    next
      case 3
      with ok' have "json_dict lax d False s1 = Ok (x, s')" by (auto split: if_splits)
      moreover have "\<not> (\<not> n \<and> \<not> lax)" using ok' 3 by (auto split: if_splits)
      ultimately have "pending s' < pending s1" using "2.IH"(3) [OF c refl] 3 by auto
      with lt show ?thesis by simp
    qed
  qed
next
  case (3 lax n s)
  show ?case
  proof (intro allI impI)
    fix x s' assume ok: "json_entry lax n s = Ok (x, s')"
    then obtain byte s1 where c: "next_meaningful_char s = Ok (byte, s1)"
      by (auto simp: json_entry.psimps [OF "3.hyps"] and_then_ok_iff)
    have lt: "pending s1 < pending s" using next_meaningful_pending [OF c] by simp
    have le: "pending (json_push_back byte s1) \<le> pending s" by (rule pending_push_back_meaningful [OF c])
    note ok' = ok [unfolded json_entry.psimps [OF "3.hyps"] c, simplified]
    show "pending s' < pending s"
      using ok' lt le "3.IH" [OF c refl] by (fastforce split: if_splits)
  qed
next
  case (4 lax l n s)
  show ?case
  proof (intro allI impI)
    fix x s' assume ok: "json_list lax l n s = Ok (x, s')"
    then obtain byte s1 where c: "next_meaningful_char s = Ok (byte, s1)"
      by (auto simp: json_list.psimps [OF "4.hyps"] and_then_ok_iff)
    have lt: "pending s1 < pending s" using next_meaningful_pending [OF c] by simp
    have le: "pending (json_push_back byte s1) \<le> pending s" by (rule pending_push_back_meaningful [OF c])
    note ok' = ok [unfolded json_list.psimps [OF "4.hyps"] c, simplified]
    consider "byte = 93" | "byte = 44" | "byte \<noteq> 93" "byte \<noteq> 44" by blast
    then show "pending s' < pending s"
    proof cases
      case 1
      with ok' lt show ?thesis by (auto split: if_splits)
    next
      case 2
      with ok' have "json_list lax l False s1 = Ok (x, s')" by (auto split: if_splits)
      moreover have "\<not> (\<not> n \<and> \<not> lax)" using ok' 2 by (auto split: if_splits)
      ultimately have "pending s' < pending s1" using "4.IH"(1) [OF c refl] 2 by auto
      with lt show ?thesis by simp
    next
      case 3
      with ok' obtain obj s2 where v: "json_value lax (json_push_back byte s1) = Ok (obj, s2)"
        and r: "json_list lax (list_push obj l) True s2 = Ok (x, s')" and b: "starts_value byte"
        and g: "\<not> (n \<and> byte \<noteq> 93 \<and> byte \<noteq> 44 \<and> \<not> lax)"
        by (auto simp: and_then_ok_iff split: if_splits)
      have "pending s2 < pending (json_push_back byte s1)"
        using "4.IH"(2) [OF c refl g 3 b] v by auto
      moreover have "pending s' < pending s2" using "4.IH"(3) [OF c refl g 3 b v refl] r by auto
      ultimately show ?thesis using le by simp
    qed
  qed
qed

termination json_value
proof (relation "measure (\<lambda>x. case x of Inl (Inl (lax, s)) \<Rightarrow> 2 * pending s
    | Inl (Inr (lax, d, n, s)) \<Rightarrow> 2 * pending s + 1
    | Inr (Inl (lax, n, s)) \<Rightarrow> 2 * pending s + 1 | Inr (Inr (lax, l, n, s)) \<Rightarrow> 2 * pending s + 1)", goal_cases)
qed (auto dest!: json_pending_dom [rule_format] json_string_pending' next_meaningful_pending)

declare json_value.simps [simp del] json_dict.simps [simp del] json_entry.simps [simp del] json_list.simps [simp del]

definition json_parse :: "bytes \<Rightarrow> bool \<Rightarrow> (object, json_error) result" where
  "json_parse input lax = map_ok fst (json_value lax (json_new input))"

section \<open>Writing\<close>

definition hex_upper :: "nat \<Rightarrow> u8" where
  "hex_upper n = (if n < 10 then 48 + of_nat n else 55 + of_nat n)"

definition json_char :: "u8 \<Rightarrow> bytes" where
  "json_char byte =
     (if byte < 126 \<and> byte > 31 \<and> byte \<noteq> 92 \<and> byte \<noteq> 34 then [byte]
      else [92, 120, hex_upper (unat byte div 16), hex_upper (unat byte mod 16)])"

definition json_serialize_string :: "bytes \<Rightarrow> bytes \<Rightarrow> bytes" where
  "json_serialize_string w str = benc_put [34] (foldr (\<lambda>byte w'. benc_put (json_char byte) w') str (benc_put [34] w))"

definition json_indent :: "nat \<Rightarrow> bytes" where
  "json_indent n = concat (replicate n [32, 32])"

text \<open>
  The writer works backwards, so \<open>rest\<close> is what follows the value. The flag of the loops tells
  the entry written first, which is the last one and takes no comma.
\<close>

function (sequential) serialize_reverse :: "object \<Rightarrow> nat \<Rightarrow> bytes \<Rightarrow> bytes" where
  "serialize_reverse (Object_Bytes s) lvl rest = json_serialize_string rest s"
| "serialize_reverse (Object_Integer i) lvl rest = benc_put (int_bytes i) rest"
| "serialize_reverse (Object_List l) lvl rest =
     (let w1 = benc_put [93] rest;
          w2 = (if l = [] then w1
                else snd (foldr (\<lambda>item (lst, w).
                       (False, benc_put [10] (benc_put (json_indent (lvl + 1))
                          (serialize_reverse item (lvl + 1) (if lst then w else benc_put [44] w)))))
                     l (True, benc_put [10] (benc_put (json_indent lvl) w1))))
      in benc_put [91] w2)"
| "serialize_reverse (Object_Dict d) lvl rest =
     (let w1 = benc_put [125] rest
      in if d = [] then benc_put [123] w1
         else benc_put [123, 10] (snd (foldr (\<lambda>(key, v) (lst, w).
                (False, benc_put (json_indent (lvl + 1)) (json_serialize_string
                   (benc_put [58, 32] (serialize_reverse v (lvl + 1) (if lst then w else benc_put [44, 10] w))) key)))
              d (True, benc_put [10] (benc_put (json_indent lvl) w1)))))"
  by pat_completeness auto

termination
  by (relation "measure (\<lambda>(obj, lvl, w). size obj)")
    (auto simp: less_Suc_eq_le elim!: size_list_estimation' intro: le_trans [rotated])

declare serialize_reverse.simps [simp del]

definition json_serialize :: "bytes \<Rightarrow> object \<Rightarrow> bytes" where
  "json_serialize w obj = serialize_reverse obj 0 w"

section \<open>Configurations\<close>

datatype conf_error = ConfJson json_error | ConfNotADict | ConfObject obj_error | ConfVersion int
  | SecurityFirstNotADict | SecurityNotAList

definition str_version :: bytes where "str_version = [118, 101, 114, 115, 105, 111, 110]"
definition str_security :: bytes where "str_security = [115, 101, 99, 117, 114, 105, 116, 121]"
definition str_setupComplete :: bytes where
  "str_setupComplete = [115, 101, 116, 117, 112, 67, 111, 109, 112, 108, 101, 116, 101]"

text \<open>
  A configuration that is not strict JSON is read in lax mode, unless it says that it is of a
  version that has to be strict.
\<close>

definition read_conf :: "bytes \<Rightarrow> ((bytes \<times> object) list, conf_error) result" where
  "read_conf conf =
     (case json_parse conf False of
        Ok x \<Rightarrow> map_err (\<lambda>_. ConfNotADict) (as_dict x)
      | Panic \<Rightarrow> Panic
      | Err _ \<Rightarrow>
          and_then (map_err ConfJson (json_parse conf True)) (\<lambda>x.
          and_then (map_err (\<lambda>_. ConfNotADict) (as_dict x)) (\<lambda>d.
          and_then (map_err ConfObject (try_get_int dict_try_get_obj d str_version)) (\<lambda>v.
          let ver = (case v of None \<Rightarrow> 0 | Some i \<Rightarrow> i) in
          if ver > 1 then Err (ConfVersion ver) else Ok d))))"

text \<open>Every list is reversed, inside out.\<close>

fun conf_fix_list_order_quirk :: "object \<Rightarrow> object" where
  "conf_fix_list_order_quirk (Object_Dict d) = Object_Dict (map (\<lambda>(k, v). (k, conf_fix_list_order_quirk v)) d)"
| "conf_fix_list_order_quirk (Object_List l) = Object_List (rev (map conf_fix_list_order_quirk l))"
| "conf_fix_list_order_quirk obj = obj"

definition conf_check_fix_list_order_quirk ::
  "(bytes \<times> object) list \<Rightarrow> ((bytes \<times> object) list, conf_error) result" where
  "conf_check_fix_list_order_quirk conf =
     and_then
       (case try_get_list dict_try_get_obj conf str_security of
          Ok (Some security) \<Rightarrow>
            (case try_get_dict list_try_get_obj security 0 of
               Ok (Some fst_item) \<Rightarrow>
                 map_ok (\<lambda>o'. o' \<noteq> None)
                   (map_err ConfObject (try_get_dict dict_try_get_obj fst_item str_setupComplete))
             | _ \<Rightarrow> Err SecurityFirstNotADict)
        | _ \<Rightarrow> Err SecurityNotAList)
       (\<lambda>should_swap.
       Ok (if should_swap then map (\<lambda>(k, v). (k, conf_fix_list_order_quirk v)) conf else conf))"

text \<open>Standard input to standard output.\<close>

definition clean_conf :: "bytes \<Rightarrow> (bytes, conf_error) result" where
  "clean_conf conf =
     and_then (read_conf conf) (\<lambda>d.
     and_then (conf_check_fix_list_order_quirk d) (\<lambda>d'.
     Ok (json_serialize [] (Object_Dict d'))))"

end
