(* ===== verification/Benc_Spec.thy ===== *)
theory Benc_Spec
  imports Bencode
begin

text \<open>
  What the bencode reader and writer guarantee together: every value the reader returns is
  representable (sorted dictionaries, integers above \<open>i64::MIN\<close>, nesting within the limit), and
  every representable value is read back from what the writer writes, aligned or not.
\<close>

section \<open>Decimal numbers\<close>

definition dec_val :: "nat \<Rightarrow> bytes \<Rightarrow> nat" where
  "dec_val acc ds = foldl (\<lambda>a d. a * 10 + unat (d - 48)) acc ds"

lemma dec_val_simps [simp]:
  "dec_val acc [] = acc" "dec_val acc (d # ds) = dec_val (acc * 10 + unat (d - 48)) ds"
  by (simp_all add: dec_val_def)

lemma dec_val_append: "dec_val acc (xs @ ys) = dec_val (dec_val acc xs) ys"
  by (simp add: dec_val_def)

lemma dec_val_ge: "acc \<le> dec_val acc ds"
proof (induction ds arbitrary: acc)
  case (Cons d ds)
  show ?case using Cons [of "acc * 10 + unat (d - 48)"] by simp
qed simp

lemma unat_dec_digit [simp]: "n < 10 \<Longrightarrow> unat (of_nat n :: u8) = n"
  by (simp add: unat_of_nat take_bit_nat_eq_self_iff)

lemma is_ascii_digit_dec [simp]: "n < 10 \<Longrightarrow> is_ascii_digit (48 + of_nat n)"
proof -
  assume n: "n < 10"
  then have "unat (48 + of_nat n :: u8) = 48 + n"
    by (simp add: unat_word_ariths)
  with n show ?thesis by (simp add: is_ascii_digit_def word_le_nat_alt)
qed

lemma dec_bytes_digits: "d \<in> set (dec_bytes n) \<Longrightarrow> is_ascii_digit d"
  by (induction n rule: dec_bytes.induct) (subst (asm) (2) dec_bytes.simps, auto split: if_splits)

lemma dec_val_dec_bytes [simp]: "dec_val 0 (dec_bytes n) = n"
  by (induction n rule: dec_bytes.induct) (subst dec_bytes.simps, simp add: dec_val_append)

lemma dec_bytes_not_Nil [simp]: "dec_bytes n \<noteq> []"
  by (subst dec_bytes.simps) simp

lemma hd_dec_bytes: "0 < n \<Longrightarrow> hd (dec_bytes n) \<noteq> 48"
proof (induction n rule: dec_bytes.induct)
  case (1 n)
  show ?case
  proof (cases "n < 10")
    case True
    then have "unat (of_nat n :: u8) \<noteq> 0" using "1.prems" by simp
    then have "(of_nat n :: u8) \<noteq> 0" by auto
    then show ?thesis using True by (subst dec_bytes.simps) simp
  next
    case False
    with "1.IH" show ?thesis by (subst dec_bytes.simps) simp
  qed
qed

lemma dec_bytes_0 [simp]: "dec_bytes 0 = [48]"
  by (subst dec_bytes.simps) simp

lemma unat_digit_0_iff: "is_ascii_digit d \<Longrightarrow> unat (d - 48) = 0 \<longleftrightarrow> d = 48"
  by (simp add: unat_eq_0)

text \<open>Neither a colon (58) nor an \<open>e\<close> (101) nor a minus sign (45) is a digit.\<close>

lemma digit_neq [simp]: "is_ascii_digit d \<Longrightarrow> d \<noteq> 58 \<and> d \<noteq> 101 \<and> d \<noteq> 45 \<and> d \<noteq> 100 \<and> d \<noteq> 105 \<and> d \<noteq> 108"
  by (auto simp: is_ascii_digit_def)

lemma read_len_digits:
  assumes "\<forall>d \<in> set (b # ds). is_ascii_digit d" and "dec_val len (b # ds) < 2 ^ 64"
    and "0 < len \<or> b \<noteq> 48 \<or> ds = [] \<or> z"
  shows "read_len_loop b z len (ds @ 58 # w) = Ok (dec_val len (b # ds), w)"
  using assms
proof (induction ds arbitrary: b len)
  case Nil
  have "len * 10 \<le> len * 10 + unat (b - 48)" by simp
  with Nil show ?case
    by (subst read_len_loop.simps, subst read_len_loop.simps) (simp add: checked_usize_def)
next
  case (Cons d ds)
  let ?n = "len * 10 + unat (b - 48)"
  have "?n < 2 ^ 64" using Cons.prems(2) dec_val_ge [of ?n "d # ds"] by simp
  moreover have "?n \<noteq> 0 \<or> z" using Cons.prems(1,3) unat_digit_0_iff [of b] by auto
  moreover have "read_len_loop d z ?n (ds @ 58 # w) = Ok (dec_val ?n (d # ds), w)"
    using Cons.prems calculation(2) by (intro Cons.IH) auto
  ultimately show ?case using Cons.prems(1)
    by (subst read_len_loop.simps) (simp add: checked_usize_def)
qed

lemma i64_range_digits:
  "n * 10 + unat b < 2 ^ 63 \<Longrightarrow> i64_range (int n * 10) \<and> i64_range (int n * 10 + uint (b :: u8))"
proof -
  define k where "k = unat b"
  have "uint b = int k" by (simp add: k_def)
  then show "n * 10 + unat b < 2 ^ 63 \<Longrightarrow> ?thesis"
    unfolding i64_range_def k_def [symmetric] by simp
qed

lemma read_int_digits:
  assumes "\<forall>d \<in> set (b # ds). is_ascii_digit d" and "dec_val n (b # ds) < 2 ^ 63"
    and "0 < n \<or> b \<noteq> 48 \<or> ds = []"
  shows "read_int_loop b (int n) (ds @ 101 # w) = Ok (int (dec_val n (b # ds)), w)"
  using assms
proof (induction ds arbitrary: b n)
  case Nil
  then have "i64_range (int n * 10)" "i64_range (int n * 10 + uint (b - 48))"
    using i64_range_digits [of n "b - 48"] by auto
  with Nil show ?case
    by (subst read_int_loop.simps, subst read_int_loop.simps) (simp add: checked_i64_def)
next
  case (Cons d ds)
  let ?n = "n * 10 + unat (b - 48)"
  have lt: "?n < 2 ^ 63" using Cons.prems(2) dec_val_ge [of ?n "d # ds"] by simp
  then have "i64_range (int n * 10)" "i64_range (int n * 10 + uint (b - 48))"
    using i64_range_digits [of n "b - 48"] by auto
  moreover have n0: "?n \<noteq> 0" using Cons.prems(1,3) unat_digit_0_iff [of b] by auto
  moreover have "int n * 10 + uint (b - 48) \<noteq> 0"
  proof -
    have "int n * 10 + uint (b - 48) = int ?n" by simp
    then show ?thesis using n0 by (simp only: of_nat_eq_0_iff not_False_eq_True)
  qed
  moreover have "read_int_loop d (int ?n) (ds @ 101 # w) = Ok (int (dec_val ?n (d # ds)), w)"
    using Cons.prems n0 by (intro Cons.IH) auto
  ultimately show ?case using Cons.prems(1)
    by (subst read_int_loop.simps) (simp add: checked_i64_def)
qed

section \<open>Integers and strings\<close>

lemma dec_bytes_Cons:
  obtains b ds where "dec_bytes n = b # ds" "\<forall>d \<in> set (b # ds). is_ascii_digit d"
    "b \<noteq> 48 \<or> ds = []" "dec_val 0 (b # ds) = n"
proof -
  obtain b ds where b: "dec_bytes n = b # ds" by (cases "dec_bytes n") auto
  moreover have "\<forall>d \<in> set (b # ds). is_ascii_digit d" using dec_bytes_digits [of _ n] b by simp
  moreover have "b \<noteq> 48 \<or> ds = []" using hd_dec_bytes [of n] b by (cases n) auto
  moreover have "dec_val 0 (b # ds) = n" using dec_val_dec_bytes [of n] b by simp
  ultimately show ?thesis using that by blast
qed

lemma read_int_write:
  assumes "- (2 ^ 63) < i" and "i < 2 ^ 63"
  shows "read_int (int_bytes i @ 101 # w) = Ok (i, w)"
proof -
  let ?n = "nat \<bar>i\<bar>"
  obtain b ds where d: "dec_bytes ?n = b # ds" "\<forall>d \<in> set (b # ds). is_ascii_digit d"
    "b \<noteq> 48 \<or> ds = []" "dec_val 0 (b # ds) = ?n"
    by (rule dec_bytes_Cons)
  have "?n < 2 ^ 63" using assms by (simp add: nat_less_iff)
  then have loop: "read_int_loop b 0 (ds @ 101 # w) = Ok (int ?n, w)"
    using read_int_digits [of b ds 0 w] d by simp
  have b: "b \<noteq> 101" "b \<noteq> 45" using d(2) by auto
  show ?thesis
  proof (cases "i < 0")
    case True
    then have "int_bytes i = 45 # b # ds" using d(1) by (simp add: int_bytes_def abs_if)
    with True loop b show ?thesis by (simp add: read_int_def)
  next
    case False
    then have "int_bytes i = b # ds" using d(1) by (simp add: int_bytes_def abs_if)
    with False loop b show ?thesis by (simp add: read_int_def)
  qed
qed

lemma read_string_write:
  assumes "length s < 2 ^ 63"
  obtains b r where "write_string s w = b # r" "is_ascii_digit b"
    "\<And>z. read_string_with_byte b z r = Ok (s, w)"
proof -
  obtain b ds where d: "dec_bytes (length s) = b # ds" "\<forall>d \<in> set (b # ds). is_ascii_digit d"
    "b \<noteq> 48 \<or> ds = []" "dec_val 0 (b # ds) = length s"
    by (rule dec_bytes_Cons)
  have "write_string s w = b # ds @ 58 # s @ w"
    using d(1) by (simp add: write_string_def benc_put_def write_byte_def)
  moreover have "read_string_with_byte b z (ds @ 58 # s @ w) = Ok (s, w)" for z
    using read_len_digits [of b ds 0 z "s @ w"] d assms by (auto simp: read_string_with_byte_def)
  moreover have "is_ascii_digit b" using d(2) by simp
  ultimately show ?thesis using that by blast
qed

lemma read_string_pad: "read_string_with_byte 48 True (b # r) = read_string_with_byte b True r"
  unfolding read_string_with_byte_def
  by (subst read_len_loop.simps) (simp add: is_ascii_digit_def checked_usize_def)

section \<open>Values\<close>

text \<open>
  The values that survive a trip: \<open>i64::MIN\<close> does not, because the reader negates the digits only
  after it has read them as an \<open>i64\<close>.
\<close>

fun representable :: "object \<Rightarrow> bool" where
  "representable (Object_Bytes b) \<longleftrightarrow> length b < 2 ^ 63"
| "representable (Object_Integer i) \<longleftrightarrow> - (2 ^ 63) < i \<and> i < 2 ^ 63"
| "representable (Object_List l) \<longleftrightarrow> (\<forall>x \<in> set l. representable x)"
| "representable (Object_Dict d) \<longleftrightarrow> bt_ok d \<and> (\<forall>(k, v) \<in> set d. length k < 2 ^ 63 \<and> representable v)"

definition list_bytes :: "object list \<Rightarrow> bytes \<Rightarrow> bytes" where
  "list_bytes l w = foldr (\<lambda>item w'. write_value item 0 w') l (write_byte 101 w)"

definition dict_bytes :: "(bytes \<times> object) list \<Rightarrow> bytes \<Rightarrow> bytes" where
  "dict_bytes d w = foldr (\<lambda>(key, v) w'. write_string key (write_value v 0 w')) d (write_byte 101 w)"

lemma list_bytes_simps [simp]:
  "list_bytes [] w = 101 # w" "list_bytes (x # l) w = write_value x 0 (list_bytes l w)"
  by (simp_all add: list_bytes_def write_byte_def benc_put_def)

lemma dict_bytes_simps [simp]:
  "dict_bytes [] w = 101 # w" "dict_bytes ((k, v) # d) w = write_string k (write_value v 0 (dict_bytes d w))"
  by (simp_all add: dict_bytes_def write_byte_def benc_put_def)

lemma write_byte_pow: "(write_byte b ^^ n) w = replicate n b @ w"
  by (induction n arbitrary: w) (simp_all add: write_byte_def benc_put_def replicate_app_Cons_same)

lemma write_value_dict:
  "write_value (Object_Dict d) align w =
     100 # replicate (if align > 1 then padding_needed align (length (dict_bytes d w)) else 0) 48 @ dict_bytes d w"
  by (simp add: dict_bytes_def [symmetric] write_byte_pow Let_def) (simp add: write_byte_def benc_put_def)

lemma write_value_list: "write_value (Object_List l) align w = 108 # list_bytes l w"
  by (simp add: list_bytes_def [abs_def] write_byte_def benc_put_def)

definition reads_back :: "nat \<Rightarrow> bool \<Rightarrow> nat \<Rightarrow> object \<Rightarrow> bool" where
  "reads_back max_rec pad depth obj \<longleftrightarrow> (\<forall>w. read_generic max_rec pad depth (write_value obj 0 w) = Ok (obj, w))"

lemma reads_backE:
  assumes "reads_back max_rec pad depth obj"
  obtains b r where "write_value obj 0 w = b # r" "b \<noteq> 101"
    "read_generic_with_byte max_rec pad depth b r = Ok (obj, w)"
proof -
  from assms have "read_generic max_rec pad depth (write_value obj 0 w) = Ok (obj, w)"
    by (simp add: reads_back_def)
  then obtain b r where "write_value obj 0 w = b # r" "read_generic_with_byte max_rec pad depth b r = Ok (obj, w)"
    by (auto simp: read_generic_def and_then_ok_iff)
  moreover from this(2) have "b \<noteq> 101"
    by (auto simp: read_generic_with_byte.simps is_ascii_digit_def split: if_splits)
  ultimately show ?thesis using that by blast
qed

lemma read_list_bytes:
  assumes "\<forall>x \<in> set l. reads_back max_rec pad depth x"
  shows "read_list max_rec pad depth acc (list_bytes l w) = Ok (acc @ l, w)"
  using assms
proof (induction l arbitrary: acc)
  case Nil
  show ?case by (simp add: read_list.simps)
next
  case (Cons x l)
  obtain b r where b: "write_value x 0 (list_bytes l w) = b # r" "b \<noteq> 101"
    "read_generic_with_byte max_rec pad depth b r = Ok (x, list_bytes l w)"
    using reads_backE [of max_rec pad depth x "list_bytes l w"] Cons.prems by auto
  then show ?case using Cons by (subst read_list.simps) (simp add: list_push_def)
qed

lemma read_dict_bytes:
  assumes "\<forall>(k, v) \<in> set d. length k < 2 ^ 63 \<and> reads_back max_rec pad depth v" and "bt_ok (acc @ d)"
  shows "read_dict max_rec pad depth z acc (dict_bytes d w) = Ok (acc @ d, w)"
  using assms
proof (induction d arbitrary: acc z)
  case Nil
  show ?case by (simp add: read_dict.simps)
next
  case (Cons kv d)
  obtain k v where kv: "kv = (k, v)" by (cases kv)
  let ?w = "dict_bytes d w"
  obtain b r where v: "write_value v 0 ?w = b # r" "read_generic_with_byte max_rec pad depth b r = Ok (v, ?w)"
  proof -
    have "reads_back max_rec pad depth v" using Cons.prems(1) kv by simp
    then show ?thesis by (rule reads_backE [where w = ?w]) (rule that)
  qed
  obtain c s where k: "write_string k (b # r) = c # s" "is_ascii_digit c"
    "\<And>z. read_string_with_byte c z s = Ok (k, b # r)"
    using read_string_write [of k "b # r"] Cons.prems(1) kv by auto
  have c: "c \<noteq> 101" using k(2) by auto
  have ins: "dict_insert k v acc = acc @ [(k, v)]"
    unfolding dict_insert_def using Cons.prems(2) kv by (intro bt_insert_snoc) (auto simp: bt_ok_append)
  have "read_dict max_rec pad depth False (acc @ [(k, v)]) ?w = Ok (acc @ (k, v) # d, w)"
    using Cons.IH [of "acc @ [(k, v)]"] Cons.prems kv by auto
  then show ?case
    using v k c ins kv by (subst read_dict.simps) simp
qed

lemma read_dict_padded:
  assumes "read_dict max_rec pad depth True [] (c # s) = Ok (d, w)" and "is_ascii_digit c"
  shows "read_dict max_rec pad depth True [] (replicate n 48 @ c # s) = Ok (d, w)"
proof (cases n)
  case 0
  with assms show ?thesis by simp
next
  case (Suc m)
  have "read_string_with_byte 48 True (replicate m 48 @ c # s) = read_string_with_byte c True s"
  proof (induction m)
    case 0
    show ?case by (simp add: read_string_pad)
  next
    case (Suc m)
    then show ?case by (simp add: read_string_pad)
  qed
  moreover have "c \<noteq> 101" using assms(2) by auto
  ultimately show ?thesis using assms(1) Suc by (simp add: read_dict.simps [where r = "_ # _"])
qed

theorem benc_reads_back:
  assumes "representable obj" and "obj_depth obj + depth \<le> max_rec + 1"
  shows "reads_back max_rec pad depth obj"
  using assms
proof (induction obj arbitrary: depth)
  case (Object_Bytes b)
  show ?case unfolding reads_back_def
  proof
    fix w
    obtain c r where c: "write_string b w = c # r" "is_ascii_digit c" "\<And>z. read_string_with_byte c z r = Ok (b, w)"
      using read_string_write [of b w] Object_Bytes.prems(1) by auto
    have "c \<noteq> 108" "c \<noteq> 100" "c \<noteq> 105" using c(2) by auto
    with c Object_Bytes.prems(2)
    show "read_generic max_rec pad depth (write_value (Object_Bytes b) 0 w) = Ok (Object_Bytes b, w)"
      by (simp add: read_generic_def read_generic_with_byte.simps)
  qed
next
  case (Object_Integer i)
  then show ?case
    by (auto simp: reads_back_def read_generic_def read_generic_with_byte.simps write_int_def write_byte_def
        benc_put_def read_int_write)
next
  case (Object_List l)
  have "\<forall>x \<in> set l. obj_depth x + Suc depth \<le> max_rec + 1"
    using Object_List.prems(2) by (auto dest!: obj_depth_list)
  then have "\<forall>x \<in> set l. reads_back max_rec pad (depth + 1) x"
    using Object_List.IH Object_List.prems(1) by auto
  then have "read_list max_rec pad (depth + 1) [] (list_bytes l w) = Ok (l, w)" for w
    by (simp only: read_list_bytes append_Nil)
  with Object_List.prems(2) show ?case
    by (simp add: reads_back_def write_value_list read_generic_def read_generic_with_byte.simps
        del: write_value.simps)
next
  case (Object_Dict d)
  have "\<forall>(k, v) \<in> set d. obj_depth v + Suc depth \<le> max_rec + 1"
    using Object_Dict.prems(2) by (auto dest!: obj_depth_dict)
  then have "\<forall>(k, v) \<in> set d. length k < 2 ^ 63 \<and> reads_back max_rec pad (depth + 1) v"
    using Object_Dict.IH Object_Dict.prems(1) by fastforce
  then have "read_dict max_rec pad (depth + 1) z [] (dict_bytes d w) = Ok (d, w)" for z w
    using Object_Dict.prems(1) by (simp add: read_dict_bytes)
  with Object_Dict.prems(2) show ?case
    by (simp add: reads_back_def write_value_dict read_generic_def read_generic_with_byte.simps
        del: write_value.simps)
qed

lemma length_aligned:
  assumes "align > 1"
  shows "length (write_value (Object_Dict d) align w) mod align = 0"
proof -
  let ?n = "length (dict_bytes d w)"
  have "length (write_value (Object_Dict d) align w) = padding_needed align ?n + (?n + 1)"
    using assms by (simp add: write_value_dict del: write_value.simps)
  also have "(padding_needed align ?n + (?n + 1)) mod align = 0"
  proof -
    have le: "(?n + 1) mod align \<le> align" using assms by simp
    have "(padding_needed align ?n + (?n + 1)) mod align = (align - (?n + 1) mod align + (?n + 1) mod align) mod align"
      unfolding padding_needed_def by (rule mod_add_cong) simp_all
    then show ?thesis using le by simp
  qed
  finally show ?thesis .
qed

lemma aligned_reads_back:
  assumes "representable obj" and "obj_depth obj \<le> max_rec + 1"
    and "align \<le> 1 \<or> pad" and "align \<le> 1 \<or> obj \<noteq> Object_Dict []"
  shows "benc_parse max_rec pad (benc_serialize w obj align) = Ok (obj, w)"
proof (cases "align > 1 \<and> (\<exists>d. obj = Object_Dict d)")
  case False
  then have "benc_serialize w obj align = write_value obj 0 w"
    by (cases obj) (auto simp: benc_serialize_def)
  then show ?thesis
    using benc_reads_back [of obj 0 max_rec pad] assms(1,2) by (simp add: benc_parse_def reads_back_def)
next
  case True
  then obtain d where d: "obj = Object_Dict d" "d \<noteq> []" and pad: "pad" using assms by auto
  obtain k v d' where d': "d = (k, v) # d'" using d(2) by (cases d) auto
  have k: "length k < 2 ^ 63" using assms(1) d d' by simp
  have "read_generic_with_byte max_rec pad 0 100 (dict_bytes d w) = Ok (Object_Dict d, w)"
    using benc_reads_back [OF assms(1), of 0 max_rec pad] assms(2) d
    by (simp add: reads_back_def read_generic_def write_value_dict del: write_value.simps)
  moreover have "dict_bytes d w = write_string k (write_value v 0 (dict_bytes d' w))" using d' by simp
  then obtain c s where c: "dict_bytes d w = c # s" "is_ascii_digit c"
    using read_string_write [OF k, of "write_value v 0 (dict_bytes d' w)"] by metis
  ultimately have "read_dict max_rec pad 1 True [] (c # s) = Ok (d, w)"
    using pad by (auto simp: read_generic_with_byte.simps map_ok_ok_iff)
  from read_dict_padded [OF this c(2)] show ?thesis
    using d c pad
    by (simp add: benc_parse_def benc_serialize_def write_value_dict read_generic_def read_generic_with_byte.simps
        del: write_value.simps)
qed

section \<open>What the reader returns\<close>

lemma read_int_loop_range:
  "read_int_loop byte num r = Ok (i, r') \<Longrightarrow> 0 \<le> num \<Longrightarrow> num < 2 ^ 63 \<Longrightarrow> 0 \<le> i \<and> i < 2 ^ 63"
proof (induction byte num r rule: read_int_loop.induct)
  case (1 byte num r)
  show ?case
  proof (cases "byte = 101")
    case True
    with "1.prems" show ?thesis by (subst (asm) read_int_loop.simps) simp
  next
    case False
    with "1.prems" obtain num' byte' r1 where
      n: "Option.bind (checked_i64 (num * 10)) (\<lambda>n. checked_i64 (n + uint (byte - 48))) = Some num'"
      and d: "is_ascii_digit byte" and r: "r = byte' # r1" and nz: "\<not> (num' = 0 \<and> byte' \<noteq> 101)"
      and loop: "read_int_loop byte' num' r1 = Ok (i, r')"
      by (subst (asm) read_int_loop.simps) (auto split: if_splits option.splits list.splits)
    have "num' = num * 10 + uint (byte - 48)" "i64_range num'"
      using n by (auto simp: checked_i64_def bind_eq_Some_conv split: if_splits)
    then have "0 \<le> num'" "num' < 2 ^ 63" using "1.prems"(2) by (auto simp: i64_range_def)
    then show ?thesis using "1.IH" [OF False _ n r nz loop] d by simp
  qed
qed

lemma read_int_range: "read_int r = Ok (i, r') \<Longrightarrow> - (2 ^ 63) < i \<and> i < 2 ^ 63"
  unfolding read_int_def Let_def
  by (auto simp: and_then_ok_iff split: if_splits dest!: read_int_loop_range)

lemma read_string_short: "read_string_with_byte b z r = Ok (s, r') \<Longrightarrow> length s < 2 ^ 63"
  unfolding read_string_with_byte_def by (auto simp: and_then_ok_iff split: if_splits)

definition fits :: "nat \<Rightarrow> nat \<Rightarrow> object \<Rightarrow> bool" where
  "fits max_rec depth obj \<longleftrightarrow> representable obj \<and> obj_depth obj + depth \<le> max_rec + 1"

lemma set_bt_insert: "set (bt_insert k v d) \<subseteq> insert (k, v) (set d)"
  by (induction k v d rule: bt_insert.induct) auto

lemma fits_list: "depth \<le> max_rec \<Longrightarrow> \<forall>x \<in> set l. fits max_rec (depth + 1) x \<Longrightarrow> fits max_rec depth (Object_List l)"
  using obj_depth_list_le [of l "max_rec - depth"] by (fastforce simp: fits_def simp del: obj_depth.simps)

lemma fits_dict:
  "depth \<le> max_rec \<Longrightarrow> bt_ok d \<Longrightarrow> \<forall>(k, v) \<in> set d. length k < 2 ^ 63 \<and> fits max_rec (depth + 1) v
    \<Longrightarrow> fits max_rec depth (Object_Dict d)"
  using obj_depth_dict_le [of d "max_rec - depth"] by (fastforce simp: fits_def simp del: obj_depth.simps)

lemma readers_fit:
  "\<forall>obj r'. read_generic_with_byte max_rec pad depth chr r = Ok (obj, r') \<longrightarrow> fits max_rec depth obj"
  "(\<forall>x \<in> set acc. fits max_rec depth x) \<Longrightarrow>
     \<forall>l r'. read_list max_rec pad depth acc r = Ok (l, r') \<longrightarrow> (\<forall>x \<in> set l. fits max_rec depth x)"
  "bt_ok dacc \<Longrightarrow> (\<forall>(k, v) \<in> set dacc. length k < 2 ^ 63 \<and> fits max_rec depth v) \<Longrightarrow>
     \<forall>d r'. read_dict max_rec pad depth z dacc r = Ok (d, r')
       \<longrightarrow> bt_ok d \<and> (\<forall>(k, v) \<in> set d. length k < 2 ^ 63 \<and> fits max_rec depth v)"
proof (induction max_rec pad depth chr r and max_rec pad depth acc r and max_rec pad depth z dacc r
    rule: read_generic_with_byte_read_list_read_dict.induct)
  case (1 max_rec pad depth chr r)
  show ?case
  proof (intro allI impI)
    fix obj r' assume ok: "read_generic_with_byte max_rec pad depth chr r = Ok (obj, r')"
    then have deep: "depth \<le> max_rec" by (subst (asm) read_generic_with_byte.simps) (simp split: if_splits)
    consider (list) l where "chr = 108" "obj = Object_List l" "read_list max_rec pad (depth + 1) [] r = Ok (l, r')"
      | (dict) d where "chr \<noteq> 108" "chr = 100" "obj = Object_Dict d"
          "read_dict max_rec pad (depth + 1) (pad \<and> depth + 1 = 1) [] r = Ok (d, r')"
      | (int) i where "obj = Object_Integer i" "read_int r = Ok (i, r')"
      | (str) s where "obj = Object_Bytes s" "read_string_with_byte chr False r = Ok (s, r')"
      using ok by (subst (asm) read_generic_with_byte.simps) (auto simp: map_ok_ok_iff split: if_splits)
    then show "fits max_rec depth obj"
    proof cases
      case list
      have "\<forall>x \<in> set l. fits max_rec (depth + 1) x" using "1.IH"(1) list deep by auto
      with list deep show ?thesis by (simp add: fits_list)
    next
      case dict
      have "bt_ok d \<and> (\<forall>(k, v) \<in> set d. length k < 2 ^ 63 \<and> fits max_rec (depth + 1) v)"
        using "1.IH"(2) dict deep by auto
      with dict deep show ?thesis by (simp add: fits_dict)
    next
      case int
      with deep read_int_range [OF int(2)] show ?thesis by (simp add: fits_def)
    next
      case str
      with deep read_string_short [OF str(2)] show ?thesis by (simp add: fits_def)
    qed
  qed
next
  case (2 max_rec pad depth acc r)
  show ?case
  proof (intro allI impI)
    fix l r' assume ok: "read_list max_rec pad depth acc r = Ok (l, r')"
    then obtain byte r1 where r: "read_byte r = Ok (byte, r1)"
      by (subst (asm) read_list.simps) (auto simp: and_then_ok_iff)
    show "\<forall>x \<in> set l. fits max_rec depth x"
    proof (cases "byte = 101")
      case True
      with ok r "2.prems" show ?thesis by (subst (asm) read_list.simps) simp
    next
      case False
      with ok r obtain x r2 where x: "read_generic_with_byte max_rec pad depth byte r1 = Ok (x, r2)"
        and l: "read_list max_rec pad depth (list_push x acc) r2 = Ok (l, r')"
        by (subst (asm) read_list.simps) (auto simp: and_then_ok_iff)
      have "fits max_rec depth x" using "2.IH"(1) [OF r refl False] x by blast
      then have "\<forall>y \<in> set (list_push x acc). fits max_rec depth y" using "2.prems" by (simp add: list_push_def)
      from "2.IH"(2) [OF r refl False x refl this] l show ?thesis by blast
    qed
  qed
next
  case (3 max_rec pad depth z dacc r)
  show ?case
  proof (intro allI impI)
    fix d r' assume ok: "read_dict max_rec pad depth z dacc r = Ok (d, r')"
    then obtain byte r1 where r: "read_byte r = Ok (byte, r1)"
      by (subst (asm) read_dict.simps) (auto simp: and_then_ok_iff)
    show "bt_ok d \<and> (\<forall>(k, v) \<in> set d. length k < 2 ^ 63 \<and> fits max_rec depth v)"
    proof (cases "byte = 101")
      case True
      with ok r "3.prems" show ?thesis by (subst (asm) read_dict.simps) simp
    next
      case False
      with ok r obtain key r2 chr r3 v r4 where key: "read_string_with_byte byte z r1 = Ok (key, r2)"
        and c: "read_byte r2 = Ok (chr, r3)" and v: "read_generic_with_byte max_rec pad depth chr r3 = Ok (v, r4)"
        and d: "read_dict max_rec pad depth False (dict_insert key v dacc) r4 = Ok (d, r')"
        by (subst (asm) read_dict.simps) (auto simp: and_then_ok_iff)
      have v': "fits max_rec depth v" using "3.IH"(1) [OF r refl False key refl c refl] v by blast
      have a: "bt_ok (dict_insert key v dacc)" using "3.prems"(1) by (simp add: dict_insert_def)
      have b: "\<forall>(k, v) \<in> set (dict_insert key v dacc). length k < 2 ^ 63 \<and> fits max_rec depth v"
        using "3.prems"(2) v' read_string_short [OF key] set_bt_insert [of key v dacc]
        by (fastforce simp: dict_insert_def)
      from "3.IH"(2) [OF r refl False key refl c refl v refl a b] d show ?thesis by blast
    qed
  qed
qed

lemma parsed_fits: "benc_parse max_rec pad r = Ok (obj, r') \<Longrightarrow> fits max_rec 0 obj"
  unfolding benc_parse_def read_generic_def
  by (clarsimp simp only: and_then_ok_iff split: prod.splits) (use readers_fit(1) in blast)

section \<open>Inputs at the edges\<close>

text \<open>Concrete inputs are run by the simplifier, one step of a reader at a time.\<close>

lemma and_then_weak: "m = m' \<Longrightarrow> and_then m f = and_then m' f"
  by simp

named_theorems benc_run \<open>equations that run the bencode reader and writer\<close>

lemmas [benc_run] = benc_parse_def benc_serialize_def read_generic_def read_generic_with_byte.simps
  read_list.simps read_dict.simps read_int_def read_int_loop.simps read_string_with_byte_def
  read_len_loop.simps is_ascii_digit_def checked_i64_def checked_usize_def i64_range_def write_byte_def
  benc_put_def int_bytes_def dec_bytes.simps write_int_def write_string_def padding_needed_def
  dict_insert_def list_push_def

text \<open>\<open>i64::MIN\<close> is written and refused by the reader.\<close>

lemma min_int_not_read_back:
  "benc_parse 32 False (benc_serialize [] (Object_Integer (- (2 ^ 63))) 0) = Err IntegerOverflow"
  by (simp add: benc_run cong: and_then_weak)

text \<open>The zeros before the end of an empty dictionary are refused, also with padding accepted.\<close>

lemma padded_empty_dict_not_read_back:
  "benc_parse 32 True (benc_serialize [] (Object_Dict []) 3) = Err (StrBadChar 101)"
  by (simp add: benc_run cong: and_then_weak)

text \<open>A dictionary key may lack its length altogether, and then is empty: \<open>d:i1ee\<close>.\<close>

lemma key_without_length_accepted:
  "benc_parse 32 False [100, 58, 105, 49, 101, 101] = Ok (Object_Dict [([], Object_Integer 1)], [])"
  by (simp add: benc_run cong: and_then_weak)

text \<open>The 20 bytes \<open>9223372036854775808:\<close> stop the thread.\<close>

lemma long_string_panics: "benc_parse 32 False [57, 50, 50, 51, 51, 55, 50, 48, 51, 54, 56, 53, 52, 55, 55, 53, 56, 48, 56, 58] = Panic"
  by (simp add: benc_run cong: and_then_weak)

section \<open>Properties\<close>

text \<open>C9: a value with integers above \<open>i64::MIN\<close>, sorted dictionaries and nesting within the
  reader's limit is read back from what the serializer writes, in front of anything; if an
  alignment was requested, the written length (counted from the end of the message) is a multiple
  of it, and a reader that accepts alignment zeros reads the value back all the same, the empty
  dictionary excepted.\<close>

theorem benc_roundtrip:
  assumes "representable obj" and "obj_depth obj \<le> max_rec + 1"
    and "align \<le> 1 \<or> pad" and "align \<le> 1 \<or> obj \<noteq> Object_Dict []"
  shows "benc_parse max_rec pad (benc_serialize w obj align) = Ok (obj, w)
    \<and> (\<forall>d. obj = Object_Dict d \<longrightarrow> align > 1 \<longrightarrow> align dvd length (benc_serialize w obj align))"
  using aligned_reads_back [OF assms] length_aligned
  by (simp add: benc_serialize_def mod_eq_0_iff_dvd del: write_value.simps)

lemma benc_roundtrip_witness:
  "benc_parse 2 True (benc_serialize [7] (Object_Dict [([102, 111], Object_List [Object_Integer (- 5)])]) 8)
     = Ok (Object_Dict [([102, 111], Object_List [Object_Integer (- 5)])], [7])"
  using benc_roundtrip [of "Object_Dict [([102, 111], Object_List [Object_Integer (- 5)])]" 2 8 True "[7]"] by simp

text \<open>Whatever the reader accepts is a sorted value within the limits of nesting, string length
  and integers, so writing it and reading it again gives the same value: the reader normalises
  unsorted and repeated keys, which it does not refuse.\<close>

theorem benc_parse_normalises:
  assumes "benc_parse max_rec pad r = Ok (obj, r')"
  shows "representable obj \<and> obj_depth obj \<le> max_rec + 1
    \<and> benc_parse max_rec pad' (benc_serialize w obj 0) = Ok (obj, w)"
  using parsed_fits [OF assms] aligned_reads_back [of obj max_rec 0 pad' w] by (simp add: fits_def)

text \<open>The key \<open>b\<close> twice, before the key \<open>a\<close>.\<close>

end
