(* ===== verification/Json_Spec.thy ===== *)
theory Json_Spec
  imports Json Benc_Spec
begin

text \<open>
  The JSON reader and writer are inverse on every value, strict mode is a part of lax mode, and
  what the repair of configurations with reversed lists does.
\<close>

section \<open>The reader as a stream\<close>

definition rest_of :: "json_state \<Rightarrow> bytes" where
  "rest_of s = (case js_last s of None \<Rightarrow> js_input s | Some b \<Rightarrow> b # js_input s)"

definition adv :: "json_state \<Rightarrow> json_state" where
  "adv s = snd (json_read_byte s)"

lemma read_rest:
  "rest_of s = b # r \<Longrightarrow> json_read_byte s = (Some b, adv s) \<and> rest_of (adv s) = r \<and> js_last (adv s) = None"
  "rest_of s = [] \<Longrightarrow> json_read_byte s = (None, s)"
  by (auto simp: rest_of_def adv_def json_read_byte_def split: option.splits list.splits)

lemma rest_push_back [simp]: "js_last s = None \<Longrightarrow> rest_of (json_push_back b s) = b # rest_of s"
  by (simp add: rest_of_def json_push_back_def)

lemma rest_next_line [simp]: "rest_of (next_line s) = rest_of s" "js_last (next_line s) = js_last s"
  by (cases "js_last s"; simp add: rest_of_def next_line_def)+

lemma rest_new [simp]: "rest_of (json_new w) = w"
  by (simp add: rest_of_def json_new_def)

definition is_blank :: "u8 \<Rightarrow> bool" where
  "is_blank b \<longleftrightarrow> b = 32 \<or> b = 9 \<or> b = 10"

lemma is_blank_simps [simp]: "is_blank 10" "is_blank 32" "is_blank 9"
  by (simp_all add: is_blank_def)

lemma next_meaningful:
  assumes "list_all is_blank bl" and "rest_of s = bl @ b # r" and "b \<noteq> 47" and "\<not> is_blank b"
  shows "\<exists>s'. next_meaningful_char s = Ok (b, s') \<and> rest_of s' = r \<and> js_last s' = None"
  using assms(1,2)
proof (induction bl arbitrary: s)
  case Nil
  with assms(3,4) read_rest(1) [of s b r] show ?case
    by (subst next_meaningful_char.simps) (auto simp: is_blank_def)
next
  case (Cons c bl)
  have r: "json_read_byte s = (Some c, adv s)" "rest_of (adv s) = bl @ b # r"
    using read_rest(1) [of s c "bl @ b # r"] Cons.prems by auto
  have "c = 10 \<or> c = 32 \<or> c = 9" using Cons.prems(1) by (auto simp: is_blank_def)
  then show ?case
    using r Cons.IH [of "adv s"] Cons.IH [of "next_line (adv s)"] Cons.prems(1)
    by (subst next_meaningful_char.simps) auto
qed

section \<open>Strings\<close>

lemma below_16: "n < 16 \<Longrightarrow> n \<in> {0, 1, 2, 3, 4, 5, 6, 7, 8, 9, 10, 11, 12, 13, 14, 15 :: nat}"
  by (simp only: insert_iff empty_iff) presburger

lemma hex_val_upper [simp]: "n < 16 \<Longrightarrow> hex_val (hex_upper n) = Some n"
  by (drule below_16, elim insertE emptyE) (simp_all add: hex_val_def hex_upper_def is_ascii_digit_def)

lemma hex_upper_ascii [simp]: "n < 16 \<Longrightarrow> hex_upper n \<le> 127 \<and> hex_upper n \<noteq> 43"
  by (drule below_16, elim insertE emptyE) (simp_all add: hex_upper_def)

lemma read_hex_pair:
  assumes "rest_of s = hex_upper (unat byte div 16) # hex_upper (unat byte mod 16) # r"
  shows "\<exists>s'. read_two_hex_digits s = Ok (byte, s') \<and> rest_of s' = r"
proof -
  have h: "unat byte div 16 < 16" "unat byte mod 16 < 16"
    using unsigned_less [of byte, where 'a = nat] by auto
  have v: "u8_from_hex (hex_upper (unat byte div 16)) (hex_upper (unat byte mod 16)) = Some byte"
  proof -
    have "of_nat (unat byte div 16 * 16 + unat byte mod 16) = byte" by (simp only: div_mult_mod_eq) simp
    then show ?thesis using h by (simp only: u8_from_hex_def hex_val_upper hex_upper_ascii bind.simps option.map if_False)
  qed
  have u: "valid_utf8 [hex_upper (unat byte div 16), hex_upper (unat byte mod 16)]"
    using h by simp
  show ?thesis
    using read_rest(1) [OF assms] read_rest(1) [of "adv s"] v u by (auto simp: read_two_hex_digits_def)
qed

lemma json_serialize_string_eq: "json_serialize_string w str = 34 # concat (map json_char str) @ 34 # w"
  by (induction str) (simp_all add: json_serialize_string_def benc_put_def)

lemma read_string_text:
  "rest_of s = concat (map json_char str) @ 34 # w \<Longrightarrow>
     \<exists>s'. json_string_loop acc s = Ok (acc @ str, s') \<and> rest_of s' = w"
proof (induction str arbitrary: acc s)
  case Nil
  with read_rest(1) [of s 34 w] show ?case by (subst json_string_loop.simps) simp
next
  case (Cons b str)
  let ?r = "concat (map json_char str) @ 34 # w"
  show ?case
  proof (cases "b < 126 \<and> b > 31 \<and> b \<noteq> 92 \<and> b \<noteq> 34")
    case True
    then have "json_char b = [b]" unfolding json_char_def by (rule if_P)
    then have "rest_of s = b # ?r" using Cons.prems by simp
    note r = read_rest(1) [OF this]
    with True Cons.IH [of "adv s" "acc @ [b]"] show ?thesis
      by (subst json_string_loop.simps) simp
  next
    case False
    then have "json_char b = [92, 120, hex_upper (unat b div 16), hex_upper (unat b mod 16)]"
      unfolding json_char_def by (rule if_not_P)
    then have "rest_of s = 92 # 120 # hex_upper (unat b div 16) # hex_upper (unat b mod 16) # ?r"
      using Cons.prems by simp
    note r = read_rest(1) [OF this]
    note r' = read_rest(1) [of "adv s", OF r [THEN conjunct2, THEN conjunct1]]
    obtain s3 where h: "read_two_hex_digits (adv (adv s)) = Ok (b, s3)" "rest_of s3 = ?r"
      using read_hex_pair [OF r' [THEN conjunct2, THEN conjunct1]] by blast
    from Cons.IH [OF h(2), of "acc @ [b]"] r r' h(1) show ?thesis
      by (subst json_string_loop.simps) simp
  qed
qed

section \<open>Integers\<close>

definition delimited :: "bytes \<Rightarrow> bool" where
  "delimited w \<longleftrightarrow> (\<forall>b r. w = b # r \<longrightarrow> \<not> is_ascii_digit b \<and> b \<noteq> 45)"

lemma delimited_simps [simp]:
  "delimited []" "delimited (b # r) \<longleftrightarrow> \<not> is_ascii_digit b \<and> b \<noteq> 45"
  by (auto simp: delimited_def)

lemma json_int_loop_text:
  "\<forall>d \<in> set ds. is_ascii_digit d \<or> d = 45 \<Longrightarrow> rest_of s = ds @ w \<Longrightarrow> delimited w \<Longrightarrow>
     \<exists>s'. json_int_loop acc s = (acc @ ds, s') \<and> rest_of s' = w"
proof (induction ds arbitrary: acc s)
  case Nil
  show ?case
  proof (cases w)
    case Nil
    with Nil.prems read_rest(2) [of s] show ?thesis by (subst json_int_loop.simps) simp
  next
    case (Cons b r)
    with Nil.prems read_rest(1) [of s b r] show ?thesis by (subst json_int_loop.simps) simp
  qed
next
  case (Cons d ds)
  with read_rest(1) [of s d "ds @ w"] Cons.IH [of "adv s" "acc @ [d]"] show ?case
    by (subst json_int_loop.simps) auto
qed

lemma parse_digits_dec [simp]: "parse_digits (dec_bytes n) = Some n"
  using dec_bytes_digits [of _ n] dec_val_dec_bytes [of n]
  by (auto simp: parse_digits_def list_all_iff dec_val_def)

lemma parse_i64_int_bytes: "i64_range i \<Longrightarrow> parse_i64 (int_bytes i) = Some i"
proof (cases "i < 0")
  case True
  then show "i64_range i \<Longrightarrow> ?thesis" by (simp add: int_bytes_def parse_i64_def checked_i64_def)
next
  case False
  moreover obtain b ds where "dec_bytes (nat i) = b # ds" "is_ascii_digit b"
    by (rule dec_bytes_Cons [of "nat i"]) auto
  moreover have "b \<noteq> 45" using \<open>is_ascii_digit b\<close> by auto
  moreover have "parse_digits (b # ds) = Some (nat i)" using parse_digits_dec [of "nat i"] calculation(2) by simp
  ultimately show "i64_range i \<Longrightarrow> ?thesis" by (simp add: int_bytes_def parse_i64_def checked_i64_def)
qed

lemma int_bytes_Cons:
  obtains b ds where "int_bytes i = b # ds" "is_ascii_digit b \<or> b = 45" "\<forall>d \<in> set ds. is_ascii_digit d \<or> d = 45"
proof -
  obtain c cs where "dec_bytes (nat (if i < 0 then - i else i)) = c # cs" "\<forall>d \<in> set (c # cs). is_ascii_digit d"
    by (rule dec_bytes_Cons)
  then show ?thesis using that by (cases "i < 0") (auto simp: int_bytes_def)
qed

section \<open>Values\<close>

text \<open>What follows the opening bracket of a list and the opening brace of a dictionary.\<close>

fun items_text :: "nat \<Rightarrow> object list \<Rightarrow> bytes \<Rightarrow> bytes" where
  "items_text lvl [] z = z"
| "items_text lvl (x # l) z =
     10 # json_indent (lvl + 1) @ serialize_reverse x (lvl + 1) (if l = [] then z else 44 # items_text lvl l z)"

fun entries_text :: "nat \<Rightarrow> (bytes \<times> object) list \<Rightarrow> bytes \<Rightarrow> bytes" where
  "entries_text lvl [] z = z"
| "entries_text lvl ((k, v) # d) z =
     json_indent (lvl + 1) @ json_serialize_string
       (58 # 32 # serialize_reverse v (lvl + 1) (if d = [] then z else 44 # 10 # entries_text lvl d z)) k"

lemma serialize_list:
  "serialize_reverse (Object_List l) lvl w =
     91 # (if l = [] then 93 # w else items_text lvl l (10 # json_indent lvl @ 93 # w))"
proof -
  have "foldr (\<lambda>item (lst, w). (False, benc_put [10] (benc_put (json_indent (lvl + 1))
          (serialize_reverse item (lvl + 1) (if lst then w else benc_put [44] w))))) l (True, z)
      = (l = [], items_text lvl l z)" for z
    by (induction l) (auto simp: benc_put_def)
  then show ?thesis by (simp add: serialize_reverse.simps Let_def) (simp add: benc_put_def)
qed

lemma serialize_dict:
  "serialize_reverse (Object_Dict d) lvl w =
     123 # (if d = [] then 125 # w else 10 # entries_text lvl d (10 # json_indent lvl @ 125 # w))"
proof -
  have "foldr (\<lambda>(key, v) (lst, w). (False, benc_put (json_indent (lvl + 1)) (json_serialize_string
          (benc_put [58, 32] (serialize_reverse v (lvl + 1) (if lst then w else benc_put [44, 10] w))) key)))
        d (True, z) = (d = [], entries_text lvl d z)" for z
    by (induction d) (auto simp: benc_put_def)
  then show ?thesis by (simp add: serialize_reverse.simps Let_def) (simp add: benc_put_def)
qed

lemma blank_indent [simp]: "list_all is_blank (json_indent n)" "list_all is_blank (10 # json_indent n)"
  by (auto simp: json_indent_def list_all_iff is_blank_def)

definition json_reads_back :: "bool \<Rightarrow> object \<Rightarrow> bool" where
  "json_reads_back lax obj \<longleftrightarrow> (\<forall>lvl w s. delimited w \<longrightarrow> rest_of s = serialize_reverse obj lvl w \<longrightarrow>
     (\<exists>s'. json_value lax s = Ok (obj, s') \<and> rest_of s' = w))"

lemma json_reads_backD:
  "json_reads_back lax obj \<Longrightarrow> delimited w \<Longrightarrow> rest_of s = serialize_reverse obj lvl w \<Longrightarrow>
     \<exists>s'. json_value lax s = Ok (obj, s') \<and> rest_of s' = w"
  by (auto simp: json_reads_back_def)

lemma starts_value_not [simp]:
  "starts_value b \<Longrightarrow> b \<noteq> 47 \<and> \<not> is_blank b \<and> b \<noteq> 58 \<and> b \<noteq> 93 \<and> b \<noteq> 125 \<and> b \<noteq> 44
    \<and> b \<noteq> 32 \<and> b \<noteq> 9 \<and> b \<noteq> 10"
  by (auto simp: starts_value_def is_blank_def is_ascii_digit_def)

lemma serialize_starts:
  obtains b r where "serialize_reverse obj lvl w = b # r" "starts_value b"
proof (cases obj)
  case (Object_Integer i)
  obtain b ds where "int_bytes i = b # ds" "is_ascii_digit b \<or> b = 45" by (rule int_bytes_Cons)
  with Object_Integer that show ?thesis by (auto simp: serialize_reverse.simps benc_put_def starts_value_def)
qed (use that in \<open>auto simp: serialize_list serialize_dict serialize_reverse.simps json_serialize_string_eq starts_value_def\<close>)

lemma list_text_read:
  assumes "\<forall>x \<in> set l. json_reads_back lax x" and "l \<noteq> []"
    and "rest_of s = items_text lvl l (10 # json_indent lvl @ 93 # w)"
  shows "\<exists>s'. json_list lax acc False s = Ok (acc @ l, s') \<and> rest_of s' = w"
  using assms
proof (induction l arbitrary: acc s)
  case Nil
  then show ?case by simp
next
  case (Cons x l)
  let ?z = "10 # json_indent lvl @ 93 # w"
  let ?w = "if l = [] then ?z else 44 # items_text lvl l ?z"
  obtain b r where b: "serialize_reverse x (lvl + 1) ?w = b # r" "starts_value b" by (rule serialize_starts)
  have s: "rest_of s = (10 # json_indent (lvl + 1)) @ b # r" using Cons.prems(3) b by simp
  obtain s1 where s1: "next_meaningful_char s = Ok (b, s1)" "rest_of s1 = r" "js_last s1 = None"
    using next_meaningful [OF _ s] b(2) by auto
  have x: "json_reads_back lax x" using Cons.prems(1) by simp
  have w: "delimited ?w" by (auto simp: is_ascii_digit_def)
  have r: "rest_of (json_push_back b s1) = serialize_reverse x (lvl + 1) ?w" using s1 b by simp
  obtain s2 where s2: "json_value lax (json_push_back b s1) = Ok (x, s2)" "rest_of s2 = ?w"
    using json_reads_backD [OF x w r] by blast
  have step: "json_list lax acc False s = json_list lax (acc @ [x]) True s2"
    using s1 s2(1) b(2) by (subst json_list.simps) (simp add: list_push_def)
  show ?case
  proof (cases "l = []")
    case True
    then have "rest_of s2 = (10 # json_indent lvl) @ 93 # w" using s2(2) by simp
    then obtain s3 where "next_meaningful_char s2 = Ok (93, s3)" "rest_of s3 = w"
      using next_meaningful [of "10 # json_indent lvl" s2 93 w] by (auto simp: is_blank_def)
    then show ?thesis using step True by (subst (asm) (2) json_list.simps) simp
  next
    case False
    then obtain s3 where s3: "next_meaningful_char s2 = Ok (44, s3)" "rest_of s3 = items_text lvl l ?z"
      using next_meaningful [of "[]" s2 44] s2(2) by (auto simp: is_blank_def)
    then have "json_list lax (acc @ [x]) True s2 = json_list lax (acc @ [x]) False s3"
      by (subst json_list.simps) simp
    then show ?thesis using step Cons.IH [OF _ False s3(2), of "acc @ [x]"] Cons.prems(1) by simp
  qed
qed

lemma dict_text_read:
  assumes "\<forall>(k, v) \<in> set d. json_reads_back lax v" and "d \<noteq> []" and "bt_ok (acc @ d)"
    and "rest_of s = bl @ entries_text lvl d (10 # json_indent lvl @ 125 # w)" and "list_all is_blank bl"
  shows "\<exists>s'. json_dict lax acc False s = Ok (acc @ d, s') \<and> rest_of s' = w"
  using assms
proof (induction d arbitrary: acc s bl)
  case Nil
  then show ?case by simp
next
  case (Cons kv d)
  obtain k v where kv: "kv = (k, v)" by (cases kv)
  let ?z = "10 # json_indent lvl @ 125 # w"
  let ?w = "if d = [] then ?z else 44 # 10 # entries_text lvl d ?z"
  have s: "rest_of s = (bl @ json_indent (lvl + 1)) @ 34 # concat (map json_char k) @ 34 # 58 # 32
      # serialize_reverse v (lvl + 1) ?w"
    using Cons.prems(4) kv by (simp add: json_serialize_string_eq)
  obtain s1 where s1: "next_meaningful_char s = Ok (34, s1)"
    "rest_of s1 = concat (map json_char k) @ 34 # 58 # 32 # serialize_reverse v (lvl + 1) ?w"
    using next_meaningful [OF _ s] Cons.prems(5) by (auto simp: is_blank_def)
  obtain s2 where s2: "json_parse_string s1 = Ok (k, s2)" "rest_of s2 = 58 # 32 # serialize_reverse v (lvl + 1) ?w"
    using read_string_text [OF s1(2), of "[]"] by (auto simp: json_parse_string_def)
  obtain s3 where s3: "next_meaningful_char s2 = Ok (58, s3)" "rest_of s3 = 32 # serialize_reverse v (lvl + 1) ?w"
    using next_meaningful [of "[]" s2 58] s2(2) by (auto simp: is_blank_def)
  obtain b r where b: "serialize_reverse v (lvl + 1) ?w = b # r" "starts_value b" by (rule serialize_starts)
  obtain s4 where s4: "next_meaningful_char s3 = Ok (b, s4)" "rest_of s4 = r" "js_last s4 = None"
    using next_meaningful [of "[32]" s3 b r] s3(2) b by (auto simp: is_blank_def)
  have v: "json_reads_back lax v" using Cons.prems(1) kv by simp
  have w: "delimited ?w" by (auto simp: is_ascii_digit_def)
  have r: "rest_of (json_push_back b s4) = serialize_reverse v (lvl + 1) ?w" using s4 b by simp
  obtain s5 where s5: "json_value lax (json_push_back b s4) = Ok (v, s5)" "rest_of s5 = ?w"
    using json_reads_backD [OF v w r] by blast
  have "json_entry lax False s3 = Ok (v, s5)" using s4 s5 b(2) by (subst json_entry.simps) simp
  then have entry: "json_entry lax True s2 = Ok (v, s5)" using s3 by (subst json_entry.simps) simp
  have ins: "dict_insert k v acc = acc @ [(k, v)]"
    unfolding dict_insert_def using Cons.prems(3) kv by (intro bt_insert_snoc) (auto simp: bt_ok_append)
  have step: "json_dict lax acc False s = json_dict lax (acc @ [(k, v)]) True s5"
    using s1 s2(1) entry ins by (subst json_dict.simps) simp
  show ?case
  proof (cases "d = []")
    case True
    then have "rest_of s5 = (10 # json_indent lvl) @ 125 # w" using s5(2) by simp
    then obtain s6 where "next_meaningful_char s5 = Ok (125, s6)" "rest_of s6 = w"
      using next_meaningful [of "10 # json_indent lvl" s5 125 w] by (auto simp: is_blank_def)
    then show ?thesis using step True kv by (subst (asm) (2) json_dict.simps) simp
  next
    case False
    then obtain s6 where s6: "next_meaningful_char s5 = Ok (44, s6)" "rest_of s6 = [10] @ entries_text lvl d ?z"
      using next_meaningful [of "[]" s5 44] s5(2) by (auto simp: is_blank_def)
    then have "json_dict lax (acc @ [(k, v)]) True s5 = json_dict lax (acc @ [(k, v)]) False s6"
      by (subst json_dict.simps) simp
    then show ?thesis
      using step Cons.IH [OF _ False _ s6(2), of "acc @ [(k, v)]"] Cons.prems(1,3) kv by (simp add: is_blank_def)
  qed
qed

lemma json_reads_back_ok: "obj_ok obj \<Longrightarrow> json_reads_back lax obj"
proof (induction obj)
  case (Object_Bytes b)
  show ?case unfolding json_reads_back_def
  proof (intro allI impI)
    fix lvl w s assume "rest_of s = serialize_reverse (Object_Bytes b) lvl w"
    then have s: "rest_of s = [] @ 34 # concat (map json_char b) @ 34 # w"
      by (simp add: serialize_reverse.simps json_serialize_string_eq)
    obtain s1 where s1: "next_meaningful_char s = Ok (34, s1)" "rest_of s1 = concat (map json_char b) @ 34 # w"
      using next_meaningful [OF _ s] by (auto simp: is_blank_def)
    from s1(1) read_string_text [OF s1(2), of "[]"]
    show "\<exists>s'. json_value lax s = Ok (Object_Bytes b, s') \<and> rest_of s' = w"
      by (subst json_value.simps) (auto simp: json_parse_string_def)
  qed
next
  case (Object_Integer i)
  show ?case unfolding json_reads_back_def
  proof (intro allI impI)
    fix lvl w s assume w: "delimited w" and s: "rest_of s = serialize_reverse (Object_Integer i) lvl w"
    obtain b ds where b: "int_bytes i = b # ds" "is_ascii_digit b \<or> b = 45" "\<forall>d \<in> set ds. is_ascii_digit d \<or> d = 45"
      by (rule int_bytes_Cons)
    then have sv: "starts_value b" by (auto simp: starts_value_def)
    obtain s1 where s1: "next_meaningful_char s = Ok (b, s1)" "rest_of s1 = ds @ w"
      using next_meaningful [of "[]" s b "ds @ w"] s b(1) sv by (auto simp: serialize_reverse.simps benc_put_def)
    obtain s2 where s2: "json_int_loop [b] s1 = (b # ds, s2)" "rest_of s2 = w"
      using json_int_loop_text [OF b(3) s1(2) w, of "[b]"] by auto
    have "json_parse_int b s1 = Ok (i, s2)"
      using s2(1) parse_i64_int_bytes [of i] Object_Integer.prems b(1) by (simp add: json_parse_int_def)
    moreover have "b \<noteq> 123" "b \<noteq> 91" "b \<noteq> 34" using b(2) by (auto simp: is_ascii_digit_def)
    ultimately show "\<exists>s'. json_value lax s = Ok (Object_Integer i, s') \<and> rest_of s' = w"
      using s1(1) s2(2) b(2) by (subst json_value.simps) auto
  qed
next
  case (Object_List l)
  have items: "\<forall>x \<in> set l. json_reads_back lax x" using Object_List by auto
  show ?case unfolding json_reads_back_def
  proof (intro allI impI)
    fix lvl w s assume s: "rest_of s = serialize_reverse (Object_List l) lvl w"
    let ?t = "if l = [] then 93 # w else items_text lvl l (10 # json_indent lvl @ 93 # w)"
    obtain s1 where s1: "next_meaningful_char s = Ok (91, s1)" "rest_of s1 = ?t"
      using next_meaningful [of "[]" s 91 ?t] s by (auto simp: serialize_list is_blank_def)
    have "\<exists>s'. json_list lax [] False s1 = Ok (l, s') \<and> rest_of s' = w"
    proof (cases "l = []")
      case True
      then show ?thesis using next_meaningful [of "[]" s1 93 w] s1(2)
        by (subst json_list.simps) (auto simp: is_blank_def)
    next
      case False
      then show ?thesis using list_text_read [OF items False, of s1 lvl w "[]"] s1(2) by simp
    qed
    with s1(1) show "\<exists>s'. json_value lax s = Ok (Object_List l, s') \<and> rest_of s' = w"
      by (subst json_value.simps) auto
  qed
next
  case (Object_Dict d)
  have entries: "\<forall>(k, v) \<in> set d. json_reads_back lax v" using Object_Dict by fastforce
  show ?case unfolding json_reads_back_def
  proof (intro allI impI)
    fix lvl w s assume s: "rest_of s = serialize_reverse (Object_Dict d) lvl w"
    let ?t = "if d = [] then 125 # w else 10 # entries_text lvl d (10 # json_indent lvl @ 125 # w)"
    obtain s1 where s1: "next_meaningful_char s = Ok (123, s1)" "rest_of s1 = ?t"
      using next_meaningful [of "[]" s 123 ?t] s by (auto simp: serialize_dict is_blank_def)
    have "\<exists>s'. json_dict lax [] False s1 = Ok (d, s') \<and> rest_of s' = w"
    proof (cases "d = []")
      case True
      then show ?thesis using next_meaningful [of "[]" s1 125 w] s1(2)
        by (subst json_dict.simps) (auto simp: is_blank_def)
    next
      case False
      then show ?thesis
        using dict_text_read [OF entries False, of "[]" s1 "[10]" lvl w] s1(2) Object_Dict.prems
        by (simp add: is_blank_def)
    qed
    with s1(1) show "\<exists>s'. json_value lax s = Ok (Object_Dict d, s') \<and> rest_of s' = w"
      by (subst json_value.simps) auto
  qed
qed

lemma json_text_read:
  assumes "obj_ok obj"
  shows "json_parse (json_serialize [] obj) lax = Ok obj"
proof -
  obtain s' where "json_value lax (json_new (json_serialize [] obj)) = Ok (obj, s')"
    using json_reads_backD [OF json_reads_back_ok [OF assms, of lax], of "[]" "json_new (json_serialize [] obj)" 0]
    by (auto simp: json_serialize_def)
  then show ?thesis by (simp add: json_parse_def)
qed

section \<open>Strict mode is a part of lax mode\<close>

lemma json_dict_step:
  "next_meaningful_char s = Ok (byte, s1) \<Longrightarrow> json_dict lax dict need_comma s =
     (if need_comma \<and> byte \<noteq> 125 \<and> byte \<noteq> 44 \<and> \<not> lax then json_fail (DictNoComma byte) s1
     else if byte = 125 then
       if dict \<noteq> [] \<and> \<not> need_comma \<and> \<not> lax then json_fail DictTrailingComma s1 else Ok (dict, s1)
     else if byte = 34 then
       and_then (json_parse_string s1) (\<lambda>(key, s2).
       and_then (json_entry lax True s2) (\<lambda>(v, s3).
       json_dict lax (dict_insert key v dict) True s3))
     else if byte = 44 then
       if \<not> need_comma \<and> \<not> lax then json_fail DictUnexpectedComma s1 else json_dict lax dict False s1
     else json_fail (DictUnexpectedChar byte) s1)"
  by (subst json_dict.simps) simp

lemma json_entry_step:
  "next_meaningful_char s = Ok (byte, s1) \<Longrightarrow> json_entry lax need_colon s =
     (if need_colon \<and> byte \<noteq> 58 \<and> \<not> lax then json_fail (DictNoColon byte) s1
     else if byte = 58 then
       if \<not> need_colon \<and> \<not> lax then json_fail DictTwoColons s1 else json_entry lax False s1
     else if starts_value byte then json_value lax (json_push_back byte s1)
     else json_fail (DictNoValue byte) s1)"
  by (subst json_entry.simps) simp

lemma json_list_step:
  "next_meaningful_char s = Ok (byte, s1) \<Longrightarrow> json_list lax items need_comma s =
     (if need_comma \<and> byte \<noteq> 93 \<and> byte \<noteq> 44 \<and> \<not> lax then json_fail (ListNoComma byte) s1
     else if byte = 93 then
       if items \<noteq> [] \<and> \<not> need_comma \<and> \<not> lax then json_fail ListTrailingComma s1 else Ok (items, s1)
     else if byte = 44 then
       if \<not> need_comma \<and> \<not> lax then json_fail ListUnexpectedComma s1 else json_list lax items False s1
     else if starts_value byte then
       and_then (json_value lax (json_push_back byte s1)) (\<lambda>(obj, s2). json_list lax (list_push obj items) True s2)
     else json_fail (ListUnexpectedChar byte) s1)"
  by (subst json_list.simps) simp

lemma strict_lax:
  "json_value lax s = Ok x \<longrightarrow> json_value True s = Ok x"
  "json_dict lax d n s = Ok y \<longrightarrow> json_dict True d n s = Ok y"
  "json_entry lax n s = Ok x \<longrightarrow> json_entry True n s = Ok x"
  "json_list lax l n s = Ok z \<longrightarrow> json_list True l n s = Ok z"
proof (induction lax s and lax d n s and lax n s and lax l n s arbitrary: x and y and x and z
    rule: json_value_json_dict_json_entry_json_list.induct)
  case (1 lax s)
  show ?case
  proof (cases "next_meaningful_char s")
    case (Ok p)
    obtain byte s1 where "p = (byte, s1)" by (cases p)
    with Ok "1.IH" [of p byte s1] show ?thesis
      by (subst (1 2) json_value.simps) (auto simp: map_ok_ok_iff)
  qed (simp_all add: json_value.simps [of lax])
next
  case (2 lax d n s)
  show ?case
  proof (cases "next_meaningful_char s")
    case (Ok p)
    obtain byte s1 where p: "p = (byte, s1)" by (cases p)
    show ?thesis
    proof
      assume ok: "json_dict lax d n s = Ok y"
      note ok' = ok [unfolded json_dict_step [OF Ok [unfolded p]]]
      have g: "\<not> (n \<and> byte \<noteq> 125 \<and> byte \<noteq> 44 \<and> \<not> lax)" using ok' by (auto split: if_splits)
      consider "byte = 125" | "byte = 34" | "byte = 44" using ok' by (auto split: if_splits)
      then show "json_dict True d n s = Ok y"
      proof cases
        case 1
        with ok' Ok p show ?thesis by (subst json_dict.simps) (auto split: if_splits)
      next
        case 2
        with ok' obtain key s2 v s3 where k: "json_parse_string s1 = Ok (key, s2)"
          and v: "json_entry lax True s2 = Ok (v, s3)" and r: "json_dict lax (dict_insert key v d) True s3 = Ok y"
          by (auto simp: and_then_ok_iff split: if_splits)
        have "json_entry True True s2 = Ok (v, s3)" using "2.IH"(1) [OF Ok p [symmetric] g _ 2 k refl] v 2 by auto
        moreover have "json_dict True (dict_insert key v d) True s3 = Ok y"
          using "2.IH"(2) [OF Ok p [symmetric] g _ 2 k refl v refl] r 2 by auto
        ultimately show ?thesis using Ok p 2 k by (subst json_dict.simps) simp
      next
        case 3
        with ok' have "json_dict lax d False s1 = Ok y" "\<not> (\<not> n \<and> \<not> lax)" by (auto split: if_splits)
        then have "json_dict True d False s1 = Ok y" using "2.IH"(3) [OF Ok p [symmetric] g] 3 by auto
        then show ?thesis using Ok p 3 by (subst json_dict.simps) simp
      qed
    qed
  qed (simp_all add: json_dict.simps [of lax])
next
  case (3 lax n s)
  show ?case
  proof (cases "next_meaningful_char s")
    case (Ok p)
    obtain byte s1 where p: "p = (byte, s1)" by (cases p)
    show ?thesis
    proof
      assume ok: "json_entry lax n s = Ok x"
      note ok' = ok [unfolded json_entry_step [OF Ok [unfolded p]]]
      have g: "\<not> (n \<and> byte \<noteq> 58 \<and> \<not> lax)" using ok' by (auto split: if_splits)
      show "json_entry True n s = Ok x"
      proof (cases "byte = 58")
        case True
        with ok' have "json_entry lax False s1 = Ok x" "\<not> (\<not> n \<and> \<not> lax)" by (auto split: if_splits)
        then have "json_entry True False s1 = Ok x"
          using "3.IH"(1) [OF Ok p [symmetric] g True, of x] by simp
        then show ?thesis using Ok p True by (subst json_entry.simps) simp
      next
        case False
        with ok' have v: "json_value lax (json_push_back byte s1) = Ok x" "starts_value byte" by (auto split: if_splits)
        then have "json_value True (json_push_back byte s1) = Ok x"
          using "3.IH"(2) [OF Ok p [symmetric] g False, of x] by simp
        then show ?thesis using Ok p False v(2) by (subst json_entry.simps) simp
      qed
    qed
  qed (simp_all add: json_entry.simps [of lax])
next
  case (4 lax l n s)
  show ?case
  proof (cases "next_meaningful_char s")
    case (Ok p)
    obtain byte s1 where p: "p = (byte, s1)" by (cases p)
    show ?thesis
    proof
      assume ok: "json_list lax l n s = Ok z"
      note ok' = ok [unfolded json_list_step [OF Ok [unfolded p]]]
      have g: "\<not> (n \<and> byte \<noteq> 93 \<and> byte \<noteq> 44 \<and> \<not> lax)" using ok' by (auto split: if_splits)
      consider "byte = 93" | "byte = 44" | "byte \<noteq> 93" "byte \<noteq> 44" by blast
      then show "json_list True l n s = Ok z"
      proof cases
        case 1
        with ok' Ok p show ?thesis by (subst json_list.simps) (auto split: if_splits)
      next
        case 2
        with ok' have "json_list lax l False s1 = Ok z" "\<not> (\<not> n \<and> \<not> lax)" by (auto split: if_splits)
        then have "json_list True l False s1 = Ok z" using "4.IH"(1) [OF Ok p [symmetric] g] 2 by auto
        then show ?thesis using Ok p 2 by (subst json_list.simps) simp
      next
        case 3
        with ok' obtain obj s2 where v: "json_value lax (json_push_back byte s1) = Ok (obj, s2)"
          and r: "json_list lax (list_push obj l) True s2 = Ok z" and b: "starts_value byte"
          by (auto simp: and_then_ok_iff split: if_splits)
        have "json_value True (json_push_back byte s1) = Ok (obj, s2)"
          using "4.IH"(2) [OF Ok p [symmetric] g 3 b] v by auto
        moreover have "json_list True (list_push obj l) True s2 = Ok z"
          using "4.IH"(3) [OF Ok p [symmetric] g 3 b v refl] r by auto
        ultimately show ?thesis using Ok p 3 b by (subst json_list.simps) simp
      qed
    qed
  qed (simp_all add: json_list.simps [of lax])
qed

section \<open>What the reader returns\<close>

lemma parse_i64_range: "parse_i64 str = Some i \<Longrightarrow> i64_range i"
  by (auto simp: parse_i64_def checked_i64_def bind_eq_Some_conv split: list.splits if_splits)

lemma dict_insert_obj_ok:
  assumes "bt_ok d \<and> (\<forall>(k, v) \<in> set d. obj_ok v)" and "obj_ok v"
  shows "bt_ok (dict_insert key v d) \<and> (\<forall>(k, v) \<in> set (dict_insert key v d). obj_ok v)"
proof -
  have "obj_ok v'" if "(k', v') \<in> set (bt_insert key v d)" for k' v'
    using that set_bt_insert [of key v d] assms by auto
  then show ?thesis using assms(1) by (auto simp: dict_insert_def)
qed

lemma json_results_ok:
  "json_value lax s = Ok x \<longrightarrow> obj_ok (fst x)"
  "bt_ok d \<and> (\<forall>(k, v) \<in> set d. obj_ok v) \<longrightarrow> json_dict lax d n s = Ok y \<longrightarrow> obj_ok (Object_Dict (fst y))"
  "json_entry lax n s = Ok x \<longrightarrow> obj_ok (fst x)"
  "(\<forall>v \<in> set l. obj_ok v) \<longrightarrow> json_list lax l n s = Ok z \<longrightarrow> obj_ok (Object_List (fst z))"
proof (induction lax s and lax d n s and lax n s and lax l n s arbitrary: x and y and x and z
    rule: json_value_json_dict_json_entry_json_list.induct)
  case (1 lax s)
  show ?case
  proof
    assume ok: "json_value lax s = Ok x"
    then obtain byte s1 where c: "next_meaningful_char s = Ok (byte, s1)"
      by (subst (asm) json_value.simps) (auto simp: and_then_ok_iff)
    with ok consider (dict) d s2 where "byte \<noteq> 91" "byte = 123" "x = (Object_Dict d, s2)" "json_dict lax [] False s1 = Ok (d, s2)"
      | (list) l s2 where "byte \<noteq> 123" "byte = 91" "x = (Object_List l, s2)" "json_list lax [] False s1 = Ok (l, s2)"
      | (str) b s2 where "x = (Object_Bytes b, s2)"
      | (int) i s2 where "x = (Object_Integer i, s2)" "json_parse_int byte s1 = Ok (i, s2)"
      by (subst (asm) json_value.simps) (auto simp: map_ok_ok_iff split: if_splits)
    then show "obj_ok (fst x)"
    proof cases
      case dict
      with "1.IH"(1) [OF c refl, of "(d, s2)"] show ?thesis by simp
    next
      case list
      with "1.IH"(2) [OF c refl, of "(l, s2)"] show ?thesis by simp
    next
      case int
      then show ?thesis by (auto simp: json_parse_int_def dest: parse_i64_range split: prod.splits option.splits)
    qed simp
  qed
next
  case (2 lax d n s)
  show ?case
  proof (intro impI)
    assume d: "bt_ok d \<and> (\<forall>(k, v) \<in> set d. obj_ok v)" and ok: "json_dict lax d n s = Ok y"
    from ok obtain byte s1 where c: "next_meaningful_char s = Ok (byte, s1)"
      by (subst (asm) json_dict.simps) (auto simp: and_then_ok_iff)
    note ok' = ok [unfolded json_dict_step [OF c]]
    have g: "\<not> (n \<and> byte \<noteq> 125 \<and> byte \<noteq> 44 \<and> \<not> lax)" using ok' by (auto split: if_splits)
    consider "byte = 125" | "byte = 34" | "byte = 44" using ok' by (auto split: if_splits)
    then show "obj_ok (Object_Dict (fst y))"
    proof cases
      case 1
      with ok' d show ?thesis by (auto split: if_splits)
    next
      case 2
      with ok' obtain key s2 v s3 where k: "json_parse_string s1 = Ok (key, s2)"
        and v: "json_entry lax True s2 = Ok (v, s3)" and r: "json_dict lax (dict_insert key v d) True s3 = Ok y"
        by (auto simp: and_then_ok_iff split: if_splits)
      have "obj_ok v" using "2.IH"(1) [OF c refl g _ 2 k refl, of "(v, s3)"] v 2 by auto
      then have a: "bt_ok (dict_insert key v d) \<and> (\<forall>(k, v) \<in> set (dict_insert key v d). obj_ok v)"
        by (rule dict_insert_obj_ok [OF d])
      then show ?thesis using "2.IH"(2) [OF c refl g _ 2 k refl v refl, of y] r 2 a by simp
    next
      case 3
      with ok' have "json_dict lax d False s1 = Ok y" "\<not> (\<not> n \<and> \<not> lax)" by (auto split: if_splits)
      then show ?thesis using "2.IH"(3) [OF c refl g, of y] 3 d by auto
    qed
  qed
next
  case (3 lax n s)
  show ?case
  proof
    assume ok: "json_entry lax n s = Ok x"
    then obtain byte s1 where c: "next_meaningful_char s = Ok (byte, s1)"
      by (subst (asm) json_entry.simps) (auto simp: and_then_ok_iff)
    note ok' = ok [unfolded json_entry_step [OF c]]
    have g: "\<not> (n \<and> byte \<noteq> 58 \<and> \<not> lax)" using ok' by (auto split: if_splits)
    show "obj_ok (fst x)"
    proof (cases "byte = 58")
      case True
      with ok' have "json_entry lax False s1 = Ok x" "\<not> (\<not> n \<and> \<not> lax)" by (auto split: if_splits)
      then show ?thesis using "3.IH"(1) [OF c refl g True, of x] by simp
    next
      case False
      with ok' have "json_value lax (json_push_back byte s1) = Ok x" "starts_value byte" by (auto split: if_splits)
      then show ?thesis using "3.IH"(2) [OF c refl g False, of x] by simp
    qed
  qed
next
  case (4 lax l n s)
  show ?case
  proof (intro impI)
    assume l: "\<forall>v \<in> set l. obj_ok v" and ok: "json_list lax l n s = Ok z"
    from ok obtain byte s1 where c: "next_meaningful_char s = Ok (byte, s1)"
      by (subst (asm) json_list.simps) (auto simp: and_then_ok_iff)
    note ok' = ok [unfolded json_list_step [OF c]]
    have g: "\<not> (n \<and> byte \<noteq> 93 \<and> byte \<noteq> 44 \<and> \<not> lax)" using ok' by (auto split: if_splits)
    consider "byte = 93" | "byte = 44" | "byte \<noteq> 93" "byte \<noteq> 44" by blast
    then show "obj_ok (Object_List (fst z))"
    proof cases
      case 1
      with ok' l show ?thesis by (auto split: if_splits)
    next
      case 2
      with ok' have "json_list lax l False s1 = Ok z" "\<not> (\<not> n \<and> \<not> lax)" by (auto split: if_splits)
      then show ?thesis using "4.IH"(1) [OF c refl g, of z] 2 l by auto
    next
      case 3
      with ok' obtain obj s2 where v: "json_value lax (json_push_back byte s1) = Ok (obj, s2)"
        and r: "json_list lax (list_push obj l) True s2 = Ok z" and b: "starts_value byte"
        by (auto simp: and_then_ok_iff split: if_splits)
      have "obj_ok obj" using "4.IH"(2) [OF c refl g 3 b, of "(obj, s2)"] v by auto
      then have "\<forall>v \<in> set (list_push obj l). obj_ok v" using l by (simp add: list_push_def)
      then show ?thesis using "4.IH"(3) [OF c refl g 3 b v refl, of z] r by blast
    qed
  qed
qed

lemma json_parse_ok: "json_parse input lax = Ok obj \<Longrightarrow> obj_ok obj"
  unfolding json_parse_def using json_results_ok(1) by (auto simp: map_ok_ok_iff)

section \<open>Configurations\<close>

lemma read_conf_ok: "read_conf conf = Ok d \<Longrightarrow> obj_ok (Object_Dict d)"
proof -
  have d: "as_dict obj = Ok d \<Longrightarrow> obj = Object_Dict d" for obj by (cases obj) auto
  assume "read_conf conf = Ok d"
  then obtain lax obj where "json_parse conf lax = Ok obj" "as_dict obj = Ok d"
    unfolding read_conf_def by (auto simp: ok_iff Let_def split: result.splits if_splits)
  with json_parse_ok d show ?thesis by metis
qed

lemma read_conf_strict: "json_parse conf False = Ok (Object_Dict d) \<Longrightarrow> read_conf conf = Ok d"
  by (simp add: read_conf_def)

lemma fix_obj_ok: "obj_ok obj \<Longrightarrow> obj_ok (conf_fix_list_order_quirk obj)"
proof (induction obj)
  case (Object_Dict d)
  have "map fst (map (\<lambda>(k, v). (k, conf_fix_list_order_quirk v)) d) = map fst d" by (induction d) auto
  then have "bt_ok (map (\<lambda>(k, v). (k, conf_fix_list_order_quirk v)) d)"
    using Object_Dict.prems by (simp add: bt_ok_def del: map_map)
  moreover have "obj_ok (conf_fix_list_order_quirk v)" if "(k, v) \<in> set d" for k v
    using Object_Dict that by fastforce
  ultimately show ?case by auto
qed auto

lemma fix_involutive: "conf_fix_list_order_quirk (conf_fix_list_order_quirk obj) = obj"
proof (induction obj)
  case (Object_Dict d)
  then have "map (\<lambda>(k, v). (k, conf_fix_list_order_quirk (conf_fix_list_order_quirk v))) d = d"
    by (intro map_idI) auto
  then show ?case by (simp add: case_prod_unfold comp_def)
next
  case (Object_List l)
  then have "map (\<lambda>x. conf_fix_list_order_quirk (conf_fix_list_order_quirk x)) l = l"
    by (intro map_idI) auto
  then show ?case by (simp add: rev_map comp_def)
qed auto

lemma check_fix_cases:
  "conf_check_fix_list_order_quirk conf =
     (case bt_get str_security conf of
        Some (Object_List (Object_Dict d # _)) \<Rightarrow>
          (case bt_get str_setupComplete d of
             None \<Rightarrow> Ok conf
           | Some (Object_Dict _) \<Rightarrow> Ok (map (\<lambda>(k, v). (k, conf_fix_list_order_quirk v)) conf)
           | Some _ \<Rightarrow> Err (ConfObject IncorrectType))
      | Some (Object_List _) \<Rightarrow> Err SecurityFirstNotADict
      | _ \<Rightarrow> Err SecurityNotAList)"
  by (auto simp: conf_check_fix_list_order_quirk_def try_get_list_def try_get_dict_def try_get_def dict_try_get_obj_def
      list_try_get_obj_def map_ok_ok_iff split: option.splits object.splits list.splits)

lemma check_fix_ok:
  assumes "obj_ok (Object_Dict d)" and "conf_check_fix_list_order_quirk d = Ok d'"
  shows "obj_ok (Object_Dict d')"
proof -
  from assms(2) have "d' = d \<or> Object_Dict d' = conf_fix_list_order_quirk (Object_Dict d)"
    unfolding conf_check_fix_list_order_quirk_def by (auto simp: and_then_ok_iff split: if_splits)
  with fix_obj_ok [OF assms(1)] assms(1) show ?thesis by auto
qed

lemma clean_conf_reads_back:
  assumes "clean_conf conf = Ok out"
  obtains d d' where "read_conf conf = Ok d" "conf_check_fix_list_order_quirk d = Ok d'" "read_conf out = Ok d'"
proof -
  from assms obtain d d' where d: "read_conf conf = Ok d" "conf_check_fix_list_order_quirk d = Ok d'"
    and out: "out = json_serialize [] (Object_Dict d')"
    by (auto simp: clean_conf_def and_then_ok_iff)
  have "obj_ok (Object_Dict d')" using check_fix_ok [OF read_conf_ok] d by blast
  then have "read_conf out = Ok d'" unfolding out by (intro read_conf_strict json_text_read)
  with that d show ?thesis by blast
qed

section \<open>Inputs at the edges\<close>

text \<open>An unterminated string is a value, and \<open>"\x+5"\<close> is the byte 5.\<close>

lemmas json_run = json_parse_def json_new_def json_value.simps json_dict.simps json_entry.simps json_list.simps
  next_meaningful_char.simps json_read_byte_def json_parse_string_def json_string_loop.simps read_two_hex_digits_def
  u8_from_hex_def hex_val_def is_ascii_digit_def json_parse_int_def json_int_loop.simps parse_i64_def parse_digits_def
  checked_i64_def i64_range_def json_push_back_def json_fail_def next_line_def handle_comment_def
  consume_multiline_comment.simps consume_singleline_comment.simps dict_insert_def list_push_def starts_value_def

lemma unterminated_string_accepted: "json_parse [34, 97] False = Ok (Object_Bytes [97])"
  by (simp add: json_run cong: and_then_weak)

lemma plus_hex_accepted: "json_parse [34, 92, 120, 43, 53, 34] False = Ok (Object_Bytes [5])"
  by (simp add: json_run cong: and_then_weak)

text \<open>The byte after an asterisk is skipped, so two asterisks and a slash do not end a comment: in
  \<open>/***/1\<close> the number is part of the comment.\<close>

lemma double_asterisk_does_not_close:
  "json_parse [47, 42, 42, 42, 47, 49] False = Err (MalformedInput RanOut 1)"
  by (simp add: json_run cong: and_then_weak)

section \<open>Repaired configurations\<close>

text \<open>The same value with every list, at any depth, in the opposite order.\<close>

inductive mirrored :: "object \<Rightarrow> object \<Rightarrow> bool" where
  mirrored_dict: "map fst d' = map fst d \<Longrightarrow> (\<forall>i < length d. mirrored (snd (d ! i)) (snd (d' ! i)))
     \<Longrightarrow> mirrored (Object_Dict d) (Object_Dict d')"
| mirrored_list: "length l' = length l \<Longrightarrow> (\<forall>i < length l. mirrored (l ! i) (l' ! (length l - 1 - i)))
     \<Longrightarrow> mirrored (Object_List l) (Object_List l')"
| mirrored_integer: "mirrored (Object_Integer i) (Object_Integer i)"
| mirrored_bytes: "mirrored (Object_Bytes b) (Object_Bytes b)"

inductive_simps mirrored_simps:
  "mirrored (Object_Dict d) y" "mirrored (Object_List l) y" "mirrored (Object_Integer i) y" "mirrored (Object_Bytes b) y"

lemma fix_mirrored: "mirrored x (conf_fix_list_order_quirk x)"
proof (induction x)
  case (Object_Dict d)
  have "mirrored (snd (d ! i)) (snd (map (\<lambda>(k, v). (k, conf_fix_list_order_quirk v)) d ! i))" if "i < length d" for i
  proof -
    obtain k v where kv: "d ! i = (k, v)" by force
    then have "(k, v) \<in> set d" using that nth_mem by metis
    then have "mirrored v (conf_fix_list_order_quirk v)" by (rule Object_Dict) simp
    then show ?thesis using kv that by simp
  qed
  then show ?case by (simp add: mirrored_simps case_prod_beta)
next
  case (Object_List l)
  have "mirrored (l ! i) (rev (map conf_fix_list_order_quirk l) ! (length l - 1 - i))" if "i < length l" for i
    using Object_List [of "l ! i"] that by (simp add: rev_nth)
  then show ?case by (simp add: mirrored_simps)
qed (simp_all add: mirrored_simps)

text \<open>It is determined by the original.\<close>

lemma mirrored_unique: "mirrored x y \<Longrightarrow> mirrored x z \<Longrightarrow> y = z"
proof (induction arbitrary: z rule: mirrored.induct)
  case (mirrored_dict d' d)
  from mirrored_dict.prems obtain e where z: "z = Object_Dict e" "map fst e = map fst d" "\<forall>i < length d. mirrored (snd (d ! i)) (snd (e ! i))"
    by (auto simp: mirrored_simps)
  have len: "length d' = length d" "length e = length d" using mirrored_dict.hyps(1) z(2) by (metis length_map)+
  have "d' ! i = e ! i" if "i < length d" for i
  proof -
    have "fst (d' ! i) = fst (e ! i)" using that len mirrored_dict.hyps(1) z(2) by (metis nth_map)
    moreover have "snd (d' ! i) = snd (e ! i)" using that z(3) mirrored_dict.IH by blast
    ultimately show ?thesis by (simp add: prod_eq_iff)
  qed
  then show ?case using z(1) len by (simp add: list_eq_iff_nth_eq)
next
  case (mirrored_list l' l)
  from mirrored_list.prems obtain k where z: "z = Object_List k" "length k = length l" "\<forall>i < length l. mirrored (l ! i) (k ! (length l - 1 - i))"
    by (auto simp: mirrored_simps)
  have "l' ! i = k ! i" if "i < length l" for i
  proof -
    have "length l - 1 - i < length l" "length l - 1 - (length l - 1 - i) = i" using that by auto
    then show ?thesis using mirrored_list.IH z(3) by metis
  qed
  then show ?case using z mirrored_list.hyps(1) by (simp add: list_eq_iff_nth_eq)
qed (simp_all add: mirrored_simps)

text \<open>The texts that are read as a configuration: those that parse strictly, and old ones that only parse leniently.\<close>

inductive conf_text :: "bytes \<Rightarrow> (bytes \<times> object) list \<Rightarrow> bool" where
  conf_strict: "json_parse conf False = Ok (Object_Dict d) \<Longrightarrow> conf_text conf d"
| conf_lax: "json_parse conf False = Err e \<Longrightarrow> json_parse conf True = Ok (Object_Dict d)
     \<Longrightarrow> bt_get str_version d = None \<or> (\<exists>i \<le> 1. bt_get str_version d = Some (Object_Integer i)) \<Longrightarrow> conf_text conf d"

lemma version_check:
  "and_then (map_err ConfObject (try_get_int dict_try_get_obj c str_version)) (\<lambda>v.
       let ver = (case v of None \<Rightarrow> 0 | Some i \<Rightarrow> i) in if ver > 1 then Err (ConfVersion ver) else Ok c) = Ok d
   \<longleftrightarrow> d = c \<and> (bt_get str_version c = None \<or> (\<exists>i \<le> 1. bt_get str_version c = Some (Object_Integer i)))"
proof (cases "bt_get str_version c")
  case (Some x)
  then show ?thesis by (cases x) (auto simp: try_get_int_def try_get_def dict_try_get_obj_def Let_def)
qed (auto simp: try_get_int_def try_get_def dict_try_get_obj_def Let_def)

lemma as_dict_iff: "as_dict x = Ok c \<longleftrightarrow> x = Object_Dict c"
  by (cases x) auto

lemma read_conf_text: "read_conf conf = Ok d \<longleftrightarrow> conf_text conf d"
proof (cases "json_parse conf False")
  case (Err e)
  have "read_conf conf = Ok d \<longleftrightarrow> (\<exists>c. json_parse conf True = Ok (Object_Dict c) \<and> d = c
      \<and> (bt_get str_version c = None \<or> (\<exists>i \<le> 1. bt_get str_version c = Some (Object_Integer i))))"
  proof -
    have "read_conf conf = and_then (map_err ConfJson (json_parse conf True)) (\<lambda>x. and_then (map_err (\<lambda>_. ConfNotADict) (as_dict x)) (\<lambda>c.
        and_then (map_err ConfObject (try_get_int dict_try_get_obj c str_version)) (\<lambda>v.
          let ver = (case v of None \<Rightarrow> 0 | Some i \<Rightarrow> i) in if ver > 1 then Err (ConfVersion ver) else Ok c)))"
      using Err by (simp add: read_conf_def)
    then show ?thesis
      by (simp only: and_then_ok_iff [where b = d and f = "\<lambda>x. and_then (map_err (\<lambda>_. ConfNotADict) (as_dict x)) _"]
        and_then_ok_iff [where m = "map_err (\<lambda>_. ConfNotADict) _"] version_check map_err_ok_iff as_dict_iff) blast
  qed
  then show ?thesis using Err by (auto simp: conf_text.simps)
qed (auto simp: read_conf_def conf_text.simps as_dict_iff)

section \<open>Properties\<close>

text \<open>C11: a value with sorted dictionaries and integers in range is read back, in either mode, from
  what the JSON serializer writes, whatever bytes its strings hold.\<close>

theorem json_roundtrip:
  assumes "obj_ok obj"
  shows "json_parse (json_serialize [] obj) lax = Ok obj"
  using assms by (rule json_text_read)

lemma json_roundtrip_witness:
  "json_parse (json_serialize [] (Object_Dict [([0, 34], Object_List [Object_Integer (- (2 ^ 63)), Object_Dict []])])) False
     = Ok (Object_Dict [([0, 34], Object_List [Object_Integer (- (2 ^ 63)), Object_Dict []])])"
  by (rule json_roundtrip) (simp add: i64_range_def)

text \<open>Strict mode is a part of lax mode: what the JSON parser accepts in strict mode it reads as
  the same value in lax mode, and the value is well formed.\<close>

theorem json_strict_is_lax:
  assumes "json_parse input False = Ok obj"
  shows "json_parse input True = Ok obj \<and> obj_ok obj"
proof
  from assms obtain s' where "json_value False (json_new input) = Ok (obj, s')"
    by (auto simp: json_parse_def map_ok_ok_iff)
  then show "json_parse input True = Ok obj" using strict_lax(1) by (simp add: json_parse_def)
qed (rule json_parse_ok [OF assms])

text \<open>The list \<open>[ 1, "a"]\<close>.\<close>

text \<open>C10: what \<open>cleanconf\<close> does with any input. A configuration is a text that is a dictionary in strict
  JSON, or failing that in the lenient dialect with no version above 1; anything else is an error. If the
  first entry of \<open>security\<close> has no \<open>setupComplete\<close>, the output reads back as the configuration; if it is a
  dictionary, as the configuration with every list at any depth reversed; if it is anything else, such as
  the integer that configurations carry, that is an error, so no such configuration is repaired. A missing
  \<open>security\<close> and one that is not a list with a dictionary in front are errors.\<close>

theorem clean_conf_repairs:
  "((\<nexists>d. conf_text conf d) \<longrightarrow> (\<forall>out. clean_conf conf \<noteq> Ok out))
   \<and> (\<forall>d. conf_text conf d \<longrightarrow>
      (case bt_get str_security d of
         Some (Object_List (Object_Dict e # es)) \<Rightarrow>
           (case bt_get str_setupComplete e of
              None \<Rightarrow> (\<exists>out. clean_conf conf = Ok out \<and> conf_text out d)
            | Some (Object_Dict _) \<Rightarrow>
                (\<exists>out d'. clean_conf conf = Ok out \<and> conf_text out d' \<and> mirrored (Object_Dict d) (Object_Dict d'))
            | Some _ \<Rightarrow> clean_conf conf = Err (ConfObject IncorrectType))
       | Some (Object_List _) \<Rightarrow> clean_conf conf = Err SecurityFirstNotADict
       | _ \<Rightarrow> clean_conf conf = Err SecurityNotAList))"
proof (intro conjI impI allI)
  fix out
  assume "\<nexists>d. conf_text conf d"
  then show "clean_conf conf \<noteq> Ok out" by (auto simp: read_conf_text [symmetric] clean_conf_def and_then_ok_iff)
next
  fix d
  assume d: "conf_text conf d"
  have fails: "clean_conf conf = Err e" if "conf_check_fix_list_order_quirk d = Err e" for e
    using that d by (simp add: clean_conf_def read_conf_text [symmetric])
  have writes: "\<exists>out. clean_conf conf = Ok out \<and> conf_text out d'" if "conf_check_fix_list_order_quirk d = Ok d'" for d'
  proof -
    have "clean_conf conf = Ok (json_serialize [] (Object_Dict d'))"
      using that d by (simp add: clean_conf_def read_conf_text [symmetric])
    then show ?thesis using clean_conf_reads_back d that unfolding read_conf_text [symmetric] by (metis result.inject(1))
  qed
  have m: "mirrored (Object_Dict d) (Object_Dict (map (\<lambda>(k, v). (k, conf_fix_list_order_quirk v)) d))"
    using fix_mirrored [of "Object_Dict d"] by simp
  show "case bt_get str_security d of
         Some (Object_List (Object_Dict e # es)) \<Rightarrow>
           (case bt_get str_setupComplete e of
              None \<Rightarrow> (\<exists>out. clean_conf conf = Ok out \<and> conf_text out d)
            | Some (Object_Dict _) \<Rightarrow>
                (\<exists>out d'. clean_conf conf = Ok out \<and> conf_text out d' \<and> mirrored (Object_Dict d) (Object_Dict d'))
            | Some _ \<Rightarrow> clean_conf conf = Err (ConfObject IncorrectType))
       | Some (Object_List _) \<Rightarrow> clean_conf conf = Err SecurityFirstNotADict
       | _ \<Rightarrow> clean_conf conf = Err SecurityNotAList"
    using check_fix_cases [of d] m
    by (split option.split, safe; (split object.split, safe)?; (split list.split, safe)?; (split object.split, safe)?;
        (split option.split, safe)?; (split object.split, safe)?) (auto intro: fails writes dest!: writes)
qed

text \<open>\<open>{"peers": [1, 2], "security": [{"setupComplete": {}}, 3]}\<close>, as the serializer prints it, and with the integer.\<close>

lemma clean_conf_repairs_witness:
  "(\<exists>out. clean_conf (json_serialize [] (Object_Dict [([112], Object_List [Object_Integer 1, Object_Integer 2]),
      (str_security, Object_List [Object_Dict [(str_setupComplete, Object_Dict [])], Object_Integer 3])])) = Ok out
     \<and> read_conf out = Ok [([112], Object_List [Object_Integer 2, Object_Integer 1]),
      (str_security, Object_List [Object_Integer 3, Object_Dict [(str_setupComplete, Object_Dict [])]])])"
proof -
  let ?d = "[([112], Object_List [Object_Integer 1, Object_Integer 2]),
      (str_security, Object_List [Object_Dict [(str_setupComplete, Object_Dict [])], Object_Integer 3])]"
  let ?d' = "[([112], Object_List [Object_Integer 2, Object_Integer 1]),
      (str_security, Object_List [Object_Integer 3, Object_Dict [(str_setupComplete, Object_Dict [])]])]"
  have ok: "obj_ok (Object_Dict ?d)" by (simp add: i64_range_def bt_ok_def str_security_def str_setupComplete_def)
  then have r: "conf_text (json_serialize [] (Object_Dict ?d)) ?d"
    unfolding read_conf_text [symmetric] by (intro read_conf_strict json_text_read)
  have m: "mirrored (Object_Dict ?d) (Object_Dict ?d')"
    by (auto simp: mirrored_simps less_Suc_eq nth_Cons')
  obtain out d' where "clean_conf (json_serialize [] (Object_Dict ?d)) = Ok out" "conf_text out d'"
    "mirrored (Object_Dict ?d) (Object_Dict d')"
  proof -
    have g: "bt_get str_security ?d = Some (Object_List [Object_Dict [(str_setupComplete, Object_Dict [])], Object_Integer 3])"
      by (simp add: str_security_def)
    have "bt_get str_setupComplete [(str_setupComplete, Object_Dict [])] = Some (Object_Dict [])" by simp
    with clean_conf_repairs [of "json_serialize [] (Object_Dict ?d)", THEN conjunct2, rule_format, OF r, unfolded g] that
    show thesis by auto
  qed
  then show ?thesis using mirrored_unique [OF m] by (auto simp: read_conf_text)
qed

end
