(* ===== verification/Bytes.thy ===== *)
theory Bytes
  imports Prelude
begin

text \<open>
  Conversion between machine integers and their big-endian bytes, as Rust's \<open>to_be_bytes\<close> and
  \<open>from_be_bytes\<close> do it, for every width that is a multiple of 8.
\<close>

fun be_bytes :: "nat \<Rightarrow> nat \<Rightarrow> bytes" where
  "be_bytes 0 v = []"
| "be_bytes (Suc n) v = be_bytes n (v div 256) @ [word_of_nat v]"

definition be_val :: "bytes \<Rightarrow> nat" where
  "be_val bs = foldl (\<lambda>acc b. acc * 256 + unat b) 0 bs"

definition to_be_bytes :: "'a::len word \<Rightarrow> bytes" where
  "to_be_bytes w = be_bytes (LENGTH('a) div 8) (unat w)"

definition from_be_bytes :: "bytes \<Rightarrow> 'a::len word" where
  "from_be_bytes bs = word_of_nat (be_val bs)"

lemma be_bytes_numeral [simp]:
  "be_bytes (numeral k) v = be_bytes (pred_numeral k) (v div 256) @ [word_of_nat v]"
  by (subst numeral_eq_Suc) (rule be_bytes.simps)

lemma unat_u8_less [simp]: "unat (b :: u8) < 256"
  using unsigned_less [of b, where ?'a = nat] by simp

lemma length_be_bytes [simp]: "length (be_bytes n v) = n"
  by (induction n arbitrary: v) auto

lemma be_val_Nil [simp]: "be_val [] = 0"
  by (simp add: be_val_def)

lemma be_val_snoc [simp]: "be_val (bs @ [b]) = be_val bs * 256 + unat b"
  by (simp add: be_val_def)

lemma be_val_less: "be_val bs < 256 ^ length bs"
proof (induction bs rule: rev_induct)
  case Nil
  show ?case by simp
next
  case (snoc b bs)
  then have "be_val bs * 256 + unat b < 256 * 256 ^ length bs"
    using unat_u8_less [of b] by linarith
  then show ?case by simp
qed

lemma unat_byte_of_nat [simp]: "unat (word_of_nat v :: u8) = v mod 256"
  by (simp add: unat_of_nat)

lemma be_val_be_bytes [simp]: "be_val (be_bytes n v) = v mod 256 ^ n"
proof (induction n arbitrary: v)
  case 0
  show ?case by simp
next
  case (Suc n)
  have "v mod 256 ^ Suc n = 256 * (v div 256 mod 256 ^ n) + v mod 256"
    by (simp add: mod_mult2_eq)
  then show ?case using Suc [of "v div 256"] by simp
qed

lemma be_bytes_be_val [simp]: "be_bytes (length bs) (be_val bs) = bs"
proof (induction bs rule: rev_induct)
  case Nil
  show ?case by simp
next
  case (snoc b bs)
  have "(256 :: u8) = 0" by simp
  then have "(word_of_nat (be_val bs * 256 + unat b) :: u8) = b"
    by (simp only: of_nat_add of_nat_mult of_nat_numeral of_nat_unat mult_zero_right add_0 ucast_id)
  with snoc show ?case by simp
qed

lemma length_to_be_bytes [simp]: "length (to_be_bytes (w :: 'a::len word)) = LENGTH('a) div 8"
  by (simp add: to_be_bytes_def)

lemma pow256_eq: "8 dvd k \<Longrightarrow> (256::nat) ^ (k div 8) = 2 ^ k"
proof -
  assume "8 dvd k"
  have "(256::nat) ^ (k div 8) = (2 ^ 8) ^ (k div 8)" by simp
  also have "\<dots> = 2 ^ (8 * (k div 8))" by (simp only: power_mult)
  finally show ?thesis using \<open>8 dvd k\<close> by simp
qed

lemma from_to_be_bytes:
  assumes "8 dvd LENGTH('a)"
  shows "from_be_bytes (to_be_bytes (w :: 'a::len word)) = w"
  using assms by (simp add: from_be_bytes_def to_be_bytes_def pow256_eq)

lemma to_from_be_bytes:
  assumes "LENGTH('a) = 8 * length bs"
  shows "to_be_bytes (from_be_bytes bs :: 'a::len word) = bs"
proof -
  have "(256::nat) ^ length bs = 2 ^ LENGTH('a)"
    using pow256_eq [of "LENGTH('a)"] assms by simp
  then have "unat (word_of_nat (be_val bs) :: 'a word) = be_val bs"
    using be_val_less [of bs] by (simp add: unat_of_nat)
  with assms show ?thesis by (simp add: from_be_bytes_def to_be_bytes_def)
qed

end
