(* ===== verification/Reader.thy ===== *)
theory Reader
  imports Bytes
begin

text \<open>
  \<^verbatim>\<open>cjdns-bytes/src/utils.rs\<close>: the cursor \<open>Reader\<close> over a byte slice and the growing
  buffer \<open>Writer\<close>. A reader is the list of bytes not read yet. Its methods take \<open>&mut self\<close>, so
  each returns its result together with the reader afterwards, also when the result is an error.
  The locale \<open>field_codec\<close> states what a fixed-width field reader and its encoder promise each
  other; every field type of the wire formats is an interpretation of it.
\<close>

type_synonym reader = bytes
type_synonym ('a, 'e) rd = "reader \<Rightarrow> ('a, 'e) result \<times> reader"

datatype insufficient_buffer = InsufficientBuffer
datatype read_error = ReadError
datatype expected_size = Exact nat | NotLessThan nat

section \<open>Sequencing reads\<close>

definition rd_ok :: "'a \<Rightarrow> ('a, 'e) rd" where
  "rd_ok a r = (Ok a, r)"

definition rd_bind :: "('a, 'e) rd \<Rightarrow> ('a \<Rightarrow> ('b, 'e) rd) \<Rightarrow> ('b, 'e) rd" where
  "rd_bind m f r = (case m r of (Ok a, r') \<Rightarrow> f a r' | (Err e, r') \<Rightarrow> (Err e, r') | (Panic, r') \<Rightarrow> (Panic, r'))"

named_theorems rd_iff \<open>when a read returns a value\<close>

lemma rd_ok_iff [rd_iff]: "rd_ok a r = (Ok b, r') \<longleftrightarrow> a = b \<and> r = r'"
  by (simp add: rd_ok_def)

lemma rd_bind_iff [rd_iff]:
  "rd_bind m f r = (Ok b, r') \<longleftrightarrow> (\<exists>a r1. m r = (Ok a, r1) \<and> f a r1 = (Ok b, r'))"
  by (auto simp: rd_bind_def split: prod.splits result.splits)

lemma rd_bind_ok [simp]: "m r = (Ok a, r1) \<Longrightarrow> rd_bind m f r = f a r1"
  by (simp add: rd_bind_def)

section \<open>The reader\<close>

definition read_slice :: "nat \<Rightarrow> (bytes, insufficient_buffer) rd" where
  "read_slice count r =
     (if length r < count then (Err InsufficientBuffer, r) else (Ok (take count r), drop count r))"

definition read_u8 :: "(u8, insufficient_buffer) rd" where
  "read_u8 = rd_bind (read_slice 1) (\<lambda>bytes r. (index_chk bytes 0, r))"

definition read_u16_be :: "(u16, insufficient_buffer) rd" where
  "read_u16_be = rd_bind (read_slice 2) (\<lambda>bytes. rd_ok (from_be_bytes bytes))"

definition read_u32_be :: "(u32, insufficient_buffer) rd" where
  "read_u32_be = rd_bind (read_slice 4) (\<lambda>bytes. rd_ok (from_be_bytes bytes))"

definition read_u64_be :: "(u64, insufficient_buffer) rd" where
  "read_u64_be = rd_bind (read_slice 8) (\<lambda>bytes. rd_ok (from_be_bytes bytes))"

definition read_array_32 :: "(bytes, insufficient_buffer) rd" where
  "read_array_32 = rd_bind (read_slice 32) rd_ok"

definition peek_remainder :: "(bytes, 'e) rd" where
  "peek_remainder r = (Ok r, r)"

definition read_remainder :: "(bytes, 'e) rd" where
  "read_remainder r = (case read_slice (length r) r of (res, r') \<Rightarrow> (unwrap res, r'))"

definition skip :: "nat \<Rightarrow> (unit, insufficient_buffer) rd" where
  "skip count = rd_bind (read_slice count) (\<lambda>_. rd_ok ())"

text \<open>
  \<open>Reader::read\<close> runs \<open>job\<close> after a size check; a \<open>job\<close> that fails, or that does not use the
  buffer as announced, is a programming error and panics.
\<close>

definition reader_read :: "expected_size \<Rightarrow> ('a, insufficient_buffer) rd \<Rightarrow> ('a, read_error) rd" where
  "reader_read expected job r =
     (case expected of
        Exact count \<Rightarrow>
          if length r \<noteq> count then (Err ReadError, r)
          else (case job r of
                  (Ok res, r') \<Rightarrow> if length r' = length r - count then (Ok res, r') else (Panic, r')
                | (_, r') \<Rightarrow> (Panic, r'))
      | NotLessThan count \<Rightarrow>
          if length r < count then (Err ReadError, r)
          else (case job r of
                  (Ok res, r') \<Rightarrow> if length r - count \<ge> length r' then (Ok res, r') else (Panic, r')
                | (_, r') \<Rightarrow> (Panic, r')))"

text \<open>\<open>impl std::io::Read for Reader\<close>: reads at most what is left and never fails.\<close>

definition reader_io_read :: "nat \<Rightarrow> reader \<Rightarrow> bytes \<times> reader" where
  "reader_io_read n r =
     (let n' = (if n > length r then length r else n) in (take n' r, drop n' r))"

section \<open>The writer\<close>

type_synonym writer = bytes

definition writer_new :: writer where
  "writer_new = []"

definition write_slice :: "bytes \<Rightarrow> writer \<Rightarrow> writer" where
  "write_slice data w = w @ data"

definition write_u8 :: "u8 \<Rightarrow> writer \<Rightarrow> writer" where
  "write_u8 data = write_slice [data]"

definition write_u16_be :: "u16 \<Rightarrow> writer \<Rightarrow> writer" where
  "write_u16_be data = write_slice (to_be_bytes data)"

definition write_u32_be :: "u32 \<Rightarrow> writer \<Rightarrow> writer" where
  "write_u32_be data = write_slice (to_be_bytes data)"

definition write_u64_be :: "u64 \<Rightarrow> writer \<Rightarrow> writer" where
  "write_u64_be data = write_slice (to_be_bytes data)"

definition into_vec :: "writer \<Rightarrow> bytes" where
  "into_vec w = w"

lemmas writer_defs = writer_new_def write_slice_def write_u8_def write_u16_be_def
  write_u32_be_def write_u64_be_def into_vec_def

section \<open>The contract between field readers and field encoders\<close>

locale field_codec =
  fixes enc :: "'a \<Rightarrow> bytes"
    and dec :: "('a, insufficient_buffer) rd"
    and width :: nat
    and valid :: "'a \<Rightarrow> bool"
  assumes enc_length: "valid x \<Longrightarrow> length (enc x) = width"
    and dec_enc: "valid x \<Longrightarrow> dec (enc x @ rest) = (Ok x, rest)"
    and dec_short: "length bs < width \<Longrightarrow> dec bs = (Err InsufficientBuffer, bs)"
    and dec_enough: "width \<le> length bs \<Longrightarrow>
           \<exists>x. valid x \<and> dec bs = (Ok x, drop width bs) \<and> enc x = take width bs"
begin

lemma dec_ok_iff: "dec bs = (Ok x, rest) \<longleftrightarrow> valid x \<and> bs = enc x @ rest"
proof
  assume ok: "dec bs = (Ok x, rest)"
  then have "width \<le> length bs"
    using dec_short [of bs] by (cases "length bs < width") auto
  then obtain y where y: "valid y" "dec bs = (Ok y, drop width bs)" "enc y = take width bs"
    using dec_enough by blast
  with ok have "x = y" "rest = drop width bs" by auto
  then show "valid x \<and> bs = enc x @ rest" using y by simp
next
  assume "valid x \<and> bs = enc x @ rest"
  then show "dec bs = (Ok x, rest)" by (simp add: dec_enc)
qed

lemma enc_inj: "valid x \<Longrightarrow> valid y \<Longrightarrow> enc x = enc y \<Longrightarrow> x = y"
  using dec_enc [of x "[]"] dec_enc [of y "[]"] by auto

lemma dec_never_panics: "fst (dec bs) \<noteq> Panic"
  using dec_short [of bs] dec_enough [of bs] by (cases "length bs < width") auto

end

lemma read_slice_append [simp]: "length xs = n \<Longrightarrow> read_slice n (xs @ ys) = (Ok xs, ys)"
  by (simp add: read_slice_def)

interpretation slice: field_codec "\<lambda>bs. bs" "read_slice n" n "\<lambda>bs. length bs = n"
  by unfold_locales (auto simp: read_slice_def)

interpretation u8: field_codec "\<lambda>b. [b]" read_u8 1 "\<lambda>_. True"
proof unfold_locales
  fix bs :: bytes
  assume "1 \<le> length bs"
  then show "\<exists>x. True \<and> read_u8 bs = (Ok x, drop 1 bs) \<and> [x] = take 1 bs"
    by (cases bs) (auto simp: read_u8_def rd_bind_def read_slice_def)
qed (auto simp: read_u8_def rd_bind_def read_slice_def)

lemma word_field_codec:
  assumes "LENGTH('a) = 8 * n"
  shows "field_codec (to_be_bytes :: 'a::len word \<Rightarrow> bytes)
           (rd_bind (read_slice n) (\<lambda>bytes. rd_ok (from_be_bytes bytes))) n (\<lambda>_. True)"
proof
  fix bs :: bytes
  assume "n \<le> length bs"
  then show "\<exists>x. True \<and> rd_bind (read_slice n) (\<lambda>bytes. rd_ok (from_be_bytes bytes)) bs
      = (Ok x, drop n bs) \<and> to_be_bytes (x :: 'a word) = take n bs"
    using assms
    by (auto simp: rd_bind_def read_slice_def rd_ok_def to_from_be_bytes intro!: exI)
qed (use assms in \<open>auto simp: rd_bind_def read_slice_def rd_ok_def from_to_be_bytes\<close>)

interpretation u16: field_codec to_be_bytes read_u16_be 2 "\<lambda>_. True"
  unfolding read_u16_be_def by (rule word_field_codec) simp

interpretation u32: field_codec to_be_bytes read_u32_be 4 "\<lambda>_. True"
  unfolding read_u32_be_def by (rule word_field_codec) simp

interpretation u64: field_codec to_be_bytes read_u64_be 8 "\<lambda>_. True"
  unfolding read_u64_be_def by (rule word_field_codec) simp

interpretation array32: field_codec "\<lambda>bs. bs" read_array_32 32 "\<lambda>bs. length bs = 32"
  by unfold_locales (auto simp: read_array_32_def rd_bind_def read_slice_def rd_ok_def)

lemmas field_iff [rd_iff] =
  slice.dec_ok_iff u8.dec_ok_iff u16.dec_ok_iff u32.dec_ok_iff u64.dec_ok_iff array32.dec_ok_iff

lemma skip_iff [rd_iff]: "skip n r = (Ok u, r') \<longleftrightarrow> (\<exists>pad. length pad = n \<and> r = pad @ r')"
  by (auto simp: skip_def rd_iff)

lemma peek_remainder_iff [rd_iff]: "peek_remainder r = (Ok x, r') \<longleftrightarrow> x = r \<and> r' = r"
  by (auto simp: peek_remainder_def)

lemma read_remainder_eq [simp]: "read_remainder r = (Ok r, [])"
  by (simp add: read_remainder_def read_slice_def)

lemma read_remainder_iff [rd_iff]: "read_remainder r = (Ok x, r') \<longleftrightarrow> x = r \<and> r' = []"
  by auto

lemma reader_read_exact_iff [rd_iff]:
  "reader_read (Exact n) job r = (Ok x, r') \<longleftrightarrow>
     length r = n \<and> job r = (Ok x, r') \<and> length r' = length r - n"
  by (auto simp: reader_read_def split: prod.splits result.splits if_splits)

lemma reader_read_at_least_iff [rd_iff]:
  "reader_read (NotLessThan n) job r = (Ok x, r') \<longleftrightarrow>
     n \<le> length r \<and> job r = (Ok x, r') \<and> length r' \<le> length r - n"
  by (auto simp: reader_read_def split: prod.splits result.splits if_splits)

lemma reader_read_short [simp]:
  "length r \<noteq> n \<Longrightarrow> reader_read (Exact n) job r = (Err ReadError, r)"
  "length r < n \<Longrightarrow> reader_read (NotLessThan n) job r = (Err ReadError, r)"
  by (simp_all add: reader_read_def)

section \<open>Reading encoded fields\<close>

lemma read_u8_Cons [simp]: "read_u8 (b # rest) = (Ok b, rest)"
  using u8.dec_enc [of b rest] by simp

lemma read_exact_fields:
  assumes "length data = n" and "job data = (Ok x, [])"
  shows "reader_read (Exact n) job data = (Ok x, [])"
  using assms by (simp add: reader_read_def)

lemmas read_enc = u16.dec_enc [OF TrueI] u32.dec_enc [OF TrueI] u64.dec_enc [OF TrueI]
  u16.dec_enc [OF TrueI, where rest = "[]", simplified] u32.dec_enc [OF TrueI, where rest = "[]", simplified]
  u64.dec_enc [OF TrueI, where rest = "[]", simplified]

lemma read_at_least_fields:
  assumes "n \<le> length data" and "job data = (Ok x, [])"
  shows "reader_read (NotLessThan n) job data = (Ok x, [])"
  using assms by (simp add: reader_read_def)

end
