(* ===== verification/Stdio.thy ===== *)
theory Stdio
  imports Reader
begin

text \<open>
  The parts of \<^verbatim>\<open>std::io\<close> that \<^verbatim>\<open>cjdns-bytes\<close> builds on: \<open>Read::read_exact\<close> and
  \<open>Write::write_all\<close>, which call \<open>read\<close> and \<open>write\<close> of the underlying object until the request
  is met, and big-endian integers over them. The locales \<open>byte_source\<close> and \<open>byte_stack\<close> are the
  contracts of the objects below: a reader that hands out its content from the front, and a
  writer (\<open>RWrite\<close>) that puts new bytes in front of its content.
\<close>

datatype io_error = UnexpectedEof | WriteZero

type_synonym 'r io_read = "nat \<Rightarrow> 'r \<Rightarrow> (bytes, io_error) result \<times> 'r"
type_synonym 'w io_write = "bytes \<Rightarrow> 'w \<Rightarrow> (nat, io_error) result \<times> 'w"

section \<open>Requests met by repetition\<close>

function read_exact_loop :: "'r io_read \<Rightarrow> nat \<Rightarrow> bytes \<Rightarrow> 'r \<Rightarrow> (bytes, io_error) result \<times> 'r" where
  "read_exact_loop rd n acc r =
     (if n = 0 then (Ok acc, r)
      else case rd n r of
             (Ok bs, r') \<Rightarrow>
               if bs = [] then (Err UnexpectedEof, r') else read_exact_loop rd (n - length bs) (acc @ bs) r'
           | (Err e, r') \<Rightarrow> (Err e, r')
           | (Panic, r') \<Rightarrow> (Panic, r'))"
  by pat_completeness auto

termination
  by (relation "measure (\<lambda>(rd, n, acc, r). n)") (auto simp: length_greater_0_conv [symmetric] simp del: length_greater_0_conv)

definition read_exact :: "'r io_read \<Rightarrow> nat \<Rightarrow> 'r \<Rightarrow> (bytes, io_error) result \<times> 'r" where
  "read_exact rd n r = read_exact_loop rd n [] r"

function write_all :: "'w io_write \<Rightarrow> bytes \<Rightarrow> 'w \<Rightarrow> (unit, io_error) result \<times> 'w" where
  "write_all wr buf w =
     (if buf = [] then (Ok (), w)
      else case wr buf w of
             (Ok n, w') \<Rightarrow> if n = 0 then (Err WriteZero, w') else write_all wr (drop n buf) w'
           | (Err e, w') \<Rightarrow> (Err e, w')
           | (Panic, w') \<Rightarrow> (Panic, w'))"
  by pat_completeness auto

termination
  by (relation "measure (\<lambda>(wr, buf, w). length buf)") auto

declare read_exact_loop.simps [simp del] write_all.simps [simp del]

definition io_read_int :: "nat \<Rightarrow> 'r io_read \<Rightarrow> 'r \<Rightarrow> ('a::len word, io_error) result \<times> 'r" where
  "io_read_int n rd r = (case read_exact rd n r of (res, r') \<Rightarrow> (map_ok from_be_bytes res, r'))"

definition io_write_int :: "'w io_write \<Rightarrow> 'a::len word \<Rightarrow> 'w \<Rightarrow> (unit, io_error) result \<times> 'w" where
  "io_write_int wr v w = write_all wr (to_be_bytes v) w"

text \<open>Sequencing of operations that return a result and the object afterwards.\<close>

definition io_then :: "(('a, 'e) result \<times> 's) \<Rightarrow> ('a \<Rightarrow> 's \<Rightarrow> ('b, 'e) result \<times> 's) \<Rightarrow> ('b, 'e) result \<times> 's" where
  "io_then m f = (case m of (Ok a, s) \<Rightarrow> f a s | (Err e, s) \<Rightarrow> (Err e, s) | (Panic, s) \<Rightarrow> (Panic, s))"

definition io_err :: "('e \<Rightarrow> 'f) \<Rightarrow> (('a, 'e) result \<times> 's) \<Rightarrow> ('a, 'f) result \<times> 's" where
  "io_err f m = (case m of (res, s) \<Rightarrow> (map_err f res, s))"

lemma io_then_simps [simp]:
  "io_then (Ok a, s) f = f a s" "io_then (Err e, s) f = (Err e, s)" "io_then (Panic, s) f = (Panic, s)"
  by (simp_all add: io_then_def)

lemma io_err_simps [simp]: "io_err f (res, s) = (map_err f res, s)"
  by (simp add: io_err_def)

section \<open>Contracts\<close>

locale byte_source =
  fixes rd :: "'r io_read"
    and ok :: "'r \<Rightarrow> bool"
    and content :: "'r \<Rightarrow> bytes"
  assumes read_law: "ok r \<Longrightarrow>
    \<exists>r'. rd n r = (Ok (take n (content r)), r') \<and> ok r' \<and> content r' = drop n (content r)"
begin

lemma read_exact_enough:
  assumes "ok r" and "n \<le> length (content r)"
  shows "\<exists>r'. read_exact rd n r = (Ok (take n (content r)), r') \<and> ok r' \<and> content r' = drop n (content r)"
proof (cases "n = 0")
  case True
  then show ?thesis using assms by (simp add: read_exact_def read_exact_loop.simps)
next
  case False
  obtain r' where r': "rd n r = (Ok (take n (content r)), r')" "ok r'" "content r' = drop n (content r)"
    using read_law [OF assms(1)] by blast
  have "take n (content r) \<noteq> []" using False assms(2) by auto
  then show ?thesis
    using r' False assms(2) by (simp add: read_exact_def read_exact_loop.simps [of rd] min_absorb2)
qed

lemma read_exact_short:
  assumes "ok r" and "length (content r) < n"
  shows "\<exists>r'. read_exact rd n r = (Err UnexpectedEof, r') \<and> ok r' \<and> content r' = []"
proof -
  obtain r1 where r1: "rd n r = (Ok (take n (content r)), r1)" "ok r1" "content r1 = drop n (content r)"
    using read_law [OF assms(1)] by blast
  obtain r2 where r2: "rd (n - length (content r)) r1 = (Ok [], r2)" "ok r2" "content r2 = []"
    using read_law [OF r1(2), of "n - length (content r)"] r1(3) assms(2) by auto
  show ?thesis
    using r1 r2 assms(2)
    by (cases "content r") (simp_all add: read_exact_def read_exact_loop.simps [of rd])
qed

lemma read_exact_append:
  assumes "ok r" and "content r = xs @ ys" and "length xs = n"
  shows "\<exists>r'. read_exact rd n r = (Ok xs, r') \<and> ok r' \<and> content r' = ys"
  using read_exact_enough [OF assms(1), of n] assms(2,3) by simp

lemma read_int_append:
  assumes "ok r" and "content r = to_be_bytes (v :: 'a::len word) @ ys" and "LENGTH('a) = 8 * n"
  shows "\<exists>r'. io_read_int n rd r = (Ok v, r') \<and> ok r' \<and> content r' = ys"
  using read_exact_append [OF assms(1,2), of n] assms(3) by (auto simp: io_read_int_def from_to_be_bytes)

end

locale byte_stack =
  fixes wr :: "'w io_write"
    and ok :: "'w \<Rightarrow> bool"
    and content :: "'w \<Rightarrow> bytes"
    and len :: "'w \<Rightarrow> nat"
  assumes write_law: "ok w \<Longrightarrow>
    \<exists>w'. wr buf w = (Ok (length buf), w') \<and> ok w' \<and> content w' = buf @ content w"
    and len_law: "ok w \<Longrightarrow> len w = length (content w)"
begin

lemma write_all_ok:
  assumes "ok w"
  shows "\<exists>w'. write_all wr buf w = (Ok (), w') \<and> ok w' \<and> content w' = buf @ content w"
proof (cases "buf = []")
  case True
  then show ?thesis using assms by (simp add: write_all.simps)
next
  case False
  obtain w' where "wr buf w = (Ok (length buf), w')" "ok w'" "content w' = buf @ content w"
    using write_law [OF assms] by blast
  then show ?thesis using False by (simp add: write_all.simps [of wr])
qed

lemma write_int_ok:
  assumes "ok w"
  shows "\<exists>w'. io_write_int wr v w = (Ok (), w') \<and> ok w' \<and> content w' = to_be_bytes v @ content w"
  using write_all_ok [OF assms] by (simp add: io_write_int_def)

end

section \<open>A slice reader is a byte source\<close>

definition slice_read :: "reader io_read" where
  "slice_read n r = (case reader_io_read n r of (bs, r') \<Rightarrow> (Ok bs, r'))"

interpretation slice_source: byte_source slice_read "\<lambda>_. True" "\<lambda>r. r"
  by unfold_locales (auto simp: slice_read_def reader_io_read_def Let_def)

end
