(* ===== verification/Msg_Buf.thy ===== *)
theory Msg_Buf
  imports Stdio
begin

text \<open>
  \<^verbatim>\<open>cjdns-bytes/src/message.rs\<close>: \<open>Message\<close>, a buffer of fixed-size chunks that is written from
  the back to the front and read from the front. \<open>Vec\<close> is a list whose last element is the top.
  A chunk holds its data in \<open>chunk_bytes[offset..]\<close>; the subtraction in \<open>Chunk::len\<close> cannot
  underflow under \<open>chunk_ok\<close>, which every operation keeps.
\<close>

record chunk =
  chunk_bytes :: bytes
  offset :: nat

record message =
  msg_chunk_sz :: nat
  chunks :: "chunk list"
  spare_chunks :: "chunk list"

datatype overflow = Overflow

section \<open>Chunks\<close>

definition chunk_new :: "nat \<Rightarrow> (chunk, 'e) result" where
  "chunk_new sz = and_then (assert_that (sz > 0)) (\<lambda>_.
     Ok \<lparr>chunk_bytes = replicate sz 0, offset = sz\<rparr>)"

definition chunk_len :: "chunk \<Rightarrow> nat" where
  "chunk_len c = length (chunk_bytes c) - offset c"

definition chunk_cap :: "chunk \<Rightarrow> nat" where
  "chunk_cap c = offset c"

definition chunk_discard :: "nat \<Rightarrow> chunk \<Rightarrow> (nat, overflow) result \<times> chunk" where
  "chunk_discard n c =
     (if n > chunk_len c then (Err Overflow, c) else (Ok n, c\<lparr>offset := offset c + n\<rparr>))"

definition chunk_pop :: "nat \<Rightarrow> chunk \<Rightarrow> (bytes, overflow) result \<times> chunk" where
  "chunk_pop out_len c =
     (if out_len > chunk_len c then (Err Overflow, c)
      else (Ok (take out_len (drop (offset c) (chunk_bytes c))), c\<lparr>offset := offset c + out_len\<rparr>))"

definition chunk_push :: "bytes \<Rightarrow> chunk \<Rightarrow> (nat, overflow) result \<times> chunk" where
  "chunk_push input c =
     (if length input > chunk_cap c then (Err Overflow, c)
      else let o0 = offset c; off = offset c - length input in
           (Ok (length input),
            c\<lparr>offset := off, chunk_bytes := take off (chunk_bytes c) @ input @ drop o0 (chunk_bytes c)\<rparr>))"

section \<open>Messages\<close>

definition DEFAULT_CHUNK_SZ :: nat where
  "DEFAULT_CHUNK_SZ = 4096"

definition message_new :: message where
  "message_new = \<lparr>msg_chunk_sz = 0, chunks = [], spare_chunks = []\<rparr>"

definition with_chunk_size :: "nat \<Rightarrow> message" where
  "with_chunk_size sz = message_new\<lparr>msg_chunk_sz := sz\<rparr>"

definition chunk_sz :: "message \<Rightarrow> nat" where
  "chunk_sz m = (if msg_chunk_sz m > 0 then msg_chunk_sz m else DEFAULT_CHUNK_SZ)"

definition iovec :: "message \<Rightarrow> bytes list" where
  "iovec m = map (\<lambda>c. drop (offset c) (chunk_bytes c)) (rev (chunks m))"

definition as_vec :: "message \<Rightarrow> bytes" where
  "as_vec m = concat (iovec m)"

definition message_len :: "message \<Rightarrow> nat" where
  "message_len m = sum_list (map chunk_len (chunks m))"

function message_discard :: "nat \<Rightarrow> message \<Rightarrow> (unit, overflow) result \<times> message" where
  "message_discard bytes m =
     (if chunks m = [] then (if bytes > 0 then Err Overflow else Ok (), m)
      else let chk = last (chunks m); m = m\<lparr>chunks := butlast (chunks m)\<rparr>; chunk_len = chunk_len chk in
           if bytes \<ge> chunk_len
           then (case chunk_discard chunk_len chk of
                   (Ok _, chk) \<Rightarrow> message_discard (bytes - chunk_len) (m\<lparr>spare_chunks := spare_chunks m @ [chk]\<rparr>)
                 | (Err e, _) \<Rightarrow> (Err e, m)
                 | (Panic, _) \<Rightarrow> (Panic, m))
           else (case chunk_discard bytes chk of
                   (Ok _, chk) \<Rightarrow> (Ok (), m\<lparr>chunks := chunks m @ [chk]\<rparr>)
                 | (Err e, _) \<Rightarrow> (Err e, m)
                 | (Panic, _) \<Rightarrow> (Panic, m)))"
  by pat_completeness auto

termination
  by (relation "measure (\<lambda>(bytes, m). length (chunks m))") (auto simp: Let_def)

definition message_clear :: "message \<Rightarrow> (unit, 'e) result \<times> message" where
  "message_clear m = (case message_discard (message_len m) m of (res, m') \<Rightarrow> (unwrap res, m'))"

definition take_writable_chunk :: "message \<Rightarrow> (chunk, 'e) result \<times> message" where
  "take_writable_chunk m =
     (if chunks m \<noteq> [] \<and> chunk_cap (last (chunks m)) > 0
      then (Ok (last (chunks m)), m\<lparr>chunks := butlast (chunks m)\<rparr>)
      else if spare_chunks m \<noteq> []
      then (let chunk = last (spare_chunks m); m = m\<lparr>spare_chunks := butlast (spare_chunks m)\<rparr> in
            (and_then (assert_that (chunk_cap chunk = length (chunk_bytes chunk))) (\<lambda>_. Ok chunk), m))
      else (chunk_new (chunk_sz m), m))"

function message_read_loop :: "nat \<Rightarrow> bytes \<Rightarrow> message \<Rightarrow> (bytes, io_error) result \<times> message" where
  "message_read_loop buf_len got m =
     (if chunks m = [] then (Ok got, m)
      else let chk = last (chunks m); m = m\<lparr>chunks := butlast (chunks m)\<rparr> in
           if buf_len \<ge> chunk_len chk
           then let l = chunk_len chk in
                (case chunk_pop l chk of
                   (Ok b, chk) \<Rightarrow>
                     if chunk_len chk = 0
                     then message_read_loop (buf_len - l) (got @ b) (m\<lparr>spare_chunks := spare_chunks m @ [chk]\<rparr>)
                     else (Panic, m)
                 | _ \<Rightarrow> (Panic, m))
           else (case chunk_pop buf_len chk of
                   (Ok b, chk) \<Rightarrow>
                     if chunk_len chk > 0 then (Ok (got @ b), m\<lparr>chunks := chunks m @ [chk]\<rparr>) else (Panic, m)
                 | _ \<Rightarrow> (Panic, m)))"
  by pat_completeness auto

termination
  by (relation "measure (\<lambda>(n, got, m). length (chunks m))") (auto simp: Let_def)

declare message_discard.simps [simp del] message_read_loop.simps [simp del]

definition message_read :: "message io_read" where
  "message_read n m = message_read_loop n [] m"

text \<open>
  Every turn of the loop in \<open>Message::write\<close> stores at least one byte of a well-formed message, so
  one unit of fuel per byte suffices; \<open>message_write_ok\<close> proves that the fuel is not exhausted.
\<close>

fun message_write_loop :: "nat \<Rightarrow> bytes \<Rightarrow> nat \<Rightarrow> message \<Rightarrow> (nat, io_error) result \<times> message" where
  "message_write_loop fuel [] bytes m = (Ok bytes, m)"
| "message_write_loop 0 buf bytes m = (Panic, m)"
| "message_write_loop (Suc fuel) buf bytes m =
     (case take_writable_chunk m of
        (Ok chunk, m) \<Rightarrow>
          if length buf \<ge> chunk_cap chunk
          then let l = chunk_cap chunk; b = drop (length buf - l) buf in
               (case chunk_push b chunk of
                  (Ok n, chunk) \<Rightarrow>
                    message_write_loop fuel (take (length buf - l) buf) (bytes + n)
                      (m\<lparr>chunks := chunks m @ [chunk]\<rparr>)
                | _ \<Rightarrow> (Panic, m))
          else (case chunk_push buf chunk of
                  (Ok n, chunk) \<Rightarrow>
                    message_write_loop fuel [] (bytes + n) (m\<lparr>chunks := chunks m @ [chunk]\<rparr>)
                | _ \<Rightarrow> (Panic, m))
      | (Err e, m) \<Rightarrow> (Err e, m)
      | (Panic, m) \<Rightarrow> (Panic, m))"

definition message_write :: "message io_write" where
  "message_write buf m = message_write_loop (length buf) buf 0 m"

section \<open>Invariant and content\<close>

definition chunk_ok :: "chunk \<Rightarrow> bool" where
  "chunk_ok c \<longleftrightarrow> offset c \<le> length (chunk_bytes c) \<and> 0 < length (chunk_bytes c)"

definition message_ok :: "message \<Rightarrow> bool" where
  "message_ok m \<longleftrightarrow> (\<forall>c \<in> set (chunks m). chunk_ok c)
     \<and> (\<forall>c \<in> set (spare_chunks m). chunk_ok c \<and> offset c = length (chunk_bytes c))"

abbreviation chunk_data :: "chunk \<Rightarrow> bytes" where
  "chunk_data c \<equiv> drop (offset c) (chunk_bytes c)"

lemma as_vec_eq: "as_vec m = concat (map chunk_data (rev (chunks m)))"
  by (simp add: as_vec_def iovec_def)

lemma as_vec_last:
  "chunks m \<noteq> [] \<Longrightarrow> as_vec m = chunk_data (last (chunks m)) @ as_vec (m\<lparr>chunks := butlast (chunks m)\<rparr>)"
  by (cases "chunks m" rule: rev_cases) (simp_all add: as_vec_eq)

lemma length_chunk_data: "length (chunk_data c) = chunk_len c"
  by (simp add: chunk_len_def)

lemma message_len_as_vec: "message_len m = length (as_vec m)"
  by (simp add: message_len_def as_vec_eq length_concat rev_map [symmetric] chunk_len_def [abs_def] o_def)

lemma message_ok_new [simp]: "message_ok (with_chunk_size n)" "as_vec (with_chunk_size n) = []"
  by (simp_all add: message_ok_def with_chunk_size_def message_new_def as_vec_eq)

lemma message_ok_last:
  "message_ok m \<Longrightarrow> chunks m \<noteq> [] \<Longrightarrow> chunk_ok (last (chunks m)) \<and> message_ok (m\<lparr>chunks := butlast (chunks m)\<rparr>)"
  by (cases "chunks m" rule: rev_cases) (auto simp: message_ok_def)

lemma take_drop_as_vec:
  assumes "chunks m \<noteq> []" and "chunk_len (last (chunks m)) \<le> n"
  shows "take n (as_vec m) = chunk_data (last (chunks m))
      @ take (n - chunk_len (last (chunks m))) (as_vec (m\<lparr>chunks := butlast (chunks m)\<rparr>))"
    and "drop n (as_vec m) = drop (n - chunk_len (last (chunks m))) (as_vec (m\<lparr>chunks := butlast (chunks m)\<rparr>))"
  using assms(2) by (simp_all add: as_vec_last [OF assms(1)] chunk_len_def)

lemma message_read_loop_ok:
  assumes "message_ok m"
  shows "\<exists>m'. message_read_loop n got m = (Ok (got @ take n (as_vec m)), m') \<and> message_ok m'
    \<and> as_vec m' = drop n (as_vec m)"
  using assms
proof (induction n got m rule: message_read_loop.induct)
  case (1 n got m)
  show ?case
  proof (cases "chunks m = []")
    case True
    then show ?thesis using 1 by (simp add: message_read_loop.simps [of n] as_vec_eq)
  next
    case False
    let ?c = "last (chunks m)" and ?m = "m\<lparr>chunks := butlast (chunks m)\<rparr>"
    note ok = message_ok_last [OF "1.prems" False]
    show ?thesis
    proof (cases "chunk_len ?c \<le> n")
      case True
      let ?c' = "?c\<lparr>offset := offset ?c + chunk_len ?c\<rparr>"
      let ?m' = "?m\<lparr>spare_chunks := spare_chunks ?m @ [?c']\<rparr>"
      have pop: "chunk_pop (chunk_len ?c) ?c = (Ok (chunk_data ?c), ?c')"
        by (simp add: chunk_pop_def chunk_len_def)
      have c': "chunk_len ?c' = 0" "chunk_ok ?c'" "offset ?c' = length (chunk_bytes ?c')"
        using ok by (auto simp: chunk_len_def chunk_ok_def)
      then have m': "message_ok ?m'" "as_vec ?m' = as_vec ?m"
        using ok by (auto simp: message_ok_def as_vec_eq)
      have step: "message_read_loop n got m = message_read_loop (n - chunk_len ?c) (got @ chunk_data ?c) ?m'"
        using False True pop c' by (simp add: message_read_loop.simps [of n] Let_def)
      have "\<exists>m'. message_read_loop (n - chunk_len ?c) (got @ chunk_data ?c) ?m'
          = (Ok ((got @ chunk_data ?c) @ take (n - chunk_len ?c) (as_vec ?m')), m') \<and> message_ok m'
          \<and> as_vec m' = drop (n - chunk_len ?c) (as_vec ?m')"
        by (rule "1.IH" [OF False refl refl True refl pop [symmetric] refl c'(1) m'(1)])
      then show ?thesis
        unfolding step m'(2) take_drop_as_vec [OF False True] by simp
    next
      case less: False
      let ?c' = "?c\<lparr>offset := offset ?c + n\<rparr>"
      have pop: "chunk_pop n ?c = (Ok (take n (chunk_data ?c)), ?c')"
        using less by (simp add: chunk_pop_def)
      have c': "0 < chunk_len ?c'" "chunk_ok ?c'"
        using ok less by (auto simp: chunk_len_def chunk_ok_def)
      have "n < length (chunk_data ?c)" using less by (simp add: chunk_len_def)
      then show ?thesis
        using False less pop c' ok
        by (simp add: message_read_loop.simps [of n] Let_def as_vec_last [OF False])
          (auto simp: message_ok_def as_vec_eq add.commute)
    qed
  qed
qed

lemma message_discard_ok:
  assumes "message_ok m"
  shows "\<exists>m'. message_discard n m = (if n \<le> length (as_vec m) then Ok () else Err Overflow, m')
    \<and> message_ok m' \<and> as_vec m' = drop n (as_vec m)"
  using assms
proof (induction n m rule: message_discard.induct)
  case (1 n m)
  show ?case
  proof (cases "chunks m = []")
    case True
    then show ?thesis using 1 by (simp add: message_discard.simps [of n] as_vec_eq)
  next
    case False
    let ?c = "last (chunks m)" and ?m = "m\<lparr>chunks := butlast (chunks m)\<rparr>"
    note ok = message_ok_last [OF "1.prems" False]
    show ?thesis
    proof (cases "chunk_len ?c \<le> n")
      case True
      let ?c' = "?c\<lparr>offset := offset ?c + chunk_len ?c\<rparr>"
      let ?m' = "?m\<lparr>spare_chunks := spare_chunks ?m @ [?c']\<rparr>"
      have dis: "chunk_discard (chunk_len ?c) ?c = (Ok (chunk_len ?c), ?c')"
        by (simp add: chunk_discard_def)
      have c': "chunk_ok ?c'" "offset ?c' = length (chunk_bytes ?c')"
        using ok by (auto simp: chunk_len_def chunk_ok_def)
      then have m': "message_ok ?m'" "as_vec ?m' = as_vec ?m"
        using ok by (auto simp: message_ok_def as_vec_eq)
      have step: "message_discard n m = message_discard (n - chunk_len ?c) ?m'"
        using False True dis by (simp add: message_discard.simps [of n] Let_def)
      have "\<exists>m'. message_discard (n - chunk_len ?c) ?m'
          = (if n - chunk_len ?c \<le> length (as_vec ?m') then Ok () else Err Overflow, m')
          \<and> message_ok m' \<and> as_vec m' = drop (n - chunk_len ?c) (as_vec ?m')"
        by (rule "1.IH" [OF False refl refl refl True dis [symmetric] refl m'(1)])
      moreover have "n - chunk_len ?c \<le> length (as_vec ?m) \<longleftrightarrow> n \<le> length (as_vec m)"
        using True unfolding as_vec_last [OF False] length_append length_chunk_data by linarith
      ultimately show ?thesis
        unfolding step m'(2) take_drop_as_vec [OF False True] by simp
    next
      case less: False
      let ?c' = "?c\<lparr>offset := offset ?c + n\<rparr>"
      have dis: "chunk_discard n ?c = (Ok n, ?c')"
        using less by (simp add: chunk_discard_def)
      have c': "chunk_ok ?c'"
        using ok less by (auto simp: chunk_len_def chunk_ok_def)
      have "n < length (chunk_data ?c)" using less by (simp add: chunk_len_def)
      then show ?thesis
        using False less dis c' ok
        by (simp add: message_discard.simps [of n] Let_def as_vec_last [OF False])
          (auto simp: message_ok_def as_vec_eq add.commute)
    qed
  qed
qed

lemma take_writable_chunk_ok:
  assumes "message_ok m"
  obtains c m' where "take_writable_chunk m = (Ok c :: (_, 'e) result, m')" "chunk_ok c" "0 < offset c" "message_ok m'"
    "chunk_data c @ as_vec m' = as_vec m"
proof (cases "chunks m \<noteq> [] \<and> chunk_cap (last (chunks m)) > 0")
  case True
  then show ?thesis
    using that [of "last (chunks m)" "m\<lparr>chunks := butlast (chunks m)\<rparr>"] message_ok_last [OF assms]
    by (simp add: take_writable_chunk_def chunk_cap_def as_vec_last)
next
  case no: False
  show ?thesis
  proof (cases "spare_chunks m = []")
    case True
    have "0 < chunk_sz m" by (simp add: chunk_sz_def DEFAULT_CHUNK_SZ_def)
    with True no assms show ?thesis
      using that [of "\<lparr>chunk_bytes = replicate (chunk_sz m) 0, offset = chunk_sz m\<rparr>" m]
      by (auto simp: take_writable_chunk_def chunk_new_def chunk_ok_def)
  next
    case False
    let ?c = "last (spare_chunks m)" and ?m = "m\<lparr>spare_chunks := butlast (spare_chunks m)\<rparr>"
    have c: "chunk_ok ?c" "offset ?c = length (chunk_bytes ?c)"
      using assms False by (auto simp: message_ok_def)
    have m: "message_ok ?m" "as_vec ?m = as_vec m"
      using assms False by (auto simp: message_ok_def as_vec_eq dest: in_set_butlastD)
    show ?thesis
      using that [of ?c ?m] False no c m
      by (auto simp: take_writable_chunk_def Let_def chunk_cap_def chunk_ok_def)
  qed
qed

lemma chunk_push_ok:
  assumes "chunk_ok c" and "length b \<le> offset c"
  shows "\<exists>c'. chunk_push b c = (Ok (length b), c') \<and> chunk_ok c' \<and> chunk_data c' = b @ chunk_data c"
  using assms by (auto simp: chunk_push_def chunk_cap_def chunk_ok_def Let_def)

lemma message_write_loop_ok:
  assumes "message_ok m" and "length buf \<le> fuel"
  shows "\<exists>m'. message_write_loop fuel buf k m = (Ok (k + length buf), m') \<and> message_ok m'
    \<and> as_vec m' = buf @ as_vec m"
  using assms
proof (induction fuel arbitrary: buf k m)
  case 0
  then show ?case by simp
next
  case (Suc fuel)
  show ?case
  proof (cases "buf = []")
    case True
    then show ?thesis using Suc by simp
  next
    case False
    obtain c m1 where t: "take_writable_chunk m = (Ok c :: (_, io_error) result, m1)" "chunk_ok c" "0 < offset c"
      "message_ok m1" "chunk_data c @ as_vec m1 = as_vec m"
      using take_writable_chunk_ok [OF Suc.prems(1)] by blast
    let ?l = "min (offset c) (length buf)"
    let ?b = "drop (length buf - ?l) buf" and ?rest = "take (length buf - ?l) buf"
    have lb: "length ?b = ?l" by simp
    then obtain c' where p: "chunk_push ?b c = (Ok ?l, c')" "chunk_ok c'" "chunk_data c' = ?b @ chunk_data c"
      using chunk_push_ok [OF t(2), of ?b] by auto
    let ?m' = "m1\<lparr>chunks := chunks m1 @ [c']\<rparr>"
    have m': "message_ok ?m'" using t(4) p(2) by (auto simp: message_ok_def)
    have v: "as_vec ?m' = ?b @ as_vec m"
      using p(3) t(5) by (simp add: as_vec_eq)
    have step: "message_write_loop (Suc fuel) buf k m = message_write_loop fuel ?rest (k + ?l) ?m'"
    proof (cases "offset c \<le> length buf")
      case True
      then have "?l = offset c" by simp
      then show ?thesis using False t(1) p(1) True by (cases buf) (simp_all add: Let_def chunk_cap_def)
    next
      case less: False
      then have "?l = length buf" by simp
      then show ?thesis using False t(1) p(1) less by (cases buf) (simp_all add: Let_def chunk_cap_def)
    qed
    have "length ?rest \<le> fuel" using Suc.prems(2) t(3) False by (cases buf) auto
    from Suc.IH [OF m' this, of "k + ?l"] show ?thesis
      unfolding step v by (auto simp: append_assoc [symmetric] simp del: append_assoc)
  qed
qed

lemma message_write_ok:
  "message_ok m \<Longrightarrow> \<exists>m'. message_write buf m = (Ok (length buf), m') \<and> message_ok m' \<and> as_vec m' = buf @ as_vec m"
  using message_write_loop_ok [of m buf "length buf" 0] by (simp add: message_write_def)

lemma message_read_ok:
  "message_ok m \<Longrightarrow> \<exists>m'. message_read n m = (Ok (take n (as_vec m)), m') \<and> message_ok m' \<and> as_vec m' = drop n (as_vec m)"
  using message_read_loop_ok [of m n "[]"] by (simp add: message_read_def)

interpretation msg_source: byte_source message_read message_ok as_vec
  by unfold_locales (rule message_read_ok)

interpretation msg_stack: byte_stack message_write message_ok as_vec message_len
  by unfold_locales (auto simp: message_len_as_vec message_write_ok)

section \<open>Properties\<close>

text \<open>C17: a \<open>Message\<close> is a stack of bytes whatever its chunk size. On a well-formed message,
  \<open>read\<close> of n bytes returns the first n bytes of the content (or all of it) and leaves the rest,
  \<open>write\<close> puts the buffer in front, \<open>discard\<close> drops n bytes and reports \<open>Overflow\<close> only when there
  were fewer, \<open>clear\<close> empties it without panicking, \<open>len\<close> is the length of \<open>as_vec\<close>; every
  operation returns, none panics, and the message stays well formed.\<close>

theorem message_is_byte_stack:
  assumes "message_ok m"
  shows "(\<exists>m'. message_read n m = (Ok (take n (as_vec m)), m') \<and> message_ok m' \<and> as_vec m' = drop n (as_vec m))
    \<and> (\<exists>m'. message_write buf m = (Ok (length buf), m') \<and> message_ok m' \<and> as_vec m' = buf @ as_vec m)
    \<and> (\<exists>m'. message_discard n m = (if n \<le> length (as_vec m) then Ok () else Err Overflow, m')
         \<and> message_ok m' \<and> as_vec m' = drop n (as_vec m))
    \<and> (\<exists>m'. message_clear m = (Ok () :: (unit, unit) result, m') \<and> message_ok m' \<and> as_vec m' = [])
    \<and> message_len m = length (as_vec m)"
  using message_read_ok [OF assms, of n] message_write_ok [OF assms, of buf] message_discard_ok [OF assms, of n]
    message_discard_ok [OF assms, of "message_len m"] message_len_as_vec [of m]
  by (auto simp: message_clear_def)

lemma message_is_byte_stack_witness:
  "\<exists>m'. message_write [1, 2, 3] (with_chunk_size 2) = (Ok (length [1, 2, 3 :: u8]), m') \<and> message_ok m' \<and> as_vec m' = [1, 2, 3]"
  using message_is_byte_stack [of "with_chunk_size 2" 0 "[1, 2, 3]"] by simp

end
