(* ===== verification/Varint.thy ===== *)
theory Varint
  imports Msg_Buf
begin

text \<open>
  \<^verbatim>\<open>cjdns-bytes/src/var_int.rs\<close>: variable-length integers, big-endian, after a marker byte. The
  functions take any \<open>Read\<close> and any \<open>RWrite\<close>, here the operation \<open>rd\<close> or \<open>wr\<close> with the object it
  acts on, and are generic in the integer type, here the width of the word. The writer puts the
  value first and the marker second because an \<open>RWrite\<close> grows to the front.
\<close>

datatype var_int_error =
    UnexpectedEndOfData
  | MalformedEncoding nat u8
  | ValueTooBig u64 nat nat

definition try_from_int :: "'b::len word \<Rightarrow> 'a::len word option" where
  "try_from_int v = (if unat v < 2 ^ LENGTH('a) then Some (ucast v) else None)"

definition read_var_int :: "'r io_read \<Rightarrow> 'r \<Rightarrow> ('a::len word, var_int_error) result \<times> 'r" where
  "read_var_int rd r =
     io_then (io_err (\<lambda>_. UnexpectedEndOfData) (io_read_int 1 rd r)) (\<lambda>(byte :: u8) r.
       if byte = 0xff then
         io_then (io_err (\<lambda>_. MalformedEncoding 8 byte) (io_read_int 8 rd r)) (\<lambda>(value :: u64) r.
           (ok_or (try_from_int value) (ValueTooBig value (LENGTH('a) div 8 * 8) 64), r))
       else if byte = 0xfe then
         io_then (io_err (\<lambda>_. MalformedEncoding 4 byte) (io_read_int 4 rd r)) (\<lambda>(value :: u32) r.
           (ok_or (try_from_int value) (ValueTooBig (ucast value) (LENGTH('a) div 8 * 8) 32), r))
       else if byte = 0xfd then
         io_then (io_err (\<lambda>_. MalformedEncoding 2 byte) (io_read_int 2 rd r)) (\<lambda>(value :: u16) r.
           (ok_or (try_from_int value) (ValueTooBig (ucast value) (LENGTH('a) div 8 * 8) 16), r))
       else (unwrap_opt (try_from_int byte), r))"

definition write_var_int :: "'w io_write \<Rightarrow> 'a::len word \<Rightarrow> 'w \<Rightarrow> (unit, io_error) result \<times> 'w" where
  "write_var_int wr t w =
     (let t = (ucast t :: u64) in
      if unat t > 2 ^ 32 - 1 then
        io_then (io_write_int wr t w) (\<lambda>_ w. io_write_int wr (0xff :: u8) w)
      else if unat t > 2 ^ 16 - 1 then
        io_then (io_write_int wr (ucast t :: u32) w) (\<lambda>_ w. io_write_int wr (0xfe :: u8) w)
      else if unat t > 0xfc then
        io_then (io_write_int wr (ucast t :: u16) w) (\<lambda>_ w. io_write_int wr (0xfd :: u8) w)
      else io_write_int wr (ucast t :: u8) w)"

section \<open>The encoding\<close>

definition var_int_bytes :: "nat \<Rightarrow> bytes" where
  "var_int_bytes n =
     (if n > 2 ^ 32 - 1 then 0xff # be_bytes 8 n
      else if n > 2 ^ 16 - 1 then 0xfe # be_bytes 4 n
      else if n > 0xfc then 0xfd # be_bytes 2 n
      else [word_of_nat n])"

lemma length_var_int_bytes: "length (var_int_bytes n) \<le> 9" "n < 2 ^ 32 \<Longrightarrow> length (var_int_bytes n) \<le> 5"
    "n < 2 ^ 16 \<Longrightarrow> length (var_int_bytes n) \<le> 3"
  by (auto simp: var_int_bytes_def simp del: be_bytes_numeral)

lemma to_be_bytes_ucast:
  assumes "unat (w :: 'a::len word) < 2 ^ LENGTH('b)"
  shows "to_be_bytes (ucast w :: 'b::len word) = be_bytes (LENGTH('b) div 8) (unat w)"
  using assms by (simp add: to_be_bytes_def unsigned_ucast_eq take_bit_nat_eq_self)

lemma to_be_bytes_u8 [simp]: "to_be_bytes (b :: u8) = [b]"
  by (simp add: to_be_bytes_def)

context byte_stack
begin

lemma write_var_int_ok:
  fixes t :: "'a::len word"
  assumes "ok w" and "LENGTH('a) \<le> 64"
  shows "\<exists>w'. write_var_int wr t w = (Ok (), w') \<and> ok w' \<and> content w' = var_int_bytes (unat t) @ content w"
proof -
  let ?t = "ucast t :: u64"
  have t: "unat ?t = unat t" using assms(2) by (simp add: unat_ucast_up)
  have two: "\<exists>w'. io_then (io_write_int wr v w) (\<lambda>_ w. io_write_int wr (m :: u8) w) = (Ok (), w') \<and> ok w'
      \<and> content w' = m # to_be_bytes v @ content w" for v :: "'v::len word" and m
  proof -
    obtain w1 where "io_write_int wr v w = (Ok (), w1)" "ok w1" "content w1 = to_be_bytes v @ content w"
      using write_int_ok [OF assms(1)] by blast
    moreover obtain w2 where "io_write_int wr m w1 = (Ok (), w2)" "ok w2" "content w2 = [m] @ content w1"
      using write_int_ok [OF calculation(2), of m] by auto
    ultimately show ?thesis by simp
  qed
  consider "2 ^ 32 \<le> unat t" | "unat t < 2 ^ 32" "2 ^ 16 \<le> unat t" | "unat t < 2 ^ 16" "0xfc < unat t" | "unat t \<le> 0xfc"
    by linarith
  then show ?thesis
  proof cases
    case 1
    then show ?thesis using two [of ?t "0xff"] t
      by (simp add: write_var_int_def var_int_bytes_def to_be_bytes_def [of ?t] Let_def del: be_bytes_numeral)
  next
    case 2
    then have "to_be_bytes (ucast ?t :: u32) = be_bytes 4 (unat t)"
      using to_be_bytes_ucast [of ?t, where ?'b = 32] t by (simp del: be_bytes_numeral)
    with 2 show ?thesis using two [of "ucast ?t :: u32" "0xfe"] t
      by (simp add: write_var_int_def var_int_bytes_def Let_def del: be_bytes_numeral)
  next
    case 3
    then have "to_be_bytes (ucast ?t :: u16) = be_bytes 2 (unat t)"
      using to_be_bytes_ucast [of ?t, where ?'b = 16] t by (simp del: be_bytes_numeral)
    with 3 show ?thesis using two [of "ucast ?t :: u16" "0xfd"] t
      by (simp add: write_var_int_def var_int_bytes_def Let_def del: be_bytes_numeral)
  next
    case 4
    have "(ucast ?t :: u8) = word_of_nat (unat ?t)" by simp
    then have "(ucast ?t :: u8) = word_of_nat (unat t)" by (simp only: t)
    with 4 show ?thesis using write_int_ok [OF assms(1), of "ucast ?t :: u8"] t
      by (simp add: write_var_int_def var_int_bytes_def Let_def)
  qed
qed

end

context byte_source
begin

lemma read_int_be:
  assumes "ok r" and "content r = be_bytes n v @ ys" and "v < 2 ^ LENGTH('a::len)" and "LENGTH('a) = 8 * n"
  shows "\<exists>r'. io_read_int n rd r = (Ok (word_of_nat v :: 'a word), r') \<and> ok r' \<and> content r' = ys"
proof -
  have "to_be_bytes (word_of_nat v :: 'a word) = be_bytes n v"
    using assms(3,4) by (simp add: to_be_bytes_def unsigned_of_nat take_bit_nat_eq_self)
  then show ?thesis using read_int_append [OF assms(1), of "word_of_nat v :: 'a word" ys n] assms by simp
qed

lemma read_var_int_ok:
  fixes v :: "'a::len word"
  assumes "ok r" and "content r = var_int_bytes (unat v) @ ys" and "8 \<le> LENGTH('a)" and "LENGTH('a) \<le> 64"
  shows "\<exists>r'. read_var_int rd r = (Ok v, r') \<and> ok r' \<and> content r' = ys"
proof -
  let ?n = "unat v"
  have n64: "?n < 2 ^ 64"
    using less_le_trans [OF unsigned_less power_increasing [OF assms(4), of "2::nat"]] by simp
  have marker: "\<exists>r'. io_read_int 1 rd r = (Ok m, r') \<and> ok r' \<and> content r' = zs"
    if "content r = m # zs" for m :: u8 and zs
    using read_int_append [OF assms(1), of m zs 1] that by simp
  have big: "try_from_int (ucast v :: 'b word) = Some v" if "?n < 2 ^ LENGTH('b::len)"
  proof -
    have "unat (ucast v :: 'b word) = ?n"
      using that by (simp add: unsigned_ucast_eq take_bit_nat_eq_self)
    then show ?thesis by (simp add: try_from_int_def) (metis of_nat_unat ucast_id)
  qed
  consider "2 ^ 32 \<le> ?n" | "?n < 2 ^ 32" "2 ^ 16 \<le> ?n" | "?n < 2 ^ 16" "0xfc < ?n" | "?n \<le> 0xfc"
    by linarith
  then show ?thesis
  proof cases
    case 1
    then have c: "content r = 0xff # (be_bytes 8 ?n @ ys)"
      using assms(2) by (simp add: var_int_bytes_def del: be_bytes_numeral)
    obtain r1 where r1: "io_read_int 1 rd r = (Ok (0xff :: u8), r1)" "ok r1" "content r1 = be_bytes 8 ?n @ ys"
      using marker [OF c] by blast
    obtain r2 where r2: "io_read_int 8 rd r1 = (Ok (word_of_nat ?n :: u64), r2)" "ok r2" "content r2 = ys"
      using read_int_be [OF r1(2,3), where ?'a = 64] n64 by auto
    then show ?thesis using r1 n64 by (simp add: read_var_int_def big)
  next
    case 2
    then have c: "content r = 0xfe # (be_bytes 4 ?n @ ys)"
      using assms(2) by (simp add: var_int_bytes_def del: be_bytes_numeral)
    obtain r1 where r1: "io_read_int 1 rd r = (Ok (0xfe :: u8), r1)" "ok r1" "content r1 = be_bytes 4 ?n @ ys"
      using marker [OF c] by blast
    obtain r2 where r2: "io_read_int 4 rd r1 = (Ok (word_of_nat ?n :: u32), r2)" "ok r2" "content r2 = ys"
      using read_int_be [OF r1(2,3), where ?'a = 32] 2 by auto
    then show ?thesis using r1 2 by (simp add: read_var_int_def big)
  next
    case 3
    then have c: "content r = 0xfd # (be_bytes 2 ?n @ ys)"
      using assms(2) by (simp add: var_int_bytes_def del: be_bytes_numeral)
    obtain r1 where r1: "io_read_int 1 rd r = (Ok (0xfd :: u8), r1)" "ok r1" "content r1 = be_bytes 2 ?n @ ys"
      using marker [OF c] by blast
    obtain r2 where r2: "io_read_int 2 rd r1 = (Ok (word_of_nat ?n :: u16), r2)" "ok r2" "content r2 = ys"
      using read_int_be [OF r1(2,3), where ?'a = 16] 3 by auto
    then show ?thesis using r1 3 by (simp add: read_var_int_def big)
  next
    case 4
    then have c: "content r = (word_of_nat ?n :: u8) # ys"
      using assms(2) by (simp add: var_int_bytes_def)
    have u: "unat (word_of_nat ?n :: u8) = ?n" using 4 by (simp add: unsigned_ucast_eq take_bit_nat_eq_self)
    then have ne: "(word_of_nat ?n :: u8) \<noteq> 0xff" "(word_of_nat ?n :: u8) \<noteq> 0xfe" "(word_of_nat ?n :: u8) \<noteq> 0xfd"
      using 4 by (auto dest!: arg_cong [of _ _ "unat :: u8 \<Rightarrow> nat"] simp del: unat_byte_of_nat)
    obtain r1 where r1: "io_read_int 1 rd r = (Ok (word_of_nat ?n :: u8), r1)" "ok r1" "content r1 = ys"
      using marker [OF c] by blast
    then show ?thesis using ne 4 by (simp add: read_var_int_def big)
  qed
qed

end

section \<open>Properties\<close>

text \<open>An integer of 8 to 64 bits written to a well-formed message with \<open>write_var_int\<close> is read
  back by \<open>read_var_int\<close>, which leaves what the message held before; the encoding takes one byte
  below 253, and the marker with 2, 4 or 8 bytes above.\<close>

theorem var_int_message_roundtrip:
  fixes t :: "'a::len word"
  assumes "message_ok m" and "8 \<le> LENGTH('a)" and "LENGTH('a) \<le> 64"
  shows "\<exists>m1 m2. write_var_int message_write t m = (Ok (), m1) \<and> as_vec m1 = var_int_bytes (unat t) @ as_vec m
    \<and> read_var_int message_read m1 = (Ok t, m2) \<and> message_ok m2 \<and> as_vec m2 = as_vec m"
  using msg_stack.write_var_int_ok [OF assms(1,3), of t] msg_source.read_var_int_ok [OF _ _ assms(2,3), of _ t]
  by fastforce

end
