(* ===== verification/Tlv.thy ===== *)
theory Tlv
  imports Bytes
begin

text \<open>
  \<^verbatim>\<open>cjdns-bytes/src/tlv.rs\<close>: items of a type byte, a length byte and a value. The length counts
  the type and length bytes too, so it is at least 2.
\<close>

datatype tlv_error = InvalidItemLength nat | TlvTruncated

function parse_tlv_loop :: "bytes \<Rightarrow> nat \<Rightarrow> (u8 \<times> bytes) list \<Rightarrow> ((u8 \<times> bytes) list, tlv_error) result" where
  "parse_tlv_loop bytes cursor out =
     (if cursor + 1 < length bytes then
        let t = bytes ! cursor; l = unat (bytes ! (cursor + 1)) in
        if l < 2 then Err (InvalidItemLength l)
        else if l + cursor > length bytes then Err TlvTruncated
        else parse_tlv_loop bytes (cursor + l) (out @ [(t, take (l - 2) (drop (cursor + 2) bytes))])
      else Ok out)"
  by pat_completeness auto

termination
  by (relation "measure (\<lambda>(bytes, cursor, out). length bytes - cursor)") auto

declare parse_tlv_loop.simps [simp del]

definition parse_tlv :: "bytes \<Rightarrow> ((u8 \<times> bytes) list, tlv_error) result" where
  "parse_tlv bytes = parse_tlv_loop bytes 0 []"

fun encode_tlv :: "(u8 \<times> bytes) list \<Rightarrow> (bytes, 'e) result" where
  "encode_tlv [] = Ok []"
| "encode_tlv ((t, v) # items) =
     and_then (add_chk (word_of_nat (length v) :: u8) 2) (\<lambda>l.
     and_then (encode_tlv items) (\<lambda>rest. Ok (t # l # v @ rest)))"

section \<open>Layout\<close>

fun tlv_bytes :: "(u8 \<times> bytes) list \<Rightarrow> bytes" where
  "tlv_bytes [] = []"
| "tlv_bytes ((t, v) # items) = t # word_of_nat (length v + 2) # v @ tlv_bytes items"

abbreviation tlv_fits :: "(u8 \<times> bytes) list \<Rightarrow> bool" where
  "tlv_fits items \<equiv> \<forall>(t, v) \<in> set items. length v \<le> 253"

lemma encode_tlv_fits: "tlv_fits items \<Longrightarrow> encode_tlv items = (Ok (tlv_bytes items) :: (_, 'e) result)"
proof (induction items)
  case Nil
  then show ?case by simp
next
  case (Cons i items)
  obtain t v where i: "i = (t, v)" by (cases i)
  then have "length v \<le> 253" using Cons.prems by auto
  then have "add_chk (word_of_nat (length v) :: u8) 2 = (Ok (word_of_nat (length v + 2)) :: (_, 'e) result)"
    by (simp add: add_chk_def)
  with Cons i show ?case by simp
qed

lemma parse_tlv_loop_bytes:
  "tlv_fits items \<Longrightarrow> length rest \<le> 1 \<Longrightarrow>
   parse_tlv_loop (pre @ tlv_bytes items @ rest) (length pre) out = Ok (out @ items)"
proof (induction items arbitrary: pre out)
  case Nil
  then show ?case by (simp add: parse_tlv_loop.simps)
next
  case (Cons i items)
  obtain t v where i: "i = (t, v)" by (cases i)
  let ?bs = "pre @ tlv_bytes (i # items) @ rest"
  let ?item = "t # word_of_nat (length v + 2) # v"
  have bs: "?bs = (pre @ ?item) @ tlv_bytes items @ rest" using i by simp
  have l: "unat (word_of_nat (length v + 2) :: u8) = length v + 2"
  proof -
    have "length v \<le> 253" using Cons.prems i by auto
    then show ?thesis unfolding unat_byte_of_nat by simp
  qed
  have nth: "?bs ! length pre = t" "?bs ! (length pre + 1) = word_of_nat (length v + 2)"
    unfolding i by (simp_all add: nth_append)
  have "take (length v) (drop (length pre + 2) ?bs) = v" unfolding i by simp
  then have "parse_tlv_loop ?bs (length pre) out = parse_tlv_loop ?bs (length pre + (length v + 2)) (out @ [(t, v)])"
    using nth l by (subst parse_tlv_loop.simps) (simp add: Let_def i)
  also have "\<dots> = Ok ((out @ [(t, v)]) @ items)"
    using Cons.IH [of "pre @ ?item" "out @ [(t, v)]"] Cons.prems unfolding bs by simp
  finally show ?case using i by simp
qed

lemma parse_tlv_bytes:
  "tlv_fits items \<Longrightarrow> length rest \<le> 1 \<Longrightarrow> parse_tlv (tlv_bytes items @ rest) = Ok items"
  using parse_tlv_loop_bytes [of items rest "[]" "[]"] by (simp add: parse_tlv_def)

lemma parse_tlv_loop_Ok:
  "parse_tlv_loop bytes cursor out = Ok res \<Longrightarrow> cursor \<le> length bytes \<Longrightarrow>
   \<exists>items rest. res = out @ items \<and> drop cursor bytes = tlv_bytes items @ rest \<and> tlv_fits items \<and> length rest \<le> 1"
proof (induction bytes cursor out rule: parse_tlv_loop.induct)
  case (1 bytes cursor out)
  show ?case
  proof (cases "cursor + 1 < length bytes")
    case False
    then show ?thesis using 1 by (auto simp: parse_tlv_loop.simps intro!: exI [of _ "[]"])
  next
    case True
    let ?t = "bytes ! cursor" and ?b = "bytes ! (cursor + 1)"
    let ?l = "unat ?b" and ?v = "take (unat ?b - 2) (drop (cursor + 2) bytes)"
    have ok: "\<not> ?l < 2" "\<not> ?l + cursor > length bytes"
      and rec: "parse_tlv_loop bytes (cursor + ?l) (out @ [(?t, ?v)]) = Ok res"
      using "1.prems"(1) True by (auto simp: parse_tlv_loop.simps [of bytes cursor] Let_def split: if_splits)
    from "1.IH" [OF True refl refl ok rec] ok obtain items rest where
      it: "res = (out @ [(?t, ?v)]) @ items" "drop (cursor + ?l) bytes = tlv_bytes items @ rest" "tlv_fits items" "length rest \<le> 1"
      by auto
    have lv: "length ?v = ?l - 2" using ok by simp
    have "drop cursor bytes = ?t # ?b # drop (cursor + 2) bytes"
      using True by (simp add: Cons_nth_drop_Suc)
    also have "drop (cursor + 2) bytes = ?v @ drop (cursor + ?l) bytes"
    proof -
      obtain k where k: "?l = k + 2" using ok(1) by (metis add.commute le_Suc_ex not_less)
      then have "drop (cursor + ?l) bytes = drop (?l - 2) (drop (cursor + 2) bytes)" by (simp add: ac_simps)
      then show ?thesis by (simp only: append_take_drop_id)
    qed
    finally have "drop cursor bytes = tlv_bytes ((?t, ?v) # items) @ rest"
      using it(2) lv ok by (simp add: of_nat_diff)
    moreover have "length ?v \<le> 253" using lv unat_u8_less [of ?b] by linarith
    ultimately show ?thesis using it by (intro exI [of _ "(?t, ?v) # items"] exI [of _ rest]) auto
  qed
qed

section \<open>Properties\<close>

text \<open>Items whose values have at most 253 bytes encode, and parsing the encoding gives them
  back; a single byte left over at the end is ignored. Conversely a buffer that parses is the
  encoding of what was parsed, up to one trailing byte.\<close>

theorem tlv_roundtrip:
  "(tlv_fits items \<longrightarrow> (\<exists>bs. encode_tlv items = (Ok bs :: (bytes, unit) result) \<and> parse_tlv bs = Ok items))
   \<and> (parse_tlv bs = Ok items \<longrightarrow> (\<exists>enc rest. encode_tlv items = (Ok enc :: (bytes, unit) result)
        \<and> bs = enc @ rest \<and> length rest \<le> 1))"
  using encode_tlv_fits [of items] parse_tlv_bytes [of items "[]"] parse_tlv_loop_Ok [of bs 0 "[]" items]
  by (fastforce simp: parse_tlv_def)

text \<open>The length byte does not fit a value of 254 bytes or more, and \<open>encode_tlv\<close> does not
  refuse one: at 254 the addition overflows, and a value of 256 bytes is written with the
  length of an empty one, so that what it encodes is not what \<open>parse_tlv\<close> finds.\<close>

theorem encode_tlv_long_values:
  "(length v = 254 \<longrightarrow> encode_tlv [(t, v)] = (Panic :: (bytes, unit) result))
   \<and> (length v = 256 \<longrightarrow>
        (\<exists>bs. encode_tlv [(t, v)] = (Ok bs :: (bytes, unit) result) \<and> parse_tlv bs \<noteq> Ok [(t, v)]))"
proof (intro conjI impI)
  assume "length v = 254"
  then show "encode_tlv [(t, v)] = (Panic :: (bytes, unit) result)"
    by (simp add: add_chk_def)
next
  assume l: "length v = 256"
  then have "(word_of_nat (length v) :: u8) = 0" by simp
  then have e: "encode_tlv [(t, v)] = (Ok (t # 2 # v) :: (bytes, unit) result)"
    by (simp add: add_chk_def)
  have "parse_tlv (t # 2 # v) \<noteq> Ok [(t, v)]"
  proof
    assume "parse_tlv (t # 2 # v) = Ok [(t, v)]"
    with parse_tlv_loop_Ok [of "t # 2 # v" 0 "[]"] show False
      using l by (auto simp: parse_tlv_def)
  qed
  with e show "\<exists>bs. encode_tlv [(t, v)] = (Ok bs :: (bytes, unit) result) \<and> parse_tlv bs \<noteq> Ok [(t, v)]" by blast
qed

end
