(* ===== verification/Dnsseed.thy ===== *)
theory Dnsseed
  imports Varint Tlv
begin

text \<open>
  \<^verbatim>\<open>cjdns-bytes/src/dnsseed.rs\<close>: the TXT record with which a DNS seed announces peers, a route
  server key and a peer id. Encoders write to any \<open>RWrite\<close>, from the last field to the first;
  decoders read from any \<open>Read\<close>. The base64 engine is third-party code and a parameter.
\<close>

datatype socket_addr =
    V4 (ip: bytes) (port: u16)
  | V6 (ip: bytes) (port: u16) (flowinfo: u32) (scope_id: u32)

record cjdns_peer =
  peer_address :: socket_addr
  peer_pubkey :: bytes
  peer_login :: u16
  peer_password :: bytes
  peer_version :: u32

record cjdns_txt_record =
  txt_peers :: "cjdns_peer list"
  snode_pubkey :: "bytes option"
  txt_peer_id :: "bytes option"
  unknown_records :: "(u8 \<times> bytes) list"

datatype dns_error = Bail string | IoErr io_error | VarIntErr var_int_error | TlvErr tlv_error | Base64Err

definition SNODE :: u8 where "SNODE = 1"
definition UDP4_PEER :: u8 where "UDP4_PEER = 2"
definition UDP6_PEER :: u8 where "UDP6_PEER = 3"
definition PEER_ID :: u8 where "PEER_ID = 4"

lemmas record_codes = SNODE_def UDP4_PEER_def UDP6_PEER_def PEER_ID_def

section \<open>Encoding\<close>

definition write_trailer :: "'w io_write \<Rightarrow> ('w \<Rightarrow> nat) \<Rightarrow> nat \<Rightarrow> u8 \<Rightarrow> 'w \<Rightarrow> (unit, dns_error) result \<times> 'w" where
  "write_trailer wr wlen len0 code w =
     (case nat_sub_chk (wlen w) len0 of
        Ok n \<Rightarrow>
          io_then (io_err IoErr (io_write_int wr (word_of_nat (n + 2) :: u8) w)) (\<lambda>_ w.
          io_err IoErr (io_write_int wr code w))
      | Err e \<Rightarrow> (Err e, w)
      | Panic \<Rightarrow> (Panic, w))"

definition peer_id_encode :: "'w io_write \<Rightarrow> ('w \<Rightarrow> nat) \<Rightarrow> bytes \<Rightarrow> 'w \<Rightarrow> (unit, dns_error) result \<times> 'w" where
  "peer_id_encode wr wlen pid w =
     (if length pid > 64 then (Err (Bail ''Invalid PeerID, max length 64''), w)
      else let len0 = wlen w in
           io_then (io_err IoErr (write_all wr pid w)) (\<lambda>_ w.
           write_trailer wr wlen len0 PEER_ID w))"

definition peer_encode :: "'w io_write \<Rightarrow> ('w \<Rightarrow> nat) \<Rightarrow> cjdns_peer \<Rightarrow> 'w \<Rightarrow> (unit, dns_error) result \<times> 'w" where
  "peer_encode wr wlen p w =
     (let len0 = wlen w in
      io_then (io_err IoErr (write_var_int wr (peer_version p) w)) (\<lambda>_ w.
      io_then (io_err IoErr (write_all wr (peer_pubkey p) w)) (\<lambda>_ w.
      io_then (io_err IoErr (write_all wr (peer_password p) w)) (\<lambda>_ w.
      io_then (io_err IoErr (write_var_int wr (peer_login p) w)) (\<lambda>_ w.
      io_then (io_err IoErr (io_write_int wr (port (peer_address p)) w)) (\<lambda>_ w.
      io_then (io_err IoErr (write_all wr (ip (peer_address p)) w)) (\<lambda>_ w.
      write_trailer wr wlen len0
        (case peer_address p of V4 _ _ \<Rightarrow> UDP4_PEER | V6 _ _ _ _ \<Rightarrow> UDP6_PEER) w)))))))"

fun write_peers :: "'w io_write \<Rightarrow> ('w \<Rightarrow> nat) \<Rightarrow> cjdns_peer list \<Rightarrow> 'w \<Rightarrow> (unit, dns_error) result \<times> 'w" where
  "write_peers wr wlen [] w = (Ok (), w)"
| "write_peers wr wlen (p # ps) w =
     io_then (peer_encode wr wlen p w) (\<lambda>_ w. write_peers wr wlen ps w)"

definition write_snode :: "'w io_write \<Rightarrow> cjdns_txt_record \<Rightarrow> 'w \<Rightarrow> (unit, dns_error) result \<times> 'w" where
  "write_snode wr t w =
     (case snode_pubkey t of
        Some snode \<Rightarrow>
          io_then (io_err IoErr (write_all wr snode w)) (\<lambda>_ w.
          io_err IoErr (write_all wr [SNODE, word_of_nat (length snode + 2)] w))
      | None \<Rightarrow> (Ok (), w))"

definition write_peerid :: "'w io_write \<Rightarrow> ('w \<Rightarrow> nat) \<Rightarrow> cjdns_txt_record \<Rightarrow> 'w \<Rightarrow> (unit, dns_error) result \<times> 'w" where
  "write_peerid wr wlen t w =
     (case txt_peer_id t of Some pid \<Rightarrow> peer_id_encode wr wlen pid w | None \<Rightarrow> (Ok (), w))"

definition encode_bin :: "'w io_write \<Rightarrow> ('w \<Rightarrow> nat) \<Rightarrow> cjdns_txt_record \<Rightarrow> 'w \<Rightarrow> (unit, dns_error) result \<times> 'w" where
  "encode_bin wr wlen t w =
     io_then (write_peers wr wlen (rev (txt_peers t)) w) (\<lambda>_ w.
     io_then (write_snode wr t w) (\<lambda>_ w.
     write_peerid wr wlen t w))"

definition txt_encode :: "(bytes \<Rightarrow> string) \<Rightarrow> cjdns_txt_record \<Rightarrow> (string, dns_error) result" where
  "txt_encode base64_encode t =
     (case encode_bin message_write message_len t (with_chunk_size 512) of
        (res, m) \<Rightarrow> map_ok (\<lambda>_. ''cjdns0='' @ base64_encode (as_vec m)) res)"

section \<open>Decoding\<close>

definition peer_decode :: "u8 \<Rightarrow> 'r io_read \<Rightarrow> 'r \<Rightarrow> (cjdns_peer, dns_error) result \<times> 'r" where
  "peer_decode code rd r =
     io_then (if code = UDP4_PEER then io_err IoErr (case read_exact rd 4 r of (x, r) \<Rightarrow> (map_ok (\<lambda>x. V4 x 0) x, r))
              else if code = UDP6_PEER then io_err IoErr (case read_exact rd 16 r of (x, r) \<Rightarrow> (map_ok (\<lambda>x. V6 x 0 0 0) x, r))
              else (Err (Bail ''Unexpected code''), r)) (\<lambda>sa r.
     io_then (io_err IoErr (io_read_int 2 rd r)) (\<lambda>port r.
     let sa = (case sa of V4 x _ \<Rightarrow> V4 x port | V6 x _ f s \<Rightarrow> V6 x port f s) in
     io_then (io_err VarIntErr (read_var_int rd r)) (\<lambda>login r.
     io_then (io_err IoErr (read_exact rd 8 r)) (\<lambda>password r.
     io_then (io_err IoErr (read_exact rd 32 r)) (\<lambda>pubkey r.
     io_then (io_err VarIntErr (read_var_int rd r)) (\<lambda>version r.
     (Ok \<lparr>peer_address = sa, peer_pubkey = pubkey, peer_login = login, peer_password = password,
          peer_version = version\<rparr>, r)))))))"

text \<open>\<open>read_to_end\<close> of a slice returns all of it.\<close>

definition parse_peerid :: "reader \<Rightarrow> cjdns_txt_record \<Rightarrow> (cjdns_txt_record, dns_error) result" where
  "parse_peerid data t = Ok (t\<lparr>txt_peer_id := Some data\<rparr>)"

definition parse_snode :: "reader \<Rightarrow> cjdns_txt_record \<Rightarrow> (cjdns_txt_record, dns_error) result" where
  "parse_snode data t =
     and_then (map_err IoErr (fst (read_exact slice_read 32 data))) (\<lambda>snode.
     Ok (t\<lparr>snode_pubkey := Some snode\<rparr>))"

definition from_tlv :: "u8 \<Rightarrow> bytes \<Rightarrow> cjdns_txt_record \<Rightarrow> (cjdns_txt_record, dns_error) result" where
  "from_tlv code data t =
     (if code = PEER_ID then parse_peerid data t
      else if code = SNODE then parse_snode data t
      else if code = UDP4_PEER \<or> code = UDP6_PEER then
        and_then (fst (peer_decode code slice_read data)) (\<lambda>p. Ok (t\<lparr>txt_peers := txt_peers t @ [p]\<rparr>))
      else Ok (t\<lparr>unknown_records := unknown_records t @ [(code, data)]\<rparr>))"

fun from_tlvs :: "(u8 \<times> bytes) list \<Rightarrow> cjdns_txt_record \<Rightarrow> (cjdns_txt_record, dns_error) result" where
  "from_tlvs [] t = Ok t"
| "from_tlvs ((code, data) # items) t = and_then (from_tlv code data t) (from_tlvs items)"

definition txt_default :: cjdns_txt_record where
  "txt_default = \<lparr>txt_peers = [], snode_pubkey = None, txt_peer_id = None, unknown_records = []\<rparr>"

definition decode_bin :: "bytes \<Rightarrow> (cjdns_txt_record, dns_error) result" where
  "decode_bin bytes = and_then (map_err TlvErr (parse_tlv bytes)) (\<lambda>items. from_tlvs items txt_default)"

definition txt_decode :: "(string \<Rightarrow> bytes option) \<Rightarrow> string \<Rightarrow> (cjdns_txt_record, dns_error) result" where
  "txt_decode base64_decode s =
     (if take 7 s = ''cjdns0='' then
        and_then (ok_or (base64_decode (drop 7 s)) Base64Err) decode_bin
      else Err (Bail ''Missing cjdns0= prefix''))"

section \<open>The record as TLV items\<close>

definition addr_ok :: "socket_addr \<Rightarrow> bool" where
  "addr_ok a = (case a of V4 x _ \<Rightarrow> length x = 4 | V6 x _ f s \<Rightarrow> length x = 16 \<and> f = 0 \<and> s = 0)"

definition peer_ok :: "cjdns_peer \<Rightarrow> bool" where
  "peer_ok p \<longleftrightarrow> addr_ok (peer_address p) \<and> length (peer_pubkey p) = 32 \<and> length (peer_password p) = 8"

definition txt_ok :: "cjdns_txt_record \<Rightarrow> bool" where
  "txt_ok t \<longleftrightarrow> (\<forall>p \<in> set (txt_peers t). peer_ok p) \<and> (\<forall>k. snode_pubkey t = Some k \<longrightarrow> length k = 32)
     \<and> (\<forall>i. txt_peer_id t = Some i \<longrightarrow> length i \<le> 64)"

definition peer_body :: "cjdns_peer \<Rightarrow> bytes" where
  "peer_body p = ip (peer_address p) @ to_be_bytes (port (peer_address p)) @ var_int_bytes (unat (peer_login p))
     @ peer_password p @ peer_pubkey p @ var_int_bytes (unat (peer_version p))"

definition peer_code :: "cjdns_peer \<Rightarrow> u8" where
  "peer_code p = (case peer_address p of V4 _ _ \<Rightarrow> UDP4_PEER | V6 _ _ _ _ \<Rightarrow> UDP6_PEER)"

definition txt_items :: "cjdns_txt_record \<Rightarrow> (u8 \<times> bytes) list" where
  "txt_items t = (case txt_peer_id t of Some i \<Rightarrow> [(PEER_ID, i)] | None \<Rightarrow> [])
     @ (case snode_pubkey t of Some k \<Rightarrow> [(SNODE, k)] | None \<Rightarrow> [])
     @ map (\<lambda>p. (peer_code p, peer_body p)) (txt_peers t)"

lemma tlv_bytes_append: "tlv_bytes (xs @ ys) = tlv_bytes xs @ tlv_bytes ys"
  by (induction xs rule: tlv_bytes.induct) auto

lemma peer_body_length: "peer_ok p \<Longrightarrow> length (peer_body p) \<le> 66"
  using length_var_int_bytes(3) [of "unat (peer_login p)"] length_var_int_bytes(2) [of "unat (peer_version p)"]
    unsigned_less [of "peer_login p", where ?'a = nat] unsigned_less [of "peer_version p", where ?'a = nat]
  by (auto simp: peer_ok_def addr_ok_def peer_body_def split: socket_addr.splits)

lemma txt_items_fit: "txt_ok t \<Longrightarrow> tlv_fits (txt_items t)"
proof -
  have "peer_ok p \<Longrightarrow> length (peer_body p) \<le> 253" for p
    using peer_body_length [of p] by simp
  then show "txt_ok t \<Longrightarrow> tlv_fits (txt_items t)"
    by (cases "txt_peer_id t"; cases "snode_pubkey t") (auto simp: txt_items_def txt_ok_def)
qed

context byte_stack
begin

lemma write_trailer_ok:
  assumes "ok w" and "content w = body @ rest" and "len0 = length rest"
  shows "\<exists>w'. write_trailer wr len len0 code w = (Ok (), w') \<and> ok w' \<and> content w' = tlv_bytes [(code, body)] @ rest"
proof -
  obtain w1 where w1: "io_write_int wr (word_of_nat (length body + 2) :: u8) w = (Ok (), w1)" "ok w1"
      "content w1 = word_of_nat (length body + 2) # body @ rest"
    using write_int_ok [OF assms(1), of "word_of_nat (length body + 2) :: u8"] assms(2) by auto
  obtain w2 where "io_write_int wr code w1 = (Ok (), w2)" "ok w2" "content w2 = code # content w1"
    using write_int_ok [OF w1(2), of code] by auto
  then show ?thesis
    using w1 assms(2,3) len_law [OF assms(1)] by (simp add: write_trailer_def)
qed

lemma peer_encode_ok:
  assumes "ok w"
  shows "\<exists>w'. peer_encode wr len p w = (Ok (), w') \<and> ok w' \<and> content w' = tlv_bytes [(peer_code p, peer_body p)] @ content w"
proof -
  obtain w1 where w1: "write_var_int wr (peer_version p) w = (Ok (), w1)" "ok w1"
      "content w1 = var_int_bytes (unat (peer_version p)) @ content w"
    using write_var_int_ok [OF assms, of "peer_version p"] by auto
  obtain w2 where w2: "write_all wr (peer_pubkey p) w1 = (Ok (), w2)" "ok w2" "content w2 = peer_pubkey p @ content w1"
    using write_all_ok [OF w1(2)] by blast
  obtain w3 where w3: "write_all wr (peer_password p) w2 = (Ok (), w3)" "ok w3" "content w3 = peer_password p @ content w2"
    using write_all_ok [OF w2(2)] by blast
  obtain w4 where w4: "write_var_int wr (peer_login p) w3 = (Ok (), w4)" "ok w4"
      "content w4 = var_int_bytes (unat (peer_login p)) @ content w3"
    using write_var_int_ok [OF w3(2), of "peer_login p"] by auto
  obtain w5 where w5: "io_write_int wr (port (peer_address p)) w4 = (Ok (), w5)" "ok w5"
      "content w5 = to_be_bytes (port (peer_address p)) @ content w4"
    using write_int_ok [OF w4(2)] by blast
  obtain w6 where w6: "write_all wr (ip (peer_address p)) w5 = (Ok (), w6)" "ok w6"
      "content w6 = ip (peer_address p) @ content w5"
    using write_all_ok [OF w5(2)] by blast
  have "content w6 = peer_body p @ content w"
    using w1 w2 w3 w4 w5 w6 by (simp add: peer_body_def)
  from write_trailer_ok [OF w6(2) this len_law [OF assms], of "peer_code p"]
  show ?thesis
    using w1 w2 w3 w4 w5 w6 by (simp add: peer_encode_def peer_code_def Let_def)
qed

lemma write_peers_ok:
  assumes "ok w"
  shows "\<exists>w'. write_peers wr len ps w = (Ok (), w') \<and> ok w'
    \<and> content w' = tlv_bytes (map (\<lambda>p. (peer_code p, peer_body p)) (rev ps)) @ content w"
  using assms
proof (induction ps arbitrary: w)
  case Nil
  then show ?case by simp
next
  case (Cons p ps)
  obtain w1 where w1: "peer_encode wr len p w = (Ok (), w1)" "ok w1"
      "content w1 = tlv_bytes [(peer_code p, peer_body p)] @ content w"
    using peer_encode_ok [OF Cons.prems] by blast
  from Cons.IH [OF w1(2)] w1 show ?case by (auto simp: tlv_bytes_append)
qed

lemma encode_bin_ok:
  assumes "ok w" and "txt_ok t"
  shows "\<exists>w'. encode_bin wr len t w = (Ok (), w') \<and> ok w' \<and> content w' = tlv_bytes (txt_items t) @ content w"
proof -
  let ?peers = "map (\<lambda>p. (peer_code p, peer_body p)) (txt_peers t)"
  obtain w1 where w1: "write_peers wr len (rev (txt_peers t)) w = (Ok (), w1)" "ok w1"
      "content w1 = tlv_bytes ?peers @ content w"
    using write_peers_ok [OF assms(1), of "rev (txt_peers t)"] by auto
  let ?snode = "case snode_pubkey t of Some k \<Rightarrow> [(SNODE, k)] | None \<Rightarrow> []"
  obtain w2 where w2: "write_snode wr t w1 = (Ok (), w2)" "ok w2" "content w2 = tlv_bytes ?snode @ content w1"
  proof (cases "snode_pubkey t")
    case None
    then show ?thesis using that [OF _ w1(2)] by (simp add: write_snode_def)
  next
    case (Some k)
    obtain w2 where w2: "write_all wr k w1 = (Ok (), w2)" "ok w2" "content w2 = k @ content w1"
      using write_all_ok [OF w1(2)] by blast
    obtain w3 where w3: "write_all wr [SNODE, word_of_nat (length k + 2)] w2 = (Ok (), w3)" "ok w3"
        "content w3 = [SNODE, word_of_nat (length k + 2)] @ content w2"
      using write_all_ok [OF w2(2)] by blast
    show ?thesis using that [OF _ w3(2)] w2 w3 Some by (simp add: write_snode_def)
  qed
  show ?thesis
  proof (cases "txt_peer_id t")
    case None
    with w1 w2 show ?thesis
      by (auto simp: encode_bin_def write_peerid_def txt_items_def tlv_bytes_append)
  next
    case (Some i)
    then have "length i \<le> 64" using assms(2) by (simp add: txt_ok_def)
    obtain w3 where w3: "write_all wr i w2 = (Ok (), w3)" "ok w3" "content w3 = i @ content w2"
      using write_all_ok [OF w2(2)] by blast
    obtain w4 where "write_trailer wr len (len w2) PEER_ID w3 = (Ok (), w4)" "ok w4"
        "content w4 = tlv_bytes [(PEER_ID, i)] @ content w2"
      using write_trailer_ok [OF w3(2,3) len_law [OF w2(2)]] by blast
    with w1 w2 w3 Some \<open>length i \<le> 64\<close> show ?thesis
      by (auto simp: encode_bin_def write_peerid_def peer_id_encode_def txt_items_def tlv_bytes_append)
  qed
qed

end

context byte_source
begin

lemma peer_decode_ok:
  assumes "ok r" and "content r = peer_body p" and "peer_ok p"
  shows "\<exists>r'. peer_decode (peer_code p) rd r = (Ok p, r')"
proof -
  let ?a = "peer_address p"
  let ?rest1 = "to_be_bytes (port ?a) @ var_int_bytes (unat (peer_login p)) @ peer_password p @ peer_pubkey p
    @ var_int_bytes (unat (peer_version p))"
  let ?n = "length (ip ?a)"
  obtain r1 where r1: "read_exact rd ?n r = (Ok (ip ?a), r1)" "ok r1" "content r1 = ?rest1"
    using read_exact_append [OF assms(1), of "ip ?a" ?rest1] assms(2) by (auto simp: peer_body_def)
  obtain r2 where r2: "io_read_int 2 rd r1 = (Ok (port ?a), r2)" "ok r2"
      "content r2 = var_int_bytes (unat (peer_login p)) @ peer_password p @ peer_pubkey p @ var_int_bytes (unat (peer_version p))"
    using read_int_append [OF r1(2,3), of 2] by auto
  obtain r3 where r3: "read_var_int rd r2 = (Ok (peer_login p), r3)" "ok r3"
      "content r3 = peer_password p @ peer_pubkey p @ var_int_bytes (unat (peer_version p))"
    using read_var_int_ok [OF r2(2,3)] by auto
  obtain r4 where r4: "read_exact rd 8 r3 = (Ok (peer_password p), r4)" "ok r4"
      "content r4 = peer_pubkey p @ var_int_bytes (unat (peer_version p))"
    using read_exact_append [OF r3(2,3), of 8] assms(3) by (auto simp: peer_ok_def)
  obtain r5 where r5: "read_exact rd 32 r4 = (Ok (peer_pubkey p), r5)" "ok r5"
      "content r5 = var_int_bytes (unat (peer_version p)) @ []"
    using read_exact_append [OF r4(2,3), of 32] assms(3) by (auto simp: peer_ok_def)
  obtain r6 where r6: "read_var_int rd r5 = (Ok (peer_version p), r6)"
    using read_var_int_ok [OF r5(2,3)] by auto
  show ?thesis
    using r1(1) r2(1) r3(1) r4(1) r5(1) r6 assms(3)
    by (cases ?a) (auto simp: peer_decode_def peer_code_def record_codes peer_ok_def addr_ok_def)
qed

end

lemma from_tlvs_append: "from_tlvs (xs @ ys) t = and_then (from_tlvs xs t) (from_tlvs ys)"
proof (induction xs arbitrary: t)
  case (Cons x xs)
  obtain c d where x: "x = (c, d)" by (cases x)
  show ?case by (cases "from_tlv c d t") (simp_all add: x Cons.IH)
qed simp

lemma from_tlvs_peers:
  "\<forall>p \<in> set ps. peer_ok p \<Longrightarrow>
   from_tlvs (map (\<lambda>p. (peer_code p, peer_body p)) ps) t = Ok (t\<lparr>txt_peers := txt_peers t @ ps\<rparr>)"
proof (induction ps arbitrary: t)
  case Nil
  then show ?case by simp
next
  case (Cons p ps)
  obtain r' where "peer_decode (peer_code p) slice_read (peer_body p) = (Ok p, r')"
    using slice_source.peer_decode_ok [of "peer_body p" p] Cons.prems by auto
  moreover have "peer_code p = UDP4_PEER \<or> peer_code p = UDP6_PEER"
    by (auto simp: peer_code_def split: socket_addr.splits)
  ultimately have "from_tlv (peer_code p) (peer_body p) t = Ok (t\<lparr>txt_peers := txt_peers t @ [p]\<rparr>)"
    by (auto simp: from_tlv_def record_codes)
  with Cons show ?case by simp
qed

lemma decode_bin_items:
  assumes "txt_ok t" and "unknown_records t = []"
  shows "decode_bin (tlv_bytes (txt_items t)) = Ok t"
proof -
  have snode: "parse_snode k s = Ok (s\<lparr>snode_pubkey := Some k\<rparr>)" if "length k = 32" for k s
    using slice_source.read_exact_enough [where r = k and n = 32] that by (auto simp: parse_snode_def)
  have "from_tlvs (txt_items t) txt_default = Ok t"
    using assms from_tlvs_peers [of "txt_peers t"]
    by (cases t) (auto simp: txt_items_def from_tlvs_append from_tlv_def record_codes parse_peerid_def snode
        txt_ok_def txt_default_def split: option.splits)
  moreover have "parse_tlv (tlv_bytes (txt_items t)) = Ok (txt_items t)"
    using parse_tlv_bytes [OF txt_items_fit [OF assms(1)], of "[]"] by simp
  ultimately show ?thesis by (simp add: decode_bin_def)
qed

section \<open>Properties\<close>

text \<open>A record with well-formed peers (no IPv6 flow or scope, which are not transmitted), a
  32-byte route server key if any and a peer id of at most 64 bytes if any encodes to text, and
  decoding the text gives the record back, provided it carries no unknown records and base64
  decoding undoes base64 encoding.\<close>

theorem txt_record_roundtrip:
  assumes "txt_ok t" and "unknown_records t = []" and "\<And>bs. base64_decode (base64_encode bs) = Some bs"
  shows "\<exists>s. txt_encode base64_encode t = Ok s \<and> txt_decode base64_decode s = Ok t"
proof -
  obtain m where "encode_bin message_write message_len t (with_chunk_size 512) = (Ok (), m)"
      "as_vec m = tlv_bytes (txt_items t)"
    using msg_stack.encode_bin_ok [of "with_chunk_size 512" t] assms(1) by auto
  then show ?thesis
    using decode_bin_items [OF assms(1,2)] assms(3) by (simp add: txt_encode_def txt_decode_def)
qed

text \<open>Unknown records are kept when a record is decoded and lost when it is encoded: encoding
  does not look at them.\<close>

theorem txt_encode_drops_unknown:
  "decode_bin [9, 3, 7] = Ok (txt_default\<lparr>unknown_records := [(9, [7])]\<rparr>)
   \<and> txt_encode base64_encode (t\<lparr>unknown_records := u\<rparr>) = txt_encode base64_encode t"
proof -
  have "write_snode wr (t\<lparr>unknown_records := u\<rparr>) = write_snode wr t"
      "write_peerid wr l (t\<lparr>unknown_records := u\<rparr>) = write_peerid wr l t" for wr :: "message io_write" and l
    by (auto simp: write_snode_def write_peerid_def)
  then have "encode_bin message_write message_len (t\<lparr>unknown_records := u\<rparr>) = encode_bin message_write message_len t"
    by (auto simp: encode_bin_def)
  moreover have "parse_tlv [9, 3, 7] = Ok [(9, [7])]"
    using parse_tlv_bytes [of "[(9, [7])]" "[]"] by simp
  ultimately show ?thesis
    by (simp add: decode_bin_def from_tlv_def record_codes txt_encode_def txt_default_def)
qed

end
