(* ===== verification/Numtraits.thy ===== *)
theory Numtraits
  imports Prelude
begin

text \<open>
  \<^verbatim>\<open>cjdns-snode/src/pathsearch/numtraits.rs\<close>: the total order that the queue uses in place of the
  partial order of \<open>f64\<close>. A float is its 64 bits, an \<open>i64\<close> a word read with \<open>sint\<close>. The reference
  is the value of a finite IEEE-754 double, scaled by \<open>2 ^ 1074\<close> to an integer.
\<close>

definition f64_bits :: "u64 \<Rightarrow> nat" where
  "f64_bits b = unat (take_bit 63 b)"

definition f64_finite :: "u64 \<Rightarrow> bool" where
  "f64_finite b \<longleftrightarrow> f64_bits b div 2 ^ 52 < 2047"

definition into_ord :: "u64 \<Rightarrow> (u64, 'e) result" where
  "into_ord b = and_then (assert_that (f64_finite b)) (\<lambda>_. Ok (b XOR drop_bit 1 (signed_drop_bit 63 b)))"

definition f64_magnitude :: "nat \<Rightarrow> nat" where
  "f64_magnitude n = (let e = n div 2 ^ 52; m = n mod 2 ^ 52 in if e = 0 then m else (2 ^ 52 + m) * 2 ^ (e - 1))"

definition f64_scaled :: "u64 \<Rightarrow> int" where
  "f64_scaled b = (let n = int (f64_magnitude (f64_bits b)) in if bit b 63 then - n else n)"

lemma magnitude_eq:
  assumes "m < 2 ^ 52"
  shows "f64_magnitude (2 ^ 52 * e + m) = (if e = 0 then m else (2 ^ 52 + m) * 2 ^ (e - 1))"
proof -
  have "(2 ^ 52 * e + m) div 2 ^ 52 = e" "(2 ^ 52 * e + m) mod 2 ^ 52 = m" using assms by simp_all
  then show ?thesis unfolding f64_magnitude_def Let_def by (simp only:)
qed

lemma magnitude_Suc: "f64_magnitude n < f64_magnitude (Suc n)"
proof -
  define e m where "e = n div 2 ^ 52" and "m = n mod 2 ^ 52"
  have n: "n = 2 ^ 52 * e + m" "m < 2 ^ 52" by (simp_all add: e_def m_def)
  show ?thesis
  proof (cases "Suc m < 2 ^ 52")
    case True
    have "Suc n = 2 ^ 52 * e + Suc m" using n by simp
    then show ?thesis using magnitude_eq [OF n(2), of e] magnitude_eq [OF True, of e] n(1) by simp
  next
    case False
    then have "Suc n = 2 ^ 52 * Suc e + 0" using n by simp
    then have s: "f64_magnitude (Suc n) = 2 ^ 52 * 2 ^ e" using magnitude_eq [of 0 "Suc e"] by simp
    have lt: "2 ^ 52 + m < 2 ^ 52 * 2" using n(2) by simp
    have "(2 ^ 52 + m) * 2 ^ (e - 1) < 2 ^ 52 * 2 ^ e" if "e \<noteq> 0"
    proof -
      from lt have "(2 ^ 52 + m) * 2 ^ (e - 1) < 2 ^ 52 * 2 * 2 ^ (e - 1)" by (rule mult_strict_right_mono) simp
      then show ?thesis using that by (cases e) simp_all
    qed
    then show ?thesis unfolding s using magnitude_eq [OF n(2), of e] n by (cases "e = 0") simp_all
  qed
qed

lemma magnitude_mono: "f64_magnitude m < f64_magnitude n \<longleftrightarrow> m < n"
  using strict_mono_less [of f64_magnitude m n] magnitude_Suc by (simp add: strict_mono_Suc_iff)

lemma magnitude_0 [simp]: "f64_magnitude 0 = 0"
  by (simp add: f64_magnitude_def)

lemma sint_split: "sint (w :: u64) = int (f64_bits w) - (if bit w 63 then 2 ^ 63 else 0)"
proof -
  have "sint w = signed_take_bit 63 (uint w)" by (simp add: sint_uint)
  also have "\<dots> = take_bit (Suc 63) (uint w) - 2 ^ Suc 63 * of_bool (bit (uint w) 63)"
    by (rule signed_take_bit_eq_take_bit_minus)
  also have "\<dots> = take_bit 63 (uint w) - 2 ^ 63 * of_bool (bit (uint w) 63)"
    by (subst take_bit_Suc_from_most) simp
  also have "take_bit 63 (uint w) = int (f64_bits w)"
    unfolding f64_bits_def by (metis of_nat_unat unsigned_take_bit_eq)
  finally show ?thesis by (simp add: bit_uint_iff)
qed

lemma into_ord_value:
  assumes "into_ord b = Ok k"
  shows "sint k = (if bit b 63 then - int (f64_bits b) - 1 else int (f64_bits b))"
proof -
  have nb: "\<not> bit b (64 + i)" for i using bit_imp_le_length [of b "64 + i"] by auto
  show ?thesis
  proof (cases "bit b 63")
  case True
  have "k = b XOR mask 63"
  proof (rule bit_word_eqI)
    fix i assume "i < LENGTH(64)"
    with assms True show "bit k i = bit (b XOR mask 63) i"
      by (auto simp: into_ord_def ok_iff bit_xor_iff bit_drop_bit_eq bit_signed_drop_bit_iff bit_mask_iff min_def nb)
  qed
  then have k: "take_bit 63 k = mask 63 XOR take_bit 63 b" "bit k 63"
    using True by (auto intro!: bit_word_eqI simp: bit_take_bit_iff bit_xor_iff bit_mask_iff)
  have lt: "unat (take_bit 63 w) < 2 ^ 63" for w :: u64
    by (rule unat_less_of_bits) (simp add: bit_take_bit_iff)
  have "take_bit 63 b + (mask 63 XOR take_bit 63 b) = take_bit 63 b OR (mask 63 XOR take_bit 63 b)"
    by (rule disjunctive_add_eq_or) (auto intro!: bit_word_eqI simp: bit_and_iff bit_xor_iff bit_take_bit_iff bit_mask_iff)
  also have "\<dots> = mask 63"
    by (rule bit_word_eqI) (auto simp: bit_or_iff bit_xor_iff bit_take_bit_iff bit_mask_iff)
  finally have "unat (take_bit 63 b + (mask 63 XOR take_bit 63 b)) = 2 ^ 63 - 1"
    by (simp add: mask_eq_exp_minus_1)
  moreover have "unat (mask 63 XOR take_bit 63 b) < 2 ^ 63"
    by (rule unat_less_of_bits) (simp add: bit_xor_iff bit_mask_iff bit_take_bit_iff)
  ultimately have "unat (take_bit 63 k) = 2 ^ 63 - 1 - unat (take_bit 63 b)" "bit k 63"
    using lt [of b] k by (simp_all add: unat_plus_if' split: if_splits)
  with lt [of b] show ?thesis using True by (simp add: sint_split f64_bits_def of_nat_diff)
next
  case False
  have "k = b"
  proof (rule bit_word_eqI)
    fix i assume "i < LENGTH(64)"
    with assms False show "bit k i = bit b i"
      by (auto simp: into_ord_def ok_iff bit_xor_iff bit_drop_bit_eq bit_signed_drop_bit_iff min_def nb)
  qed
  with False show ?thesis by (simp add: sint_split)
  qed
qed

section \<open>Properties\<close>

text \<open>On finite doubles \<open>into_ord\<close> does not panic and its order is the numerical order, except
  that it puts negative zero below zero.\<close>

theorem into_ord_orders:
  assumes "f64_finite a" and "f64_finite b"
  shows "\<exists>k l. into_ord a = (Ok k :: (_, unit) result) \<and> into_ord b = (Ok l :: (_, unit) result)
    \<and> (sint k < sint l \<longleftrightarrow> f64_scaled a < f64_scaled b \<or> (f64_scaled a = 0 \<and> f64_scaled b = 0 \<and> bit a 63 \<and> \<not> bit b 63))"
proof -
  obtain k l where kl: "into_ord a = (Ok k :: (_, unit) result)" "into_ord b = (Ok l :: (_, unit) result)"
    using assms by (simp add: into_ord_def)
  have neg: "- int m < int n \<longleftrightarrow> m \<noteq> 0 \<or> n \<noteq> 0" for m n by auto
  have z: "f64_magnitude n = 0 \<longleftrightarrow> n = 0" for n using magnitude_mono [of 0 n] by auto
  show ?thesis
    using kl into_ord_value [OF kl(1)] into_ord_value [OF kl(2)] magnitude_mono z
    by (cases "bit a 63"; cases "bit b 63") (auto simp: f64_scaled_def Let_def neg)
qed

end

