(* ===== verification/Float64.thy ===== *)
theory Float64
  imports Numtraits
begin

text \<open>
  The IEEE-754 double arithmetic that the route server uses, on bit patterns: rounding of a
  non-negative rational to the nearest double (ties to even, overflow to infinity), and addition,
  multiplication, division and conversion of non-negative doubles by exact computation and one
  rounding. Link values are never negative, so signs play no part.
\<close>

type_synonym f64 = u64

section \<open>Rounding\<close>

fun bit_length :: "nat \<Rightarrow> nat" where
  "bit_length n = (if n = 0 then 0 else Suc (bit_length (n div 2)))"

declare bit_length.simps [simp del]

definition F64_INF :: nat where
  "F64_INF = 2047 * 2 ^ 52"

definition F64_NAN :: nat where
  "F64_NAN = F64_INF + 2 ^ 51"

definition F64_SCALE :: nat where
  "F64_SCALE = 2 ^ 1074"

text \<open>The bits of the largest double of scaled value at most \<open>s\<close>; the scale is \<open>2 ^ 1074\<close>.\<close>

definition f64_floor :: "nat \<Rightarrow> nat" where
  "f64_floor s = (let e = bit_length s - 53 in e * 2 ^ 52 + s div 2 ^ e)"

definition f64_round :: "nat \<Rightarrow> nat \<Rightarrow> nat" where
  "f64_round n d =
     (let s = n * F64_SCALE div d;
          k = f64_floor s;
          low = f64_magnitude k * d;
          high = f64_magnitude (Suc k) * d;
          down = n * F64_SCALE - low;
          up = high - n * F64_SCALE;
          r = (if down < up \<or> (down = up \<and> even k) then k else Suc k)
      in min r F64_INF)"

definition f64_of_ratio :: "nat \<Rightarrow> nat \<Rightarrow> f64" where
  "f64_of_ratio n d = word_of_nat (f64_round n d)"

definition f64_of_nat :: "nat \<Rightarrow> f64" where
  "f64_of_nat n = f64_of_ratio n 1"

definition f64_mag :: "f64 \<Rightarrow> nat" where
  "f64_mag a = f64_magnitude (f64_bits a)"

definition f64_is_nan :: "f64 \<Rightarrow> bool" where
  "f64_is_nan a \<longleftrightarrow> f64_bits a > F64_INF"

definition f64_is_inf :: "f64 \<Rightarrow> bool" where
  "f64_is_inf a \<longleftrightarrow> f64_bits a = F64_INF"

definition f64_zero :: f64 where "f64_zero = 0"

definition f64_add :: "f64 \<Rightarrow> f64 \<Rightarrow> f64" where
  "f64_add a b =
     (if f64_is_nan a \<or> f64_is_nan b then word_of_nat F64_NAN
      else if f64_is_inf a \<or> f64_is_inf b then word_of_nat F64_INF
      else f64_of_ratio (f64_mag a + f64_mag b) (F64_SCALE))"

definition f64_mul :: "f64 \<Rightarrow> f64 \<Rightarrow> f64" where
  "f64_mul a b =
     (if f64_is_nan a \<or> f64_is_nan b then word_of_nat F64_NAN
      else if f64_is_inf a \<or> f64_is_inf b then
        (if f64_bits a = 0 \<or> f64_bits b = 0 then word_of_nat F64_NAN else word_of_nat F64_INF)
      else f64_of_ratio (f64_mag a * f64_mag b) (F64_SCALE * F64_SCALE))"

definition f64_div :: "f64 \<Rightarrow> f64 \<Rightarrow> f64" where
  "f64_div a b =
     (if f64_is_nan a \<or> f64_is_nan b then word_of_nat F64_NAN
      else if f64_is_inf a then (if f64_is_inf b then word_of_nat F64_NAN else word_of_nat F64_INF)
      else if f64_is_inf b then 0
      else if f64_bits b = 0 then (if f64_bits a = 0 then word_of_nat F64_NAN else word_of_nat F64_INF)
      else f64_of_ratio (f64_mag a) (f64_mag b))"

definition f64_recip :: "f64 \<Rightarrow> f64" where
  "f64_recip a = f64_div (f64_of_nat 1) a"

text \<open>\<open>powi(2.0, n)\<close> multiplies exact powers of two, so it is the exact power or infinity.\<close>

definition f64_pow2 :: "nat \<Rightarrow> f64" where
  "f64_pow2 n = (if n < 1024 then f64_of_nat (2 ^ n) else word_of_nat F64_INF)"

definition f64_ge_zero :: "f64 \<Rightarrow> bool" where
  "f64_ge_zero a \<longleftrightarrow> \<not> f64_is_nan a \<and> (\<not> bit a 63 \<or> f64_bits a = 0)"

section \<open>Rounding is to a neighbour\<close>

lemma bit_length_0 [simp]: "bit_length 0 = 0"
  by (simp add: bit_length.simps)

lemma bit_length_bounds: "0 < n \<Longrightarrow> 2 ^ (bit_length n - 1) \<le> n \<and> n < 2 ^ bit_length n \<and> 0 < bit_length n"
proof (induction n rule: bit_length.induct)
  case (1 n)
  have b: "bit_length n = Suc (bit_length (n div 2))" using 1(2) by (subst bit_length.simps) simp
  show ?case
  proof (cases "n div 2 = 0")
    case True
    then have "n = 1" using 1(2) by auto
    then show ?thesis using b True by simp
  next
    case False
    then have IH: "2 ^ (bit_length (n div 2) - 1) \<le> n div 2" "n div 2 < 2 ^ bit_length (n div 2)" "0 < bit_length (n div 2)"
      using 1 by simp_all
    obtain m where m: "bit_length (n div 2) = Suc m" using IH(3) gr0_implies_Suc by blast
    have "2 * 2 ^ m \<le> n" using IH(1) m by simp
    moreover have "n < 2 * (2 * 2 ^ m)" using IH(2) m by simp
    ultimately show ?thesis using b m by simp
  qed
qed

lemma magnitude_high:
  assumes "2 ^ 52 \<le> t" and "t < 2 ^ 53"
  shows "f64_magnitude (e * 2 ^ 52 + t) = t * 2 ^ e"
proof -
  have "e * 2 ^ 52 + t = 2 ^ 52 * Suc e + (t - 2 ^ 52)" "t - 2 ^ 52 < 2 ^ 52" using assms by simp_all
  then show ?thesis using magnitude_eq [of "t - 2 ^ 52" "Suc e"] assms(1) by (simp add: mult.commute)
qed

lemma magnitude_low: "t < 2 ^ 52 \<Longrightarrow> f64_magnitude t = t"
  using magnitude_eq [of t 0] by simp

lemma magnitude_next:
  assumes "2 ^ 52 \<le> t" and "t < 2 ^ 53"
  shows "f64_magnitude (Suc (e * 2 ^ 52 + t)) = Suc t * 2 ^ e"
proof (cases "Suc t < 2 ^ 53")
  case True
  then show ?thesis using magnitude_high [of "Suc t" e] assms by simp
next
  case False
  then have "t = 2 ^ 53 - 1" using assms(2) by simp
  then have "Suc (e * 2 ^ 52 + t) = Suc e * 2 ^ 52 + 2 ^ 52" "Suc t = 2 * 2 ^ 52" by simp_all
  then show ?thesis using magnitude_high [of "2 ^ 52" "Suc e"] by simp
qed

lemma f64_floor_bounds: "f64_magnitude (f64_floor s) \<le> s \<and> s < f64_magnitude (Suc (f64_floor s))"
proof (cases "s < 2 ^ 52")
  case True
  have e: "bit_length s - 53 = 0"
  proof (cases "s = 0")
    case False
    then have "2 ^ (bit_length s - 1) < (2 :: nat) ^ 52" using bit_length_bounds [of s] True by simp
    then show ?thesis by (metis One_nat_def diff_is_0_eq le_diff_conv less_imp_le nat_power_less_imp_less numeral_2_eq_2 zero_less_Suc add.commute numeral_plus_one semiring_norm(5) semiring_norm(3))
  qed simp
  have "s < f64_magnitude (Suc s)"
  proof (cases "Suc s < 2 ^ 52")
    case True
    then show ?thesis by (simp add: magnitude_low)
  next
    case False
    then have "Suc s = 0 * 2 ^ 52 + 2 ^ 52" using True by simp
    then show ?thesis using magnitude_high [of "2 ^ 52" 0] by simp
  qed
  then show ?thesis using True e magnitude_low [of s] by (simp add: f64_floor_def)
next
  case False
  define e where "e = bit_length s - 53"
  have "0 < s" using False by (cases s) auto
  note b = bit_length_bounds [OF this]
  have "(2 :: nat) ^ 52 < 2 ^ bit_length s" using False b by linarith
  then have "52 < bit_length s" by (rule nat_power_less_imp_less [rotated]) simp
  then have l: "53 \<le> bit_length s" by simp
  then have "bit_length s = e + 53" by (simp add: e_def)
  then have lo: "2 ^ e * 2 ^ 52 \<le> s" and hi: "s < 2 ^ e * 2 ^ 53"
    using b by (simp_all add: power_add)
  have t: "2 ^ 52 \<le> s div 2 ^ e" "s div 2 ^ e < 2 ^ 53"
    using lo hi by (simp_all add: less_eq_div_iff_mult_less_eq div_less_iff_less_mult mult.commute)
  have f: "f64_floor s = e * 2 ^ 52 + s div 2 ^ e" by (simp add: f64_floor_def e_def Let_def)
  have "s div 2 ^ e * 2 ^ e \<le> s" by simp
  moreover have "s < Suc (s div 2 ^ e) * 2 ^ e" by (simp add: dividend_less_div_times)
  ultimately show ?thesis unfolding f using magnitude_high [OF t] magnitude_next [OF t] by simp
qed

lemma f64_round_INF: "f64_round n d \<le> F64_INF"
  by (simp add: f64_round_def Let_def)

text \<open>If the scaled quotient lies below the double \<open>k\<close>, it is not rounded above \<open>k\<close>.\<close>

lemma f64_round_le:
  assumes "n * F64_SCALE \<le> f64_magnitude k * d" and "0 < d"
  shows "f64_round n d \<le> k"
proof -
  define s where "s = n * F64_SCALE div d"
  note f = f64_floor_bounds [of s]
  have "s \<le> f64_magnitude k" using div_le_mono [OF assms(1), of d] assms(2) by (simp add: s_def)
  then have "f64_magnitude (f64_floor s) \<le> f64_magnitude k" using f by linarith
  then have le: "f64_floor s \<le> k" using magnitude_mono [of k "f64_floor s"] by linarith
  show ?thesis
  proof (cases "f64_floor s = k")
    case True
    have "n * F64_SCALE - f64_magnitude k * d = 0" using assms(1) by simp
    moreover have "n * F64_SCALE < f64_magnitude (Suc k) * d"
      using f assms(2) True by (simp add: s_def div_less_iff_less_mult)
    ultimately show ?thesis using True by (simp add: f64_round_def s_def [symmetric] Let_def)
  next
    case False
    moreover have "f64_round n d \<le> Suc (f64_floor s)" by (simp add: f64_round_def s_def [symmetric] Let_def min_le_iff_disj)
    ultimately show ?thesis using le by linarith
  qed
qed

lemma f64_round_near:
  assumes "2 * n * F64_SCALE < (f64_magnitude k + f64_magnitude (Suc k)) * d" and "0 < d"
  shows "f64_round n d \<le> k"
proof (cases "n * F64_SCALE \<le> f64_magnitude k * d")
  case False
  define s where "s = n * F64_SCALE div d"
  note f = f64_floor_bounds [of s]
  have "f64_magnitude k \<le> s"
    using False assms(2) by (simp add: s_def less_eq_div_iff_mult_less_eq)
  then have "f64_magnitude k < f64_magnitude (Suc (f64_floor s))" using f by linarith
  then have "k \<le> f64_floor s" using magnitude_mono by simp
  moreover have "f64_floor s \<le> k"
  proof -
    have "f64_magnitude k < f64_magnitude (Suc k)" using magnitude_mono by simp
    then have "(f64_magnitude k + f64_magnitude (Suc k)) * d < 2 * f64_magnitude (Suc k) * d" using assms(2) by simp
    then have "n * F64_SCALE < f64_magnitude (Suc k) * d" using assms(1) by linarith
    then have "s < f64_magnitude (Suc k)" using assms(2) by (simp add: s_def div_less_iff_less_mult)
    then have "f64_magnitude (f64_floor s) < f64_magnitude (Suc k)" using f by linarith
    then show ?thesis using magnitude_mono by simp
  qed
  ultimately have "f64_floor s = k" by simp
  moreover have "n * F64_SCALE - f64_magnitude k * d < f64_magnitude (Suc k) * d - n * F64_SCALE"
    using assms(1) False by (simp add: distrib_right)
  ultimately show ?thesis by (simp add: f64_round_def s_def [symmetric] Let_def)
qed (simp add: f64_round_le assms(2))

lemma f64_round_ge:
  assumes "f64_magnitude k * d \<le> n * F64_SCALE" and "0 < d" and "k \<le> F64_INF"
  shows "k \<le> f64_round n d"
proof -
  define s where "s = n * F64_SCALE div d"
  note f = f64_floor_bounds [of s]
  have "f64_magnitude k \<le> s" using assms(1,2) by (simp add: s_def less_eq_div_iff_mult_less_eq)
  then have "f64_magnitude k < f64_magnitude (Suc (f64_floor s))" using f by linarith
  then have "k \<le> f64_floor s" using magnitude_mono by simp
  moreover have "min (f64_floor s) F64_INF \<le> f64_round n d" by (simp add: f64_round_def s_def [symmetric] Let_def min_le_iff_disj)
  ultimately show ?thesis using assms(3) by simp
qed

section \<open>Bounds of the operations\<close>

definition F64_ONE :: nat where
  "F64_ONE = 1023 * 2 ^ 52"

lemma magnitude_le: "f64_magnitude m \<le> f64_magnitude n \<longleftrightarrow> m \<le> n"
  using magnitude_mono [of n m] by (metis not_less)

lemma magnitude_pow2: "k < 1024 \<Longrightarrow> f64_magnitude (F64_ONE + k * 2 ^ 52) = 2 ^ k * F64_SCALE"
proof -
  have "F64_ONE + k * 2 ^ 52 = (1022 + k) * 2 ^ 52 + 2 ^ 52" by (simp add: F64_ONE_def)
  then have "f64_magnitude (F64_ONE + k * 2 ^ 52) = 2 ^ 52 * 2 ^ (1022 + k)"
    using magnitude_high [of "2 ^ 52" "1022 + k"] by simp
  also have "\<dots> = 2 ^ (52 + (1022 + k))" by (simp only: power_add)
  also have "52 + (1022 + k) = k + 1074" by simp
  finally show ?thesis by (simp only: power_add F64_SCALE_def)
qed

lemma magnitude_ONE: "f64_magnitude F64_ONE = F64_SCALE"
  using magnitude_pow2 [of 0] by simp

lemma F64_order: "F64_ONE < F64_INF" "F64_INF < 2 ^ 63"
  by (simp_all add: F64_ONE_def F64_INF_def)

lemma scale_pos: "0 < F64_SCALE"
  by (simp add: F64_SCALE_def)

lemma unat_f64: "k \<le> F64_INF \<Longrightarrow> unat (word_of_nat k :: f64) = k \<and> f64_bits (word_of_nat k) = k"
  using F64_order(2) by (simp add: f64_bits_def unat_of_nat take_bit_nat_eq_self unsigned_take_bit_eq)

lemma unat_of_ratio: "unat (f64_of_ratio n d) = f64_round n d"
  using unat_f64 [OF f64_round_INF] by (simp add: f64_of_ratio_def)

lemma f64_bits_unat: "unat a \<le> F64_INF \<Longrightarrow> f64_bits a = unat a"
  using F64_order(2) by (simp add: f64_bits_def unsigned_take_bit_eq take_bit_nat_eq_self)

lemma f64_ge_zeroI: "unat a \<le> F64_INF \<Longrightarrow> f64_ge_zero a"
proof -
  assume a: "unat a \<le> F64_INF"
  then have "\<not> bit a 63" using F64_order(2) by (intro not_bit_of_less [of _ 63]) auto
  then show ?thesis using a by (simp add: f64_ge_zero_def f64_is_nan_def f64_bits_unat)
qed

lemma f64_of_nat_ge: "1 \<le> n \<Longrightarrow> F64_ONE \<le> unat (f64_of_nat n)"
  using f64_round_ge [of F64_ONE 1 n] F64_order(1) by (simp add: f64_of_nat_def unat_of_ratio magnitude_ONE)

lemma f64_of_nat_le: "n \<le> 2 ^ k \<Longrightarrow> k < 1024 \<Longrightarrow> unat (f64_of_nat n) \<le> F64_ONE + k * 2 ^ 52"
proof -
  assume n: "n \<le> 2 ^ k" "k < 1024"
  have "f64_round n 1 \<le> F64_ONE + k * 2 ^ 52"
    by (rule f64_round_le) (simp_all only: magnitude_pow2 [OF n(2)] n(1) mult_le_mono1 mult_1_right zero_less_one)
  then show ?thesis by (simp only: f64_of_nat_def unat_of_ratio)
qed

lemma f64_of_nat_ok: "unat (f64_of_nat n) \<le> F64_INF"
  by (simp add: f64_of_nat_def unat_of_ratio f64_round_INF)

lemma f64_pow2_ge: "F64_ONE \<le> unat (f64_pow2 n) \<and> unat (f64_pow2 n) \<le> F64_INF"
  using f64_of_nat_ge [of "2 ^ n"] f64_of_nat_ok [of "2 ^ n"] unat_f64 [of F64_INF] F64_order(1) by (simp add: f64_pow2_def)

lemma f64_ops_ok:
  assumes "unat a \<le> F64_INF" and "unat b \<le> F64_INF"
  shows "unat (f64_add a b) \<le> F64_INF"
  using assms unat_f64 [of F64_INF]
  by (simp add: f64_add_def f64_is_nan_def f64_bits_unat unat_of_ratio f64_round_INF)

lemma f64_mag_ge: "F64_ONE \<le> unat a \<Longrightarrow> unat a \<le> F64_INF \<Longrightarrow> F64_SCALE \<le> f64_mag a"
  by (simp add: f64_mag_def f64_bits_unat magnitude_le flip: magnitude_ONE)

lemma f64_mul_ge:
  assumes "F64_ONE \<le> unat a" "unat a \<le> F64_INF" "F64_ONE \<le> unat b" "unat b \<le> F64_INF"
  shows "F64_ONE \<le> unat (f64_mul a b) \<and> unat (f64_mul a b) \<le> F64_INF"
proof -
  have "F64_SCALE * (F64_SCALE * F64_SCALE) \<le> f64_mag a * f64_mag b * F64_SCALE"
    using mult_le_mono [OF f64_mag_ge [OF assms(1,2)] f64_mag_ge [OF assms(3,4)]] scale_pos by simp
  then have "F64_ONE \<le> f64_round (f64_mag a * f64_mag b) (F64_SCALE * F64_SCALE)"
    using F64_order(1) scale_pos by (intro f64_round_ge) (simp_all add: magnitude_ONE)
  moreover have "0 < F64_ONE" by (simp add: F64_ONE_def)
  ultimately show ?thesis using assms unat_f64 [of F64_INF] F64_order(1)
    by (simp add: f64_mul_def f64_is_nan_def f64_bits_unat unat_of_ratio f64_round_INF)
qed

lemma f64_one_add_ge:
  assumes "F64_ONE \<le> unat a" "unat a \<le> F64_INF" "unat b \<le> F64_INF"
  shows "F64_ONE \<le> unat (f64_add a b)"
proof -
  have "F64_ONE \<le> f64_round (f64_mag a + f64_mag b) F64_SCALE"
    using f64_mag_ge [OF assms(1,2)] F64_order(1) scale_pos
    by (intro f64_round_ge) (simp_all add: magnitude_ONE trans_le_add1)
  then show ?thesis using assms unat_f64 [of F64_INF] F64_order(1)
    by (simp add: f64_add_def f64_is_nan_def f64_bits_unat unat_of_ratio)
qed

text \<open>Dividing by at least one does not leave the range up to \<open>k\<close>.\<close>

lemma f64_div_le:
  assumes "unat a \<le> k" "k < F64_INF" "F64_ONE \<le> unat b" "unat b \<le> F64_INF"
  shows "unat (f64_div a b) \<le> k"
proof -
  have b: "F64_SCALE \<le> f64_mag b" using f64_mag_ge assms(3,4) by simp
  have "f64_mag a \<le> f64_magnitude k" using assms(1,2) by (simp add: f64_mag_def f64_bits_unat magnitude_le)
  then have "f64_round (f64_mag a) (f64_mag b) \<le> k"
    using b scale_pos by (intro f64_round_le mult_le_mono) simp_all
  moreover have "0 < F64_ONE" by (simp add: F64_ONE_def)
  ultimately show ?thesis using assms
    by (simp add: f64_div_def f64_is_nan_def f64_is_inf_def f64_bits_unat unat_of_ratio)
qed

text \<open>Adding less than half the gap above \<open>k\<close> to a value up to \<open>k\<close> stays within \<open>k\<close>.\<close>

lemma f64_add_le:
  assumes "unat a \<le> k" "k < F64_INF" "unat b \<le> j" "j < F64_INF"
    and "2 * f64_magnitude j + f64_magnitude k < f64_magnitude (Suc k)"
  shows "unat (f64_add a b) \<le> k"
proof -
  have m: "f64_mag a \<le> f64_magnitude k" "f64_mag b \<le> f64_magnitude j"
    using assms(1-4) by (simp_all add: f64_mag_def f64_bits_unat magnitude_le)
  have "2 * (x + y) < K + S" if "x \<le> K" "y \<le> J" "2 * J + K < S" for x y K J S :: nat using that by arith
  from this [OF m assms(5)] have "2 * (f64_mag a + f64_mag b) < f64_magnitude k + f64_magnitude (Suc k)" .
  then have "f64_round (f64_mag a + f64_mag b) F64_SCALE \<le> k"
    using scale_pos by (intro f64_round_near) simp_all
  then show ?thesis using assms
    by (simp add: f64_add_def f64_is_nan_def f64_is_inf_def f64_bits_unat unat_of_ratio)
qed

end
