(* ===== verification/Encoding.thy ===== *)
theory Encoding
  imports Prelude
begin

text \<open>
  \<^verbatim>\<open>cjdns-core/src/encoding.rs\<close>: encoding forms and schemes, their validation, and the packed bit
  format in which schemes travel. Bit positions and bit counts that the code keeps in \<open>u32\<close>
  counters are \<open>nat\<close>, with checked subtraction; field values keep their width.
\<close>

section \<open>Forms and schemes\<close>

record encoding_form =
  bit_count :: u8
  prefix_len :: u8
  prefix_value :: u32

datatype encoding_scheme = EncodingScheme (forms: "encoding_form list")

datatype scheme_validation_error =
    InvalidFormsAmount
  | SingleFormWithPrefix
  | MultiFormBadPrefix
  | BitCountNotSorted
  | DuplicatePrefix
  | TooBigForm

datatype form_validation_error = BadBitCount | InvalidPrefixData

datatype encoding_serialization_error = BadSerializedData | BadEncodingForm

definition FORM_MAX_BIT_SIZE :: u8 where
  "FORM_MAX_BIT_SIZE = 59"

definition mk_form :: "u8 \<Rightarrow> u8 \<Rightarrow> u32 \<Rightarrow> encoding_form" where
  "mk_form bc pl p = \<lparr>bit_count = bc, prefix_len = pl, prefix_value = p\<rparr>"

definition form_try_new :: "u8 \<Rightarrow> u8 \<Rightarrow> u32 \<Rightarrow> (encoding_form, form_validation_error) result" where
  "form_try_new bc pl p =
     (if bc = 0 \<or> bc > 31 then Err BadBitCount
      else and_then (shl_chk 1 (unat pl)) (\<lambda>s :: u32.
           and_then (sub_chk s 1) (\<lambda>prefix_max_value.
           if p > prefix_max_value then Err InvalidPrefixData
           else Ok (mk_form bc pl p))))"

definition size_bits :: "encoding_form \<Rightarrow> (u8, 'e) result" where
  "size_bits f = add_chk (bit_count f) (prefix_len f)"

fun validate_multi :: "u8 \<Rightarrow> u32 set \<Rightarrow> encoding_form list \<Rightarrow> (unit, scheme_validation_error) result" where
  "validate_multi last_bit_count used_prefixes [] = Ok ()"
| "validate_multi last_bit_count used_prefixes (f # fs) =
     (if prefix_len f = 0 \<or> prefix_len f > 31 then Err MultiFormBadPrefix
      else if last_bit_count > bit_count f then Err BitCountNotSorted
      else and_then (size_bits f) (\<lambda>sz.
        if sz > FORM_MAX_BIT_SIZE then Err TooBigForm
        else if prefix_value f \<in> used_prefixes then Err DuplicatePrefix
        else validate_multi (bit_count f) (insert (prefix_value f) used_prefixes) fs))"

definition scheme_validate :: "encoding_form list \<Rightarrow> (unit, scheme_validation_error) result" where
  "scheme_validate fs =
     (if length fs = 0 \<or> length fs > 31 then Err InvalidFormsAmount
      else if length fs = 1 then
        (let f = fs ! 0 in
         if prefix_len f \<noteq> 0 \<or> prefix_value f \<noteq> 0 then Err SingleFormWithPrefix else Ok ())
      else validate_multi 0 {} fs)"

definition scheme_try_new :: "encoding_form list \<Rightarrow> (encoding_scheme, scheme_validation_error) result" where
  "scheme_try_new fs = and_then (scheme_validate fs) (\<lambda>_. Ok (EncodingScheme fs))"

section \<open>Well-known schemes\<close>

definition F4 :: encoding_scheme where
  "F4 = EncodingScheme [mk_form 4 0 0]"

definition F8 :: encoding_scheme where
  "F8 = EncodingScheme [mk_form 8 0 0]"

definition V48 :: encoding_scheme where
  "V48 = EncodingScheme [mk_form 4 1 1, mk_form 8 1 0]"

definition V358 :: encoding_scheme where
  "V358 = EncodingScheme [mk_form 3 1 1, mk_form 5 2 2, mk_form 8 2 0]"

definition V37 :: encoding_scheme where
  "V37 = EncodingScheme [mk_form 3 1 1, mk_form 7 1 0]"

definition all_schemes :: "encoding_scheme list" where
  "all_schemes = [F4, F8, V48, V358, V37]"

section \<open>Serialization\<close>

record ser_state =
  result_vec :: bytes
  pos :: nat
  cur_byte_num :: nat
  cur_bit_num :: nat

definition ser_start_byte :: "ser_state \<Rightarrow> ser_state" where
  "ser_start_byte s =
     (if pos s mod 8 = 0
      then s\<lparr>result_vec := result_vec s @ [0], cur_byte_num := cur_byte_num s + 1, cur_bit_num := 0\<rparr>
      else s)"

definition ser_put_bit :: "bool \<Rightarrow> ser_state \<Rightarrow> (ser_state, 'e) result" where
  "ser_put_bit b s =
     and_then (shl_chk (1 :: u8) (cur_bit_num s)) (\<lambda>mask_byte.
     and_then (nat_sub_chk (cur_byte_num s) 1) (\<lambda>i.
     and_then (index_chk (result_vec s) i) (\<lambda>byte.
     Ok (s\<lparr>result_vec := (if b then (result_vec s)[i := byte OR mask_byte] else result_vec s),
           cur_bit_num := cur_bit_num s + 1,
           pos := pos s + 1\<rparr>))))"

fun ser_form_bits :: "nat \<Rightarrow> u64 \<Rightarrow> ser_state \<Rightarrow> (u64 \<times> ser_state, 'e) result" where
  "ser_form_bits 0 acc s = Ok (acc, s)"
| "ser_form_bits (Suc bits_needed) acc s =
     and_then (ser_put_bit (acc mod 2 = 1) (ser_start_byte s)) (\<lambda>s'.
     ser_form_bits bits_needed (drop_bit 1 acc) s')"

definition form_acc :: "encoding_form \<Rightarrow> u64" where
  "form_acc f =
     (let acc = (if prefix_len f > 0 then 0 OR ucast (prefix_value f) else 0);
          acc = push_bit 5 acc OR ucast (bit_count f)
      in push_bit 5 acc OR ucast (prefix_len f))"

definition ser_form :: "encoding_form \<Rightarrow> ser_state \<Rightarrow> (ser_state, encoding_serialization_error) result" where
  "ser_form f s =
     (if prefix_len f > 31 then Err BadEncodingForm
      else if bit_count f < 1 \<or> bit_count f > 31 then Err BadEncodingForm
      else and_then (ser_form_bits (5 + 5 + unat (prefix_len f)) (form_acc f) s) (\<lambda>(acc, s').
           and_then (assert_that (acc = 0)) (\<lambda>_. Ok s')))"

fun ser_forms :: "encoding_form list \<Rightarrow> ser_state \<Rightarrow> (ser_state, encoding_serialization_error) result" where
  "ser_forms [] s = Ok s"
| "ser_forms (f # fs) s = and_then (ser_form f s) (ser_forms fs)"

definition serialize_scheme :: "encoding_scheme \<Rightarrow> (bytes, encoding_serialization_error) result" where
  "serialize_scheme scheme =
     map_ok result_vec (ser_forms (forms scheme)
       \<lparr>result_vec = [], pos = 0, cur_byte_num = 0, cur_bit_num = 0\<rparr>)"

section \<open>Deserialization\<close>

fun read_bits_loop :: "bytes \<Rightarrow> nat \<Rightarrow> nat \<Rightarrow> u32 \<Rightarrow> (u32, 'e) result" where
  "read_bits_loop data p 0 acc = Ok acc"
| "read_bits_loop data p (Suc bits_left) acc =
     (let byte_num = (p - p mod 8) div 8; bit_num = p mod 8 in
      and_then (shr_chk (128 :: u8) bit_num) (\<lambda>byte_mask.
      let acc = push_bit 1 acc in
      and_then (nat_sub_chk (length data) 1) (\<lambda>top.
      and_then (nat_sub_chk top byte_num) (\<lambda>i.
      and_then (index_chk data i) (\<lambda>cur_byte.
      let acc = (if cur_byte AND byte_mask = 0 then acc AND NOT 1 else acc OR 1)
      in read_bits_loop data (p + 1) bits_left acc)))))"

definition read_bits :: "bytes \<Rightarrow> nat \<Rightarrow> nat \<Rightarrow> (u32, 'e) result" where
  "read_bits data position bits_amount =
     and_then (assert_that (bits_amount \<le> 32)) (\<lambda>_.
     and_then (assert_that (position + bits_amount \<le> length data * 8)) (\<lambda>_.
     if bits_amount = 0 then Ok 0 else read_bits_loop data position bits_amount 0))"

function deser_loop :: "bytes \<Rightarrow> nat \<Rightarrow> encoding_form list \<Rightarrow> (encoding_form list, 'e) result" where
  "deser_loop scheme_bytes cur_pos out =
     and_then (nat_sub_chk cur_pos 5) (\<lambda>p1.
     and_then (read_bits scheme_bytes p1 5) (\<lambda>pl :: u32.
     and_then (nat_sub_chk p1 5) (\<lambda>p2.
     and_then (read_bits scheme_bytes p2 5) (\<lambda>bc :: u32.
     and_then (nat_sub_chk p2 (unat pl)) (\<lambda>p3.
     and_then (read_bits scheme_bytes p3 (unat (ucast pl :: u8))) (\<lambda>p :: u32.
     and_then (unwrap (form_try_new (ucast bc) (ucast pl) p)) (\<lambda>f.
     if p3 < 5 + 5 then Ok (out @ [f]) else deser_loop scheme_bytes p3 (out @ [f]))))))))"
  by pat_completeness auto

termination
  by (relation "measure (\<lambda>(bs, cur_pos, out). cur_pos)") (auto simp: nat_sub_chk_def split: if_splits)

declare deser_loop.simps [simp del]

definition deserialize_scheme :: "bytes \<Rightarrow> (encoding_scheme, encoding_serialization_error) result" where
  "deserialize_scheme scheme_bytes =
     (if length scheme_bytes < 2 then Err BadSerializedData
      else and_then (deser_loop scheme_bytes (length scheme_bytes * 8) []) (\<lambda>result.
           map_err (\<lambda>_. BadSerializedData) (scheme_try_new result)))"

section \<open>The bit stream of a scheme\<close>

text \<open>
  The reference for both directions: every form is its prefix length, its bit count and its
  prefix, each low bit first; the forms follow each other; bytes are filled from their low bit.
\<close>

definition nbits :: "nat \<Rightarrow> 'a::len word \<Rightarrow> bool list" where
  "nbits n w = map (bit w) [0..<n]"

definition bits_le :: "bytes \<Rightarrow> bool list" where
  "bits_le bs = concat (map (nbits 8) bs)"

definition form_bits :: "encoding_form \<Rightarrow> bool list" where
  "form_bits f = nbits 5 (prefix_len f) @ nbits 5 (bit_count f)
     @ nbits (unat (prefix_len f)) (prefix_value f)"

definition scheme_bits :: "encoding_form list \<Rightarrow> bool list" where
  "scheme_bits fs = concat (map form_bits fs)"

definition form_ok :: "encoding_form \<Rightarrow> bool" where
  "form_ok f \<longleftrightarrow> 1 \<le> bit_count f \<and> bit_count f \<le> 31 \<and> prefix_len f \<le> 31
     \<and> unat (prefix_value f) < 2 ^ unat (prefix_len f)"

lemma length_nbits [simp]: "length (nbits n w) = n"
  by (simp add: nbits_def)

lemma nth_nbits [simp]: "i < n \<Longrightarrow> nbits n w ! i = bit w i"
  by (simp add: nbits_def)

lemma nbits_0 [simp]: "nbits 0 w = []"
  by (simp add: nbits_def)

lemma nbits_Suc: "nbits (Suc n) w = bit w 0 # nbits n (drop_bit 1 w)"
  by (rule nth_equalityI) (auto simp: nth_Cons bit_drop_bit_eq split: nat.split)

lemma nbits_zero [simp]: "nbits n 0 = replicate n False"
  by (rule nth_equalityI) auto

lemma bits_le_Nil [simp]: "bits_le [] = []"
  and bits_le_append [simp]: "bits_le (xs @ ys) = bits_le xs @ bits_le ys"
  and bits_le_Cons: "bits_le (x # xs) = nbits 8 x @ bits_le xs"
  by (simp_all add: bits_le_def)

lemma length_bits_le [simp]: "length (bits_le bs) = 8 * length bs"
  by (induction bs) (simp_all add: bits_le_Cons)

lemma nth_bits_le:
  assumes "i < 8 * length bs"
  shows "bits_le bs ! i = bit (bs ! (i div 8)) (i mod 8)"
  using assms
proof (induction bs arbitrary: i)
  case Nil
  then show ?case by simp
next
  case (Cons b bs)
  show ?case
  proof (cases "i < 8")
    case True
    then show ?thesis by (simp add: bits_le_Cons nth_append)
  next
    case False
    then obtain j where j: "i = j + 8" by (metis add.commute le_iff_add not_le)
    then have "j < 8 * length bs" using Cons.prems by simp
    moreover have "i div 8 = Suc (j div 8)" "i mod 8 = j mod 8" using j by presburger+
    ultimately show ?thesis using Cons.IH [of j] j
      by (simp add: bits_le_Cons nth_append)
  qed
qed

section \<open>What the serializer writes\<close>

text \<open>The bytes written so far hold the bits \<open>w\<close>, low bit first, padded with zeros.\<close>

definition ser_inv :: "ser_state \<Rightarrow> bool list \<Rightarrow> bool" where
  "ser_inv s w \<longleftrightarrow> pos s = length w \<and> cur_byte_num s = length (result_vec s)
     \<and> cur_bit_num s \<le> 8
     \<and> (\<exists>pad. pad < 8 \<and> bits_le (result_vec s) = w @ replicate pad False 
         \<and> (pad \<noteq> 0 \<longrightarrow> cur_bit_num s + pad = 8))"

lemma ser_put_bit_inv:
  assumes "ser_inv s w"
  shows "\<exists>s'. ser_put_bit b (ser_start_byte s) = Ok s' \<and> ser_inv s' (w @ [b])"
proof -
  from assms obtain pad where s: "pos s = length w" "cur_byte_num s = length (result_vec s)"
    "pad < 8" "bits_le (result_vec s) = w @ replicate pad False"
    "pad \<noteq> 0 \<longrightarrow> cur_bit_num s + pad = 8"
    by (auto simp: ser_inv_def)
  have len: "8 * length (result_vec s) = length w + pad"
    using arg_cong [OF s(4), of length] by simp
  obtain v n p where
     st: "ser_start_byte s = s\<lparr>result_vec := v, cur_byte_num := length v, cur_bit_num := n\<rparr>"
     and v: "bits_le v = w @ replicate (Suc p) False" "Suc p + n = 8" 
  proof (cases "pad = 0")
    case True
    then have "pos s mod 8 = 0" using len s(1) by presburger
    moreover have "replicate (Suc 7) False = replicate 8 False" by simp
    ultimately show ?thesis
      using that [where v = "result_vec s @ [0]" and n = 0 and p = 7] True s
      by (simp add: ser_start_byte_def bits_le_Cons del: replicate.simps)
  next
    case False
    then have "pos s mod 8 \<noteq> 0" using len s(1,3) by presburger
    then show ?thesis
      using that [where v = "result_vec s" and n = "cur_bit_num s" and p = "pad - 1"] False s
      by (simp add: ser_start_byte_def)
  qed
  have vl: "8 * length v = length w + Suc p"
    using arg_cong [OF v(1), of length] by simp
  then have ne: "v \<noteq> []" by auto
  let ?i = "length v - 1"
  let ?v' = "if b then v[?i := v ! ?i OR push_bit n 1] else v"
  have bv: "bits_le ?v' = (w @ [b]) @ replicate p False"
  proof (rule nth_equalityI)
    show "length (bits_le ?v') = length ((w @ [b]) @ replicate p False)"
      using vl by simp
    fix i
    assume "i < length (bits_le ?v')"
    then have i: "i < 8 * length v" by (simp split: if_splits)
    have old: "bit (v ! (i div 8)) (i mod 8) = (w @ replicate (Suc p) False) ! i"
      using nth_bits_le [OF i] v(1) by simp
    have lw: "length w = 8 * ?i + n" "n < 8" using vl v(2) ne by (cases v; simp)+
    have upd: "((w @ [b]) @ replicate p False) ! i \<longleftrightarrow>
        (w @ replicate (Suc p) False) ! i \<or> (b \<and> i = length w)"
    proof (cases "i < length w")
      case True
      then show ?thesis by (simp add: nth_append)
    next
      case False
      then obtain j where j: "i = length w + j" using le_Suc_ex not_less by blast
      then show ?thesis using i vl by (cases j) (simp_all add: nth_append)
    qed
    have "bit (?v' ! (i div 8)) (i mod 8) \<longleftrightarrow> bit (v ! (i div 8)) (i mod 8) \<or> (b \<and> i = length w)"
    proof (cases "i div 8 = ?i")
      case True
      then have "i = 8 * ?i + i mod 8"
        by (metis mult_div_mod_eq)
      then have "i = length w \<longleftrightarrow> i mod 8 = n"
        using lw(1) by linarith
      moreover have "bit (?v' ! (i div 8)) (i mod 8) \<longleftrightarrow>
          bit (v ! (i div 8)) (i mod 8) \<or> (b \<and> i mod 8 = n)"
        using True ne lw(2) by (auto simp: bit_or_iff bit_exp_iff)
      ultimately show ?thesis by simp
    next
      case False
      then have "i \<noteq> length w" using lw by auto
      with False show ?thesis by simp
    qed
    then show "bits_le ?v' ! i = ((w @ [b]) @ replicate p False) ! i"
      using nth_bits_le [of i ?v'] i by (simp only: upd old) simp
  qed
  have "ser_put_bit b (ser_start_byte s) = Ok (s\<lparr>result_vec := ?v', cur_byte_num := length v,
      cur_bit_num := n + 1, pos := pos s + 1\<rparr>)"
    using v(2) ne by (simp add: ser_put_bit_def st shl_chk_def nat_sub_chk_def index_chk_def Suc_le_eq)
  moreover have "ser_inv (s\<lparr>result_vec := ?v', cur_byte_num := length v,
      cur_bit_num := n + 1, pos := pos s + 1\<rparr>) (w @ [b])"
    unfolding ser_inv_def using bv v(2) s(1) by (auto intro!: exI [of _ p])
  ultimately show ?thesis by blast
qed

lemma ser_form_bits_ok:
  assumes "ser_inv s w"
  shows "\<exists>s'. ser_form_bits n acc s = (Ok (drop_bit n acc, s') :: (_, 'e) result) \<and> ser_inv s' (w @ nbits n acc)"
  using assms
proof (induction n arbitrary: acc s w)
  case 0
  then show ?case by simp
next
  case (Suc n)
  have b: "(acc mod 2 = 1) = bit acc 0" by (simp add: bit_0 odd_iff_mod_2_eq_one)
  obtain s1 where s1: "ser_put_bit (bit acc 0) (ser_start_byte s) = (Ok s1 :: (_, 'e) result)" "ser_inv s1 (w @ [bit acc 0])"
    using ser_put_bit_inv [OF Suc.prems] by blast
  from Suc.IH [OF s1(2), of "drop_bit 1 acc"] s1(1) show ?case
    by (auto simp: b nbits_Suc drop_bit_drop_bit simp del: bit_0)
qed

lemma form_acc_bits:
  assumes "form_ok f"
  shows "nbits (5 + 5 + unat (prefix_len f)) (form_acc f) = form_bits f"
    and "drop_bit (5 + 5 + unat (prefix_len f)) (form_acc f) = 0"
proof -
  let ?pl = "unat (prefix_len f)"
  from assms have pl: "?pl \<le> 31" and bc: "unat (bit_count f) < 2 ^ 5" and p: "unat (prefix_value f) < 2 ^ ?pl"
    by (auto simp: form_ok_def word_le_nat_alt)
  have b: "bit (form_acc f) i \<longleftrightarrow> (if i < 5 then bit (prefix_len f) i else if i < 10 then bit (bit_count f) (i - 5)
     else bit (prefix_value f) (i - 10))" for i
  proof -
    have "prefix_len f > 0 \<or> prefix_value f = 0"
      using p by (cases "prefix_len f = 0") (auto simp: unat_eq_0 word_neq_0_conv)
    moreover have "\<not> bit (prefix_len f) i" if "5 \<le> i"
      using not_bit_of_less [of "prefix_len f" 5] pl that by simp
    moreover have "\<not> bit (bit_count f) (i - 5)" if "10 \<le> i"
      using not_bit_of_less [OF bc] that by simp
    moreover have "bit (prefix_value f) (i - 10) \<Longrightarrow> i < 42"
      using bit_imp_le_length [of "prefix_value f" "i - 10"] by simp
    ultimately show ?thesis
      unfolding form_acc_def Let_def
      by (auto simp: bit_or_iff bit_push_bit_iff bit_ucast_iff not_less dest: bit_imp_le_length)
  qed
  show "nbits (5 + 5 + ?pl) (form_acc f) = form_bits f"
    by (rule nth_equalityI) (auto simp: form_bits_def b nth_append)
  show "drop_bit (5 + 5 + ?pl) (form_acc f) = 0"
    by (rule bit_word_eqI) (auto simp: bit_drop_bit_eq b not_bit_of_less [OF p])
qed

lemma ser_form_ok:
  assumes "ser_inv s w" and "form_ok f"
  shows "\<exists>s'. ser_form f s = Ok s' \<and> ser_inv s' (w @ form_bits f)"
proof -
  have g: "\<not> prefix_len f > 31" "\<not> bit_count f < 1" "\<not> bit_count f > 31"
    using assms(2) by (auto simp: form_ok_def)
  obtain s' where "ser_form_bits (5 + 5 + unat (prefix_len f)) (form_acc f) s
      = (Ok (0, s') :: (_, encoding_serialization_error) result)" "ser_inv s' (w @ form_bits f)"
    using ser_form_bits_ok [OF assms(1)] by (metis form_acc_bits [OF assms(2)])
  with g show ?thesis by (simp add: ser_form_def)
qed

lemma ser_forms_ok:
  assumes "ser_inv s w" and "\<forall>f \<in> set fs. form_ok f"
  shows "\<exists>s'. ser_forms fs s = Ok s' \<and> ser_inv s' (w @ scheme_bits fs)"
  using assms
proof (induction fs arbitrary: s w)
  case Nil
  then show ?case by (simp add: scheme_bits_def)
next
  case (Cons f fs)
  then obtain s1 where "ser_form f s = Ok s1" "ser_inv s1 (w @ form_bits f)"
    using ser_form_ok by (metis list.set_intros(1))
  with Cons.IH [of s1 "w @ form_bits f"] Cons.prems show ?case
    by (auto simp: scheme_bits_def)
qed

lemma serialize_scheme_bits:
  assumes "\<forall>f \<in> set fs. form_ok f"
  shows "\<exists>bs pad. serialize_scheme (EncodingScheme fs) = Ok bs \<and> pad < 8
           \<and> bits_le bs = scheme_bits fs @ replicate pad False"
proof -
  have "ser_inv \<lparr>result_vec = [], pos = 0, cur_byte_num = 0, cur_bit_num = 0\<rparr> []"
    by (simp add: ser_inv_def)
  from ser_forms_ok [OF this assms] show ?thesis
    by (auto simp: serialize_scheme_def ser_inv_def)
qed

section \<open>What the deserializer reads\<close>

lemma mirror_pos:
  assumes "p div 8 < (n :: nat)"
  shows "(8 * n - 1 - p) div 8 = n - 1 - p div 8 \<and> (8 * n - 1 - p) mod 8 = 7 - p mod 8"
proof -
  define a b where "a = p div 8" and "b = p mod 8"
  have p: "p = 8 * a + b" "b < 8" by (simp_all add: a_def b_def)
  obtain c where n: "n = Suc (a + c)"
    using assms less_iff_Suc_add a_def by auto
  obtain d where d: "b + d = 7" using p(2) using le_Suc_ex [of b 7] by auto
  have "8 * n - 1 - p = 8 * c + d" using p n d by simp
  moreover have "d < 8" "7 - b = d" using d by simp_all
  ultimately show ?thesis using n by (simp add: a_def [symmetric] b_def [symmetric])
qed

lemma read_bits_loop_ok:
  assumes "p + n \<le> 8 * length data"
  shows "\<exists>w. read_bits_loop data p n acc = (Ok w :: (_, 'e) result)
    \<and> (\<forall>i < 32. bit w i \<longleftrightarrow> (if i < n then bits_le data ! (8 * length data - p - n + i) else bit acc (i - n)))"
  using assms
proof (induction n arbitrary: p acc)
  case 0
  then show ?case by simp
next
  case (Suc n)
  let ?i = "length data - 1 - p div 8"
  let ?q = "8 * length data - p - Suc n"
  let ?acc = "if (data ! ?i) AND drop_bit (p mod 8) 128 = 0 then push_bit 1 acc AND NOT 1 else push_bit 1 acc OR 1"
  have p: "p < 8 * length data" "p div 8 < length data" using Suc.prems by auto
  have phys: "?q + n = 8 * length data - 1 - p" using Suc.prems by simp
  have dm: "(8 * length data - 1 - p) div 8 = ?i" "(8 * length data - 1 - p) mod 8 = 7 - p mod 8"
    using mirror_pos [OF p(2)] by auto
  have mask: "(b AND drop_bit (p mod 8) (128 :: u8) = 0) \<longleftrightarrow> \<not> bit b (7 - p mod 8)" for b
  proof -
    have "(128 :: u8) = push_bit 7 1" by simp
    then have "bit (drop_bit (p mod 8) (128 :: u8)) j \<longleftrightarrow> j = 7 - p mod 8" for j
      by (simp only: bit_drop_bit_eq o_def push_bit_of_1 bit_exp_iff) (auto simp: less_Suc_eq_le)
    moreover have "7 - p mod 8 < 8" by simp
    ultimately show ?thesis by (auto simp: bit_eq_iff [of _ 0] bit_and_iff simp del: diff_less_Suc)
  qed
  have top: "bits_le data ! (?q + n) \<longleftrightarrow> bit (data ! ?i) (7 - p mod 8)"
  proof -
    have "8 * length data - 1 - p < 8 * length data" using p(1) by linarith
    from nth_bits_le [OF this] show ?thesis by (simp only: phys dm)
  qed
  have step: "read_bits_loop data p (Suc n) acc = (read_bits_loop data (p + 1) n ?acc :: (_, 'e) result)"
    using p by (simp add: Let_def minus_mod_eq_mult_div)
  have accb: "bit ?acc i \<longleftrightarrow> (if i = 0 then bits_le data ! (?q + n) else bit acc (i - 1))" if "i < 32" for i
  proof -
    have sh: "bit (push_bit 1 acc) i \<longleftrightarrow> 1 \<le> i \<and> bit acc (i - 1)"
      using that by (simp only: bit_push_bit_iff) (auto dest: bit_imp_le_length)
    have pb: "possible_bit TYPE(32 word) i" using that by (simp add: possible_bit_def)
    have q: "bits_le data ! (?q + n) \<longleftrightarrow> \<not> (data ! ?i AND drop_bit (p mod 8) 128 = 0)"
      by (simp only: top mask not_not)
    show ?thesis
      using that pb by (simp only: q) (auto simp only: bit_and_iff bit_or_iff bit_not_iff bit_1_iff sh
          if_True if_False split: if_splits)
  qed
  from Suc.IH [of "p + 1" ?acc] Suc.prems obtain w where
    w: "read_bits_loop data (p + 1) n ?acc = (Ok w :: (_, 'e) result)"
      "\<forall>i < 32. bit w i \<longleftrightarrow> (if i < n then bits_le data ! (8 * length data - (p + 1) - n + i) else bit ?acc (i - n))"
    by (metis (no_types, lifting) add.assoc plus_1_eq_Suc)
  have "bit w i \<longleftrightarrow> (if i < Suc n then bits_le data ! (?q + i) else bit acc (i - Suc n))" if "i < 32" for i
  proof -
    have "8 * length data - (p + 1) - n = ?q" by simp
    with w(2) that accb [of "i - n"] show ?thesis
      by (cases "i < n"; cases "i = n") auto
  qed
  with w(1) step show ?case by auto
qed

lemma read_bits_ok:
  assumes "p + n \<le> 8 * length data" and "n \<le> 32"
  obtains w where "read_bits data p n = (Ok w :: (_, 'e) result)"
    and "nbits n w = take n (drop (8 * length data - p - n) (bits_le data))" and "unat w < 2 ^ n"
proof -
  from read_bits_loop_ok [OF assms(1), of 0] obtain w where
    w: "read_bits_loop data p n 0 = (Ok w :: (_, 'e) result)"
     "\<forall>i < 32. bit w i \<longleftrightarrow> i < n \<and> bits_le data ! (8 * length data - p - n + i)"
    by (metis (no_types, lifting) bit_0_eq bot_apply bot_bool_def)
  have "unat w < 2 ^ n"
    by (rule unat_less_of_bits) (use w(2) bit_imp_le_length [of w] in fastforce)
  moreover have "nbits n w = take n (drop (8 * length data - p - n) (bits_le data))"
    by (rule nth_equalityI) (use w(2) assms in auto)
  moreover have "read_bits data p n = (Ok w :: (_, 'e) result)"
    using w(1) assms by (auto simp: read_bits_def mult.commute)
  ultimately show thesis using that by blast
qed

lemma nbits_inj:
  assumes "nbits n v = nbits n w" "unat v < 2 ^ n" "unat w < 2 ^ n"
  shows "v = w"
proof (rule bit_word_eqI)
  fix i
  show "bit v i \<longleftrightarrow> bit w i"
  proof (cases "i < n")
    case True
    with assms(1) show ?thesis by (metis nth_nbits)
  next
    case False
    with assms(2,3) show ?thesis by (simp add: not_bit_of_less)
  qed
qed

lemma read_field:
  fixes v :: "'a::len word"
  assumes "drop (8 * length data - (p + n)) (bits_le data) = nbits n v @ rest"
    and "unat v < 2 ^ n" and "n \<le> 32" and "LENGTH('a) \<le> 32" and "p + n \<le> 8 * length data"
  shows "read_bits data p n = (Ok (ucast v) :: (u32, 'e) result)"
proof -
  obtain w where w: "read_bits data p n = (Ok w :: (u32, 'e) result)"
      "nbits n w = take n (drop (8 * length data - p - n) (bits_le data))" "unat w < 2 ^ n"
    using read_bits_ok [OF assms(5,3)] by blast
  have "unat (ucast v :: u32) = unat v"
    using assms(2,3) less_le_trans [OF assms(2) power_increasing [of n 32 2]]
    by (simp add: unsigned_ucast_eq take_bit_nat_eq_self_iff)
  moreover have "nbits n (ucast v :: u32) = nbits n v"
    by (rule nth_equalityI) (use assms(3) in \<open>auto simp: bit_ucast_iff dest: bit_imp_le_length\<close>)
  moreover have "nbits n w = nbits n v"
    using w(2) assms(1) by simp
  ultimately have "w = ucast v"
    using assms(2) w(3) by (intro nbits_inj) auto
  with w(1) show ?thesis by simp
qed


lemma form_try_new_iff:
  "form_try_new bc pl p = Ok f \<longleftrightarrow> f = mk_form bc pl p \<and> form_ok f"
proof (cases "unat pl < 32")
  case True
  then have one: "1 \<le> (2 ^ unat pl :: u32)"
    by (simp add: word_le_nat_alt unat_exp)
  then have "unat (2 ^ unat pl - 1 :: u32) = 2 ^ unat pl - 1"
    using True by (simp add: unat_sub_if' unat_exp word_le_nat_alt)
  then have p: "p \<le> 2 ^ unat pl - 1 \<longleftrightarrow> unat p < 2 ^ unat pl"
    unfolding word_le_nat_alt [of p] by (simp add: less_Suc_eq_le [symmetric])
  have bc: "bc = 0 \<longleftrightarrow> \<not> 1 \<le> bc"
    by (metis not_less word_gt_0 word_less_1)
  have pl: "pl \<le> 31"
    using True by (simp add: word_le_nat_alt)
  show ?thesis
    using True one p bc pl
    by (simp add: form_try_new_def push_bit_eq_mult sub_chk_def form_ok_def mk_form_def not_less [symmetric]) auto
next
  case False
  then show ?thesis by (auto simp: form_try_new_def shl_chk_def form_ok_def mk_form_def word_le_nat_alt)
qed


lemma deser_loop_form:
  assumes "drop (8 * length data - cur) (bits_le data) = form_bits f @ rest"
    and "form_ok f" and "cur \<le> 8 * length data"
  shows "deser_loop data cur out =
    (if length rest < 10 then Ok (out @ [f]) else deser_loop data (length rest) (out @ [f]) :: (_, 'e) result)"
proof -
  let ?pl = "unat (prefix_len f)"
  let ?N = "8 * length data"
  from assms(2) have pl: "?pl < 32" and bc: "unat (bit_count f) < 2 ^ 5" and p: "unat (prefix_value f) < 2 ^ ?pl"
    by (auto simp: form_ok_def word_le_nat_alt)
  have cur: "cur = 10 + ?pl + length rest"
    using arg_cong [OF assms(1), of length] assms(3) by (simp add: form_bits_def)
  have dr: "drop (?N - cur + k) (bits_le data) = drop k (form_bits f @ rest)" for k
    using assms(1) by (metis add.commute drop_drop)
  have e: "?N - (cur - 10) = ?N - cur + 10" "?N - (cur - 5) = ?N - cur + 5"
      "?N - (cur - 10 - ?pl) = ?N - cur + (10 + ?pl)"
    using cur assms(3) by simp_all
  have "read_bits data (cur - 5) 5 = (Ok (ucast (prefix_len f)) :: (u32, 'e) result)"
    by (rule read_field [where rest = "drop 5 (form_bits f @ rest)"])
      (use cur assms(3) pl dr [of 0] in \<open>auto simp: form_bits_def ac_simps\<close>)
  moreover have "read_bits data (cur - 5 - 5) 5 = (Ok (ucast (bit_count f)) :: (u32, 'e) result)"
    by (rule read_field [where rest = "drop 10 (form_bits f @ rest)"])
      (use cur assms(3) bc dr [of 5] e in \<open>auto simp: form_bits_def ac_simps\<close>)
  moreover have "read_bits data (cur - 5 - 5 - ?pl) ?pl = (Ok (ucast (prefix_value f)) :: (u32, 'e) result)"
    by (rule read_field [where rest = rest])
      (use cur assms(3) p pl dr [of 10] e in \<open>auto simp: form_bits_def ac_simps\<close>)
  moreover have "unat (ucast (prefix_len f) :: u32) = ?pl" "ucast (ucast (prefix_len f) :: u32) = prefix_len f"
     "ucast (ucast (bit_count f) :: u32) = bit_count f"
    by (simp_all add: unat_ucast_up ucast_ucast_down)
  moreover have "form_try_new (bit_count f) (prefix_len f) (prefix_value f) = Ok f"
    using assms(2) by (simp add: form_try_new_iff mk_form_def)
  ultimately show ?thesis
    using cur by (subst deser_loop.simps) (simp add: not_less)
qed

lemma deser_loop_forms:
  assumes "drop (8 * length data - cur) (bits_le data) = scheme_bits fs @ pad"
    and "fs \<noteq> []" and "\<forall>f \<in> set fs. form_ok f" and "cur \<le> 8 * length data" and "length pad < 10"
  shows "deser_loop data cur out = (Ok (out @ fs) :: (_, 'e) result)"
  using assms
proof (induction fs arbitrary: cur out)
  case Nil
  then show ?case by simp
next
  case (Cons f fs)
  let ?rest = "scheme_bits fs @ pad"
  have d: "drop (8 * length data - cur) (bits_le data) = form_bits f @ ?rest"
    using Cons.prems(1) by (simp add: scheme_bits_def)
  have step: "deser_loop data cur out = (if length ?rest < 10 then Ok (out @ [f])
      else deser_loop data (length ?rest) (out @ [f]) :: (_, 'e) result)"
    by (rule deser_loop_form [OF d _ Cons.prems(4)]) (use Cons.prems(3) in simp)
  show ?case
  proof (cases fs)
    case Nil
    with step Cons.prems show ?thesis by (simp add: scheme_bits_def)
  next
    case (Cons g gs)
    then have "10 \<le> length (scheme_bits fs)"
      by (simp add: scheme_bits_def form_bits_def)
    moreover have "drop (8 * length data - length ?rest) (bits_le data) = ?rest" "length ?rest \<le> 8 * length data"
      using drop_suffix [OF d Cons.prems(4)] by simp_all
    ultimately show ?thesis
      using step Cons.IH [of "length ?rest" "out @ [f]"] Cons.prems Cons by simp
  qed
qed


lemma bits_le_zeros: "set bs \<subseteq> {0} \<Longrightarrow> bits_le bs = replicate (8 * length bs) False"
  by (induction bs) (auto simp: bits_le_Cons replicate_add)

section \<open>Valid schemes\<close>

definition scheme_ok :: "encoding_form list \<Rightarrow> bool" where
  "scheme_ok fs \<longleftrightarrow> fs \<noteq> [] \<and> length fs \<le> 31 \<and>
     (if length fs = 1 then prefix_len (hd fs) = 0 \<and> prefix_value (hd fs) = 0
      else (\<forall>f \<in> set fs. 1 \<le> prefix_len f \<and> prefix_len f \<le> 31 \<and> unat (bit_count f) + unat (prefix_len f) \<le> 59)
         \<and> sorted (map bit_count fs) \<and> distinct (map prefix_value fs))"


lemma validate_multi_iff:
  "validate_multi mbc used fs = Ok () \<longleftrightarrow>
     (\<forall>f \<in> set fs. (1 \<le> prefix_len f \<and> prefix_len f \<le> 31 \<and> unat (bit_count f) + unat (prefix_len f) \<le> 59)
         \<and> prefix_value f \<notin> used)
     \<and> sorted (mbc # map bit_count fs) \<and> distinct (map prefix_value fs)"
proof (induction mbc used fs rule: validate_multi.induct)
  case (1 mbc used)
  then show ?case by simp
next
  case (2 mbc used f fs)
  let ?sz = "bit_count f + prefix_len f"
  have pl: "prefix_len f = 0 \<or> 31 < prefix_len f \<longleftrightarrow> \<not> (1 \<le> prefix_len f \<and> prefix_len f \<le> 31)"
    by (metis not_less word_gt_0 word_less_1)
  have sz: "(\<exists>sz. (size_bits f :: (_, scheme_validation_error) result) = Ok sz \<and> sz \<le> FORM_MAX_BIT_SIZE) \<longleftrightarrow>
     unat (bit_count f) + unat (prefix_len f) \<le> 59"
    by (auto simp: size_bits_def add_chk_def FORM_MAX_BIT_SIZE_def word_le_nat_alt unat_plus_if')
  show ?case
  proof (cases "(1 \<le> prefix_len f \<and> prefix_len f \<le> 31) \<and> mbc \<le> bit_count f \<and>
       (\<exists>sz. (size_bits f :: (_, scheme_validation_error) result) = Ok sz \<and> sz \<le> FORM_MAX_BIT_SIZE) \<and> prefix_value f \<notin> used")
    case True
    then obtain sz where z: "(size_bits f :: (_, scheme_validation_error) result) = Ok sz" "sz \<le> FORM_MAX_BIT_SIZE" by blast
    have step: "validate_multi mbc used (f # fs) = validate_multi (bit_count f) (insert (prefix_value f) used) fs"
      using True z pl by (auto simp: not_less)
    have IH: "validate_multi (bit_count f) (insert (prefix_value f) used) fs = Ok () \<longleftrightarrow>
      (\<forall>f' \<in> set fs. (1 \<le> prefix_len f' \<and> prefix_len f' \<le> 31 \<and> unat (bit_count f') + unat (prefix_len f') \<le> 59)
         \<and> prefix_value f' \<notin> insert (prefix_value f) used)
     \<and> sorted (bit_count f # map bit_count fs) \<and> distinct (map prefix_value fs)"
      by (rule 2) (use True z pl in auto)
    have "sorted (mbc # map bit_count (f # fs)) \<longleftrightarrow> sorted (bit_count f # map bit_count fs)"
      using True by (simp only: list.map sorted2 simp_thms)
    then show ?thesis
      unfolding step IH using True sz by (auto simp del: sorted_simps) (metis imageI)
  next
    case False
    then have "validate_multi mbc used (f # fs) \<noteq> Ok ()"
      using pl by (auto simp: ok_iff)
    with False sz show ?thesis by auto
  qed
qed

lemma scheme_validate_iff: "scheme_validate fs = Ok () \<longleftrightarrow> scheme_ok fs"
  by (cases fs) (auto simp: scheme_validate_def scheme_ok_def validate_multi_iff Let_def not_less
      simp del: validate_multi.simps)

lemma validate_multi_no_panic:
  assumes "\<forall>f \<in> set fs. form_ok f"
  shows "validate_multi mbc used fs \<noteq> Panic"
  using assms
proof (induction mbc used fs rule: validate_multi.induct)
  case (2 mbc used f fs)
  have "unat (bit_count f) \<le> 31" "unat (prefix_len f) \<le> 31"
    using 2 by (auto simp: form_ok_def word_le_nat_alt)
  then have "(size_bits f :: (_, scheme_validation_error) result) = Ok (bit_count f + prefix_len f)"
    by (simp add: size_bits_def add_chk_def)
  with 2 show ?case by auto
qed simp


lemma deser_loop_forms_ok:
  assumes "deser_loop data cur out = (Ok fs :: (_, 'e) result)" and "\<forall>f \<in> set out. form_ok f"
  shows "\<forall>f \<in> set fs. form_ok f"
  using assms
proof (induction cur arbitrary: out rule: less_induct)
  case (less cur)
  from less.prems(1) obtain pl bc p f where
    rd: "5 \<le> cur" "(read_bits data (cur - 5) 5 :: (_, 'e) result) = Ok pl" "5 \<le> cur - 5"
      "(read_bits data (cur - 5 - 5) 5 :: (_, 'e) result) = Ok bc" "unat pl \<le> cur - 5 - 5"
      "(read_bits data (cur - 5 - 5 - unat pl) (unat (ucast pl :: u8)) :: (_, 'e) result) = Ok p"
      "form_try_new (ucast bc) (ucast pl) p = Ok f"
    and k: "(if cur - 5 - 5 - unat pl < 10 then Ok (out @ [f])
             else deser_loop data (cur - 5 - 5 - unat pl) (out @ [f])) = (Ok fs :: (_, 'e) result)"
    by (subst (asm) deser_loop.simps) (auto simp: ok_iff nat_sub_chk_def split: if_splits)
  have f: "form_ok f" using rd(7) by (auto simp only: form_try_new_iff)
  show ?case
  proof (cases "cur - 5 - 5 - unat pl < 10")
    case True
    then show ?thesis using k f less.prems(2) by auto
  next
    case False
    then show ?thesis
      using less.IH [of "cur - 5 - 5 - unat pl" "out @ [f]"] rd(1) k f less.prems(2) by auto
  qed
qed

lemma deserialize_scheme_ok:
  assumes "deserialize_scheme bs = Ok s"
  shows "scheme_ok (forms s)" and "\<forall>f \<in> set (forms s). form_ok f"
  using assms deser_loop_forms_ok [where ?'e = encoding_serialization_error and data = bs and cur = "length bs * 8" and out = "[]"]
  by (auto simp: deserialize_scheme_def scheme_try_new_def scheme_validate_iff ok_iff split: if_splits)

lemma roundtrip_valid:
  assumes "scheme_ok fs" and "\<forall>f \<in> set fs. form_ok f"
  shows "\<exists>bs. serialize_scheme (EncodingScheme fs) = Ok bs \<and> deserialize_scheme bs = Ok (EncodingScheme fs)"
proof -
  obtain bs pad where bs: "serialize_scheme (EncodingScheme fs) = Ok bs" "pad < 8"
      "bits_le bs = scheme_bits fs @ replicate pad False"
    using serialize_scheme_bits [OF assms(2)] by blast
  have ne: "fs \<noteq> []" using assms(1) by (simp add: scheme_ok_def)
  then have "10 \<le> length (scheme_bits fs)"
    by (cases fs) (auto simp: scheme_bits_def form_bits_def)
  then have "\<not> length bs < 2"
    using arg_cong [OF bs(3), of length] by simp
  moreover have "deser_loop bs (length bs * 8) [] = (Ok fs :: (_, encoding_serialization_error) result)"
    using deser_loop_forms [of bs "length bs * 8" fs "replicate pad False" "[]"] bs ne assms(2) by simp
  ultimately have "deserialize_scheme bs = Ok (EncodingScheme fs)"
    using assms(1) scheme_validate_iff [of fs] by (simp add: deserialize_scheme_def scheme_try_new_def)
  with bs(1) show ?thesis by blast
qed

lemma deserialize_zeros:
  assumes "2 \<le> length bs" and "set bs \<subseteq> {0}"
  shows "deserialize_scheme bs = Panic"
proof -
  let ?N = "8 * length bs"
  have rd: "read_bits bs p 5 = (Ok 0 :: (u32, encoding_serialization_error) result)" if "p + 5 \<le> ?N" for p
    using read_field [of bs p 5 "0 :: u8" "replicate p False"] that bits_le_zeros [OF assms(2)]
    by (simp add: replicate_add [symmetric] add.commute)
  have "read_bits bs (?N - 5 - 5) 0 = (Ok 0 :: (u32, encoding_serialization_error) result)"
    using assms(1) by (simp add: read_bits_def mult.commute)
  then show ?thesis
    using assms(1) rd [of "?N - 5"] rd [of "?N - 5 - 5"]
    by (simp add: deserialize_scheme_def deser_loop.simps form_try_new_def mult.commute)
qed

section \<open>Properties\<close>

text \<open>A scheme that \<open>EncodingScheme::try_new\<close> accepts, made of forms that
  \<open>EncodingSchemeForm::try_new\<close> accepts, serializes without error, and deserializing the bytes
  gives the scheme back.\<close>

theorem scheme_wire_roundtrip:
  assumes "scheme_try_new fs = Ok s" and "\<forall>f \<in> set fs. \<exists>bc pl p. form_try_new bc pl p = Ok f"
  shows "\<exists>bs. serialize_scheme s = Ok bs \<and> deserialize_scheme bs = Ok s"
  using assms roundtrip_valid [of fs]
  by (auto simp: scheme_try_new_def ok_iff scheme_validate_iff form_try_new_iff)

text \<open>
  What the documentation and the comments of \<open>validate\<close> ask of a scheme. The forms are told apart by the
  low bits of a label, so no prefix may be the beginning of another.
\<close>

definition prefix_bits :: "encoding_form \<Rightarrow> bool list" where
  "prefix_bits f = nbits (unat (prefix_len f)) (prefix_value f)"

definition documented_scheme :: "encoding_form list \<Rightarrow> bool" where
  "documented_scheme fs \<longleftrightarrow> 1 \<le> length fs \<and> length fs \<le> 31 \<and> (\<forall>f \<in> set fs. form_ok f)
     \<and> (length fs = 1 \<longrightarrow> prefix_len (hd fs) = 0)
     \<and> (1 < length fs \<longrightarrow> (\<forall>f \<in> set fs. 1 \<le> prefix_len f \<and> unat (bit_count f) + unat (prefix_len f) \<le> 59)
          \<and> sorted_wrt (\<lambda>f g. bit_count f < bit_count g) fs
          \<and> (\<forall>f \<in> set fs. \<forall>g \<in> set fs. f \<noteq> g \<longrightarrow> \<not> prefix (prefix_bits f) (prefix_bits g)))"

lemma prefix_bits_same_value:
  assumes "prefix_value f = prefix_value g" and "unat (prefix_len f) \<le> unat (prefix_len g)"
  shows "prefix (prefix_bits f) (prefix_bits g)"
proof -
  have "prefix_bits f = take (unat (prefix_len f)) (prefix_bits g)"
    using assms by (simp add: prefix_bits_def nbits_def take_map)
  then show ?thesis by (metis take_is_prefix)
qed

lemma documented_scheme_ok:
  assumes "documented_scheme fs"
  shows "scheme_ok fs"
proof (cases "length fs = 1")
  case True
  then obtain f where "fs = [f]" by (auto simp: length_Suc_conv)
  then show ?thesis using assms by (simp add: documented_scheme_def scheme_ok_def form_ok_def) (auto simp: less_one unsigned_eq_0_iff)
next
  case False
  have "distinct (map bit_count fs)"
    using assms False by (auto simp: documented_scheme_def sorted_wrt_map [symmetric] strict_sorted_iff)
  moreover have "inj_on prefix_value (set fs)"
  proof (rule inj_onI, rule ccontr)
    fix f g
    assume fg: "f \<in> set fs" "g \<in> set fs" "prefix_value f = prefix_value g" "f \<noteq> g"
    then have "\<not> prefix (prefix_bits f) (prefix_bits g)" "\<not> prefix (prefix_bits g) (prefix_bits f)"
      using assms False by (auto simp: documented_scheme_def)
    then show False using prefix_bits_same_value [of f g] prefix_bits_same_value [of g f] fg(3) nat_le_linear by metis
  qed
  ultimately have "distinct (map prefix_value fs)" by (simp add: distinct_map)
  moreover have "sorted (map bit_count fs)"
    using assms False by (auto simp: documented_scheme_def sorted_map intro: sorted_wrt_mono_rel [of _ "\<lambda>f g. bit_count f < bit_count g"])
  ultimately show ?thesis using assms False by (auto simp: documented_scheme_def scheme_ok_def form_ok_def)
qed

lemma scheme_try_new_iff: "scheme_try_new fs = Ok t \<longleftrightarrow> t = EncodingScheme fs \<and> scheme_ok fs"
  by (auto simp: scheme_try_new_def scheme_validate_iff ok_iff)

lemma all_documented: "\<forall>s \<in> set all_schemes. documented_scheme (forms s)"
  by (simp add: all_schemes_def F4_def F8_def V48_def V358_def V37_def documented_scheme_def form_ok_def mk_form_def
      prefix_bits_def nbits_def upt_rec)

text \<open>What the checks let through although the documentation or a comment rules it out: forms of the same bit
  count, a prefix that another one begins with, and no bits at all.\<close>

theorem undocumented_schemes_accepted:
  "scheme_try_new [mk_form 3 1 1, mk_form 3 1 0] = Ok (EncodingScheme [mk_form 3 1 1, mk_form 3 1 0])"
  "scheme_try_new [mk_form 3 1 1, mk_form 5 2 3] = Ok (EncodingScheme [mk_form 3 1 1, mk_form 5 2 3])"
  "prefix (prefix_bits (mk_form 3 1 1)) (prefix_bits (mk_form 5 2 3))"
  "scheme_try_new [mk_form 0 0 0] = Ok (EncodingScheme [mk_form 0 0 0])"
  by (simp_all add: scheme_try_new_iff scheme_ok_def mk_form_def prefix_bits_def nbits_def upt_rec)

text \<open>C16: \<open>EncodingScheme::try_new\<close> accepts exactly the lists of 1 to 31 forms where a single form has
  no prefix and, of several forms, each has a prefix of 1 to 31 bits and at most 59 bits in all, the bit counts
  do not descend and no two prefix values are equal as numbers. These checks are weaker than what its
  documentation asks for, so every documented scheme passes them. On forms from
  \<open>EncodingSchemeForm::try_new\<close> there is no panic.\<close>

theorem scheme_try_new_exact:
  "(\<forall>s. scheme_try_new fs = Ok s \<longleftrightarrow> s = EncodingScheme fs \<and> 1 \<le> length fs \<and> length fs \<le> 31
       \<and> (length fs = 1 \<longrightarrow> prefix_len (hd fs) = 0 \<and> prefix_value (hd fs) = 0)
       \<and> (1 < length fs \<longrightarrow> (\<forall>f \<in> set fs. 1 \<le> prefix_len f \<and> prefix_len f \<le> 31 \<and> unat (bit_count f) + unat (prefix_len f) \<le> 59)
            \<and> (\<forall>i j. i < j \<and> j < length fs \<longrightarrow> bit_count (fs ! i) \<le> bit_count (fs ! j) \<and> prefix_value (fs ! i) \<noteq> prefix_value (fs ! j))))
   \<and> (documented_scheme fs \<longrightarrow> scheme_try_new fs = Ok (EncodingScheme fs))
   \<and> ((\<forall>f \<in> set fs. form_ok f) \<longrightarrow> scheme_try_new fs \<noteq> Panic)"
proof -
  have d: "distinct (map prefix_value fs) \<longleftrightarrow> (\<forall>i j. i < j \<and> j < length fs \<longrightarrow> prefix_value (fs ! i) \<noteq> prefix_value (fs ! j))"
    by (auto simp: distinct_conv_nth) (metis linorder_neqE_nat)
  have s: "sorted (map bit_count fs) \<longleftrightarrow> (\<forall>i j. i < j \<and> j < length fs \<longrightarrow> bit_count (fs ! i) \<le> bit_count (fs ! j))"
    by (auto simp: sorted_iff_nth_mono_less)
  have ok: "scheme_ok fs \<longleftrightarrow> 1 \<le> length fs \<and> length fs \<le> 31
       \<and> (length fs = 1 \<longrightarrow> prefix_len (hd fs) = 0 \<and> prefix_value (hd fs) = 0)
       \<and> (1 < length fs \<longrightarrow> (\<forall>f \<in> set fs. 1 \<le> prefix_len f \<and> prefix_len f \<le> 31 \<and> unat (bit_count f) + unat (prefix_len f) \<le> 59)
            \<and> (\<forall>i j. i < j \<and> j < length fs \<longrightarrow> bit_count (fs ! i) \<le> bit_count (fs ! j) \<and> prefix_value (fs ! i) \<noteq> prefix_value (fs ! j)))"
    unfolding scheme_ok_def d s by (cases fs) auto
  have "scheme_try_new fs \<noteq> Panic" if "\<forall>f \<in> set fs. form_ok f"
    using that validate_multi_no_panic [of fs 0 "{}"]
    by (auto simp: scheme_try_new_def panic_iff scheme_validate_def Let_def split: if_splits)
  then show ?thesis using documented_scheme_ok [of fs] unfolding scheme_try_new_iff ok [symmetric] by blast
qed

lemma scheme_try_new_exact_witness:
  "scheme_try_new (forms V48) = Ok V48 \<and> scheme_try_new (forms V48) \<noteq> Panic
   \<and> scheme_try_new (rev (forms V48)) \<noteq> Ok (EncodingScheme (rev (forms V48)))"
proof -
  have "documented_scheme (forms V48)" using all_documented by (simp add: all_schemes_def)
  moreover have "\<not> (\<forall>i j. i < j \<and> j < length (rev (forms V48)) \<longrightarrow> bit_count (rev (forms V48) ! i) \<le> bit_count (rev (forms V48) ! j)
      \<and> prefix_value (rev (forms V48) ! i) \<noteq> prefix_value (rev (forms V48) ! j))"
    by (intro notI, drule spec [of _ 0], drule spec [of _ 1]) (simp add: V48_def mk_form_def)
  moreover have "EncodingScheme (forms V48) = V48" "length (rev (forms V48)) = 2" by (simp_all add: V48_def)
  ultimately show ?thesis
    using scheme_try_new_exact [of "forms V48"] scheme_try_new_exact [of "rev (forms V48)"] by simp
qed

text \<open>\<open>deserialize_scheme\<close> does not reject every malformed input: on two or more bytes that are
  all zero the form it reads has a bit count of 0, and the \<open>expect\<close> on \<open>try_new\<close> panics.\<close>

theorem deserialize_zeros_panics:
  assumes "2 \<le> length bs" and "set bs \<subseteq> {0}"
  shows "deserialize_scheme bs = Panic"
  by (rule deserialize_zeros [OF assms])

text \<open>Whatever bytes arrive, a scheme that \<open>deserialize_scheme\<close> returns passes the checks of
  \<open>validate\<close>, and each of its forms those of \<open>EncodingSchemeForm::try_new\<close>.\<close>

theorem deserialize_scheme_valid:
  assumes "deserialize_scheme bs = Ok s"
  shows "scheme_ok (forms s) \<and> (\<forall>f \<in> set (forms s). form_ok f)"
  using deserialize_scheme_ok [OF assms] by simp

end
