(* ===== verification/Labels.thy ===== *)
theory Labels
  imports Prelude
begin

text \<open>
  \<^verbatim>\<open>cjdns-core/src/routinglabel.rs\<close>: routing labels over an unsigned word type. The Rust type
  \<open>RoutingLabel<L>\<close> is generic in \<open>L: LabelBits\<close> (\<open>u32\<close>, \<open>u64\<close>, \<open>u128\<close>); so is the model, in
  the width of the word. The abstraction \<open>path\<close> reads a label as the list of the bits below its
  highest set bit, lowest bit first: the sequence of encoded directors that the switches along
  the path consume.
\<close>

datatype 'b routing_label = RoutingLabel (bits: 'b)

definition label_ok :: "'l::len word routing_label \<Rightarrow> bool" where
  "label_ok l \<longleftrightarrow> bits l \<noteq> 0"

definition max_payload_bits :: "'l::len itself \<Rightarrow> nat" where
  "max_payload_bits T = LENGTH('l) - 4"

fun leading_zeros_from :: "nat \<Rightarrow> 'l::len word \<Rightarrow> nat" where
  "leading_zeros_from 0 w = 0"
| "leading_zeros_from (Suc n) w = (if bit w n then 0 else Suc (leading_zeros_from n w))"

definition leading_zeros :: "'l::len word \<Rightarrow> nat" where
  "leading_zeros w = leading_zeros_from (LENGTH('l)) w"

definition highest_set_bit :: "'l::len word \<Rightarrow> nat option" where
  "highest_set_bit w = (if 0 = w then None else Some (LENGTH('l) - 1 - leading_zeros w))"

definition label_try_new :: "'l::len word \<Rightarrow> 'l word routing_label option" where
  "label_try_new b = (if b \<noteq> 0 then Some (RoutingLabel b) else None)"

definition self_reference :: "'l::len word routing_label" where
  "self_reference = RoutingLabel 1"

definition label_size :: "'l::len word routing_label \<Rightarrow> nat" where
  "label_size l = LENGTH('l) div 8"

section \<open>The highest set bit\<close>

lemma leading_zeros_from_spec:
  assumes "w \<noteq> 0" and "\<And>m. m \<ge> n \<Longrightarrow> \<not> bit w m"
  shows "leading_zeros_from n w < n \<and> bit w (n - 1 - leading_zeros_from n w)
    \<and> (\<forall>m > n - 1 - leading_zeros_from n w. \<not> bit w m)"
  using assms(2)
proof (induction n)
  case 0
  with assms(1) show ?case by (metis bit_0_eq bit_eqI bot_apply bot_bool_def le0)
next
  case (Suc n)
  show ?case
  proof (cases "bit w n")
    case True
    with Suc.prems show ?thesis by (auto simp: Suc_le_eq)
  next
    case False
    then have "\<And>m. m \<ge> n \<Longrightarrow> \<not> bit w m"
      using Suc.prems by (metis le_antisym not_less_eq_eq)
    from Suc.IH [OF this] False show ?thesis by auto
  qed
qed

lemma highest_set_bit_iff:
  "highest_set_bit (w :: 'l::len word) = Some n \<longleftrightarrow> bit w n \<and> (\<forall>m > n. \<not> bit w m)"
proof (cases "w = 0")
  case True
  then show ?thesis by (simp add: highest_set_bit_def)
next
  case False
  have top: "\<And>m. m \<ge> LENGTH('l) \<Longrightarrow> \<not> bit w m"
    using bit_imp_le_length by (metis not_le)
  let ?h = "LENGTH('l) - 1 - leading_zeros w"
  from leading_zeros_from_spec [OF False top]
  have h: "bit w ?h" "\<forall>m > ?h. \<not> bit w m"
    by (auto simp: leading_zeros_def)
  show ?thesis
  proof
    assume "highest_set_bit w = Some n"
    with False h show "bit w n \<and> (\<forall>m > n. \<not> bit w m)"
      by (simp add: highest_set_bit_def)
  next
    assume "bit w n \<and> (\<forall>m > n. \<not> bit w m)"
    with h have "n = ?h" by (meson linorder_neqE_nat)
    with False show "highest_set_bit w = Some n" by (simp add: highest_set_bit_def)
  qed
qed

lemma highest_set_bit_None_iff [simp]: "highest_set_bit w = None \<longleftrightarrow> w = 0"
  by (auto simp: highest_set_bit_def)

lemma highest_set_bit_0 [simp]: "highest_set_bit 0 = None"
  by simp

definition hsb :: "'l::len word \<Rightarrow> nat" where
  "hsb w = (case highest_set_bit w of None \<Rightarrow> 0 | Some n \<Rightarrow> n)"

lemma highest_set_bit_hsb: "w \<noteq> 0 \<Longrightarrow> highest_set_bit w = Some (hsb w)"
  by (cases "highest_set_bit w") (auto simp: hsb_def)

lemma hsb_eqI: "bit w n \<Longrightarrow> (\<And>m. m > n \<Longrightarrow> \<not> bit w m) \<Longrightarrow> hsb w = n"
  using highest_set_bit_iff [of w n] by (simp add: hsb_def)

lemma bit_hsb: "w \<noteq> 0 \<Longrightarrow> bit w (hsb w)"
  and not_bit_above_hsb: "w \<noteq> 0 \<Longrightarrow> m > hsb w \<Longrightarrow> \<not> bit w m"
  using highest_set_bit_iff [of w "hsb w"] by (simp_all add: highest_set_bit_hsb)

lemma hsb_less: "hsb (w :: 'l::len word) < LENGTH('l)"
proof (cases "w = 0")
  case True
  then show ?thesis by (simp add: hsb_def)
next
  case False
  then show ?thesis using bit_hsb bit_imp_le_length by blast
qed

lemma hsb_1 [simp]: "hsb (1 :: 'l::len word) = 0"
  by (rule hsb_eqI) (auto simp: bit_1_iff)

section \<open>Labels as bit paths\<close>

definition path_bits :: "'l::len word \<Rightarrow> bool list" where
  "path_bits w = map (bit w) [0..<hsb w]"

abbreviation path :: "'l::len word routing_label \<Rightarrow> bool list" where
  "path l \<equiv> path_bits (bits l)"

lemma length_path_bits [simp]: "length (path_bits w) = hsb w"
  by (simp add: path_bits_def)

lemma nth_path_bits [simp]: "i < hsb w \<Longrightarrow> path_bits w ! i = bit w i"
  by (simp add: path_bits_def)

lemma bit_path_bits:
  "w \<noteq> 0 \<Longrightarrow> bit w n \<longleftrightarrow> n = hsb w \<or> (n < hsb w \<and> path_bits w ! n)"
  using bit_hsb not_bit_above_hsb by (metis nat_neq_iff nth_path_bits)

lemma path_bits_inj:
  assumes "v \<noteq> 0" "w \<noteq> 0" "path_bits v = path_bits w"
  shows "v = w"
proof (rule bit_word_eqI)
  fix n
  from assms(3) have "hsb v = hsb w" by (metis length_path_bits)
  then show "bit v n \<longleftrightarrow> bit w n"
    using assms by (simp add: bit_path_bits)
qed

lemma label_eq_iff: "label_ok l \<Longrightarrow> label_ok m \<Longrightarrow> l = m \<longleftrightarrow> path l = path m"
  using path_bits_inj by (cases l; cases m) (auto simp: label_ok_def)

lemma path_bits_eqI:
  assumes "\<And>n. bit w n \<longleftrightarrow> n = length xs \<or> (n < length xs \<and> xs ! n)"
  shows "path_bits w = xs" and "hsb w = length xs" and "w \<noteq> 0"
proof -
  show h: "hsb w = length xs"
    by (rule hsb_eqI) (use assms in auto)
  show "path_bits w = xs"
    by (rule nth_equalityI) (use assms h in auto)
  show "w \<noteq> 0" using assms by (metis bit_0_eq bot_apply bot_bool_def)
qed

lemma path_self_reference [simp]: "path self_reference = []"
  by (simp add: self_reference_def path_bits_def)

lemma label_ok_self_reference [simp]: "label_ok self_reference"
  by (simp add: self_reference_def label_ok_def)

lemma label_try_new_iff [simp]:
  "label_try_new b = Some l \<longleftrightarrow> l = RoutingLabel b \<and> b \<noteq> 0"
  "label_try_new b = None \<longleftrightarrow> b = 0"
  by (auto simp: label_try_new_def)

lemma label_try_new_Some [simp]: "b \<noteq> 0 \<Longrightarrow> label_try_new b = Some (RoutingLabel b)"
  by simp


lemma highest_set_bit_range:
  assumes "2 ^ n \<le> unat w" and "unat w < 2 ^ (n + 1)"
  shows "highest_set_bit w = Some n"
proof -
  have "\<not> bit w m" if "n < m" for m
    using not_bit_of_less [OF assms(2)] that by simp
  moreover have "bit w n"
  proof -
    have "unat w div 2 ^ n = 1"
      using assms by (intro div_nat_eqI) simp_all
    then have "bit (unat w) n" by (simp add: bit_iff_odd)
    then show ?thesis by (simp add: bit_unsigned_iff)
  qed
  ultimately show ?thesis by (simp add: highest_set_bit_iff)
qed

end
