(* ===== verification/Text.thy ===== *)
theory Text
  imports Prelude
begin

text \<open>
  Numbers as digit strings: fixed-width big-endian digits in a base, and the character classes and
  digit characters that the textual formats of the repository share.
\<close>

section \<open>Digits in a base\<close>

fun digits :: "nat \<Rightarrow> nat \<Rightarrow> nat \<Rightarrow> nat list" where
  "digits base 0 v = []"
| "digits base (Suc n) v = digits base n (v div base) @ [v mod base]"

definition digits_val :: "nat \<Rightarrow> nat list \<Rightarrow> nat" where
  "digits_val base ds = foldl (\<lambda>acc d. acc * base + d) 0 ds"

lemma length_digits [simp]: "length (digits base n v) = n"
  by (induction n arbitrary: v) auto

lemma digits_val_Nil [simp]: "digits_val base [] = 0"
  and digits_val_snoc [simp]: "digits_val base (ds @ [d]) = digits_val base ds * base + d"
  by (simp_all add: digits_val_def)

lemma digits_less: "0 < base \<Longrightarrow> d \<in> set (digits base n v) \<Longrightarrow> d < base"
  by (induction n arbitrary: v) auto

lemma digits_val_digits [simp]: "digits_val base (digits base n v) = v mod base ^ n"
proof (induction n arbitrary: v)
  case 0
  show ?case by simp
next
  case (Suc n)
  have "v mod base ^ Suc n = base * (v div base mod base ^ n) + v mod base"
    by (simp add: mod_mult2_eq)
  then show ?case using Suc [of "v div base"] by simp
qed

lemma digits_val_less: "\<forall>d \<in> set ds. d < base \<Longrightarrow> digits_val base ds < base ^ length ds"
proof (induction ds rule: rev_induct)
  case Nil
  show ?case by simp
next
  case (snoc d ds)
  then have v: "digits_val base ds < base ^ length ds" and d: "d < base" by auto
  have "digits_val base ds * base + d < (digits_val base ds + 1) * base" using d by simp
  also have "\<dots> \<le> base ^ length ds * base" using v by (intro mult_le_mono1) simp
  finally show ?case by (simp add: mult.commute)
qed

lemma digits_digits_val [simp]:
  "\<forall>d \<in> set ds. d < base \<Longrightarrow> digits base (length ds) (digits_val base ds) = ds"
  by (induction ds rule: rev_induct) auto

section \<open>Characters\<close>

definition is_dec_digit :: "char \<Rightarrow> bool" where
  "is_dec_digit c \<longleftrightarrow> 48 \<le> (of_char c :: nat) \<and> (of_char c :: nat) \<le> 57"

definition is_xdigit :: "char \<Rightarrow> bool" where
  "is_xdigit c \<longleftrightarrow> is_dec_digit c \<or> (65 \<le> (of_char c :: nat) \<and> (of_char c :: nat) \<le> 70)
     \<or> (97 \<le> (of_char c :: nat) \<and> (of_char c :: nat) \<le> 102)"

definition lower_digit :: "nat \<Rightarrow> char" where
  "lower_digit d = (if d < 10 then char_of (48 + d) else char_of (87 + d))"

definition upper_digit :: "nat \<Rightarrow> char" where
  "upper_digit d = (if d < 10 then char_of (48 + d) else char_of (55 + d))"

definition xdigit_val :: "char \<Rightarrow> nat" where
  "xdigit_val c = (let n = of_char c in if n \<le> 57 then n - 48 else if n \<le> 70 then n - 55 else n - 87)"

definition to_lower_char :: "char \<Rightarrow> char" where
  "to_lower_char c = (let n = (of_char c :: nat) in if 65 \<le> n \<and> n \<le> 90 then char_of (n + 32) else c)"

lemma of_char_lower_digit:
  "d < 16 \<Longrightarrow> (of_char (lower_digit d) :: nat) = (if d < 10 then 48 + d else 87 + d)"
  by (simp add: lower_digit_def)

lemma of_char_upper_digit:
  "d < 16 \<Longrightarrow> (of_char (upper_digit d) :: nat) = (if d < 10 then 48 + d else 55 + d)"
  by (simp add: upper_digit_def)

lemma xdigit_lower_digit [simp]:
  "d < 16 \<Longrightarrow> is_xdigit (lower_digit d)" "d < 16 \<Longrightarrow> xdigit_val (lower_digit d) = d"
  by (auto simp: is_xdigit_def is_dec_digit_def xdigit_val_def of_char_lower_digit Let_def)

lemma xdigit_upper_digit [simp]:
  "d < 16 \<Longrightarrow> is_xdigit (upper_digit d)" "d < 16 \<Longrightarrow> xdigit_val (upper_digit d) = d"
  by (auto simp: is_xdigit_def is_dec_digit_def xdigit_val_def of_char_upper_digit Let_def)

lemma xdigit_val_less [simp]: "is_xdigit c \<Longrightarrow> xdigit_val c < 16"
  by (auto simp: is_xdigit_def is_dec_digit_def xdigit_val_def Let_def)

lemma char_eq_iff: "c = d \<longleftrightarrow> (of_char c :: nat) = of_char d"
  by (metis char_of_char)

lemma lower_digit_xdigit_val: "is_xdigit c \<Longrightarrow> lower_digit (xdigit_val c) = to_lower_char c"
proof -
  let ?n = "of_char c :: nat"
  have c: "char_of ?n = c" by simp
  assume "is_xdigit c"
  then consider "48 \<le> ?n" "?n \<le> 57" | "65 \<le> ?n" "?n \<le> 70" | "97 \<le> ?n" "?n \<le> 102"
    by (auto simp: is_xdigit_def is_dec_digit_def)
  then show ?thesis
  proof cases
    case 1
    then have "48 + (?n - 48) = ?n" by simp
    with 1 c show ?thesis by (simp add: lower_digit_def xdigit_val_def to_lower_char_def)
  next
    case 2
    then have "87 + (?n - 55) = ?n + 32" by simp
    with 2 show ?thesis by (simp add: lower_digit_def xdigit_val_def to_lower_char_def del: add_diff_assoc)
  next
    case 3
    then have "xdigit_val c = ?n - 87" "to_lower_char c = c"
      by (simp_all add: xdigit_val_def to_lower_char_def Let_def)
    moreover have "87 + (?n - 87) = ?n" "\<not> ?n - 87 < 10" using 3 by auto
    ultimately show ?thesis using c by (simp only: lower_digit_def if_False)
  qed
qed

end
