(* ===== verification/Keys.thy ===== *)
theory Keys
  imports Bytes Text
begin

text \<open>
  \<^verbatim>\<open>cjdns-keys\<close>: public and private keys and the IPv6 address derived from a public key. A key is
  its bytes: 32 for keys, 16 for an address. The cryptographic functions (SHA-512, scalar
  multiplication, random bytes) and the \<open>hex\<close> and \<open>data_encoding\<close> crates are parameters.
\<close>

datatype key_creation_error = NotDecodableString | BadString | ResultingIp6OutOfValidRange | InvalidLength

type_synonym public_key = bytes
type_synonym private_key = bytes
type_synonym ip6 = bytes

definition vec_to_array :: "nat \<Rightarrow> bytes \<Rightarrow> (bytes, 'e) result" where
  "vec_to_array n v = (if length v = n then Ok v else Panic)"

section \<open>Public keys\<close>

definition is_key_char :: "char \<Rightarrow> bool" where
  "is_key_char c \<longleftrightarrow> is_dec_digit c \<or> (97 \<le> (of_char c :: nat) \<and> (of_char c :: nat) \<le> 122)"

definition key_re_at :: "string \<Rightarrow> bool" where
  "key_re_at s \<longleftrightarrow> 54 \<le> length s \<and> list_all is_key_char (take 52 s) \<and> take 2 (drop 52 s) = ''.k''"

fun public_key_re :: "string \<Rightarrow> bool" where
  "public_key_re [] = False"
| "public_key_re (c # s) = (key_re_at (c # s) \<or> public_key_re s)"

definition public_key_try_from_str :: "(string \<Rightarrow> bytes option) \<Rightarrow> string \<Rightarrow> (public_key, key_creation_error) result" where
  "public_key_try_from_str base32_decode value =
     (if public_key_re value then
        and_then (ok_or (base32_decode (take 52 value)) NotDecodableString) (vec_to_array 32)
      else Err BadString)"

definition public_key_from_private :: "(bytes \<Rightarrow> bytes) \<Rightarrow> private_key \<Rightarrow> public_key" where
  "public_key_from_private scalarmult_base k = scalarmult_base k"

definition public_key_to_string :: "(bytes \<Rightarrow> string) \<Rightarrow> public_key \<Rightarrow> string" where
  "public_key_to_string base32_encode k = base32_encode k @ ''.k''"

definition public_key_is_zero :: "public_key \<Rightarrow> bool" where
  "public_key_is_zero k \<longleftrightarrow> k = replicate 32 0"

section \<open>Private keys\<close>

definition private_key_try_from_str :: "(string \<Rightarrow> bytes option) \<Rightarrow> string \<Rightarrow> (private_key, key_creation_error) result" where
  "private_key_try_from_str hex_decode value =
     (if length value = 64 \<and> list_all is_xdigit value
      then and_then (unwrap_opt (hex_decode value)) (vec_to_array 32)
      else Err BadString)"

section \<open>IPv6 addresses\<close>

definition IP6_FIRST_BYTE :: u8 where
  "IP6_FIRST_BYTE = 0xFC"

definition ip6_try_from_bytes :: "bytes \<Rightarrow> (ip6, key_creation_error) result" where
  "ip6_try_from_bytes bytes =
     (if length bytes \<noteq> 16 then Err InvalidLength
      else if bytes ! 0 = IP6_FIRST_BYTE \<or> bytes = replicate 16 0 then Ok bytes
      else Err ResultingIp6OutOfValidRange)"

definition ip6_try_from_key :: "(bytes \<Rightarrow> bytes) \<Rightarrow> public_key \<Rightarrow> (ip6, key_creation_error) result" where
  "ip6_try_from_key sha512 key =
     (let h = sha512 (sha512 key) in
      if length h < 16 then Panic else ip6_try_from_bytes (take 16 h))"

definition is_lower_xdigit :: "char \<Rightarrow> bool" where
  "is_lower_xdigit c \<longleftrightarrow> is_dec_digit c \<or> (97 \<le> (of_char c :: nat) \<and> (of_char c :: nat) \<le> 102)"

definition ip6_re :: "string \<Rightarrow> bool" where
  "ip6_re s \<longleftrightarrow> length s = 39 \<and> take 2 s = ''fc'' \<and>
     (\<forall>i < 39. if i mod 5 = 4 then s ! i = CHR '':'' else is_lower_xdigit (s ! i))"

definition ip6_try_from_str :: "(string \<Rightarrow> bytes option) \<Rightarrow> string \<Rightarrow> (ip6, key_creation_error) result" where
  "ip6_try_from_str hex_decode value =
     (if ip6_re value
      then and_then (unwrap_opt (hex_decode (List.filter (\<lambda>c. c \<noteq> CHR '':'') value))) (vec_to_array 16)
      else Err BadString)"

fun ip6_insert_colons :: "nat \<Rightarrow> string \<Rightarrow> string" where
  "ip6_insert_colons 0 s = s"
| "ip6_insert_colons (Suc n) s =
     (let i = 7 - n; pos = 4 * i + i - 1 in ip6_insert_colons n (take pos s @ CHR '':'' # drop pos s))"

definition ip6_to_string :: "(bytes \<Rightarrow> string) \<Rightarrow> ip6 \<Rightarrow> string" where
  "ip6_to_string hex_encode k = ip6_insert_colons 7 (hex_encode k)"

section \<open>Key pairs\<close>

record cjdns_keys =
  private_key :: private_key
  public_key :: public_key
  key_ip6 :: ip6

text \<open>
  \<open>CJDNSKeysApi::key_pair\<close> draws private keys until the address of the public key is valid; the
  draws are the list \<open>draws\<close>, and \<open>None\<close> says that it was exhausted first.
\<close>

fun key_pair :: "(bytes \<Rightarrow> bytes) \<Rightarrow> (bytes \<Rightarrow> bytes) \<Rightarrow> private_key list \<Rightarrow> (cjdns_keys, unit) result option" where
  "key_pair scalarmult_base sha512 [] = None"
| "key_pair scalarmult_base sha512 (k # draws) =
     (let pk = public_key_from_private scalarmult_base k in
      case ip6_try_from_key sha512 pk of
        Ok ip6 \<Rightarrow> Some (Ok \<lparr>private_key = k, public_key = pk, key_ip6 = ip6\<rparr>)
      | Err _ \<Rightarrow> key_pair scalarmult_base sha512 draws
      | Panic \<Rightarrow> Some Panic)"

section \<open>Lemmas\<close>

definition ip6_ok :: "ip6 \<Rightarrow> bool" where
  "ip6_ok k \<longleftrightarrow> length k = 16 \<and> (k ! 0 = IP6_FIRST_BYTE \<or> k = replicate 16 0)"

lemma ip6_try_from_bytes_iff: "ip6_try_from_bytes bs = Ok k \<longleftrightarrow> k = bs \<and> ip6_ok bs"
  by (auto simp: ip6_try_from_bytes_def ip6_ok_def)

lemma ip6_try_from_bytes_no_panic [simp]: "ip6_try_from_bytes bs \<noteq> Panic"
  by (simp add: ip6_try_from_bytes_def)

lemma ip6_try_from_key_ok: "ip6_try_from_key sha512 key = Ok k \<Longrightarrow> ip6_ok k"
  by (auto simp: ip6_try_from_key_def Let_def ip6_try_from_bytes_iff split: if_splits)

lemma key_pair_contract:
  "key_pair sm sha512 draws = Some (Ok keys) \<Longrightarrow>
   private_key keys \<in> set draws \<and> public_key keys = sm (private_key keys)
   \<and> ip6_try_from_key sha512 (public_key keys) = Ok (key_ip6 keys)"
  by (induction draws) (auto simp: Let_def public_key_from_private_def split: result.splits)

section \<open>Properties\<close>

text \<open>The keys that \<open>key_pair\<close> returns satisfy the contract of \<open>CJDNSKeys\<close>: the public key
  belongs to the private key that was drawn, and the address is valid and the one derived from
  the public key. It returns at the first draw with a valid address, and if there is one it
  returns, provided the hash is at least 16 bytes long.\<close>

theorem key_pair_valid:
  assumes "\<And>bs. 16 \<le> length (sha512 bs)"
  shows "(key_pair sm sha512 draws = Some (Ok keys) \<longrightarrow>
      private_key keys \<in> set draws \<and> public_key keys = sm (private_key keys)
      \<and> ip6_try_from_key sha512 (public_key keys) = Ok (key_ip6 keys) \<and> ip6_ok (key_ip6 keys))
    \<and> ((\<exists>k \<in> set draws. is_ok (ip6_try_from_key sha512 (sm k))) \<longrightarrow> (\<exists>keys. key_pair sm sha512 draws = Some (Ok keys)))"
proof -
  have np: "ip6_try_from_key sha512 k \<noteq> Panic" for k
    using assms [of "sha512 k"] by (simp add: ip6_try_from_key_def Let_def not_less)
  have "\<exists>keys. key_pair sm sha512 draws = Some (Ok keys)"
    if "\<exists>k \<in> set draws. is_ok (ip6_try_from_key sha512 (sm k))"
    using that
  proof (induction draws)
    case (Cons k draws)
    then show ?case
      using np [of "sm k"]
      by (cases "ip6_try_from_key sha512 (sm k)") (auto simp: Let_def public_key_from_private_def)
  qed simp
  then show ?thesis
    using key_pair_contract [of sm sha512 draws keys] ip6_try_from_key_ok by blast
qed

end
