(* ===== verification/Ann.thy ===== *)
theory Ann
  imports Encoding Labels Varint Keys
begin

text \<open>
  \<^verbatim>\<open>cjdns-ann\<close>: announcement packets. The signature check and the parser of the header, the
  sender's keys and the entities. SHA-512, the signature scheme of libsodium (decoding and
  verification of a detached signature), the conversion of a signing key to an encryption key and
  the \<open>hex\<close> crate are parameters.
\<close>

section \<open>Data\<close>

definition LINK_STATE_SLOTS :: nat where
  "LINK_STATE_SLOTS = 18"

type_synonym 'a link_state_slots = "'a option list"

record peer_data =
  ipv6 :: ip6
  peer_label :: "u32 routing_label option"
  mtu :: u32
  peer_num :: u16
  unused :: u32
  encoding_form_number :: u8
  flags :: u8

record link_state_data =
  node_id :: u16
  starting_point :: u8
  lag_slots :: "u16 link_state_slots"
  drop_slots :: "u16 link_state_slots"
  kb_recv_slots :: "u32 link_state_slots"

datatype entity =
    NodeProtocolVersion u16
  | Peer peer_data
  | EncodingSchemeEntity string encoding_scheme
  | LinkState link_state_data

record announcement_header =
  signature :: string
  pub_signing_key :: string
  snode_ip :: ip6
  ann_version :: u8
  is_reset :: bool
  timestamp :: u64

type_synonym ann_hash = bytes

record announcement =
  ann_header :: announcement_header
  entities :: "entity list"
  node_pub_key :: public_key
  node_ip :: ip6
  binary :: bytes
  ann_hash :: ann_hash

datatype entity_parser_error = InvalidSize | InsufficientData | BadData string
datatype parser_error = CannotParseHeader string | CannotParseAuthData string | CannotParseEntity entity_parser_error
datatype packet_error = CannotInstantiatePacket | InvalidPacketSignature | CannotParsePacket parser_error

section \<open>Packets\<close>

type_synonym announcement_packet = bytes

definition SIGN_SIZE :: nat where "SIGN_SIZE = 64"
definition SIGN_KEY_SIZE :: nat where "SIGN_KEY_SIZE = 32"
definition IP_SIZE :: nat where "IP_SIZE = 16"
definition HEADER_SIZE :: nat where "HEADER_SIZE = SIGN_SIZE + SIGN_KEY_SIZE + IP_SIZE + 8"

lemmas ann_sizes = HEADER_SIZE_def SIGN_SIZE_def SIGN_KEY_SIZE_def IP_SIZE_def

definition packet_try_new :: "bytes \<Rightarrow> (announcement_packet, packet_error) result" where
  "packet_try_new ann_data = (if length ann_data < HEADER_SIZE then Err CannotInstantiatePacket else Ok ann_data)"

definition get_entities_bytes :: "announcement_packet \<Rightarrow> bytes" where
  "get_entities_bytes p = drop HEADER_SIZE p"

definition get_header_bytes :: "announcement_packet \<Rightarrow> bytes" where
  "get_header_bytes p = take HEADER_SIZE p"

definition get_signature_bytes :: "announcement_packet \<Rightarrow> bytes" where
  "get_signature_bytes p = take SIGN_SIZE p"

definition get_signed_data :: "announcement_packet \<Rightarrow> bytes" where
  "get_signed_data p = drop SIGN_SIZE p"

definition get_pub_key_bytes :: "announcement_packet \<Rightarrow> bytes" where
  "get_pub_key_bytes p = take SIGN_KEY_SIZE (get_signed_data p)"

definition packet_check ::
  "(bytes \<Rightarrow> 's option) \<Rightarrow> ('s \<Rightarrow> bytes \<Rightarrow> bytes \<Rightarrow> bool) \<Rightarrow> announcement_packet \<Rightarrow> (unit, packet_error) result" where
  "packet_check sig_from_bytes verify_detached p =
     and_then (unwrap_opt (sig_from_bytes (get_signature_bytes p))) (\<lambda>signature.
     and_then (assert_that (length (get_pub_key_bytes p) = 32)) (\<lambda>_.
     if verify_detached signature (get_signed_data p) (get_pub_key_bytes p) then Ok ()
     else Err InvalidPacketSignature))"

section \<open>Readers with errors of the parser\<close>

definition rd_err :: "('e \<Rightarrow> 'f) \<Rightarrow> ('a, 'e) rd \<Rightarrow> ('a, 'f) rd" where
  "rd_err f m r = io_err f (m r)"

definition rd_fail :: "'e \<Rightarrow> ('a, 'e) rd" where
  "rd_fail e r = (Err e, r)"

definition peek_last :: "(u8, 'e) rd" where
  "peek_last r = (if r = [] then Panic else Ok (last r), r)"

lemma rd_err_iff [rd_iff]: "rd_err f m r = (Ok a, r') \<longleftrightarrow> m r = (Ok a, r')"
  by (cases "m r") (simp add: rd_err_def)

lemma rd_fail_iff [rd_iff]: "rd_fail e r = (Ok a, r') \<longleftrightarrow> False"
  by (simp add: rd_fail_def)

lemma peek_last_iff [rd_iff]: "peek_last r = (Ok x, r') \<longleftrightarrow> r \<noteq> [] \<and> x = last r \<and> r' = r"
  by (auto simp: peek_last_def)

section \<open>Header and sender\<close>

definition header_fields :: "(bytes \<times> bytes \<times> bytes \<times> u8 \<times> u64, insufficient_buffer) rd" where
  "header_fields =
     rd_bind (read_slice SIGN_SIZE) (\<lambda>signature_bytes.
     rd_bind (read_slice SIGN_KEY_SIZE) (\<lambda>sign_key_bytes.
     rd_bind (read_slice IP_SIZE) (\<lambda>snode_bytes.
     rd_bind peek_last (\<lambda>last_byte.
     rd_bind read_u64_be (\<lambda>timestamp.
     rd_ok (signature_bytes, sign_key_bytes, snode_bytes, last_byte, timestamp))))))"

definition parse_header :: "(bytes \<Rightarrow> string) \<Rightarrow> bytes \<Rightarrow> (announcement_header, parser_error) result" where
  "parse_header hex_encode header_data =
     and_then (map_err (\<lambda>_. CannotParseHeader ''invalid data size'')
       (fst (reader_read (Exact HEADER_SIZE) header_fields header_data)))
     (\<lambda>(signature_bytes, sign_key_bytes, snode_bytes, last_byte, timestamp).
     and_then (map_err (\<lambda>_. CannotParseHeader ''failed ip6 creation from received data'')
       (ip6_try_from_bytes snode_bytes)) (\<lambda>snode_ip6.
     Ok \<lparr>signature = hex_encode signature_bytes, pub_signing_key = hex_encode sign_key_bytes,
         snode_ip = snode_ip6, ann_version = last_byte AND 7,
         is_reset = ((drop_bit 3 last_byte) AND 1 = 1), timestamp = drop_bit 4 timestamp\<rparr>))"

definition parse_sender_auth_data ::
  "(bytes \<Rightarrow> bytes) \<Rightarrow> (bytes \<Rightarrow> bytes option) \<Rightarrow> bytes \<Rightarrow> (public_key \<times> ip6, parser_error) result" where
  "parse_sender_auth_data sha512 pk_to_curve25519 pub_key_bytes =
     and_then (assert_that (length pub_key_bytes = 32)) (\<lambda>_.
     and_then (ok_or (pk_to_curve25519 pub_key_bytes)
       (CannotParseAuthData ''conversion from x25519 to curve25519 failed'')) (\<lambda>node_encryption_key.
     and_then (map_err (\<lambda>_. CannotParseAuthData ''failed ip6 creation from received data'')
       (ip6_try_from_key sha512 node_encryption_key)) (\<lambda>node_ip6.
     Ok (node_encryption_key, node_ip6))))"

section \<open>Entities\<close>

definition parse_encoding_scheme :: "(bytes \<Rightarrow> string) \<Rightarrow> bytes \<Rightarrow> (entity, entity_parser_error) result" where
  "parse_encoding_scheme hex_encode data =
     and_then (map_err (\<lambda>_. InvalidSize) (fst (reader_read (NotLessThan 2) read_remainder data))) (\<lambda>scheme_data.
     and_then (map_err (\<lambda>_. BadData ''encoding scheme bytes can't be deserialized'') (deserialize_scheme scheme_data)) (\<lambda>scheme.
     Ok (EncodingSchemeEntity (hex_encode scheme_data) scheme)))"

definition parse_version :: "bytes \<Rightarrow> (entity, entity_parser_error) result" where
  "parse_version data =
     map_ok NodeProtocolVersion (map_err (\<lambda>_. InvalidSize) (fst (reader_read (Exact 2) read_u16_be data)))"

definition peer_fields :: "(u8 \<times> u8 \<times> u16 \<times> u16 \<times> u32 \<times> bytes \<times> u32, insufficient_buffer) rd" where
  "peer_fields =
     rd_bind read_u8 (\<lambda>form_number.
     rd_bind read_u8 (\<lambda>flgs.
     rd_bind read_u16_be (\<lambda>mtu8.
     rd_bind read_u16_be (\<lambda>num.
     rd_bind read_u32_be (\<lambda>unusd.
     rd_bind (read_slice 16) (\<lambda>ip6_bytes.
     rd_bind read_u32_be (\<lambda>label_bits.
     rd_ok (form_number, flgs, mtu8, num, unusd, ip6_bytes, label_bits))))))))"

definition parse_peer :: "bytes \<Rightarrow> (entity, entity_parser_error) result" where
  "parse_peer data =
     and_then (map_err (\<lambda>_. InvalidSize) (fst (reader_read (Exact 30) peer_fields data)))
     (\<lambda>(form_number, flgs, mtu8, num, unusd, ip6_bytes, label_bits).
     and_then (map_err (\<lambda>_. BadData ''failed ip6 creation from peer bytes'') (ip6_try_from_bytes ip6_bytes)) (\<lambda>ipv6.
     Ok (Peer \<lparr>ipv6 = ipv6, peer_label = label_try_new label_bits, mtu = ucast mtu8 * 8, peer_num = num,
           unused = unusd, encoding_form_number = form_number, flags = flgs\<rparr>)))"

section \<open>Link states\<close>

definition set_chk :: "'a list \<Rightarrow> nat \<Rightarrow> 'a \<Rightarrow> ('a list, 'e) result" where
  "set_chk xs i x = (if i < length xs then Ok (xs[i := x]) else Panic)"

definition read_sample :: "(u16 \<times> u16 \<times> u32, entity_parser_error) rd" where
  "read_sample =
     rd_bind (rd_err (\<lambda>_. BadData ''can't create log_slots sample from received bytes'') (read_var_int slice_read)) (\<lambda>lag.
     rd_bind (rd_err (\<lambda>_. BadData ''can't create drop_slots sample from received bytes'') (read_var_int slice_read)) (\<lambda>drp.
     rd_bind (rd_err (\<lambda>_. BadData ''cant create kb_recv_slots sample from received bytes'') (read_var_int slice_read)) (\<lambda>kb.
     rd_ok (lag, drp, kb))))"

lemma io_read_int_slice:
  "0 < n \<Longrightarrow> io_read_int n slice_read r = (if n \<le> length r then (Ok (from_be_bytes (take n r)), drop n r) else (Err UnexpectedEof, []))"
  using slice_source.read_exact_enough [of n r] slice_source.read_exact_short [of r n]
  by (auto simp: io_read_int_def not_le split: prod.splits)

lemma read_var_int_consumes:
  "read_var_int slice_read r = (Ok (v :: 'a::len word), r') \<Longrightarrow> length r' < length r"
  by (auto simp: read_var_int_def io_read_int_slice io_then_def io_err_def ok_iff split: if_splits prod.splits result.splits)

lemma read_sample_consumes: "read_sample r = (Ok s, r') \<Longrightarrow> length r' < length r"
  by (fastforce simp: read_sample_def rd_iff dest: read_var_int_consumes)

type_synonym slots = "u16 link_state_slots \<times> u16 link_state_slots \<times> u32 link_state_slots"

fun put_sample :: "nat \<Rightarrow> u16 \<times> u16 \<times> u32 \<Rightarrow> slots \<Rightarrow> (slots, entity_parser_error) result" where
  "put_sample i (l, d, k) (lag, drp, kb) =
     and_then (set_chk lag i (Some l)) (\<lambda>lag.
     and_then (set_chk drp i (Some d)) (\<lambda>drp.
     and_then (set_chk kb i (Some k)) (\<lambda>kb. Ok (lag, drp, kb))))"

function link_state_loop :: "nat \<Rightarrow> slots \<Rightarrow> (slots, entity_parser_error) rd" where
  "link_state_loop i slts r =
     (if r = [] then (Ok slts, r)
      else case read_sample r of
             (Ok smp, r') \<Rightarrow>
               (case put_sample i smp slts of
                  Ok slts' \<Rightarrow> link_state_loop ((i + 1) mod LINK_STATE_SLOTS) slts' r'
                | _ \<Rightarrow> (Panic, r'))
           | (Err e, r') \<Rightarrow> (Err e, r')
           | (Panic, r') \<Rightarrow> (Panic, r'))"
  by pat_completeness auto

termination
  by (relation "measure (\<lambda>(i, s, r). length r)") (auto dest!: sym [of _ "read_sample _"] intro: read_sample_consumes)

declare link_state_loop.simps [simp del]

definition empty_slots :: "'a link_state_slots" where
  "empty_slots = replicate LINK_STATE_SLOTS None"

definition link_state_fields :: "(entity, entity_parser_error) rd" where
  "link_state_fields =
      rd_bind (rd_err (\<lambda>_. InsufficientData) read_u8) (\<lambda>pads_amount.
      rd_bind (rd_err (\<lambda>_. InsufficientData) (read_slice (unat pads_amount))) (\<lambda>pads.
      if length (filter (\<lambda>x. x = 0) pads) \<noteq> unat pads_amount then rd_fail (BadData ''non zero pad'') else
      rd_bind (rd_err (\<lambda>_. BadData ''can't create node id from received bytes'') (read_var_int slice_read)) (\<lambda>id.
      rd_bind (rd_err (\<lambda>_. BadData ''can't create slots idx from received bytes'') (read_var_int slice_read)) (\<lambda>start.
      if unat start \<ge> LINK_STATE_SLOTS then rd_fail (BadData ''slots index out of bounds'') else
      rd_bind peek_remainder (\<lambda>rest.
      if rest = [] then rd_fail (BadData ''empty slots'') else
      rd_bind (link_state_loop (unat start) (empty_slots, empty_slots, empty_slots)) (\<lambda>s.
      rd_ok (LinkState \<lparr>node_id = id, starting_point = start, lag_slots = fst s, drop_slots = fst (snd s),
        kb_recv_slots = snd (snd s)\<rparr>)))))))"

definition parse_link_state :: "bytes \<Rightarrow> (entity, entity_parser_error) result" where
  "parse_link_state data = fst (link_state_fields data)"

section \<open>The list of entities\<close>

definition parse_entity :: "(bytes \<Rightarrow> string) \<Rightarrow> bytes \<Rightarrow> (entity option, entity_parser_error) result" where
  "parse_entity hex_encode entity_data =
     and_then (index_chk entity_data 0) (\<lambda>entity_type.
     let parsing_data = drop 1 entity_data in
     if entity_type = 0 then map_ok Some (parse_encoding_scheme hex_encode parsing_data)
     else if entity_type = 1 then map_ok Some (parse_peer parsing_data)
     else if entity_type = 2 then map_ok Some (parse_version parsing_data)
     else if entity_type = 3 then map_ok Some (parse_link_state parsing_data)
     else Ok None)"

function parse_entities_loop ::
  "(bytes \<Rightarrow> string) \<Rightarrow> entity list \<Rightarrow> reader \<Rightarrow> (entity list, entity_parser_error) result" where
  "parse_entities_loop hex_encode parsed r =
     (if r = [] then Ok parsed
      else case read_u8 r of
        (Ok entity_length, r1) \<Rightarrow>
          if entity_length = 0 then Err (BadData ''zero length entity'')
          else if entity_length = 1 then parse_entities_loop hex_encode parsed r1
          else (case read_slice (unat (entity_length - 1)) r1 of
                  (Ok entity_data, r2) \<Rightarrow>
                    and_then (parse_entity hex_encode entity_data) (\<lambda>parsed_entity.
                    parse_entities_loop hex_encode
                      (case parsed_entity of Some entity \<Rightarrow> parsed @ [entity] | None \<Rightarrow> parsed) r2)
                | _ \<Rightarrow> Err (BadData ''encoded entity len > entities data remainder size''))
      | _ \<Rightarrow> Panic)"
  by pat_completeness auto

termination
  by (relation "measure (\<lambda>(h, p, r). length r)")
    (auto dest!: sym [of _ "read_u8 _"] sym [of _ "read_slice _ _"] simp: rd_iff)

declare parse_entities_loop.simps [simp del]

definition parse_entities :: "(bytes \<Rightarrow> string) \<Rightarrow> bytes \<Rightarrow> (entity list, parser_error) result" where
  "parse_entities hex_encode entities_data =
     map_err CannotParseEntity (parse_entities_loop hex_encode [] entities_data)"

definition parser_parse ::
  "(bytes \<Rightarrow> bytes) \<Rightarrow> (bytes \<Rightarrow> bytes option) \<Rightarrow> (bytes \<Rightarrow> string) \<Rightarrow> announcement_packet \<Rightarrow> (announcement, parser_error) result" where
  "parser_parse sha512 pk_to_curve25519 hex_encode packet =
     and_then (parse_header hex_encode (get_header_bytes packet)) (\<lambda>header.
     and_then (parse_sender_auth_data sha512 pk_to_curve25519 (get_pub_key_bytes packet)) (\<lambda>(node_encryption_key, node_ip6).
     and_then (parse_entities hex_encode (get_entities_bytes packet)) (\<lambda>ents.
     Ok \<lparr>ann_header = header, entities = ents, node_pub_key = node_encryption_key, node_ip = node_ip6,
         binary = packet, ann_hash = sha512 packet\<rparr>)))"

definition packet_parse ::
  "(bytes \<Rightarrow> bytes) \<Rightarrow> (bytes \<Rightarrow> bytes option) \<Rightarrow> (bytes \<Rightarrow> string) \<Rightarrow> announcement_packet \<Rightarrow> (announcement, packet_error) result" where
  "packet_parse sha512 pk_to_curve25519 hex_encode packet =
     map_err CannotParsePacket (parser_parse sha512 pk_to_curve25519 hex_encode packet)"

end
