(* ===== verification/Ann_Format.thy ===== *)
theory Ann_Format
  imports Ann
begin

text \<open>
  What the announcement parser of \<^verbatim>\<open>Ann\<close> accepts and returns: the framing of entities as pads and
  length-prefixed items, the ring of link-state samples, the fields of the header, the
  well-formedness of everything in a parsed announcement, and the inputs on which it panics.
\<close>

section \<open>The format of the entity list\<close>

datatype ann_item = Pad | Item u8 bytes

fun item_bytes :: "ann_item \<Rightarrow> bytes" where
  "item_bytes Pad = [1]"
| "item_bytes (Item t d) = word_of_nat (length d + 2) # t # d"

fun item_ok :: "ann_item \<Rightarrow> bool" where
  "item_ok Pad = True"
| "item_ok (Item t d) = (length d \<le> 253)"

definition items_bytes :: "ann_item list \<Rightarrow> bytes" where
  "items_bytes items = concat (map item_bytes items)"

fun items_result :: "(bytes \<Rightarrow> string) \<Rightarrow> ann_item list \<Rightarrow> (entity list, entity_parser_error) result" where
  "items_result hex_encode [] = Ok []"
| "items_result hex_encode (Pad # items) = items_result hex_encode items"
| "items_result hex_encode (Item t d # items) =
     and_then (parse_entity hex_encode (t # d)) (\<lambda>e.
     map_ok (\<lambda>es. case e of Some x \<Rightarrow> x # es | None \<Rightarrow> es) (items_result hex_encode items))"

lemma items_bytes_simps [simp]: "items_bytes [] = []" "items_bytes (i # is) = item_bytes i @ items_bytes is"
  by (simp_all add: items_bytes_def)

lemma word_ge_2: "unat (w :: 'a::len word) = n + 2 \<Longrightarrow> w \<noteq> 0 \<and> w \<noteq> 1"
  by auto

lemma item_length_byte:
  assumes "length d \<le> 253"
  shows "(word_of_nat (length d + 2) :: u8) \<noteq> 0" "(word_of_nat (length d + 2) :: u8) \<noteq> 1"
    "unat (word_of_nat (length d + 2) - 1 :: u8) = length d + 1"
proof -
  have n: "unat (word_of_nat (length d + 2) :: u8) = length d + 2"
    using assms by (simp only: unat_byte_of_nat) simp
  then show "(word_of_nat (length d + 2) :: u8) \<noteq> 0" "(word_of_nat (length d + 2) :: u8) \<noteq> 1"
    using word_ge_2 by blast+
  have "(word_of_nat (length d + 2) - 1 :: u8) = word_of_nat (length d + 1)" by simp
  then have "unat (word_of_nat (length d + 2) - 1 :: u8) = unat (word_of_nat (length d + 1) :: u8)" by (simp only:)
  also have "\<dots> = length d + 1" using assms by (simp only: unat_byte_of_nat) simp
  finally show "unat (word_of_nat (length d + 2) - 1 :: u8) = length d + 1" .
qed

lemma map_ok_id [simp]: "map_ok (\<lambda>x. x) m = m"
  by (cases m) simp_all

lemma parse_entities_pad: "parse_entities_loop h acc (1 # r) = parse_entities_loop h acc r"
  by (simp add: parse_entities_loop.simps [of h acc "1 # r"])

lemma parse_entities_item:
  assumes "length d \<le> 253"
  shows "parse_entities_loop h acc (item_bytes (Item t d) @ r) =
    and_then (parse_entity h (t # d)) (\<lambda>e. parse_entities_loop h (case e of Some x \<Rightarrow> acc @ [x] | None \<Rightarrow> acc) r)"
proof -
  have "read_slice (length d + 1) (t # d @ r) = (Ok (t # d), r)"
    using read_slice_append [of "t # d" "length d + 1" r] by simp
  with item_length_byte [OF assms] show ?thesis
    by (simp add: parse_entities_loop.simps [of h acc "_ # _"] del: of_nat_add)
qed

lemma parse_entities_items_append:
  assumes "list_all item_ok is" and "items_result h is = Ok es"
  shows "parse_entities_loop h acc (items_bytes is @ r) = parse_entities_loop h (acc @ es) r"
  using assms
proof (induction "is" arbitrary: acc es)
  case (Cons i "is")
  show ?case
  proof (cases i)
    case Pad
    then show ?thesis using Cons by (simp add: parse_entities_pad)
  next
    case (Item t d)
    with Cons.prems obtain e es' where e: "parse_entity h (t # d) = Ok e" "items_result h is = Ok es'"
      "es = (case e of Some x \<Rightarrow> x # es' | None \<Rightarrow> es')"
      by (auto simp: ok_iff)
    from Cons.prems Item have len: "length d \<le> 253" by simp
    have "parse_entities_loop h acc (items_bytes (i # is) @ r) =
      and_then (parse_entity h (t # d)) (\<lambda>e. parse_entities_loop h (case e of Some x \<Rightarrow> acc @ [x] | None \<Rightarrow> acc) (items_bytes is @ r))"
      using parse_entities_item [OF len, of h acc t "items_bytes is @ r"] Item by simp
    also have "\<dots> = parse_entities_loop h ((case e of Some x \<Rightarrow> acc @ [x] | None \<Rightarrow> acc) @ es') r"
      using Cons.IH [OF _ e(2)] Cons.prems(1) e(1) by simp
    finally show ?thesis using e(3) by (cases e) simp_all
  qed
qed simp

lemma parse_entities_items:
  assumes "list_all item_ok is"
  shows "parse_entities_loop h acc (items_bytes is) = map_ok (\<lambda>es. acc @ es) (items_result h is)"
  using assms
proof (induction "is" arbitrary: acc)
  case Nil
  then show ?case by (simp add: parse_entities_loop.simps)
next
  case (Cons i "is")
  show ?case
  proof (cases i)
    case Pad
    then show ?thesis using Cons by (simp add: parse_entities_pad)
  next
    case (Item t d)
    with Cons.prems have len: "length d \<le> 253" by simp
    from Cons.prems have ih: "parse_entities_loop h acc' (items_bytes is) = map_ok (\<lambda>es. acc' @ es) (items_result h is)" for acc'
      using Cons.IH by simp
    show ?thesis
      using parse_entities_item [OF len, of h acc t "items_bytes is"] Item
      by (cases "parse_entity h (t # d)"; cases "items_result h is")
        (auto simp: ih split: option.splits)
  qed
qed

text \<open>What the parser has accepted when it stops, whatever the outcome.\<close>

lemma parse_entities_step:
  assumes "r \<noteq> []"
  obtains (zero) "hd r = 0" "parse_entities_loop h acc r = Err (BadData ''zero length entity'')"
  | (pad) r' where "r = item_bytes Pad @ r'"
  | (short) "parse_entities_loop h acc r = Err (BadData ''encoded entity len > entities data remainder size'')"
  | (item) t d r' where "length d \<le> 253" "r = item_bytes (Item t d) @ r'"
proof -
  obtain n r1 where r: "r = n # r1" using assms by (cases r) auto
  show thesis
  proof (cases "n = 0 \<or> n = 1 \<or> length r1 < unat (n - 1)")
    case True
    then show thesis
      using zero pad [of r1] short
      by (cases "n = 0"; cases "n = 1") (auto simp: r parse_entities_loop.simps [of h acc "_ # _"] read_slice_def)
  next
    case False
    then have n1: "unat (n - 1) = unat n - 1" "2 \<le> unat n"
      by (auto simp: unat_sub_if' word_le_nat_alt word_unat_eq_iff)
    define d0 where "d0 = take (unat n - 1) r1"
    have len: "length d0 = unat n - 1" using False n1 by (simp add: d0_def)
    with n1 obtain t d where d: "d0 = t # d" by (cases d0) auto
    have l: "length d + 2 = unat n" using len d n1 by simp
    have "(word_of_nat (length d + 2) :: u8) = n" unfolding l by (metis of_nat_unat ucast_id)
    moreover have "r1 = t # d @ drop (unat n - 1) r1"
      using d d0_def by (metis append_Cons append_take_drop_id)
    ultimately have "r = item_bytes (Item t d) @ drop (unat n - 1) r1"
      by (simp add: r del: of_nat_add)
    moreover have "length d \<le> 253" using l unat_u8_less [of n] by linarith
    ultimately show thesis using item by blast
  qed
qed

lemma parse_entities_prefix:
  "(parse_entities_loop h acc r = Ok es \<longrightarrow> (\<exists>is. list_all item_ok is \<and> r = items_bytes is))
   \<and> (parse_entities_loop h acc r = Panic \<longrightarrow> (\<exists>is es' t d rest. list_all item_ok is \<and> items_result h is = Ok es'
       \<and> length d \<le> 253 \<and> r = items_bytes is @ item_bytes (Item t d) @ rest \<and> parse_entity h (t # d) = Panic))"
  (is "?P acc r")
proof (induction r arbitrary: acc rule: length_induct)
  case (1 r)
  have cons: "?P acc r"
    if r: "r = item_bytes i @ r'" "item_ok i" and ih: "?P acc' r'"
      and l: "parse_entities_loop h acc r = parse_entities_loop h acc' r'"
      and i: "\<And>is es'. items_result h is = Ok es' \<Longrightarrow> \<exists>es''. items_result h (i # is) = Ok es''" for i r' acc'
  proof (intro conjI impI)
    assume "parse_entities_loop h acc r = Ok es"
    with ih l obtain "is" where "list_all item_ok is" "r' = items_bytes is" by auto
    then show "\<exists>is. list_all item_ok is \<and> r = items_bytes is"
      using r by (intro exI [of _ "i # is"]) simp
  next
    assume "parse_entities_loop h acc r = Panic"
    with ih l obtain "is" es' t d rest where *: "list_all item_ok is" "items_result h is = Ok es'" "length d \<le> 253"
      "r' = items_bytes is @ item_bytes (Item t d) @ rest" "parse_entity h (t # d) = Panic" by metis
    from i [OF *(2)] obtain es'' where "items_result h (i # is) = Ok es''" by blast
    with * r show "\<exists>is es' t d rest. list_all item_ok is \<and> items_result h is = Ok es'
       \<and> length d \<le> 253 \<and> r = items_bytes is @ item_bytes (Item t d) @ rest \<and> parse_entity h (t # d) = Panic"
      by (intro exI [of _ "i # is"] exI [of _ es''] exI [of _ t] exI [of _ d] exI [of _ rest]) simp
  qed
  show ?case
  proof (cases "r = []")
    case True
    then show ?thesis by (auto simp: parse_entities_loop.simps intro: exI [of _ "[]"])
  next
    case False
    then show ?thesis
    proof (cases rule: parse_entities_step [of r h acc])
      case (pad r')
      then show ?thesis using 1 cons [of Pad r' acc] by (simp add: parse_entities_pad)
    next
      case (item t d r')
      have l: "parse_entities_loop h acc r =
        and_then (parse_entity h (t # d)) (\<lambda>e. parse_entities_loop h (case e of Some x \<Rightarrow> acc @ [x] | None \<Rightarrow> acc) r')"
        using parse_entities_item [OF item(1)] item(2) by simp
      show ?thesis
      proof (cases "parse_entity h (t # d)")
        case (Ok e)
        then show ?thesis using l item 1 cons [of "Item t d" r' "case e of Some x \<Rightarrow> acc @ [x] | None \<Rightarrow> acc"] by simp
      next
        case Panic
        then show ?thesis
          using l item by (intro conjI impI exI [of _ "[]"] exI [of _ t] exI [of _ d] exI [of _ r']) simp_all
      qed (use l in simp)
    qed simp_all
  qed
qed

lemma parse_entities_ok_iff:
  "parse_entities_loop h [] bs = Ok es \<longleftrightarrow> (\<exists>is. list_all item_ok is \<and> bs = items_bytes is \<and> items_result h is = Ok es)"
  (is "?l \<longleftrightarrow> ?r")
proof
  assume ?l
  then obtain "is" where "list_all item_ok is" "bs = items_bytes is"
    using parse_entities_prefix [of h "[]" bs es] by blast
  with \<open>?l\<close> show ?r using parse_entities_items [of "is" h "[]"] by (auto simp: ok_iff)
next
  assume ?r
  then show ?l using parse_entities_items [of _ h "[]"] by auto
qed

section \<open>Samples\<close>

fun sample_bytes :: "u16 \<times> u16 \<times> u32 \<Rightarrow> bytes" where
  "sample_bytes (l, d, k) = var_int_bytes (unat l) @ var_int_bytes (unat d) @ var_int_bytes (unat k)"

definition link_state_bytes :: "nat \<Rightarrow> u16 \<Rightarrow> u8 \<Rightarrow> (u16 \<times> u16 \<times> u32) list \<Rightarrow> bytes" where
  "link_state_bytes pads nid start samples =
     word_of_nat pads # replicate pads 0 @ var_int_bytes (unat nid) @ var_int_bytes (unat start)
     @ concat (map sample_bytes samples)"

fun last_at :: "nat \<Rightarrow> 'a list \<Rightarrow> nat \<Rightarrow> 'a option" where
  "last_at i [] j = None"
| "last_at i (s # ss) j =
     (case last_at ((i + 1) mod LINK_STATE_SLOTS) ss j of Some x \<Rightarrow> Some x | None \<Rightarrow> if i = j then Some s else None)"

lemma read_var_int_slice:
  fixes v :: "'a::len word"
  assumes "8 \<le> LENGTH('a)" and "LENGTH('a) \<le> 64"
  shows "read_var_int slice_read (var_int_bytes (unat v) @ ys) = (Ok v, ys)"
  using slice_source.read_var_int_ok [OF TrueI refl assms, of v ys] by simp

lemma read_sample_bytes [simp]: "read_sample (sample_bytes s @ ys) = (Ok s, ys)"
  by (cases s) (simp add: read_sample_def rd_bind_def rd_err_def rd_ok_def read_var_int_slice)

lemma sample_bytes_not_Nil [simp]: "sample_bytes s \<noteq> []"
  using read_sample_consumes [OF read_sample_bytes [of s "[]"]] by auto

declare sample_bytes.simps [simp del]

lemma last_at_None:
  "i < 18 \<Longrightarrow> (\<And>k. k < length ss \<Longrightarrow> (i + k) mod 18 \<noteq> j) \<Longrightarrow> last_at i ss j = None"
proof (induction ss arbitrary: i)
  case (Cons s ss)
  have "((i + 1) mod 18 + k) mod 18 \<noteq> j" if "k < length ss" for k
    using Cons.prems(2) [of "Suc k"] that by (simp add: mod_simps)
  then have "last_at ((i + 1) mod 18) ss j = None" using Cons.IH by simp
  moreover have "i \<noteq> j" using Cons.prems(1) Cons.prems(2) [of 0] by simp
  ultimately show ?case by (simp add: LINK_STATE_SLOTS_def)
qed simp

lemma last_at_recent:
  "i < 18 \<Longrightarrow> k < length ss \<Longrightarrow> length ss \<le> k + 18 \<Longrightarrow> last_at i ss ((i + k) mod 18) = Some (ss ! k)"
proof (induction ss arbitrary: i k)
  case (Cons s ss)
  show ?case
  proof (cases k)
    case 0
    have "((i + 1) mod 18 + m) mod 18 \<noteq> i" if "m < length ss" for m
    proof -
      have "m + 1 < 18" using that Cons.prems(3) 0 by simp
      then have "(i + (m + 1)) mod 18 \<noteq> i"
        using Cons.prems(1) by (cases "i + (m + 1) < 18") (simp_all add: le_mod_geq)
      then show ?thesis by (simp add: mod_simps add.assoc)
    qed
    then have "last_at ((i + 1) mod 18) ss i = None" using last_at_None [of "(i + 1) mod 18" ss i] by simp
    then show ?thesis using 0 Cons.prems(1) by (simp add: LINK_STATE_SLOTS_def)
  next
    case (Suc k')
    then have "last_at ((i + 1) mod 18) ss (((i + 1) mod 18 + k') mod 18) = Some (ss ! k')"
      using Cons.IH [of "(i + 1) mod 18" k'] Cons.prems by simp
    then show ?thesis using Suc by (simp add: LINK_STATE_SLOTS_def mod_simps)
  qed
qed simp

lemma link_state_loop_samples:
  assumes "i < 18" and "length lag = 18" and "length drp = 18" and "length kb = 18"
  shows "\<exists>lag' drp' kb'. link_state_loop i (lag, drp, kb) (concat (map sample_bytes ss)) = (Ok (lag', drp', kb'), [])
    \<and> length lag' = 18 \<and> length drp' = 18 \<and> length kb' = 18
    \<and> (\<forall>j < 18. (lag' ! j, drp' ! j, kb' ! j) =
         (case last_at i ss j of None \<Rightarrow> (lag ! j, drp ! j, kb ! j) | Some (l, d, k) \<Rightarrow> (Some l, Some d, Some k)))"
  using assms
proof (induction ss arbitrary: i lag drp kb)
  case Nil
  then show ?case by (simp add: link_state_loop.simps)
next
  case (Cons s ss)
  obtain l d k where s: "s = (l, d, k)" by (cases s) auto
  have "link_state_loop i (lag, drp, kb) (concat (map sample_bytes (s # ss))) =
    link_state_loop ((i + 1) mod 18) (lag[i := Some l], drp[i := Some d], kb[i := Some k]) (concat (map sample_bytes ss))"
    using Cons.prems
    by (simp add: link_state_loop.simps [of i _ "sample_bytes _ @ _"] set_chk_def LINK_STATE_SLOTS_def s)
  moreover obtain lag' drp' kb' where
    "link_state_loop ((i + 1) mod 18) (lag[i := Some l], drp[i := Some d], kb[i := Some k]) (concat (map sample_bytes ss)) = (Ok (lag', drp', kb'), [])"
    and "length lag' = 18" "length drp' = 18" "length kb' = 18"
    and nth: "\<And>j. j < 18 \<Longrightarrow> (lag' ! j, drp' ! j, kb' ! j) =
         (case last_at ((i + 1) mod 18) ss j of None \<Rightarrow> (lag[i := Some l] ! j, drp[i := Some d] ! j, kb[i := Some k] ! j)
          | Some (l, d, k) \<Rightarrow> (Some l, Some d, Some k))"
    using Cons.IH [of "(i + 1) mod 18" "lag[i := Some l]" "drp[i := Some d]" "kb[i := Some k]"] Cons.prems by auto
  moreover have "(lag' ! j, drp' ! j, kb' ! j) =
         (case last_at i (s # ss) j of None \<Rightarrow> (lag ! j, drp ! j, kb ! j) | Some (l, d, k) \<Rightarrow> (Some l, Some d, Some k))" if "j < 18" for j
    using nth [OF that] Cons.prems that
    by (cases "last_at ((i + 1) mod 18) ss j") (auto simp: s LINK_STATE_SLOTS_def nth_list_update)
  ultimately show ?case by auto
qed

lemma parse_link_state_bytes:
  assumes "pads < 256" and "unat start < 18" and "ss \<noteq> []"
  shows "parse_link_state (link_state_bytes pads nid start ss) =
    map_ok (\<lambda>s. LinkState \<lparr>node_id = nid, starting_point = start, lag_slots = fst s, drop_slots = fst (snd s), kb_recv_slots = snd (snd s)\<rparr>)
      (fst (link_state_loop (unat start) (empty_slots, empty_slots, empty_slots) (concat (map sample_bytes ss))))"
proof -
  have p: "unat (word_of_nat pads :: u8) = pads" using assms(1) by simp
  obtain x xs where ne: "concat (map sample_bytes ss) = x # xs"
    using assms(3) by (cases ss; cases "concat (map sample_bytes ss)") auto
  obtain res r' where l: "link_state_loop (unat start) (empty_slots, empty_slots, empty_slots) (x # xs) = (res, r')"
    by fastforce
  have "read_slice pads (replicate pads (0 :: u8) @ ys) = (Ok (replicate pads 0), ys)" for ys by simp
  then show ?thesis
    using assms(2)
    by (cases res)
      (simp_all add: parse_link_state_def link_state_fields_def link_state_bytes_def rd_bind_def rd_err_def read_var_int_slice peek_remainder_def
        LINK_STATE_SLOTS_def rd_ok_def ne l p del: unat_byte_of_nat)
qed

section \<open>What a parsed announcement satisfies\<close>

fun entity_ok :: "entity \<Rightarrow> bool" where
  "entity_ok (NodeProtocolVersion v) = True"
| "entity_ok (Peer p) = (ip6_ok (ipv6 p) \<and> (\<forall>l. peer_label p = Some l \<longrightarrow> label_ok l)
     \<and> 8 dvd unat (mtu p) \<and> unat (mtu p) \<le> 524280)"
| "entity_ok (EncodingSchemeEntity hex s) = (scheme_ok (forms s) \<and> (\<forall>f \<in> set (forms s). form_ok f))"
| "entity_ok (LinkState d) = (length (lag_slots d) = 18 \<and> length (drop_slots d) = 18 \<and> length (kb_recv_slots d) = 18
     \<and> unat (starting_point d) < 18)"

lemma set_chk_ok [ok_iff]: "set_chk xs i x = Ok ys \<longleftrightarrow> i < length xs \<and> ys = xs[i := x]"
  by (auto simp: set_chk_def)

lemma put_sample_total:
  assumes "i < 18" and "length (fst s) = 18" and "length (fst (snd s)) = 18" and "length (snd (snd s)) = 18"
  obtains s' where "put_sample i smp s = Ok s'" "length (fst s') = 18" "length (fst (snd s')) = 18" "length (snd (snd s')) = 18"
  using assms by (cases s; cases smp) (auto simp: set_chk_def)

lemma read_int_slice_no_panic [simp]: "0 < n \<Longrightarrow> fst (io_read_int n slice_read r :: ('a::len word, _) result \<times> _) \<noteq> Panic"
  by (simp add: io_read_int_slice)

lemma try_from_byte: "8 \<le> LENGTH('a) \<Longrightarrow> (try_from_int (b :: u8) :: 'a::len word option) \<noteq> None"
  using less_le_trans [OF unat_u8_less, of "2 ^ LENGTH('a)" b] power_increasing [of 8 "LENGTH('a)" "2::nat"]
  by (simp add: try_from_int_def)

lemma unwrap_try_from_byte [simp]:
  "8 \<le> LENGTH('a) \<Longrightarrow> (unwrap_opt (try_from_int (b :: u8)) :: ('a::len word, 'e) result) \<noteq> Panic"
  using try_from_byte [of b, where ?'a = 'a] by (auto simp: unwrap_opt_def split: option.splits)

lemma read_var_int_no_panic:
  "8 \<le> LENGTH('a) \<Longrightarrow> fst (read_var_int slice_read r :: ('a::len word, _) result \<times> _) \<noteq> Panic"
  by (simp add: read_var_int_def io_read_int_slice)

lemma rd_bind_panic:
  "fst (rd_bind m f r) = Panic \<longleftrightarrow> fst (m r) = Panic \<or> (\<exists>a r'. m r = (Ok a, r') \<and> fst (f a r') = Panic)"
  by (auto simp: rd_bind_def split: prod.splits result.splits)

lemma rd_simple_panic [simp]: "fst (rd_err e m r) = Panic \<longleftrightarrow> fst (m r) = Panic"
    "fst (rd_fail x r) \<noteq> Panic" "fst (rd_ok a r) \<noteq> Panic" "fst (peek_remainder r) \<noteq> Panic"
  by (simp_all add: rd_err_def io_err_def rd_fail_def rd_ok_def peek_remainder_def split: prod.splits)

lemma read_sample_no_panic: "fst (read_sample r) \<noteq> Panic"
  by (simp add: read_sample_def rd_bind_panic read_var_int_no_panic)

lemma link_state_loop_total:
  assumes "i < 18" and "length (fst s) = 18" and "length (fst (snd s)) = 18" and "length (snd (snd s)) = 18"
  shows "fst (link_state_loop i s r) \<noteq> Panic \<and> (\<forall>s'. fst (link_state_loop i s r) = Ok s' \<longrightarrow>
    length (fst s') = 18 \<and> length (fst (snd s')) = 18 \<and> length (snd (snd s')) = 18)"
  using assms
proof (induction i s r rule: link_state_loop.induct)
  case (1 i s r)
  show ?case
  proof (cases "r = [] \<or> (\<nexists>smp. fst (read_sample r) = Ok smp)")
    case True
    then show ?thesis
      using 1 read_sample_no_panic [of r] by (auto simp: link_state_loop.simps [of i s r] split: prod.splits result.splits)
  next
    case False
    then obtain smp r' where r: "read_sample r = (Ok smp, r')" "r \<noteq> []" by (metis prod.collapse)
    obtain s' where s': "put_sample i smp s = Ok s'" "length (fst s') = 18" "length (fst (snd s')) = 18" "length (snd (snd s')) = 18"
      using put_sample_total [OF "1.prems"] by blast
    have "link_state_loop i s r = link_state_loop ((i + 1) mod LINK_STATE_SLOTS) s' r'"
      using r s' by (simp add: link_state_loop.simps [of i s r])
    moreover have "(i + 1) mod LINK_STATE_SLOTS < 18" by (simp add: LINK_STATE_SLOTS_def)
    ultimately show ?thesis
      using "1.IH" [OF r(2) r(1) [symmetric] refl s'(1) ] s' by (simp add: r)
  qed
qed

lemma parse_link_state_total:
  "parse_link_state d \<noteq> Panic \<and> (parse_link_state d = Ok e \<longrightarrow> entity_ok e)"
proof -
  have l: "fst (link_state_loop i (empty_slots, empty_slots, empty_slots) r) \<noteq> Panic
     \<and> (\<forall>s'. fst (link_state_loop i (empty_slots, empty_slots, empty_slots) r) = Ok s' \<longrightarrow>
       length (fst s') = 18 \<and> length (fst (snd s')) = 18 \<and> length (snd (snd s')) = 18)" if "i < 18" for i r
    by (rule link_state_loop_total) (simp_all add: empty_slots_def LINK_STATE_SLOTS_def that)
  have l2: "length (fst s') = 18 \<and> length (fst (snd s')) = 18 \<and> length (snd (snd s')) = 18"
    if "link_state_loop i (empty_slots, empty_slots, empty_slots) r = (Ok s', r')" "i < 18" for i r s' r'
    using l [OF that(2), of r] that(1) by simp
  have "parse_link_state d \<noteq> Panic"
    using l u8.dec_never_panics slice.dec_never_panics
    by (auto simp: parse_link_state_def link_state_fields_def rd_bind_panic read_var_int_no_panic LINK_STATE_SLOTS_def)
  moreover have "entity_ok e" if ok: "parse_link_state d = Ok e"
  proof -
    from ok obtain r' where "link_state_fields d = (Ok e, r')"
      unfolding parse_link_state_def by (metis prod.collapse)
    then show ?thesis
      by (auto simp: link_state_fields_def rd_iff LINK_STATE_SLOTS_def split: if_splits dest!: l2)
  qed
  ultimately show ?thesis by blast
qed

definition reads_exactly :: "nat \<Rightarrow> ('a, 'e) rd \<Rightarrow> bool" where
  "reads_exactly n job \<longleftrightarrow> (\<forall>r. n \<le> length r \<longrightarrow> (\<exists>x. job r = (Ok x, drop n r)))"

lemma reads_exactly_bind:
  assumes "reads_exactly n m" and "\<And>a. reads_exactly k (f a)"
  shows "reads_exactly (n + k) (rd_bind m f)"
  unfolding reads_exactly_def
proof (intro allI impI)
  fix r :: reader
  assume len: "n + k \<le> length r"
  then have "n \<le> length r" by simp
  then obtain a where a: "m r = (Ok a, drop n r)" using assms(1) unfolding reads_exactly_def by blast
  have "k \<le> length (drop n r)" using len by simp
  then obtain x where "f a (drop n r) = (Ok x, drop k (drop n r))"
    using assms(2) [of a] unfolding reads_exactly_def by blast
  with a show "\<exists>x. rd_bind m f r = (Ok x, drop (n + k) r)" by (simp add: add.commute)
qed

lemma reads_exactly_fields:
  "reads_exactly n (read_slice n)" "reads_exactly 1 read_u8" "reads_exactly 2 read_u16_be"
  "reads_exactly 4 read_u32_be" "reads_exactly 8 read_u64_be" "reads_exactly 0 (rd_ok x)"
  using slice.dec_enough u8.dec_enough u16.dec_enough u32.dec_enough u64.dec_enough
  by (auto simp: reads_exactly_def rd_ok_def) blast+

lemma reader_read_exactly:
  assumes "reads_exactly n job"
  shows "fst (reader_read (Exact n) job r) \<noteq> Panic"
  using assms by (auto simp: reader_read_def reads_exactly_def)

lemma ucast_mtu: "8 dvd unat (ucast (w :: u16) * 8 :: u32) \<and> unat (ucast w * 8 :: u32) \<le> 524280"
proof -
  have "unat (ucast w :: u32) = unat w" by (simp add: unat_ucast_up)
  moreover have "unat w < 2 ^ 16" using unsigned_less [of w, where ?'a = nat] by simp
  ultimately have "unat (ucast w * 8 :: u32) = unat w * 8" by (simp add: unat_mult_lem [THEN iffD1])
  with \<open>unat w < 2 ^ 16\<close> show ?thesis by simp
qed

lemma reads_exactly_peer: "reads_exactly 30 peer_fields"
proof -
  have "reads_exactly (1 + (1 + (2 + (2 + (4 + (16 + (4 + 0))))))) peer_fields"
    unfolding peer_fields_def by (intro reads_exactly_bind reads_exactly_fields)
  then show ?thesis by simp
qed

lemma parse_peer_total: "parse_peer d \<noteq> Panic \<and> (parse_peer d = Ok e \<longrightarrow> entity_ok e)"
  using reader_read_exactly [OF reads_exactly_peer, of d] ucast_mtu
  by (auto simp: parse_peer_def panic_iff ok_iff ip6_try_from_bytes_iff label_ok_def split: prod.splits)

lemma parse_scheme_total:
  "(parse_encoding_scheme h d = Panic \<longleftrightarrow> deserialize_scheme d = Panic) \<and> (parse_encoding_scheme h d = Ok e \<longrightarrow> entity_ok e)"
proof (cases "length d < 2")
  case True
  then show ?thesis by (simp add: parse_encoding_scheme_def deserialize_scheme_def)
next
  case False
  then have "reader_read (NotLessThan 2) read_remainder d = (Ok d, [])" by (simp add: reader_read_def)
  then show ?thesis
    using deserialize_scheme_ok [of d] by (auto simp: parse_encoding_scheme_def ok_iff panic_iff)
qed

lemma parse_entity_total:
  "(parse_entity h (t # d) = Panic \<longleftrightarrow> t = 0 \<and> deserialize_scheme d = Panic)
   \<and> (parse_entity h (t # d) = Ok (Some e) \<longrightarrow> entity_ok e)"
  using parse_scheme_total parse_peer_total parse_link_state_total
    reader_read_exactly [OF reads_exactly_fields(3), of d]
  by (auto simp: parse_entity_def parse_version_def ok_iff)

lemma items_result_ok:
  "items_result h is = Ok es \<Longrightarrow> \<forall>e \<in> set es. entity_ok e"
proof (induction "is" arbitrary: es rule: items_result.induct)
  case (3 h t d items)
  then obtain e es' where e: "parse_entity h (t # d) = Ok e" "items_result h items = Ok es'"
    "es = (case e of Some x \<Rightarrow> x # es' | None \<Rightarrow> es')"
    by (auto simp: ok_iff)
  with "3.IH" [OF e(1)] show ?case using parse_entity_total [of h t d] by (cases e) auto
qed auto

lemma parse_entities_panic_iff:
  "parse_entities h bs = Panic \<longleftrightarrow> (\<exists>is es d rest. list_all item_ok is \<and> items_result h is = Ok es \<and> length d \<le> 253
     \<and> bs = items_bytes is @ item_bytes (Item 0 d) @ rest \<and> deserialize_scheme d = Panic)" (is "_ \<longleftrightarrow> ?r")
proof
  assume "parse_entities h bs = Panic"
  then have "parse_entities_loop h [] bs = Panic" by (simp add: parse_entities_def)
  then obtain "is" es t d rest where "list_all item_ok is" "items_result h is = Ok es" "length d \<le> 253"
    "bs = items_bytes is @ item_bytes (Item t d) @ rest" "parse_entity h (t # d) = Panic"
    using parse_entities_prefix [of h "[]" bs] by blast
  moreover from this(5) have "t = 0" "deserialize_scheme d = Panic" using parse_entity_total by blast+
  ultimately show ?r by blast
next
  assume ?r
  then obtain "is" es d rest where *: "list_all item_ok is" "items_result h is = Ok es" "length d \<le> 253"
    "bs = items_bytes is @ item_bytes (Item 0 d) @ rest" "deserialize_scheme d = Panic" by blast
  from *(5) have "parse_entity h (0 # d) = Panic" using parse_entity_total by blast
  with * show "parse_entities h bs = Panic"
    using parse_entities_items_append [OF *(1,2), of "[]" "item_bytes (Item 0 d) @ rest"] parse_entities_item [OF *(3), of h _ 0 rest]
    by (simp add: parse_entities_def del: item_bytes.simps)
qed

section \<open>The header\<close>

lemma header_fields_append:
  assumes "length sig = 64" and "length key = 32" and "length ip = 16"
  shows "header_fields (sig @ key @ ip @ to_be_bytes ts) =
    (Ok (sig, key, ip, word_of_nat (unat ts), ts), [])"
proof -
  have "to_be_bytes (ts :: u64) \<noteq> []" "last (to_be_bytes ts) = word_of_nat (unat ts)"
    by (simp_all add: to_be_bytes_def)
  then show ?thesis
    using assms by (simp add: header_fields_def ann_sizes rd_bind_def peek_last_def rd_ok_def read_enc)
qed

lemma header_bytes_split:
  assumes "length p = HEADER_SIZE"
  shows "p = take 64 p @ take 32 (drop 64 p) @ take 16 (drop 96 p) @ to_be_bytes (from_be_bytes (drop 112 p) :: u64)"
proof -
  have "to_be_bytes (from_be_bytes (drop 112 p) :: u64) = drop 112 p"
    using assms by (simp add: to_from_be_bytes ann_sizes)
  moreover have "p = take 64 p @ take 32 (drop 64 p) @ take 16 (drop 96 p) @ drop 112 p"
    using append_take_drop_id [of 64 p] append_take_drop_id [of 32 "drop 64 p"] append_take_drop_id [of 16 "drop 96 p"]
    by simp
  ultimately show ?thesis by simp
qed

text \<open>The low four bits of the timestamp field are the reset flag and the version.\<close>

definition header_stamp :: "announcement_header \<Rightarrow> nat" where
  "header_stamp h = 16 * unat (timestamp h) + 8 * of_bool (is_reset h) + unat (ann_version h)"

lemma stamp_digits: "16 * (n div 16) + 8 * of_bool (odd (n mod 256 div 8)) + n mod 256 mod 8 = (n::nat)"
  proof -
    have "odd (n mod 256 div 8) \<longleftrightarrow> odd (n div 8)"
      using bit_take_bit_iff [of 8 n 3] by (simp add: bit_iff_odd take_bit_eq_mod)
    moreover have "n mod 256 mod 8 = n mod 8" by (simp add: mod_mod_cancel)
    moreover have "n div 16 = n div 8 div 2" by (simp flip: div_mult2_eq)
    moreover have "2 * (k div 2) + of_bool (odd k) = k" for k :: nat by simp
    from this [of "n div 8"] have "16 * (n div 8 div 2) + 8 * of_bool (odd (n div 8)) = 8 * (n div 8)" by linarith
    ultimately show ?thesis by simp
  qed
lemma low_bits_of_stamp:
  fixes ts :: u64
  defines "b \<equiv> word_of_nat (unat ts) :: u8"
  shows "16 * unat (drop_bit 4 ts) + 8 * of_bool (drop_bit 3 b AND 1 = 1) + unat (b AND 7) = unat ts"
    and "unat (b AND 7) < 8"
proof -
  have b: "unat b = unat ts mod 256" by (simp only: b_def unat_byte_of_nat)
  have "b AND 7 = take_bit 3 b" by (simp add: take_bit_eq_mask mask_eq_exp_minus_1)
  then have v: "unat (b AND 7) = unat ts mod 256 mod 8" by (simp add: take_bit_eq_mod unat_mod b)
  then show "unat (b AND 7) < 8" by simp
  have "drop_bit 3 b AND 1 = take_bit 1 (drop_bit 3 b)" by (simp add: take_bit_eq_mask mask_eq_exp_minus_1)
  then have "unat (drop_bit 3 b AND 1) = unat ts mod 256 div 8 mod 2"
    by (simp add: take_bit_eq_mod unat_mod drop_bit_eq_div unat_div b)
  then have r: "drop_bit 3 b AND 1 = 1 \<longleftrightarrow> odd (unat ts mod 256 div 8)"
    by (simp add: word_unat_eq_iff odd_iff_mod_2_eq_one)
  have t: "unat (drop_bit 4 ts) = unat ts div 16" by (simp add: drop_bit_eq_div unat_div)
  show "16 * unat (drop_bit 4 ts) + 8 * of_bool (drop_bit 3 b AND 1 = 1) + unat (b AND 7) = unat ts"
    unfolding r v t by (rule stamp_digits)
qed

lemma parse_header_eq:
  assumes "length p = HEADER_SIZE"
  shows "parse_header hex p =
    (let ts = from_be_bytes (drop 112 p) :: u64; b = word_of_nat (unat ts) :: u8 in
     map_ok (\<lambda>ip. \<lparr>signature = hex (take 64 p), pub_signing_key = hex (take 32 (drop 64 p)), snode_ip = ip,
         ann_version = b AND 7, is_reset = (drop_bit 3 b AND 1 = 1), timestamp = drop_bit 4 ts\<rparr>)
       (map_err (\<lambda>_. CannotParseHeader ''failed ip6 creation from received data'')
          (ip6_try_from_bytes (take 16 (drop 96 p)))))"
proof -
  have len: "length (take 64 p) = 64" "length (take 32 (drop 64 p)) = 32" "length (take 16 (drop 96 p)) = 16"
    using assms by (simp_all add: ann_sizes)
  have "header_fields p = (Ok (take 64 p, take 32 (drop 64 p), take 16 (drop 96 p),
      word_of_nat (unat (from_be_bytes (drop 112 p) :: u64)), from_be_bytes (drop 112 p)), [])"
    by (subst header_bytes_split [OF assms]) (rule header_fields_append [OF len])
  from read_exact_fields [where job = header_fields, OF assms this] show ?thesis
    by (cases "ip6_try_from_bytes (take 16 (drop 96 p))") (simp_all add: parse_header_def Let_def)
qed

lemma parse_header_no_panic:
  "HEADER_SIZE \<le> length p \<Longrightarrow> parse_header hex (get_header_bytes p) \<noteq> Panic"
  by (simp add: parse_header_eq get_header_bytes_def Let_def)

lemma parse_auth_no_panic:
  assumes "\<And>bs. 16 \<le> length (sha512 bs)" and "HEADER_SIZE \<le> length p"
  shows "parse_sender_auth_data sha512 pk (get_pub_key_bytes p) \<noteq> Panic"
proof -
  have "length (get_pub_key_bytes p) = 32"
    using assms(2) by (simp add: get_pub_key_bytes_def get_signed_data_def ann_sizes)
  moreover have "ip6_try_from_key sha512 k \<noteq> Panic" for k
    using assms(1) [of "sha512 k"] by (simp add: ip6_try_from_key_def Let_def not_less)
  ultimately show ?thesis by (simp add: parse_sender_auth_data_def panic_iff)
qed

text \<open>A packet with a valid header and an all-zero signature, for examples.\<close>

definition sample_packet :: "bytes \<Rightarrow> bytes" where
  "sample_packet ents = replicate 96 0 @ replicate 16 0xFC @ replicate 8 0 @ ents"

lemma sample_packet_parts:
  "packet_try_new (sample_packet ents) = Ok (sample_packet ents)"
  "get_entities_bytes (sample_packet ents) = ents"
  "is_ok (parse_header hex (get_header_bytes (sample_packet ents)))"
  "parse_sender_auth_data (\<lambda>_. replicate 64 0xFC) Some (get_pub_key_bytes (sample_packet ents)) = Ok (replicate 32 0, replicate 16 0xFC)"
proof -
  have h: "get_header_bytes (sample_packet ents) = sample_packet []" "length (sample_packet []) = HEADER_SIZE"
    by (simp_all add: get_header_bytes_def sample_packet_def ann_sizes)
  have "ip6_try_from_bytes (take 16 (drop 96 (sample_packet []))) = Ok (replicate 16 0xFC)"
    by (simp add: sample_packet_def ip6_try_from_bytes_def IP6_FIRST_BYTE_def)
  then show "is_ok (parse_header hex (get_header_bytes (sample_packet ents)))"
    by (simp add: h parse_header_eq Let_def)
qed (simp_all add: packet_try_new_def get_entities_bytes_def sample_packet_def ann_sizes get_pub_key_bytes_def
      get_signed_data_def parse_sender_auth_data_def ip6_try_from_key_def ip6_try_from_bytes_def IP6_FIRST_BYTE_def Let_def)

lemma parsed_facts:
  assumes "packet_parse sha512 pk hex p = Ok a"
  shows "HEADER_SIZE \<le> length p \<and> binary a = p \<and> ann_hash a = sha512 p
    \<and> header_stamp (ann_header a) = unat (from_be_bytes (take 8 (drop 112 p)) :: u64)
    \<and> unat (ann_version (ann_header a)) < 8
    \<and> snode_ip (ann_header a) = take 16 (drop 96 p) \<and> ip6_ok (snode_ip (ann_header a))
    \<and> pk (take 32 (drop 64 p)) = Some (node_pub_key a)
    \<and> ip6_try_from_key sha512 (node_pub_key a) = Ok (node_ip a)
    \<and> (\<forall>e \<in> set (entities a). entity_ok e)"
proof -
  from assms obtain h k ip es where h: "parse_header hex (get_header_bytes p) = Ok h"
    and k: "parse_sender_auth_data sha512 pk (get_pub_key_bytes p) = Ok (k, ip)"
    and es: "parse_entities hex (get_entities_bytes p) = Ok es"
    and a: "a = \<lparr>ann_header = h, entities = es, node_pub_key = k, node_ip = ip, binary = p, ann_hash = sha512 p\<rparr>"
    by (auto simp: packet_parse_def parser_parse_def ok_iff split: prod.splits)
  have len: "HEADER_SIZE \<le> length p"
  proof (rule ccontr)
    assume "\<not> HEADER_SIZE \<le> length p"
    with h show False by (simp add: parse_header_def get_header_bytes_def)
  qed
  then have len': "length (get_header_bytes p) = HEADER_SIZE" by (simp add: get_header_bytes_def)
  let ?ts = "from_be_bytes (take 8 (drop 112 p)) :: u64"
  have "drop 112 (get_header_bytes p) = take 8 (drop 112 p)" "take 16 (drop 96 (get_header_bytes p)) = take 16 (drop 96 p)"
    by (simp_all add: get_header_bytes_def ann_sizes drop_take)
  with h have "header_stamp h = unat ?ts" "unat (ann_version h) < 8" "snode_ip h = take 16 (drop 96 p)" "ip6_ok (snode_ip h)"
    using low_bits_of_stamp [of ?ts]
    by (auto simp: parse_header_eq [OF len'] Let_def ok_iff header_stamp_def ip6_try_from_bytes_iff)
  moreover have "pk (take 32 (drop 64 p)) = Some k" "ip6_try_from_key sha512 k = Ok ip"
    using k by (auto simp: parse_sender_auth_data_def ok_iff get_pub_key_bytes_def get_signed_data_def ann_sizes)
  moreover from es have "\<forall>e \<in> set es. entity_ok e"
    using parse_entities_ok_iff [of hex "get_entities_bytes p" es] items_result_ok
    by (auto simp: parse_entities_def ok_iff)
  ultimately show ?thesis using len a by simp
qed

section \<open>From the bytes to the entities\<close>

text \<open>What an item stands for, from its bytes; a pad and an item of unknown type stand for nothing.\<close>

definition peer_at :: "bytes \<Rightarrow> peer_data" where
  "peer_at d = \<lparr>ipv6 = take 16 (drop 10 d),
     peer_label = (let l = from_be_bytes (drop 26 d) in if l = 0 then None else Some (RoutingLabel l)),
     mtu = 8 * ucast (from_be_bytes (take 2 (drop 2 d)) :: u16), peer_num = from_be_bytes (take 2 (drop 4 d)),
     unused = from_be_bytes (take 4 (drop 6 d)), encoding_form_number = d ! 0, flags = d ! 1\<rparr>"

inductive item_reads :: "(bytes \<Rightarrow> string) \<Rightarrow> ann_item \<Rightarrow> entity option \<Rightarrow> bool" for hex where
  reads_pad: "item_reads hex Pad None"
| reads_scheme: "2 \<le> length d \<Longrightarrow> deserialize_scheme d = Ok s \<Longrightarrow> item_reads hex (Item 0 d) (Some (EncodingSchemeEntity (hex d) s))"
| reads_peer: "length d = 30 \<Longrightarrow> ip6_ok (take 16 (drop 10 d)) \<Longrightarrow> item_reads hex (Item 1 d) (Some (Peer (peer_at d)))"
| reads_version: "length d = 2 \<Longrightarrow> item_reads hex (Item 2 d) (Some (NodeProtocolVersion (from_be_bytes d)))"
| reads_link_state: "parse_link_state d = Ok e \<Longrightarrow> item_reads hex (Item 3 d) (Some e)"
| reads_unknown: "3 < t \<Longrightarrow> item_reads hex (Item t d) None"

lemma peer_fields_eq:
  assumes "length d = 30"
  shows "peer_fields d = (Ok (d ! 0, d ! 1, from_be_bytes (take 2 (drop 2 d)), from_be_bytes (take 2 (drop 4 d)),
    from_be_bytes (take 4 (drop 6 d)), take 16 (drop 10 d), from_be_bytes (drop 26 d)), [])"
  using assms
  by (simp add: peer_fields_def rd_bind_def read_u8_def read_u16_be_def read_u32_be_def read_slice_def index_chk_def rd_ok_def
      numeral_2_eq_2 [symmetric]) auto

lemma parse_peer_iff: "parse_peer d = Ok e \<longleftrightarrow> length d = 30 \<and> ip6_ok (take 16 (drop 10 d)) \<and> e = Peer (peer_at d)"
proof (cases "length d = 30")
  case True
  then have "reader_read (Exact 30) peer_fields d = (Ok (d ! 0, d ! 1, from_be_bytes (take 2 (drop 2 d)), from_be_bytes (take 2 (drop 4 d)),
    from_be_bytes (take 4 (drop 6 d)), take 16 (drop 10 d), from_be_bytes (drop 26 d)), [])"
    by (simp add: reader_read_def peer_fields_eq)
  with True show ?thesis
    by (auto simp: parse_peer_def ok_iff ip6_try_from_bytes_iff peer_at_def label_try_new_def Let_def mult.commute)
next
  case False
  then show ?thesis by (simp add: parse_peer_def reader_read_def)
qed

lemma parse_version_iff: "parse_version d = Ok e \<longleftrightarrow> length d = 2 \<and> e = NodeProtocolVersion (from_be_bytes d)"
  by (auto simp: parse_version_def reader_read_def read_u16_be_def rd_bind_def read_slice_def rd_ok_def)

lemma parse_scheme_iff:
  "parse_encoding_scheme hex d = Ok e \<longleftrightarrow> 2 \<le> length d \<and> (\<exists>s. deserialize_scheme d = Ok s \<and> e = EncodingSchemeEntity (hex d) s)"
  by (auto simp: parse_encoding_scheme_def reader_read_def read_remainder_def ok_iff not_less)

lemma parse_entity_iff: "parse_entity hex (t # d) = Ok r \<longleftrightarrow> item_reads hex (Item t d) r"
proof -
  have t: "t = 0 \<or> t = 1 \<or> t = 2 \<or> t = 3 \<or> 3 < t"
  proof -
    have "unat t = 0 \<or> unat t = 1 \<or> unat t = 2 \<or> unat t = 3 \<or> 3 < unat t" by arith
    then show ?thesis by (simp add: word_unat_eq_iff word_less_nat_alt)
  qed
  then show ?thesis
    by (elim disjE; simp add: parse_entity_def item_reads.simps ok_iff parse_peer_iff parse_version_iff parse_scheme_iff) auto
qed

lemma items_result_reads:
  "items_result hex is = Ok es \<longleftrightarrow> (\<exists>rs. list_all2 (item_reads hex) is rs \<and> es = List.map_filter (\<lambda>r. r) rs)"
proof (induction "is" arbitrary: es)
  case Nil
  then show ?case by (auto simp: map_filter_def)
next
  case (Cons i "is")
  have pad: "item_reads hex Pad r \<longleftrightarrow> r = None" for r by (auto simp: item_reads.simps)
  show ?case
  proof (cases i)
    case Pad
    then show ?thesis by (auto simp: Cons.IH list_all2_Cons1 pad map_filter_simps)
  next
    case (Item t d)
    have "items_result hex (i # is) = Ok es \<longleftrightarrow> (\<exists>r. item_reads hex (Item t d) r
        \<and> (\<exists>es'. items_result hex is = Ok es' \<and> es = (case r of Some x \<Rightarrow> x # es' | None \<Rightarrow> es')))"
      using Item by (auto simp: ok_iff parse_entity_iff)
    also have "\<dots> \<longleftrightarrow> (\<exists>r rs. item_reads hex (Item t d) r \<and> list_all2 (item_reads hex) is rs \<and> es = List.map_filter (\<lambda>r. r) (r # rs))"
      unfolding Cons.IH by (simp add: map_filter_simps) blast
    also have "\<dots> \<longleftrightarrow> (\<exists>rs. list_all2 (item_reads hex) (i # is) rs \<and> es = List.map_filter (\<lambda>r. r) rs)"
      using Item by (simp only: list_all2_Cons1) blast
    finally show ?thesis .
  qed
qed


lemma parsed_parts:
  assumes "packet_parse sha512 pk hex p = Ok a"
  shows "signature (ann_header a) = hex (take 64 p)" and "pub_signing_key (ann_header a) = hex (take 32 (drop 64 p))"
    and "\<exists>is rs. list_all item_ok is \<and> drop 120 p = items_bytes is \<and> list_all2 (item_reads hex) is rs
       \<and> entities a = List.map_filter (\<lambda>r. r) rs"
proof -
  from assms obtain h k ip es where h: "parse_header hex (get_header_bytes p) = Ok h"
    and es: "parse_entities hex (get_entities_bytes p) = Ok es"
    and a: "a = \<lparr>ann_header = h, entities = es, node_pub_key = k, node_ip = ip, binary = p, ann_hash = sha512 p\<rparr>"
    by (auto simp: packet_parse_def parser_parse_def ok_iff split: prod.splits)
  have "HEADER_SIZE \<le> length p" using parsed_facts [OF assms] by simp
  then have len: "length (get_header_bytes p) = HEADER_SIZE" "take 64 (get_header_bytes p) = take 64 p"
      "take 32 (drop 64 (get_header_bytes p)) = take 32 (drop 64 p)"
    by (simp_all add: get_header_bytes_def ann_sizes drop_take min_def)
  show "signature (ann_header a) = hex (take 64 p)" "pub_signing_key (ann_header a) = hex (take 32 (drop 64 p))"
    using h a by (auto simp: parse_header_eq [OF len(1)] Let_def ok_iff len(2,3))
  show "\<exists>is rs. list_all item_ok is \<and> drop 120 p = items_bytes is \<and> list_all2 (item_reads hex) is rs
       \<and> entities a = List.map_filter (\<lambda>r. r) rs"
    using es a parse_entities_ok_iff [of hex "get_entities_bytes p" es]
    by (auto simp: parse_entities_def ok_iff items_result_reads get_entities_bytes_def ann_sizes)
qed

section \<open>Properties\<close>

text \<open>The witnesses write bytes in hexadecimal, as the \<open>hex\<close> crate does.\<close>

definition lower_hex :: "bytes \<Rightarrow> string" where
  "lower_hex bs = concat (map (\<lambda>b. [''0123456789abcdef'' ! (unat b div 16), ''0123456789abcdef'' ! (unat b mod 16)]) bs)"

text \<open>C18: the entity parser accepts exactly the sequences of pads and length-prefixed items whose
  known items parse, skips pads and unknown types, and returns the entities in order; the first
  bad item decides the error.\<close>

theorem parse_entities_exact:
  "(\<forall>is. list_all item_ok is \<longrightarrow> parse_entities h (items_bytes is) = map_err CannotParseEntity (items_result h is))
   \<and> (parse_entities h bs = Ok es \<longleftrightarrow> (\<exists>is. list_all item_ok is \<and> bs = items_bytes is \<and> items_result h is = Ok es))"
  using parse_entities_items [of _ h "[]"] parse_entities_ok_iff [of h bs es]
  by (simp add: parse_entities_def)

lemma parse_entities_exact_witness:
  "parse_entities lower_hex (items_bytes [Pad, Item 2 [0, 18], Item 99 [5]]) = Ok [NodeProtocolVersion 18]"
proof -
  have "list_all item_ok [Pad, Item 2 [0, 18], Item 99 [5]]" by simp
  then have "parse_entities lower_hex (items_bytes [Pad, Item 2 [0, 18], Item 99 [5]]) =
      map_err CannotParseEntity (items_result lower_hex [Pad, Item 2 [0, 18], Item 99 [5]])"
    using parse_entities_exact [of lower_hex "[]" "[]"] by blast
  moreover have "parse_entity lower_hex [2, 0, 18] = Ok (Some (NodeProtocolVersion 18))"
    using u16.dec_enc [OF TrueI, of 18 "[]"]
    by (simp add: parse_entity_def parse_version_def reader_read_def to_be_bytes_def)
  moreover have "parse_entity lower_hex [99, 5] = Ok None" by (simp add: parse_entity_def)
  ultimately show ?thesis by simp
qed

text \<open>A link state with any zero padding parses to slots that hold the samples in a ring of 18 from the
  starting point: each of the last 18 samples is in its slot, and a slot that no sample falls into
  is empty.\<close>

lemma link_state_ring:
  assumes "pads < 256" and "unat start < 18" and "ss \<noteq> []"
  shows "\<exists>d. parse_link_state (link_state_bytes pads nid start ss) = Ok (LinkState d)
    \<and> node_id d = nid \<and> starting_point d = start
    \<and> (\<forall>k < length ss. length ss \<le> k + 18 \<longrightarrow>
         (let j = (unat start + k) mod 18 in
          (lag_slots d ! j, drop_slots d ! j, kb_recv_slots d ! j)
            = (Some (fst (ss ! k)), Some (fst (snd (ss ! k))), Some (snd (snd (ss ! k))))))
    \<and> (\<forall>j < 18. (\<forall>k < length ss. (unat start + k) mod 18 \<noteq> j) \<longrightarrow>
         (lag_slots d ! j, drop_slots d ! j, kb_recv_slots d ! j) = (None, None, None))"
proof -
  obtain lag drp kb where
    l: "link_state_loop (unat start) (empty_slots, empty_slots, empty_slots) (concat (map sample_bytes ss)) = (Ok (lag, drp, kb), [])"
    and nth: "\<forall>j < 18. (lag ! j, drp ! j, kb ! j) =
         (case last_at (unat start) ss j of None \<Rightarrow> (empty_slots ! j, empty_slots ! j, empty_slots ! j) | Some (l, d, k) \<Rightarrow> (Some l, Some d, Some k))"
    using link_state_loop_samples [OF assms(2), of empty_slots empty_slots empty_slots ss]
    by (auto simp: empty_slots_def LINK_STATE_SLOTS_def)
  have "(lag ! j, drp ! j, kb ! j) = (Some (fst (ss ! k)), Some (fst (snd (ss ! k))), Some (snd (snd (ss ! k))))"
    if "k < length ss" "length ss \<le> k + 18" "j = (unat start + k) mod 18" for j k
  proof -
    have "last_at (unat start) ss j = Some (ss ! k)"
      using last_at_recent [OF assms(2) that(1,2)] that(3) by simp
    moreover have "j < 18" using that(3) by simp
    ultimately show ?thesis using nth by (auto split: prod.splits)
  qed
  moreover have "(lag ! j, drp ! j, kb ! j) = (None, None, None)"
    if "j < 18" "\<forall>k < length ss. (unat start + k) mod 18 \<noteq> j" for j
    using nth that last_at_None [OF assms(2), of ss j]
    by (auto simp: empty_slots_def LINK_STATE_SLOTS_def)
  ultimately show ?thesis
    using parse_link_state_bytes [OF assms, of nid] l by (simp add: Let_def)
qed

text \<open>A packet with distinct signature and key and one item, the version of the protocol.\<close>

definition signed_packet :: bytes where
  "signed_packet = replicate 64 1 @ replicate 32 2 @ replicate 16 0xFC @ replicate 8 0 @ [4, 2, 0, 18]"

lemma signed_packet_parses: "\<exists>a. packet_parse (\<lambda>_. replicate 64 0xFC) Some lower_hex signed_packet = Ok a \<and> entities a = [NodeProtocolVersion 18]"
proof -
  have h: "get_header_bytes signed_packet = take 120 signed_packet" "length (take 120 signed_packet) = HEADER_SIZE"
    by (simp_all add: get_header_bytes_def signed_packet_def ann_sizes)
  have "ip6_try_from_bytes (take 16 (drop 96 (take 120 signed_packet))) = Ok (replicate 16 0xFC)"
    by (simp add: signed_packet_def ip6_try_from_bytes_def IP6_FIRST_BYTE_def)
  then have "is_ok (parse_header lower_hex (get_header_bytes signed_packet))"
    unfolding h(1) parse_header_eq [OF h(2)] Let_def by (simp only: map_err.simps map_ok.simps is_ok_simps)
  moreover have "parse_entities lower_hex [4, 2, 0, 18] = Ok [NodeProtocolVersion 18]"
    using parse_entities_items [of "[Item 2 [0, 18]]" lower_hex "[]"] u16.dec_enc [OF TrueI, of 18 "[]"]
    by (simp add: parse_entities_def parse_entity_def parse_version_def reader_read_def to_be_bytes_def)
  then have "parse_entities lower_hex (get_entities_bytes signed_packet) = Ok [NodeProtocolVersion 18]"
    by (simp add: get_entities_bytes_def signed_packet_def ann_sizes)
  moreover have "parse_sender_auth_data (\<lambda>_. replicate 64 0xFC) Some (get_pub_key_bytes signed_packet) = Ok (replicate 32 2, replicate 16 0xFC)"
    by (simp add: signed_packet_def ann_sizes get_pub_key_bytes_def get_signed_data_def parse_sender_auth_data_def
        ip6_try_from_key_def ip6_try_from_bytes_def IP6_FIRST_BYTE_def Let_def)
  ultimately show ?thesis by (auto simp: packet_parse_def parser_parse_def is_ok_iff)
qed

text \<open>C19: what a parsed announcement is, field by field: signature and signing key are the hexadecimal text of the
  first 64 and the next 32 bytes, then come the address of the supernode and a number with time, reset flag
  and version; hash and binary are those of the packet; the sender's key is the converted signing key and
  its address the one of that key; the entities are, in order, what the items after byte 120 stand for,
  with the fields of a peer at their offsets. Every address, label, scheme and slot array is well formed.\<close>

theorem parsed_announcement_ok:
  assumes "packet_parse sha512 pk hex p = Ok a"
  shows "HEADER_SIZE \<le> length p \<and> binary a = p \<and> ann_hash a = sha512 p
    \<and> signature (ann_header a) = hex (take 64 p) \<and> pub_signing_key (ann_header a) = hex (take 32 (drop 64 p))
    \<and> header_stamp (ann_header a) = unat (from_be_bytes (take 8 (drop 112 p)) :: u64)
    \<and> unat (ann_version (ann_header a)) < 8
    \<and> snode_ip (ann_header a) = take 16 (drop 96 p) \<and> ip6_ok (snode_ip (ann_header a))
    \<and> pk (take 32 (drop 64 p)) = Some (node_pub_key a)
    \<and> ip6_try_from_key sha512 (node_pub_key a) = Ok (node_ip a)
    \<and> (\<exists>is rs. list_all item_ok is \<and> drop 120 p = items_bytes is \<and> list_all2 (item_reads hex) is rs
         \<and> entities a = List.map_filter (\<lambda>r. r) rs)
    \<and> (\<forall>e \<in> set (entities a). entity_ok e)"
  using parsed_facts [OF assms] parsed_parts [OF assms] by metis

lemma parsed_announcement_ok_witness:
  "\<exists>a. packet_parse (\<lambda>_. replicate 64 0xFC) Some lower_hex signed_packet = Ok a \<and> entities a = [NodeProtocolVersion 18]
     \<and> signature (ann_header a) = lower_hex (replicate 64 1) \<and> pub_signing_key (ann_header a) = lower_hex (replicate 32 2)
     \<and> snode_ip (ann_header a) = replicate 16 0xFC \<and> node_pub_key a = replicate 32 2 \<and> node_ip a = replicate 16 0xFC"
proof -
  obtain a where a: "packet_parse (\<lambda>_. replicate 64 0xFC) Some lower_hex signed_packet = Ok a" "entities a = [NodeProtocolVersion 18]"
    using signed_packet_parses by blast
  have p: "take 64 signed_packet = replicate 64 1" "take 32 (drop 64 signed_packet) = replicate 32 2"
      "take 16 (drop 96 signed_packet) = replicate 16 0xFC"
    by (simp_all add: signed_packet_def)
  from parsed_announcement_ok [OF a(1)] show ?thesis
    unfolding p using a by (auto simp: ip6_try_from_key_def ip6_try_from_bytes_def IP6_FIRST_BYTE_def)
qed

text \<open>C20: on a packet that \<open>try_new\<close> accepts, the parser panics exactly if the header and the sender
  are valid and, after items that parse, there is an encoding scheme that makes
  \<open>deserialize_scheme\<close> panic.\<close>

theorem parse_panics_iff_scheme:
  assumes "\<And>bs. 16 \<le> length (sha512 bs)" and "packet_try_new p = Ok q"
  shows "packet_parse sha512 pk hex q = Panic \<longleftrightarrow>
    is_ok (parse_header hex (get_header_bytes p)) \<and> is_ok (parse_sender_auth_data sha512 pk (get_pub_key_bytes p))
    \<and> (\<exists>is es d rest. list_all item_ok is \<and> items_result hex is = Ok es \<and> length d \<le> 253
         \<and> get_entities_bytes p = items_bytes is @ item_bytes (Item 0 d) @ rest \<and> deserialize_scheme d = Panic)"
proof -
  have q: "q = p" "HEADER_SIZE \<le> length p"
    using assms(2) by (auto simp: packet_try_new_def split: if_splits)
  show ?thesis
    unfolding parse_entities_panic_iff [symmetric] q(1)
    using parse_header_no_panic [OF q(2), of hex] parse_auth_no_panic [OF assms(1) q(2), where pk = pk]
    by (auto simp: packet_parse_def parser_parse_def panic_iff is_ok_iff)
qed

lemma parse_panics_iff_scheme_witness:
  "packet_parse (\<lambda>_. replicate 64 0xFC) Some lower_hex (sample_packet [4, 0, 0, 0]) = Panic"
proof -
  have "[4, 0, 0, 0] = items_bytes [] @ item_bytes (Item 0 [0, 0]) @ []" by simp
  moreover have "deserialize_scheme [0, 0] = Panic" by (rule deserialize_zeros) simp_all
  ultimately have "\<exists>is es d rest. list_all item_ok is \<and> items_result lower_hex is = Ok es \<and> length d \<le> 253
      \<and> [4, 0, 0, 0] = items_bytes is @ item_bytes (Item 0 d) @ rest \<and> deserialize_scheme d = Panic"
    by (intro exI [of _ "[]"] exI [of _ "[0, 0]"]) simp
  then show ?thesis
    using parse_panics_iff_scheme [of "\<lambda>_. replicate 64 0xFC" "sample_packet [4, 0, 0, 0]" "sample_packet [4, 0, 0, 0]" Some lower_hex]
    by (simp add: sample_packet_parts)
qed

end
