(* ===== verification/Link.thy ===== *)
theory Link
  imports Float64 Ann_Format
begin

text \<open>
  \<^verbatim>\<open>cjdns-snode/src/server/link.rs\<close>, the announcement accessors of \<^verbatim>\<open>server/utils.rs\<close> and the update
  of link states in \<^verbatim>\<open>server.rs\<close>. A node's table of inward links maps the address of a peer to a
  vector of links; clones of a link share its state, so a link is found again by its address and
  position. A hash map yields its keys in an unspecified order: \<open>order\<close> is that order.
\<close>

section \<open>Announcements\<close>

fun encoding_scheme_of :: "entity list \<Rightarrow> encoding_scheme option" where
  "encoding_scheme_of [] = None"
| "encoding_scheme_of (e # es) = (case e of EncodingSchemeEntity hex scheme \<Rightarrow> Some scheme | _ \<Rightarrow> encoding_scheme_of es)"

definition encoding_scheme_from_announcement :: "announcement \<Rightarrow> encoding_scheme option" where
  "encoding_scheme_from_announcement ann = encoding_scheme_of (entities ann)"

fun version_of :: "entity list \<Rightarrow> u16 option" where
  "version_of [] = None"
| "version_of (e # es) = (case e of NodeProtocolVersion ver \<Rightarrow> Some ver | _ \<Rightarrow> version_of es)"

definition version_from_announcement :: "announcement \<Rightarrow> u16 option" where
  "version_from_announcement ann = version_of (entities ann)"

definition peers_from_announcement :: "announcement \<Rightarrow> peer_data list" where
  "peers_from_announcement ann = List.map_filter (\<lambda>e. case e of Peer data \<Rightarrow> Some data | _ \<Rightarrow> None) (entities ann)"

definition link_states_from_announcement :: "announcement \<Rightarrow> link_state_data list" where
  "link_states_from_announcement ann = List.map_filter (\<lambda>e. case e of LinkState data \<Rightarrow> Some data | _ \<Rightarrow> None) (entities ann)"

definition is_entity_ephemeral :: "entity \<Rightarrow> bool" where
  "is_entity_ephemeral e = (case e of LinkState _ \<Rightarrow> True | _ \<Rightarrow> False)"

definition is_entity_replacement :: "entity \<Rightarrow> entity \<Rightarrow> bool" where
  "is_entity_replacement old_e new_e =
     (case (old_e, new_e) of
        (EncodingSchemeEntity _ _, EncodingSchemeEntity _ _) \<Rightarrow> True
      | (NodeProtocolVersion _, NodeProtocolVersion _) \<Rightarrow> True
      | (Peer old_peer, Peer new_peer) \<Rightarrow> peer_num old_peer = peer_num new_peer
      | _ \<Rightarrow> False)"

section \<open>Links\<close>

record link_state_entry =
  drops :: u16
  lag :: u16
  kb_recv :: u32

record link =
  link_label :: "u32 routing_label"
  link_form :: u8
  link_peer_num :: u16
  link_state :: "u64 \<Rightarrow> link_state_entry option"
  create_time :: u64
  most_recent_ls_slot :: u64
  link_mtu :: u32
  link_flags :: u8
  link_time :: u64
  link_value :: f64

type_synonym links = "ip6 \<Rightarrow> link list option"

definition time_slot :: "u64 \<Rightarrow> u64" where
  "time_slot t = t div 1000 div 10"

definition mk_link :: "peer_data \<Rightarrow> announcement \<Rightarrow> (link, 'e) result" where
  "mk_link ann_peer ann =
     (let ann_time = timestamp (ann_header ann) in
      and_then (unwrap_opt (peer_label ann_peer)) (\<lambda>label.
      Ok \<lparr>link_label = label, link_form = encoding_form_number ann_peer, link_peer_num = peer_num ann_peer,
          link_state = Map.empty, create_time = ann_time, most_recent_ls_slot = time_slot ann_time,
          link_mtu = mtu ann_peer, link_flags = flags ann_peer, link_time = ann_time, link_value = f64_zero\<rparr>))"

definition DECAY_PER_TIMESLOT :: f64 where
  "DECAY_PER_TIMESLOT = f64_div (f64_of_nat 1) (f64_of_nat 18)"

definition decay_divisor :: "u64 \<Rightarrow> f64" where
  "decay_divisor slots = f64_add (f64_of_nat 1) (f64_mul (f64_of_nat (unat slots)) DECAY_PER_TIMESLOT)"

definition ls_value :: "link_state_entry \<Rightarrow> f64" where
  "ls_value e =
     (if lag e = 0 then f64_zero
      else f64_div (f64_of_nat (unat (kb_recv e))) (f64_mul (f64_of_nat (unat (lag e))) (f64_pow2 (unat (drops e)))))"

section \<open>Announced peers\<close>

fun store_link :: "link \<Rightarrow> link list \<Rightarrow> link list" where
  "store_link new [] = [new]"
| "store_link new (stored # rest) =
     (if link_peer_num stored \<noteq> link_peer_num new then stored # store_link new rest
      else if link_label stored \<noteq> link_label new then new # rest
      else if link_form stored \<noteq> link_form new then new # rest
      else stored\<lparr>link_flags := link_flags new, link_mtu := link_mtu new, link_time := link_time new\<rparr> # rest)"

definition update_peer :: "announcement \<Rightarrow> links \<Rightarrow> peer_data \<Rightarrow> (links, 'e) result" where
  "update_peer ann m peer =
     (if peer_label peer = None then
        (case m (ipv6 peer) of
           Some stored \<Rightarrow>
             (let kept = filter (\<lambda>l. link_peer_num l \<noteq> peer_num peer) stored in
              Ok (if kept = [] then m(ipv6 peer := None) else m(ipv6 peer \<mapsto> kept)))
         | None \<Rightarrow> Ok m)
      else and_then (mk_link peer ann) (\<lambda>new_link.
        Ok (m(ipv6 peer \<mapsto> (case m (ipv6 peer) of Some stored \<Rightarrow> store_link new_link stored | None \<Rightarrow> [new_link])))))"

fun update_peers :: "announcement \<Rightarrow> peer_data list \<Rightarrow> links \<Rightarrow> (links, 'e) result" where
  "update_peers ann [] m = Ok m"
| "update_peers ann (peer # rest) m = and_then (update_peer ann m peer) (update_peers ann rest)"

section \<open>Link states\<close>

definition AGREED_TIMEOUT_SECS :: nat where "AGREED_TIMEOUT_SECS = 20 * 60"

text \<open>The slots of a link state that the update walks through, from the one before the starting point
  backwards around the ring.\<close>

partial_function (option) ls_indices :: "int \<Rightarrow> int \<Rightarrow> nat list option" where
  "ls_indices sp index =
     (if index = sp then Some []
      else if index < 0 then ls_indices sp (int LINK_STATE_SLOTS - 1)
      else Option.bind (ls_indices sp (index - 1)) (\<lambda>rest. Some (nat index # rest)))"

fun ls_samples :: "u64 \<Rightarrow> link_state_data \<Rightarrow> nat list \<Rightarrow> u64 \<Rightarrow> link \<Rightarrow> (link, 'e) result" where
  "ls_samples ts ls [] time l = Ok l"
| "ls_samples ts ls (i # is) time l =
     and_then (index_chk (drop_slots ls) i) (\<lambda>drop_slot.
     and_then (index_chk (lag_slots ls) i) (\<lambda>lag_slot.
     and_then (index_chk (kb_recv_slots ls) i) (\<lambda>kb_recv_slot.
     case (drop_slot, lag_slot, kb_recv_slot) of
       (Some d, Some lg, Some kb) \<Rightarrow>
         (let new_state = \<lparr>drops = d, lag = lg, kb_recv = kb\<rparr>;
              lsv = ls_value new_state in
          and_then (assert_that (f64_ge_zero lsv)) (\<lambda>_.
          and_then (sub_chk ts time) (\<lambda>age.
          let delta_v = f64_div lsv (decay_divisor age) in
          and_then (assert_that (f64_ge_zero delta_v)) (\<lambda>_.
          let l = l\<lparr>link_value := f64_add (link_value l) delta_v, link_state := (link_state l)(time \<mapsto> new_state)\<rparr> in
          and_then (sub_chk time 1) (\<lambda>time. ls_samples ts ls is time l)))))
     | _ \<Rightarrow> ls_samples ts ls is time l)))"

definition retain_slots :: "u64 \<Rightarrow> link \<Rightarrow> link" where
  "retain_slots earliest_ok_ts l =
     l\<lparr>link_state := (\<lambda>old_ls. if old_ls < earliest_ok_ts then None else link_state l old_ls)\<rparr>"

definition decay_link :: "u64 \<Rightarrow> link \<Rightarrow> link" where
  "decay_link ts l =
     (let l = (if most_recent_ls_slot l > ts then
                 (let decay_slots = most_recent_ls_slot l - ts in
                  l\<lparr>link_value := f64_div (link_value l) (decay_divisor decay_slots)\<rparr>)
               else l)
      in l\<lparr>most_recent_ls_slot := ts\<rparr>)"

definition ls_visited :: "link_state_data \<Rightarrow> nat list option" where
  "ls_visited ls = (let sp = int (unat (starting_point ls) mod LINK_STATE_SLOTS) in ls_indices sp (sp - 1))"

definition update_link :: "u64 \<Rightarrow> u64 \<Rightarrow> link_state_data \<Rightarrow> link \<Rightarrow> (link, 'e) result" where
  "update_link ts earliest_ok_ts ls l =
     and_then (unwrap_opt (ls_visited ls)) (\<lambda>is.
     ls_samples ts ls is ts (decay_link ts (retain_slots earliest_ok_ts l)))"

type_synonym key_order = "ip6 set \<Rightarrow> ip6 list"

definition link_positions :: "key_order \<Rightarrow> links \<Rightarrow> (u16 \<times> ip6 \<times> nat) list" where
  "link_positions order m =
     concat (map (\<lambda>ip. map (\<lambda>i. (link_peer_num (the (m ip) ! i), ip, i)) [0..<length (the (m ip))]) (order (dom m)))"

text \<open>Later links with the same number replace earlier ones.\<close>

definition inward_links_by_num :: "key_order \<Rightarrow> links \<Rightarrow> u16 \<Rightarrow> (ip6 \<times> nat) option" where
  "inward_links_by_num order m = map_of (rev (link_positions order m))"

fun update_link_states ::
  "u64 \<Rightarrow> u64 \<Rightarrow> (u16 \<Rightarrow> (ip6 \<times> nat) option) \<Rightarrow> link_state_data list \<Rightarrow> links \<Rightarrow> (links, 'e) result" where
  "update_link_states ts earliest by_num [] m = Ok m"
| "update_link_states ts earliest by_num (ls # rest) m =
     (case by_num (node_id ls) of
        None \<Rightarrow> update_link_states ts earliest by_num rest m
      | Some (ip, i) \<Rightarrow>
          (case m ip of
             None \<Rightarrow> Panic
           | Some ls_ip \<Rightarrow>
               and_then (index_chk ls_ip i) (\<lambda>l.
               and_then (update_link ts earliest ls l) (\<lambda>l'.
               update_link_states ts earliest by_num rest (m(ip \<mapsto> ls_ip[i := l']))))))"

definition link_state_update1 :: "key_order \<Rightarrow> announcement \<Rightarrow> links \<Rightarrow> (links, 'e) result" where
  "link_state_update1 order ann m =
     (let ts = time_slot (timestamp (ann_header ann)) in
      and_then (sub_chk ts (word_of_nat (AGREED_TIMEOUT_SECS div 10))) (\<lambda>earliest_ok_ts.
      update_link_states ts earliest_ok_ts (inward_links_by_num order m) (link_states_from_announcement ann) m))"

section \<open>The slots visited\<close>

lemma ls_indices_above: "sp \<le> i \<Longrightarrow> ls_indices (int sp) (int i) = Some (rev [Suc sp..<Suc i])"
proof (induction i rule: dec_induct)
  case base
  then show ?case by (simp add: ls_indices.simps)
next
  case (step i)
  then show ?case by (subst ls_indices.simps) simp
qed

lemma ls_indices_below: "n \<le> sp \<Longrightarrow> sp < 18 \<Longrightarrow> ls_indices (int sp) (int n - 1) = Some (rev [0..<n] @ rev [Suc sp..<18])"
proof (induction n)
  case 0
  then show ?case using ls_indices_above [of sp 17] by (subst ls_indices.simps) (simp add: LINK_STATE_SLOTS_def)
next
  case (Suc n)
  then show ?case by (subst ls_indices.simps) simp
qed

lemma ring_order: "sp < 18 \<Longrightarrow> rev [0..<sp] @ rev [Suc sp..<18] = map (\<lambda>j. (sp + 17 - j) mod 18) [0..<17]"
proof -
  have "list_all (\<lambda>sp. rev [0..<sp] @ rev [Suc sp..<18] = map (\<lambda>j. (sp + 17 - j) mod 18) [0..<17]) [0..<18]"
    by code_simp
  then show "sp < 18 \<Longrightarrow> ?thesis" by (simp only: list_all_iff set_upt atLeastLessThan_iff le0 simp_thms)
qed

lemma ls_visited_ring:
  "unat (starting_point ls) < 18 \<Longrightarrow> ls_visited ls = Some (map (\<lambda>j. (unat (starting_point ls) + 17 - j) mod 18) [0..<17])"
  using ls_indices_below [of "unat (starting_point ls)" "unat (starting_point ls)"] ring_order
  by (simp add: ls_visited_def LINK_STATE_SLOTS_def Let_def)

section \<open>Values\<close>

definition VALUE_MAX :: nat where
  "VALUE_MAX = F64_ONE + 100 * 2 ^ 52"

definition SAMPLE_MAX :: nat where
  "SAMPLE_MAX = F64_ONE + 32 * 2 ^ 52"

lemma value_order: "VALUE_MAX < F64_INF" "SAMPLE_MAX < F64_INF"
  by (simp_all add: VALUE_MAX_def SAMPLE_MAX_def F64_ONE_def F64_INF_def)

lemma value_gap: "2 * f64_magnitude SAMPLE_MAX + f64_magnitude VALUE_MAX < f64_magnitude (Suc VALUE_MAX)"
proof -
  have s: "f64_magnitude SAMPLE_MAX = 2 ^ 32 * F64_SCALE" unfolding SAMPLE_MAX_def by (rule magnitude_pow2) simp
  have v: "VALUE_MAX = 1122 * 2 ^ 52 + 2 ^ 52" by (simp add: VALUE_MAX_def F64_ONE_def)
  have m: "f64_magnitude VALUE_MAX = 2 ^ 52 * 2 ^ 1122" unfolding v by (rule magnitude_high) simp_all
  have n: "f64_magnitude (Suc VALUE_MAX) = Suc (2 ^ 52) * 2 ^ 1122" unfolding v by (rule magnitude_next) simp_all
  have "(2 :: nat) ^ 1122 = 2 ^ (48 + 1074)" by simp
  then have e: "(2 :: nat) ^ 1122 = 2 ^ 48 * F64_SCALE" by (simp only: power_add F64_SCALE_def)
  have "2 * (2 ^ 32 * F64_SCALE) < 2 ^ 48 * F64_SCALE" using scale_pos by simp
  then show ?thesis unfolding s m n e by (simp only: mult_Suc)
qed

lemma f64_mul_finite:
  assumes "unat a < F64_INF" and "unat b < F64_INF"
  shows "unat (f64_mul a b) \<le> F64_INF"
  using assms by (simp add: f64_mul_def f64_is_nan_def f64_is_inf_def f64_bits_unat unat_of_ratio f64_round_INF)

lemma decay_ge: "F64_ONE \<le> unat (decay_divisor k)" "unat (decay_divisor k) \<le> F64_INF"
proof -
  have "unat DECAY_PER_TIMESLOT \<le> F64_ONE"
    unfolding DECAY_PER_TIMESLOT_def using F64_order(1) f64_of_nat_le [of 1 0]
    by (intro f64_div_le f64_of_nat_ge f64_of_nat_ok) simp_all
  then have d: "unat DECAY_PER_TIMESLOT < F64_INF" using F64_order(1) by simp
  have k: "unat k < 2 ^ LENGTH(64)" by (rule unsigned_less)
  have "unat (f64_of_nat (unat k)) \<le> F64_ONE + 64 * 2 ^ 52"
    using k by (intro f64_of_nat_le) simp_all
  also have "\<dots> < F64_INF" by (simp add: F64_ONE_def F64_INF_def)
  finally have "unat (f64_mul (f64_of_nat (unat k)) DECAY_PER_TIMESLOT) \<le> F64_INF"
    using d by (rule f64_mul_finite)
  then show "F64_ONE \<le> unat (decay_divisor k)" "unat (decay_divisor k) \<le> F64_INF"
    using f64_one_add_ge [OF f64_of_nat_ge f64_of_nat_ok, of 1] f64_ops_ok [OF f64_of_nat_ok, of _ 1]
    by (simp_all add: decay_divisor_def)
qed

lemma ls_value_le: "unat (ls_value e) \<le> SAMPLE_MAX"
proof (cases "lag e = 0")
  case False
  then have "1 \<le> unat (lag e)" by (simp add: Suc_le_eq unat_gt_0)
  then have "F64_ONE \<le> unat (f64_mul (f64_of_nat (unat (lag e))) (f64_pow2 (unat (drops e))))"
    "unat (f64_mul (f64_of_nat (unat (lag e))) (f64_pow2 (unat (drops e)))) \<le> F64_INF"
    using f64_mul_ge [OF f64_of_nat_ge f64_of_nat_ok] f64_pow2_ge by simp_all
  moreover have "unat (kb_recv e) < 2 ^ LENGTH(32)" by (rule unsigned_less)
  then have "unat (f64_of_nat (unat (kb_recv e))) \<le> SAMPLE_MAX"
    unfolding SAMPLE_MAX_def by (intro f64_of_nat_le) simp_all
  ultimately show ?thesis using False value_order(2) by (simp add: ls_value_def f64_div_le)
qed (simp add: ls_value_def f64_zero_def)

lemma value_add: "unat v \<le> VALUE_MAX \<Longrightarrow> unat d \<le> SAMPLE_MAX \<Longrightarrow> unat (f64_add v d) \<le> VALUE_MAX"
  using value_order value_gap by (intro f64_add_le) simp_all

section \<open>Recording samples\<close>

definition entry_at :: "link_state_data \<Rightarrow> nat \<Rightarrow> link_state_entry option" where
  "entry_at ls i =
     (case (drop_slots ls ! i, lag_slots ls ! i, kb_recv_slots ls ! i) of
        (Some d, Some lg, Some kb) \<Rightarrow> Some \<lparr>drops = d, lag = lg, kb_recv = kb\<rparr>
      | _ \<Rightarrow> None)"

definition slots_ok :: "link_state_data \<Rightarrow> bool" where
  "slots_ok ls \<longleftrightarrow> length (drop_slots ls) = 18 \<and> length (lag_slots ls) = 18 \<and> length (kb_recv_slots ls) = 18
     \<and> unat (starting_point ls) < 18"

lemma ls_samples_step:
  assumes "slots_ok ls" and "i < 18" and "time \<le> ts"
  shows "ls_samples ts ls (i # is) time l =
    (case entry_at ls i of
       None \<Rightarrow> ls_samples ts ls is time l
     | Some e \<Rightarrow>
         and_then (sub_chk time 1) (\<lambda>time'. ls_samples ts ls is time'
           (l\<lparr>link_value := f64_add (link_value l) (f64_div (ls_value e) (decay_divisor (ts - time))),
              link_state := (link_state l)(time \<mapsto> e)\<rparr>)))"
proof -
  have nn: "f64_ge_zero (ls_value e)" for e
    using ls_value_le [of e] value_order(2) by (intro f64_ge_zeroI) simp
  have "unat (f64_div (ls_value e) (decay_divisor k)) \<le> SAMPLE_MAX" for e k
    using ls_value_le value_order(2) decay_ge by (rule f64_div_le)
  then have dd: "f64_ge_zero (f64_div (ls_value e) (decay_divisor k))" for e k
    using value_order(2) by (meson f64_ge_zeroI le_trans less_imp_le)
  show ?thesis using assms nn dd
    by (auto simp: slots_ok_def entry_at_def sub_chk_def Let_def  split: option.splits)
qed

text \<open>The values below the first \<open>k\<close> slots of a list of entries, counted down from slot \<open>time\<close>.\<close>

definition record_from :: "u64 \<Rightarrow> link_state_entry list \<Rightarrow> (u64 \<Rightarrow> link_state_entry option) \<Rightarrow> u64 \<Rightarrow> link_state_entry option" where
  "record_from time es f t =
     (if t \<le> time \<and> unat time - unat t < length es then Some (es ! (unat time - unat t)) else f t)"

lemma ls_samples_ok:
  assumes "slots_ok ls" and "\<forall>i \<in> set is. i < 18" and "time \<le> ts"
    and "length (List.map_filter (entry_at ls) is) \<le> unat time" and "unat (link_value l) \<le> VALUE_MAX"
  shows "\<exists>v. ls_samples ts ls is time l = (Ok (l\<lparr>link_value := v,
      link_state := record_from time (List.map_filter (entry_at ls) is) (link_state l)\<rparr>) :: (link, 'e) result) \<and> unat v \<le> VALUE_MAX"
  using assms(2-5)
proof (induction "is" arbitrary: time l)
  case Nil
  have "record_from time [] f = f" for f by (simp add: record_from_def fun_eq_iff)
  then show ?case using Nil by (intro exI [of _ "link_value l"]) (simp add: List.map_filter_def)
next
  case (Cons i "is")
  show ?case
  proof (cases "entry_at ls i")
    case None
    then have "List.map_filter (entry_at ls) (i # is) = List.map_filter (entry_at ls) is" by (simp add: List.map_filter_def)
    then show ?thesis using Cons None by (simp add: ls_samples_step [OF assms(1)] del: ls_samples.simps)
  next
    case (Some e)
    let ?rest = "List.map_filter (entry_at ls) is"
    have mf: "List.map_filter (entry_at ls) (i # is) = e # ?rest" using Some by (simp add: List.map_filter_def)
    then have len: "Suc (length ?rest) \<le> unat time" using Cons.prems(3) by simp
    then have t0: "1 \<le> time" by (simp add: word_le_nat_alt)
    then have ut: "unat (time - 1) = unat time - 1" by (simp add: unat_sub)
    let ?v = "f64_add (link_value l) (f64_div (ls_value e) (decay_divisor (ts - time)))"
    let ?l = "l\<lparr>link_value := ?v, link_state := (link_state l)(time \<mapsto> e)\<rparr>"
    have "unat ?v \<le> VALUE_MAX"
      using Cons.prems(4) f64_div_le [OF ls_value_le value_order(2) decay_ge] by (rule value_add)
    moreover have "time - 1 \<le> ts" using Cons.prems(2) ut by (simp add: word_le_nat_alt)
    moreover have "length ?rest \<le> unat (time - 1)" using len ut by simp
    ultimately obtain v where v: "ls_samples ts ls is (time - 1) ?l
        = (Ok (?l\<lparr>link_value := v, link_state := record_from (time - 1) ?rest (link_state ?l)\<rparr>) :: (link, 'e) result)" "unat v \<le> VALUE_MAX"
      using Cons.IH [of "time - 1" ?l] Cons.prems(1) by (auto simp del: fun_upd_apply)
    have "record_from (time - 1) ?rest ((link_state l)(time \<mapsto> e)) = record_from time (e # ?rest) (link_state l)"
    proof
      fix t
      have "t \<le> time - 1 \<longleftrightarrow> t \<le> time \<and> t \<noteq> time"
        using t0 ut len by (auto simp: word_le_nat_alt word_unat_eq_iff)
      moreover have "unat time - unat t = Suc (unat (time - 1) - unat t)" if "t \<le> time - 1"
        using that ut len by (simp add: word_le_nat_alt)
      ultimately show "record_from (time - 1) ?rest ((link_state l)(time \<mapsto> e)) t = record_from time (e # ?rest) (link_state l) t"
        by (auto simp: record_from_def)
    qed
    then show ?thesis using v Cons.prems(1,2) Some t0 mf
      by (intro exI [of _ v]) (simp add: ls_samples_step [OF assms(1)] sub_chk_def del: ls_samples.simps(2))
  qed
qed

text \<open>One link state: old slots go, the samples found on the way back from the starting point are
  recorded from the announcement's slot downwards, and the value stays bounded.\<close>

definition visited_entries :: "link_state_data \<Rightarrow> link_state_entry list" where
  "visited_entries ls = List.map_filter (\<lambda>j. entry_at ls ((unat (starting_point ls) + 17 - j) mod 18)) [0..<17]"

lemma map_filter_cong: "(\<And>x. x \<in> set xs \<Longrightarrow> f x = g x) \<Longrightarrow> List.map_filter f xs = List.map_filter g xs"
  by (induction xs) (simp_all add: List.map_filter_def)

lemma length_map_filter_le: "length (List.map_filter f xs) \<le> length xs"
  by (simp add: List.map_filter_def)

lemma update_link_ok:
  assumes "slots_ok ls" and "17 \<le> unat ts" and "unat (link_value l) \<le> VALUE_MAX"
  shows "\<exists>v. update_link ts earliest ls l = (Ok (l\<lparr>link_value := v, most_recent_ls_slot := ts,
      link_state := record_from ts (visited_entries ls) (\<lambda>t. if t < earliest then None else link_state l t)\<rparr>) :: (link, 'e) result)
    \<and> unat v \<le> VALUE_MAX"
proof -
  let ?is = "map (\<lambda>j. (unat (starting_point ls) + 17 - j) mod 18) [0..<17]"
  let ?l = "decay_link ts (retain_slots earliest l)"
  have vis: "ls_visited ls = Some ?is" using assms(1) by (intro ls_visited_ring) (simp add: slots_ok_def)
  have ent: "List.map_filter (entry_at ls) ?is = visited_entries ls"
    by (simp add: visited_entries_def List.map_filter_def filter_map comp_def)
  have "unat (link_value ?l) \<le> VALUE_MAX"
    using assms(3) value_order(1) decay_ge by (simp add: decay_link_def retain_slots_def Let_def f64_div_le)
  moreover have "length (visited_entries ls) \<le> length [0..<17 :: nat]"
    unfolding visited_entries_def by (rule length_map_filter_le)
  then have "length (visited_entries ls) \<le> unat ts" using assms(2) by simp
  ultimately obtain v where v: "ls_samples ts ls ?is ts ?l = (Ok (?l\<lparr>link_value := v,
      link_state := record_from ts (visited_entries ls) (link_state ?l)\<rparr>) :: (link, 'e) result)" "unat v \<le> VALUE_MAX"
    using ls_samples_ok [OF assms(1), of ?is ts ts ?l] ent by auto
  then show ?thesis using vis
    by (intro exI [of _ v]) (simp add: update_link_def decay_link_def retain_slots_def Let_def)
qed

lemma back_walk: "map (\<lambda>j. 17 - j) [0..<17] = rev [1..<18 :: nat]"
  by code_simp

lemma visited_entries_parsed:
  assumes "parse_link_state (link_state_bytes pads nid start ss) = Ok (LinkState d)"
    and "pads < 256" and "unat start < 18" and "ss \<noteq> []" and "length ss \<le> 18"
  shows "visited_entries d = map (\<lambda>(l, dr, k). \<lparr>drops = dr, lag = l, kb_recv = k\<rparr>) (rev (tl ss))"
proof -
  obtain d' where d': "parse_link_state (link_state_bytes pads nid start ss) = Ok (LinkState d')"
    "starting_point d' = start"
    and at: "\<forall>k < length ss. length ss \<le> k + 18 \<longrightarrow>
         (let j = (unat start + k) mod 18 in
          (lag_slots d' ! j, drop_slots d' ! j, kb_recv_slots d' ! j)
            = (Some (fst (ss ! k)), Some (fst (snd (ss ! k))), Some (snd (snd (ss ! k)))))"
    and no: "\<forall>j < 18. (\<forall>k < length ss. (unat start + k) mod 18 \<noteq> j) \<longrightarrow>
         (lag_slots d' ! j, drop_slots d' ! j, kb_recv_slots d' ! j) = (None, None, None)"
    using link_state_ring [OF assms(2-4), of nid] by metis
  then have d: "d' = d" using assms(1) by simp
  let ?e = "\<lambda>k. case ss ! k of (l, dr, kb) \<Rightarrow> \<lparr>drops = dr, lag = l, kb_recv = kb\<rparr>"
  have entry: "entry_at d ((unat start + k) mod 18) = (if k < length ss then Some (?e k) else None)" if k: "k < 18" for k
  proof (cases "k < length ss")
    case True
    then show ?thesis using at k assms(5) d by (auto simp: entry_at_def Let_def split: prod.splits)
  next
    case False
    have "(unat start + k') mod 18 \<noteq> (unat start + k) mod 18" if "k' < length ss" for k'
    proof
      assume "(unat start + k') mod 18 = (unat start + k) mod 18"
      then have "k' mod 18 = k mod 18" by (simp add: nat_mod_eq_iff)
      then show False using that False k assms(5) by simp
    qed
    then show ?thesis using no [rule_format, of "(unat start + k) mod 18"] False d by (auto simp: entry_at_def)
  qed
  have "visited_entries d = List.map_filter (\<lambda>j. entry_at d ((unat start + (17 - j)) mod 18)) [0..<17]"
    unfolding visited_entries_def using d d'(2) by (intro map_filter_cong) auto
  also have "\<dots> = List.map_filter (\<lambda>k. entry_at d ((unat start + k) mod 18)) (map (\<lambda>j. 17 - j) [0..<17])"
    by (simp add: List.map_filter_def filter_map comp_def)
  also have "\<dots> = List.map_filter (\<lambda>k. if k < length ss then Some (?e k) else None) (rev [1..<18])"
    unfolding back_walk using entry by (intro map_filter_cong) auto
  also have "\<dots> = map ?e (filter (\<lambda>k. k < length ss) (rev [1..<18]))"
    by (simp add: List.map_filter_def filter_map comp_def)
  also have "filter (\<lambda>k. k < length ss) (rev [1..<18]) = rev [1..<length ss]"
  proof -
    have "[1..<18] = [1..<length ss] @ [length ss..<18]"
      using assms(4,5) by (metis One_nat_def Suc_leI le_Suc_ex length_greater_0_conv upt_add_eq_append)
    then show ?thesis by (simp flip: rev_filter)
  qed
  also have "map ?e (rev [1..<length ss]) = map (\<lambda>(l, dr, k). \<lparr>drops = dr, lag = l, kb_recv = k\<rparr>) (rev (tl ss))"
  proof -
    have "tl ss = map ((!) ss) [1..<length ss]" by (rule nth_equalityI) (simp_all add: nth_tl)
    then show ?thesis by (simp add: rev_map comp_def)
  qed
  finally show ?thesis .
qed

section \<open>The table of links\<close>

definition link_ok :: "link \<Rightarrow> bool" where
  "link_ok l \<longleftrightarrow> label_ok (link_label l) \<and> unat (link_value l) \<le> VALUE_MAX"

definition links_ok :: "links \<Rightarrow> bool" where
  "links_ok m \<longleftrightarrow> finite (dom m)
     \<and> (\<forall>ip ls. m ip = Some ls \<longrightarrow> ls \<noteq> [] \<and> distinct (map link_peer_num ls) \<and> (\<forall>l \<in> set ls. link_ok l))"

text \<open>The table seen as one map from address and peer number to link.\<close>

definition link_at :: "links \<Rightarrow> ip6 \<times> u16 \<Rightarrow> link option" where
  "link_at m k = (case m (fst k) of None \<Rightarrow> None | Some ls \<Rightarrow> find (\<lambda>l. link_peer_num l = snd k) ls)"

definition new_link :: "announcement \<Rightarrow> peer_data \<Rightarrow> u32 routing_label \<Rightarrow> link" where
  "new_link ann p lab =
     \<lparr>link_label = lab, link_form = encoding_form_number p, link_peer_num = peer_num p, link_state = Map.empty,
      create_time = timestamp (ann_header ann), most_recent_ls_slot = time_slot (timestamp (ann_header ann)),
      link_mtu = mtu p, link_flags = flags p, link_time = timestamp (ann_header ann), link_value = f64_zero\<rparr>"

definition refresh_link :: "announcement \<Rightarrow> peer_data \<Rightarrow> link \<Rightarrow> link" where
  "refresh_link ann p l = l\<lparr>link_flags := flags p, link_mtu := mtu p, link_time := timestamp (ann_header ann)\<rparr>"

definition announce_link :: "announcement \<Rightarrow> peer_data \<Rightarrow> link option \<Rightarrow> link option" where
  "announce_link ann p old =
     (case peer_label p of
        None \<Rightarrow> None
      | Some lab \<Rightarrow>
          (case old of
             Some l \<Rightarrow> if link_label l = lab \<and> link_form l = encoding_form_number p then Some (refresh_link ann p l) else Some (new_link ann p lab)
           | None \<Rightarrow> Some (new_link ann p lab)))"

lemma mk_link_ok: "peer_label p = Some lab \<Longrightarrow> mk_link p ann = Ok (new_link ann p lab)"
  by (simp add: mk_link_def new_link_def Let_def)

lemma new_link_ok: "label_ok lab \<Longrightarrow> link_ok (new_link ann p lab)"
  by (simp add: link_ok_def new_link_def f64_zero_def)

lemma store_link_find:
  "find (\<lambda>l. link_peer_num l = n) (store_link new ls) =
     (if n = link_peer_num new then
        (case find (\<lambda>l. link_peer_num l = n) ls of
           Some l \<Rightarrow> if link_label l = link_label new \<and> link_form l = link_form new
                     then Some (l\<lparr>link_flags := link_flags new, link_mtu := link_mtu new, link_time := link_time new\<rparr>) else Some new
         | None \<Rightarrow> Some new)
      else find (\<lambda>l. link_peer_num l = n) ls)"
  by (induction ls) auto

lemma store_link_nums: "link_peer_num ` set (store_link new ls) = insert (link_peer_num new) (link_peer_num ` set ls)"
  by (induction ls) auto

lemma store_link_ok:
  assumes "distinct (map link_peer_num ls)" and "\<forall>l \<in> set ls. link_ok l" and "link_ok new"
  shows "store_link new ls \<noteq> [] \<and> distinct (map link_peer_num (store_link new ls)) \<and> (\<forall>l \<in> set (store_link new ls). link_ok l)"
  using assms
proof (induction ls)
  case (Cons l ls)
  show ?case
  proof (cases "link_peer_num l = link_peer_num new")
    case True
    then show ?thesis using Cons.prems by (simp add: link_ok_def)
  next
    case False
    then have "link_peer_num l \<notin> link_peer_num ` set (store_link new ls)"
      using Cons.prems(1) by (simp add: store_link_nums)
    then show ?thesis using Cons False by simp
  qed
qed simp

lemma links_okD: "links_ok m \<Longrightarrow> m ip = Some ls \<Longrightarrow> ls \<noteq> [] \<and> distinct (map link_peer_num ls) \<and> (\<forall>l \<in> set ls. link_ok l)"
  by (simp add: links_ok_def)

lemma links_ok_upd:
  "links_ok m \<Longrightarrow> ls \<noteq> [] \<Longrightarrow> distinct (map link_peer_num ls) \<Longrightarrow> (\<forall>l \<in> set ls. link_ok l) \<Longrightarrow> links_ok (m(ip \<mapsto> ls))"
  by (simp add: links_ok_def)

lemma links_ok_del: "links_ok m \<Longrightarrow> links_ok (m(ip := None))"
  by (simp add: links_ok_def)

lemma links_ok_empty [simp]: "links_ok Map.empty"
  by (simp add: links_ok_def)

lemma find_filter_other:
  "find (\<lambda>l. link_peer_num l = n) (filter (\<lambda>l. link_peer_num l \<noteq> k) ls) = (if n = k then None else find (\<lambda>l. link_peer_num l = n) ls)"
  by (induction ls) auto

lemma update_peer_ok:
  assumes "links_ok m" and "\<forall>lab. peer_label p = Some lab \<longrightarrow> label_ok lab"
  shows "\<exists>m'. update_peer ann m p = (Ok m' :: (links, 'e) result) \<and> links_ok m'
    \<and> link_at m' = (link_at m)((ipv6 p, peer_num p) := announce_link ann p (link_at m (ipv6 p, peer_num p)))"
proof (cases "peer_label p")
  case None
  show ?thesis
  proof (cases "m (ipv6 p)")
    case (Some stored)
    let ?kept = "filter (\<lambda>l. link_peer_num l \<noteq> peer_num p) stored"
    have kept: "find (\<lambda>l. link_peer_num l = n) ?kept = None" if "?kept = []" for n using that by simp
    have "link_at (if ?kept = [] then m(ipv6 p := None) else m(ipv6 p \<mapsto> ?kept)) = (link_at m)((ipv6 p, peer_num p) := None)"
    proof
      fix k
      show "link_at (if ?kept = [] then m(ipv6 p := None) else m(ipv6 p \<mapsto> ?kept)) k = ((link_at m)((ipv6 p, peer_num p) := None)) k"
        using Some find_filter_other [of "snd k" "peer_num p" stored] kept [of "snd k"]
        by (cases k) (auto simp: link_at_def)
    qed
    moreover have "links_ok (if ?kept = [] then m(ipv6 p := None) else m(ipv6 p \<mapsto> ?kept))"
    proof (cases "?kept = []")
      case False
      then show ?thesis using links_okD [OF assms(1) Some] assms(1) by (simp add: links_ok_upd distinct_map_filter)
    qed (use links_ok_del [OF assms(1)] in simp)
    ultimately show ?thesis using None Some by (simp add: update_peer_def announce_link_def Let_def)
  next
    case (None)
    have "link_at m = (link_at m)((ipv6 p, peer_num p) := None)" using None by (simp add: fun_eq_iff link_at_def)
    then show ?thesis using None \<open>peer_label p = None\<close> assms(1) by (simp add: update_peer_def announce_link_def)
  qed
next
  case (Some lab)
  let ?new = "new_link ann p lab"
  let ?ls = "case m (ipv6 p) of Some stored \<Rightarrow> store_link ?new stored | None \<Rightarrow> [?new]"
  have new: "link_ok ?new" using assms(2) Some by (simp add: new_link_ok)
  have "?ls \<noteq> [] \<and> distinct (map link_peer_num ?ls) \<and> (\<forall>l \<in> set ?ls. link_ok l)"
  proof (cases "m (ipv6 p)")
    case (Some stored)
    then show ?thesis using store_link_ok [OF _ _ new, of stored] links_okD [OF assms(1) Some] by simp
  qed (use new in simp)
  then have "links_ok (m(ipv6 p \<mapsto> ?ls))" using assms(1) by (simp add: links_ok_upd)
  moreover have "link_at (m(ipv6 p \<mapsto> ?ls)) = (link_at m)((ipv6 p, peer_num p) := announce_link ann p (link_at m (ipv6 p, peer_num p)))"
  proof
    fix k
    have n: "link_peer_num ?new = peer_num p" "link_label ?new = lab" "link_form ?new = encoding_form_number p"
      "l\<lparr>link_flags := link_flags ?new, link_mtu := link_mtu ?new, link_time := link_time ?new\<rparr> = refresh_link ann p l" for l
      by (simp_all add: new_link_def refresh_link_def)
    show "link_at (m(ipv6 p \<mapsto> ?ls)) k = ((link_at m)((ipv6 p, peer_num p) := announce_link ann p (link_at m (ipv6 p, peer_num p)))) k"
      using Some by (cases k; cases "m (ipv6 p)") (auto simp: link_at_def announce_link_def store_link_find n split: option.splits)
  qed
  ultimately show ?thesis using Some by (simp add: update_peer_def mk_link_ok)
qed

fun announce_links :: "announcement \<Rightarrow> peer_data list \<Rightarrow> (ip6 \<times> u16 \<Rightarrow> link option) \<Rightarrow> ip6 \<times> u16 \<Rightarrow> link option" where
  "announce_links ann [] f = f"
| "announce_links ann (p # ps) f =
     announce_links ann ps (f((ipv6 p, peer_num p) := announce_link ann p (f (ipv6 p, peer_num p))))"

lemma update_peers_ok:
  assumes "links_ok m" and "\<forall>p \<in> set ps. \<forall>lab. peer_label p = Some lab \<longrightarrow> label_ok lab"
  shows "\<exists>m'. update_peers ann ps m = (Ok m' :: (links, 'e) result) \<and> links_ok m' \<and> link_at m' = announce_links ann ps (link_at m)"
  using assms
proof (induction ps arbitrary: m)
  case (Cons p ps)
  obtain m1 where m1: "update_peer ann m p = (Ok m1 :: (links, 'e) result)" "links_ok m1"
    "link_at m1 = (link_at m)((ipv6 p, peer_num p) := announce_link ann p (link_at m (ipv6 p, peer_num p)))"
    using update_peer_ok [OF Cons.prems(1), of p ann] Cons.prems(2) by auto
  obtain m' where "update_peers ann ps m1 = (Ok m' :: (links, 'e) result)" "links_ok m'"
    "link_at m' = announce_links ann ps (link_at m1)"
    using Cons.IH [OF m1(2)] Cons.prems(2) by auto
  with m1(1,3) show ?case by (simp del: fun_upd_apply)
qed simp

section \<open>Link states of the whole table\<close>

definition order_ok :: "key_order \<Rightarrow> bool" where
  "order_ok order \<longleftrightarrow> (\<forall>S. finite S \<longrightarrow> set (order S) = S \<and> distinct (order S))"

lemma order_okD: "order_ok order \<Longrightarrow> finite S \<Longrightarrow> set (order S) = S"
  by (simp add: order_ok_def)

definition by_num_ok :: "(u16 \<Rightarrow> (ip6 \<times> nat) option) \<Rightarrow> links \<Rightarrow> bool" where
  "by_num_ok by_num m \<longleftrightarrow>
     (\<forall>n ip i. by_num n = Some (ip, i) \<longrightarrow> (\<exists>ls. m ip = Some ls \<and> i < length ls \<and> link_peer_num (ls ! i) = n))"

lemma link_positions_iff:
  assumes "order_ok order" and "finite (dom m)"
  shows "(n, ip, i) \<in> set (link_positions order m) \<longleftrightarrow> (\<exists>ls. m ip = Some ls \<and> i < length ls \<and> link_peer_num (ls ! i) = n)"
proof
  assume "\<exists>ls. m ip = Some ls \<and> i < length ls \<and> link_peer_num (ls ! i) = n"
  then obtain ls where "m ip = Some ls" "i < length ls" "link_peer_num (ls ! i) = n" by blast
  then have "ip \<in> set (order (dom m))" "i \<in> set [0..<length (the (m ip))]" "n = link_peer_num (the (m ip) ! i)"
    using order_okD [OF assms] by auto
  then show "(n, ip, i) \<in> set (link_positions order m)"
    unfolding link_positions_def set_concat set_map
    by (intro UN_I [where a = "map (\<lambda>i. (link_peer_num (the (m ip) ! i), ip, i)) [0..<length (the (m ip))]"] imageI)
      (assumption, simp)
qed (use order_okD [OF assms] in \<open>auto simp: link_positions_def\<close>)

lemma by_num_ok:
  assumes "order_ok order" and "finite (dom m)"
  shows "by_num_ok (inward_links_by_num order m) m"
  using link_positions_iff [OF assms] map_of_SomeD [of "rev (link_positions order m)"]
  by (simp add: by_num_ok_def inward_links_by_num_def) (metis set_rev)

lemma by_num_complete:
  assumes "order_ok order" and "finite (dom m)" and "m ip = Some ls" and "i < length ls"
  shows "inward_links_by_num order m (link_peer_num (ls ! i)) \<noteq> None"
proof -
  have "(link_peer_num (ls ! i), ip, i) \<in> set (link_positions order m)"
    using assms(3,4) link_positions_iff [OF assms(1,2)] by blast
  then show ?thesis unfolding inward_links_by_num_def map_of_eq_None_iff by (force simp: image_iff)
qed

definition link_frame :: "link \<Rightarrow> u32 routing_label \<times> u8 \<times> u16 \<times> u64 \<times> u32 \<times> u8 \<times> u64" where
  "link_frame l = (link_label l, link_form l, link_peer_num l, create_time l, link_mtu l, link_flags l, link_time l)"

definition table_frame :: "links \<Rightarrow> ip6 \<Rightarrow> (u32 routing_label \<times> u8 \<times> u16 \<times> u64 \<times> u32 \<times> u8 \<times> u64) list option" where
  "table_frame m ip = map_option (map link_frame) (m ip)"

lemma update_link_states_ok:
  assumes "links_ok m" and "by_num_ok by_num m" and "\<forall>ls \<in> set lss. slots_ok ls" and "17 \<le> unat ts"
  shows "\<exists>m'. update_link_states ts earliest by_num lss m = (Ok m' :: (links, 'e) result) \<and> links_ok m' \<and> table_frame m' = table_frame m"
  using assms(1-3)
proof (induction lss arbitrary: m)
  case (Cons ls lss)
  show ?case
  proof (cases "by_num (node_id ls)")
    case None
    then show ?thesis using Cons by simp
  next
    case (Some ipi)
    obtain ip i where ipi: "ipi = (ip, i)" by (cases ipi)
    obtain lsip where l: "m ip = Some lsip" "i < length lsip"
      using Cons.prems(2) Some ipi unfolding by_num_ok_def by blast
    note inv = links_okD [OF Cons.prems(1) l(1)]
    then have lok: "link_ok (lsip ! i)" using l(2) by simp
    then obtain v where v: "update_link ts earliest ls (lsip ! i) = (Ok ((lsip ! i)\<lparr>link_value := v, most_recent_ls_slot := ts,
        link_state := record_from ts (visited_entries ls) (\<lambda>t. if t < earliest then None else link_state (lsip ! i) t)\<rparr>) :: (link, 'e) result)"
      "unat v \<le> VALUE_MAX"
      using update_link_ok [of ls ts "lsip ! i" earliest] Cons.prems(3) assms(4) by (auto simp: link_ok_def)
    define l' where "l' = (lsip ! i)\<lparr>link_value := v, most_recent_ls_slot := ts,
        link_state := record_from ts (visited_entries ls) (\<lambda>t. if t < earliest then None else link_state (lsip ! i) t)\<rparr>"
    have l': "link_ok l'" "link_frame l' = link_frame (lsip ! i)" "link_peer_num l' = link_peer_num (lsip ! i)"
      using lok v(2) by (simp_all add: l'_def link_ok_def link_frame_def)
    have nums: "map link_peer_num (lsip[i := l']) = map link_peer_num lsip"
      using l(2) l'(3) by (simp add: map_update list_update_same_conv)
    have frame: "map link_frame (lsip[i := l']) = map link_frame lsip"
      using l(2) l'(2) by (simp add: map_update list_update_same_conv)
    have "\<forall>x \<in> set (lsip[i := l']). link_ok x"
      using inv l'(1) set_update_subset_insert [of lsip i l'] by blast
    moreover have "lsip[i := l'] \<noteq> []" using inv by simp
    ultimately have ok: "links_ok (m(ip \<mapsto> lsip[i := l']))"
      using Cons.prems(1) inv nums by (simp add: links_ok_upd)
    moreover have "by_num_ok by_num (m(ip \<mapsto> lsip[i := l']))"
      unfolding by_num_ok_def
    proof (intro allI impI)
      fix n ip' i' assume "by_num n = Some (ip', i')"
      then obtain ls' where ls': "m ip' = Some ls'" "i' < length ls'" "link_peer_num (ls' ! i') = n"
        using Cons.prems(2) unfolding by_num_ok_def by blast
      show "\<exists>ls'. (m(ip \<mapsto> lsip[i := l'])) ip' = Some ls' \<and> i' < length ls' \<and> link_peer_num (ls' ! i') = n"
        using ls' l l'(3) by (cases "ip' = ip") (auto simp: nth_list_update)
    qed
    ultimately obtain m' where m': "update_link_states ts earliest by_num lss (m(ip \<mapsto> lsip[i := l'])) = (Ok m' :: (links, 'e) result)"
      "links_ok m'" "table_frame m' = table_frame (m(ip \<mapsto> lsip[i := l']))"
      using Cons.IH [of "m(ip \<mapsto> lsip[i := l'])"] Cons.prems(3) by (auto simp del: fun_upd_apply)
    have "table_frame (m(ip \<mapsto> lsip[i := l'])) = table_frame m"
      using frame l(1) by (simp add: table_frame_def fun_eq_iff)
    then show ?thesis using m' Some ipi l v(1) by (simp flip: l'_def del: fun_upd_apply)
  qed
qed simp

lemma link_state_update1_ok:
  assumes "links_ok m" and "order_ok order" and "\<forall>ls \<in> set (link_states_from_announcement ann). slots_ok ls"
  shows "if unat (time_slot (timestamp (ann_header ann))) < 120
     then link_state_update1 order ann m = (Panic :: (links, 'e) result)
     else \<exists>m'. link_state_update1 order ann m = (Ok m' :: (links, 'e) result) \<and> links_ok m' \<and> table_frame m' = table_frame m"
proof (cases "unat (time_slot (timestamp (ann_header ann))) < 120")
  case True
  then show ?thesis
    by (simp add: link_state_update1_def sub_chk_def AGREED_TIMEOUT_SECS_def word_le_nat_alt)
next
  case False
  then have "sub_chk (time_slot (timestamp (ann_header ann))) (word_of_nat (AGREED_TIMEOUT_SECS div 10))
      = (Ok (time_slot (timestamp (ann_header ann)) - 120) :: (u64, 'e) result)"
    by (simp add: sub_chk_def AGREED_TIMEOUT_SECS_def word_le_nat_alt)
  moreover have "by_num_ok (inward_links_by_num order m) m"
    using assms(1,2) by (intro by_num_ok) (simp_all add: links_ok_def)
  ultimately show ?thesis using False
      update_link_states_ok [where ?'e = 'e, OF assms(1) _ assms(3), of "inward_links_by_num order m" "time_slot (timestamp (ann_header ann))"]
    by (simp add: link_state_update1_def Let_def)
qed

section \<open>Properties\<close>

text \<open>C29: announced peers refine a map. The table, a vector of links per address, behaves as one map
  from address and peer number to link: every peer entity, in order, deletes its key if its label is
  absent, refreshes the link if label and form are unchanged, and otherwise puts a new link without
  history there. No vector is left empty or with two links of one number, and nothing panics.\<close>

theorem update_peers_refines_map:
  assumes "links_ok m" and "\<forall>p \<in> set ps. \<forall>lab. peer_label p = Some lab \<longrightarrow> label_ok lab"
  shows "\<exists>m'. update_peers ann ps m = (Ok m' :: (links, 'e) result) \<and> links_ok m' \<and> link_at m' = announce_links ann ps (link_at m)"
  using assms by (rule update_peers_ok)

text \<open>C30: what a received link state leaves on its link. The samples of the entity, newest last, are
  recorded from the announcement's own slot downwards, except that the oldest one, in the starting
  slot, is always dropped; slots older than the limit are forgotten and all others keep their
  entry. The value stays finite, and no assertion on values can fail.\<close>

theorem link_state_recorded:
  assumes "parse_link_state (link_state_bytes pads nid start ss) = Ok (LinkState d)"
    and "pads < 256" and "unat start < 18" and "ss \<noteq> []" and "length ss \<le> 18"
    and "17 \<le> unat ts" and "unat (link_value l) \<le> VALUE_MAX"
  shows "\<exists>l'. update_link ts earliest d l = (Ok l' :: (link, 'e) result) \<and> unat (link_value l') \<le> VALUE_MAX
    \<and> (\<forall>k < length ss - 1. link_state l' (ts - of_nat k) =
          Some \<lparr>drops = fst (snd (ss ! (length ss - 1 - k))), lag = fst (ss ! (length ss - 1 - k)), kb_recv = snd (snd (ss ! (length ss - 1 - k)))\<rparr>)
    \<and> (\<forall>t. t > ts \<or> unat ts - unat t \<ge> length ss - 1 \<longrightarrow> link_state l' t = (if t < earliest then None else link_state l t))"
proof -
  have slots: "slots_ok d"
    using parse_link_state_total [of "link_state_bytes pads nid start ss" "LinkState d"] assms(1) by (simp add: slots_ok_def)
  have ents: "visited_entries d = map (\<lambda>(l, dr, k). \<lparr>drops = dr, lag = l, kb_recv = k\<rparr>) (rev (tl ss))"
    using assms(1-5) by (rule visited_entries_parsed)
  obtain v where v: "update_link ts earliest d l = (Ok (l\<lparr>link_value := v, most_recent_ls_slot := ts,
      link_state := record_from ts (visited_entries d) (\<lambda>t. if t < earliest then None else link_state l t)\<rparr>) :: (link, 'e) result)"
    "unat v \<le> VALUE_MAX"
    using update_link_ok [OF slots assms(6,7)] by blast
  have rec: "record_from ts (visited_entries d) f (ts - of_nat k) =
      Some \<lparr>drops = fst (snd (ss ! (length ss - 1 - k))), lag = fst (ss ! (length ss - 1 - k)), kb_recv = snd (snd (ss ! (length ss - 1 - k)))\<rparr>"
    if k: "k < length ss - 1" for f k
  proof -
    have kts: "k < unat ts" using k assms(5,6) by simp
    then have u: "unat (of_nat k :: u64) = k" using unsigned_less [of ts, where ?'a = nat] by (simp add: unsigned_of_nat take_bit_nat_eq_self)
    then have "of_nat k \<le> ts" using kts by (simp add: word_le_nat_alt)
    then have s: "unat (ts - of_nat k) = unat ts - k" using u by (simp add: unat_sub)
    have "rev (tl ss) ! k = ss ! (length ss - 1 - k)" using k by (simp add: rev_nth nth_tl Suc_diff_Suc)
    then show ?thesis using k s kts by (simp add: record_from_def ents word_le_nat_alt split: prod.split)
  qed
  have "record_from ts (visited_entries d) f t = f t" if "t > ts \<or> unat ts - unat t \<ge> length ss - 1" for f t
    using that by (auto simp: record_from_def ents not_le)
  with v rec show ?thesis by (intro exI [of _ "l\<lparr>link_value := v, most_recent_ls_slot := ts,
      link_state := record_from ts (visited_entries d) (\<lambda>t. if t < earliest then None else link_state l t)\<rparr>"]) simp
qed

text \<open>A node's announcement for the witnesses.\<close>

definition sample_ann :: "bool \<Rightarrow> u64 \<Rightarrow> entity list \<Rightarrow> announcement" where
  "sample_ann reset ts es =
     \<lparr>ann_header = \<lparr>signature = [], pub_signing_key = [], snode_ip = IP6_FIRST_BYTE # replicate 15 9, ann_version = 1, is_reset = reset, timestamp = ts\<rparr>,
      entities = es, node_pub_key = replicate 32 7, node_ip = IP6_FIRST_BYTE # replicate 15 1, binary = [1, 2, 3], ann_hash = [4, 5, 6]\<rparr>"

definition sample_peer :: "u32 routing_label option \<Rightarrow> peer_data" where
  "sample_peer lab =
     \<lparr>ipv6 = IP6_FIRST_BYTE # replicate 15 2, peer_label = lab, mtu = 8, peer_num = 3, unused = 0, encoding_form_number = 1, flags = 0\<rparr>"

lemma update_peers_refines_map_witness:
  "\<exists>m'. update_peers (sample_ann False 5 []) [sample_peer (Some (RoutingLabel 21)), sample_peer None] Map.empty = (Ok m' :: (links, unit) result)
     \<and> link_at m' (IP6_FIRST_BYTE # replicate 15 2, 3) = None"
  using update_peers_refines_map [OF links_ok_empty, where ?'e = unit and ann = "sample_ann False 5 []"
      and ps = "[sample_peer (Some (RoutingLabel 21)), sample_peer None]"]
  by (auto simp: sample_peer_def label_ok_def announce_link_def)

lemma link_state_recorded_witness:
  "\<exists>d l'. parse_link_state (link_state_bytes 1 3 17 [(1, 2, 3), (4, 5, 6), (7, 8, 9)]) = Ok (LinkState d)
     \<and> update_link 1000 880 d (new_link (sample_ann False 5 []) (sample_peer None) (RoutingLabel 21)) = (Ok l' :: (link, unit) result)
     \<and> link_state l' 1000 = Some \<lparr>drops = 8, lag = 7, kb_recv = 9\<rparr> \<and> link_state l' 999 = Some \<lparr>drops = 5, lag = 4, kb_recv = 6\<rparr>
     \<and> link_state l' 998 = None"
proof -
  let ?ss = "[(1, 2, 3), (4, 5, 6), (7, 8, 9)] :: (u16 \<times> u16 \<times> u32) list"
  let ?l = "new_link (sample_ann False 5 []) (sample_peer None) (RoutingLabel 21)"
  obtain d where d: "parse_link_state (link_state_bytes 1 3 17 ?ss) = Ok (LinkState d)"
    using link_state_ring [of 1 17 ?ss 3] by auto
  have "\<exists>l'. update_link 1000 880 d ?l = (Ok l' :: (link, unit) result) \<and> unat (link_value l') \<le> VALUE_MAX
    \<and> (\<forall>k < length ?ss - 1. link_state l' (1000 - of_nat k) =
          Some \<lparr>drops = fst (snd (?ss ! (length ?ss - 1 - k))), lag = fst (?ss ! (length ?ss - 1 - k)), kb_recv = snd (snd (?ss ! (length ?ss - 1 - k)))\<rparr>)
    \<and> (\<forall>t. t > 1000 \<or> unat (1000 :: u64) - unat t \<ge> length ?ss - 1 \<longrightarrow> link_state l' t = (if t < 880 then None else link_state ?l t))"
    by (rule link_state_recorded [OF d]) (simp_all add: new_link_def f64_zero_def)
  then obtain l' where l': "update_link 1000 880 d ?l = (Ok l' :: (link, unit) result)"
    and rec: "\<forall>k < length ?ss - 1. link_state l' (1000 - of_nat k) =
          Some \<lparr>drops = fst (snd (?ss ! (length ?ss - 1 - k))), lag = fst (?ss ! (length ?ss - 1 - k)), kb_recv = snd (snd (?ss ! (length ?ss - 1 - k)))\<rparr>"
    and old: "\<forall>t. t > 1000 \<or> unat (1000 :: u64) - unat t \<ge> length ?ss - 1 \<longrightarrow> link_state l' t = (if t < 880 then None else link_state ?l t)"
    by blast
  have "link_state l' 998 = None" using old [rule_format, of 998] by (simp add: new_link_def)
  with d l' rec [rule_format, of 0] rec [rule_format, of 1] show ?thesis by auto
qed

end
