(* ===== verification/State.thy ===== *)
theory State
  imports Prelude
begin

text \<open>
  Stateful code that may return early: a computation takes the state and gives its result with the
  state reached, also when it stops with an error or panics (the locks of the source are not
  poisoned by a panic, so what was written stays written).
\<close>

type_synonym ('s, 'a, 'e) st = "'s \<Rightarrow> ('a, 'e) result \<times> 's"

definition st_ok :: "'a \<Rightarrow> ('s, 'a, 'e) st" where
  "st_ok a s = (Ok a, s)"

definition st_err :: "'e \<Rightarrow> ('s, 'a, 'e) st" where
  "st_err e s = (Err e, s)"

definition st_lift :: "('a, 'e) result \<Rightarrow> ('s, 'a, 'e) st" where
  "st_lift r s = (r, s)"

definition st_get :: "('s \<Rightarrow> 'a) \<Rightarrow> ('s, 'a, 'e) st" where
  "st_get f s = (Ok (f s), s)"

definition st_modify :: "('s \<Rightarrow> 's) \<Rightarrow> ('s, unit, 'e) st" where
  "st_modify f s = (Ok (), f s)"

definition st_bind :: "('s, 'a, 'e) st \<Rightarrow> ('a \<Rightarrow> ('s, 'b, 'e) st) \<Rightarrow> ('s, 'b, 'e) st" where
  "st_bind m f s = (case m s of (Ok a, s') \<Rightarrow> f a s' | (Err e, s') \<Rightarrow> (Err e, s') | (Panic, s') \<Rightarrow> (Panic, s'))"

fun st_for :: "'x list \<Rightarrow> ('x \<Rightarrow> ('s, unit, 'e) st) \<Rightarrow> ('s, unit, 'e) st" where
  "st_for [] body = st_ok ()"
| "st_for (x # xs) body = st_bind (body x) (\<lambda>_. st_for xs body)"

lemma st_ok_run [simp]: "st_ok a s = (Ok a, s)"
  by (simp add: st_ok_def)

lemma st_err_run [simp]: "st_err e s = (Err e, s)"
  by (simp add: st_err_def)

lemma st_lift_run [simp]: "st_lift r s = (r, s)"
  by (simp add: st_lift_def)

lemma st_get_run [simp]: "st_get f s = (Ok (f s), s)"
  by (simp add: st_get_def)

lemma st_modify_run [simp]: "st_modify f s = (Ok (), f s)"
  by (simp add: st_modify_def)

lemma st_bind_run:
  "m s = (Ok a, s') \<Longrightarrow> st_bind m f s = f a s'"
  "m s = (Err e, s') \<Longrightarrow> st_bind m f s = (Err e, s')"
  "m s = (Panic, s') \<Longrightarrow> st_bind m f s = (Panic, s')"
  by (simp_all add: st_bind_def)

lemma st_bind_ok [simp]: "st_bind (st_ok a) f s = f a s"
  by (simp add: st_bind_def)

lemma st_bind_err [simp]: "st_bind (st_err e) f s = (Err e, s)"
  by (simp add: st_bind_def)

lemma st_bind_get [simp]: "st_bind (st_get g) f s = f (g s) s"
  by (simp add: st_bind_def)

lemma st_bind_modify [simp]: "st_bind (st_modify h) f s = f () (h s)"
  by (simp add: st_bind_def)

lemma st_bind_lift: "st_bind (st_lift r) f s = (case r of Ok a \<Rightarrow> f a s | Err e \<Rightarrow> (Err e, s) | Panic \<Rightarrow> (Panic, s))"
  by (simp add: st_bind_def)

text \<open>A predicate of the state that every part of a computation keeps is kept by the whole.\<close>

definition keeps :: "('s \<Rightarrow> bool) \<Rightarrow> ('s, 'a, 'e) st \<Rightarrow> bool" where
  "keeps I m \<longleftrightarrow> (\<forall>s. I s \<longrightarrow> I (snd (m s)))"

lemma keepsD: "keeps I m \<Longrightarrow> I s \<Longrightarrow> I (snd (m s))"
  by (simp add: keeps_def)

lemma keeps_bind: "keeps I m \<Longrightarrow> (\<And>a. keeps I (f a)) \<Longrightarrow> keeps I (st_bind m f)"
proof -
  assume m: "keeps I m" and f: "\<And>a. keeps I (f a)"
  have "I (snd (st_bind m f s))" if "I s" for s
  proof (cases "m s")
    case (Pair r s')
    then have s': "I s'" using m that by (force simp: keeps_def)
    show ?thesis
    proof (cases r)
      case (Ok a)
      then show ?thesis using Pair keepsD [OF f s'] by (simp add: st_bind_def)
    qed (use Pair s' in \<open>simp_all add: st_bind_def\<close>)
  qed
  then show ?thesis by (simp add: keeps_def)
qed

lemma keeps_ok [simp]: "keeps I (st_ok a)"
  by (simp add: keeps_def)

lemma keeps_err [simp]: "keeps I (st_err e)"
  by (simp add: keeps_def)

lemma keeps_lift [simp]: "keeps I (st_lift r)"
  by (simp add: keeps_def)

lemma keeps_get_bind: "(\<And>s. I s \<Longrightarrow> keeps I (g (f s))) \<Longrightarrow> keeps I (st_bind (st_get f) g)"
  by (simp add: keeps_def)

lemma keeps_modify: "(\<And>s. I s \<Longrightarrow> I (f s)) \<Longrightarrow> keeps I (st_modify f)"
  by (simp add: keeps_def)

lemma keeps_for: "(\<And>x. x \<in> set xs \<Longrightarrow> keeps I (body x)) \<Longrightarrow> keeps I (st_for xs body)"
  by (induction xs) (simp_all add: keeps_bind)

end
