(* ===== verification/Slices.thy ===== *)
theory Slices
  imports Prelude
begin

text \<open>
  Methods of slices and strings of the standard library that several components use: chunks, prefixes
  and suffixes that are taken off, and the parts between separators. They work on lists of any kind.
\<close>

section \<open>Chunks\<close>

function chunks :: "nat \<Rightarrow> 'a list \<Rightarrow> 'a list list" where
  "chunks n xs = (if xs = [] \<or> n = 0 then [] else take n xs # chunks n (drop n xs))"
  by pat_completeness auto

termination
  by (relation "measure (\<lambda>(n, xs). length xs)") auto

declare chunks.simps [simp del]

lemma chunks_Nil [simp]: "chunks n [] = []"
  by (simp add: chunks.simps)

lemma concat_chunks: "0 < n \<Longrightarrow> concat (chunks n xs) = xs"
proof (induction n xs rule: chunks.induct)
  case (1 n xs)
  then show ?case by (cases "xs = []") (simp_all add: chunks.simps [of n xs])
qed

lemma length_chunks_le: "h \<in> set (chunks n xs) \<Longrightarrow> length h \<le> n"
proof (induction n xs rule: chunks.induct)
  case (1 n xs)
  then show ?case by (cases "xs = [] \<or> n = 0") (auto simp: chunks.simps [of n xs])
qed

lemma set_chunks: "h \<in> set (chunks n xs) \<Longrightarrow> set h \<subseteq> set xs"
proof (induction n xs rule: chunks.induct)
  case (1 n xs)
  then show ?case
    by (cases "xs = [] \<or> n = 0") (auto simp: chunks.simps [of n xs] dest: in_set_takeD in_set_dropD)
qed

section \<open>Prefixes and suffixes\<close>

definition strip_prefix :: "'a list \<Rightarrow> 'a list \<Rightarrow> 'a list option" where
  "strip_prefix p xs = (if prefix p xs then Some (drop (length p) xs) else None)"

definition strip_suffix :: "'a list \<Rightarrow> 'a list \<Rightarrow> 'a list option" where
  "strip_suffix s xs = (if suffix s xs then Some (take (length xs - length s) xs) else None)"

lemma strip_prefix_Some_iff: "strip_prefix p xs = Some r \<longleftrightarrow> xs = p @ r"
  by (auto simp: strip_prefix_def prefix_def)

lemma strip_suffix_Some_iff: "strip_suffix s xs = Some r \<longleftrightarrow> xs = r @ s"
  by (auto simp: strip_suffix_def suffix_def)

lemma strip_suffix_append [simp]: "strip_suffix s (r @ s) = Some r"
  by (simp add: strip_suffix_Some_iff)

lemma strip_suffix_None_iff: "strip_suffix s xs = None \<longleftrightarrow> (\<nexists>r. xs = r @ s)"
  by (auto simp: strip_suffix_def suffix_def)

section \<open>Parts between separators\<close>

text \<open>There is always at least one part.\<close>

fun split_on :: "'a \<Rightarrow> 'a list \<Rightarrow> 'a list list" where
  "split_on c [] = [[]]"
| "split_on c (x # xs) =
     (if x = c then [] # split_on c xs
      else case split_on c xs of p # ps \<Rightarrow> (x # p) # ps | [] \<Rightarrow> [[x]])"

lemma split_on_not_Nil [simp]: "split_on c xs \<noteq> []"
  by (cases xs) (auto split: list.splits)

lemma split_on_no_sep: "c \<notin> set xs \<Longrightarrow> split_on c xs = [xs]"
  by (induction xs) auto

lemma split_on_append: "split_on c (xs @ c # ys) = split_on c xs @ split_on c ys"
  by (induction xs) (auto split: list.splits)

lemma split_on_parts: "p \<in> set (split_on c xs) \<Longrightarrow> c \<notin> set p"
  by (induction xs arbitrary: p) (auto split: list.splits if_splits)

text \<open>The last two parts, and what is before them.\<close>

lemma split_on_last: "c \<notin> set post \<Longrightarrow> rev (split_on c (pre @ c # post)) = post # rev (split_on c pre)"
  by (simp add: split_on_append split_on_no_sep)

lemma split_on_last_cases:
  "(c \<notin> set xs \<and> split_on c xs = [xs])
   \<or> (\<exists>pre post. xs = pre @ c # post \<and> c \<notin> set post \<and> rev (split_on c xs) = post # rev (split_on c pre))"
proof (cases "c \<in> set xs")
  case True
  then obtain pre post where "xs = pre @ c # post" "c \<notin> set post" by (metis split_list_last)
  then show ?thesis using split_on_last by metis
qed (simp add: split_on_no_sep)

lemma split_on_last_two:
  assumes "rev (split_on c xs) = t # p # ps"
  shows "c \<notin> set t \<and> (xs = p @ c # t \<or> (\<exists>pre. xs = pre @ c # p @ c # t))"
proof -
  obtain pre where pre: "xs = pre @ c # t" "c \<notin> set t" "rev (split_on c pre) = p # ps"
    using split_on_last_cases [of c xs] assms by (metis list.inject list.distinct(1) rev_singleton_conv)
  then show ?thesis using split_on_last_cases [of c pre] by auto
qed

text \<open>\<open>str::find\<close>, and the text after the character found.\<close>

fun after_first :: "'a \<Rightarrow> 'a list \<Rightarrow> 'a list option" where
  "after_first c [] = None"
| "after_first c (x # xs) = (if x = c then Some xs else after_first c xs)"

lemma after_first_Some_iff: "after_first c xs = Some r \<longleftrightarrow> (\<exists>pre. xs = pre @ c # r \<and> c \<notin> set pre)"
proof (induction xs)
  case Nil
  then show ?case by simp
next
  case (Cons x xs)
  show ?case
  proof (cases "x = c")
    case True
    then show ?thesis by (auto simp: Cons_eq_append_conv)
  next
    case False
    then show ?thesis using Cons by (auto simp: Cons_eq_append_conv)
  qed
qed

lemma after_first_None_iff [simp]: "after_first c xs = None \<longleftrightarrow> c \<notin> set xs"
  by (induction xs) auto

lemma after_first_shorter: "after_first c xs = Some r \<Longrightarrow> length r < length xs"
  by (auto simp: after_first_Some_iff)

end
