(* ===== verification/Wire_Message.thy ===== *)
theory Wire_Message
  imports Prelude
begin

text \<open>
  \<^verbatim>\<open>cjdns-snode/src/message.rs\<close>: the messages that supernodes exchange and their MessagePack form.
  MessagePack values are those of the \<open>rmpv\<close> crate, as far as the source looks at them: strings
  may fail to be UTF-8 (\<open>None\<close>), integers are signed or unsigned 64-bit numbers, and the other
  values are \<open>MOther\<close>. Reading and writing the bytes of a value is the crate's work, so
  \<open>read_value\<close> and \<open>write_value\<close> are parameters.
\<close>

datatype msgpack =
    MNil
  | MInteger int
  | MString "string option"
  | MBinary bytes
  | MArray "msgpack list"
  | MOther

definition as_u64 :: "msgpack \<Rightarrow> u64 option" where
  "as_u64 v = (case v of MInteger i \<Rightarrow> if 0 \<le> i \<and> i < 2 ^ 64 then Some (word_of_int i) else None | _ \<Rightarrow> None)"

definition as_array :: "msgpack \<Rightarrow> msgpack list option" where
  "as_array v = (case v of MArray vs \<Rightarrow> Some vs | _ \<Rightarrow> None)"

definition of_u64 :: "u64 \<Rightarrow> msgpack" where
  "of_u64 n = MInteger (uint n)"

section \<open>Messages\<close>

type_synonym hash = bytes

datatype message_data = HELLO u64 | OLLEH u64 | PING | ACK | GET_DATA hash | DATA bytes | INV "hash list"

datatype wire_message = WireMessage u64 message_data

datatype encoding_error = MsgpackSerializeError string

datatype decoding_error =
    MsgpackDeserializeError string
  | BadMessageRootType
  | BadMessageRootArrayLength nat
  | BadIdFieldType
  | BadTypeFieldType
  | BadArgsCount string nat nat
  | BadArgType string
  | BadHelloVersionFieldType
  | UnrecognizedMessageType string

definition message_data_new :: "string \<Rightarrow> u64 option \<Rightarrow> hash list option \<Rightarrow> bytes option \<Rightarrow> message_data option" where
  "message_data_new type_str int_arg hash_arr_arg data_arg =
     (case (int_arg, hash_arr_arg, data_arg) of
        (Some version, None, None) \<Rightarrow>
          if type_str = ''HELLO'' then Some (HELLO version)
          else if type_str = ''OLLEH'' then Some (OLLEH version) else None
      | (None, None, None) \<Rightarrow>
          if type_str = ''PING'' then Some PING else if type_str = ''ACK'' then Some ACK else None
      | (None, Some hashes, None) \<Rightarrow>
          if type_str = ''GET_DATA'' \<and> length hashes = 1 then Some (GET_DATA (hashes ! 0)) else None
      | (None, None, Some data) \<Rightarrow> if type_str = ''DATA'' then Some (DATA data) else None
      | (Some n, Some hashes, None) \<Rightarrow> if type_str = ''INV'' \<and> n = 0 then Some (INV hashes) else None
      | _ \<Rightarrow> None)"

section \<open>Decoding\<close>

definition check_data_len :: "string \<Rightarrow> msgpack list \<Rightarrow> nat \<Rightarrow> (unit, decoding_error) result" where
  "check_data_len type_str data expected_len =
     (if length data \<noteq> expected_len then Err (BadArgsCount type_str expected_len (length data)) else Ok ())"

fun collect_hashes :: "string \<Rightarrow> msgpack list \<Rightarrow> (hash list, decoding_error) result" where
  "collect_hashes type_str [] = Ok []"
| "collect_hashes type_str (val # vals) =
     (case val of
        MBinary hash \<Rightarrow>
          if length hash > 0 then and_then (collect_hashes type_str vals) (\<lambda>hashes. Ok (hash # hashes))
          else Err (BadArgType type_str)
      | _ \<Rightarrow> Err (BadArgType type_str))"

definition type_string :: "msgpack \<Rightarrow> (string, decoding_error) result" where
  "type_string v = (case v of MString s \<Rightarrow> ok_or s BadTypeFieldType | _ \<Rightarrow> Err BadTypeFieldType)"

definition data_from_msgpack :: "msgpack list \<Rightarrow> (message_data, decoding_error) result" where
  "data_from_msgpack msg_data =
     and_then (assert_that (1 \<le> length msg_data \<and> length msg_data \<le> 4)) (\<lambda>_.
     and_then (type_string (msg_data ! 0)) (\<lambda>type_str.
     let data = drop 1 msg_data in
     if type_str = ''PING'' then and_then (check_data_len type_str data 0) (\<lambda>_. Ok PING)
     else if type_str = ''ACK'' then and_then (check_data_len type_str data 0) (\<lambda>_. Ok ACK)
     else if type_str = ''HELLO'' then
       and_then (check_data_len type_str data 1) (\<lambda>_.
       and_then (ok_or (as_u64 (data ! 0)) BadHelloVersionFieldType) (\<lambda>ver. Ok (HELLO ver)))
     else if type_str = ''OLLEH'' then
       and_then (check_data_len type_str data 1) (\<lambda>_.
       and_then (ok_or (as_u64 (data ! 0)) BadHelloVersionFieldType) (\<lambda>ver. Ok (OLLEH ver)))
     else if type_str = ''GET_DATA'' then
       and_then (check_data_len type_str data 1) (\<lambda>_.
       case data ! 0 of
         MBinary hash \<Rightarrow> if length hash > 0 then Ok (GET_DATA hash) else Err (BadArgType type_str)
       | _ \<Rightarrow> Err (BadArgType type_str))
     else if type_str = ''DATA'' then
       and_then (check_data_len type_str data 1) (\<lambda>_.
       case data ! 0 of
         MBinary d \<Rightarrow> Ok (DATA d)
       | MNil \<Rightarrow> Ok (DATA [])
       | _ \<Rightarrow> Err (BadArgType type_str))
     else if type_str = ''INV'' then
       and_then (check_data_len type_str data 2) (\<lambda>_.
       and_then (ok_or (as_array (data ! 1)) (BadArgType type_str)) (\<lambda>arr.
       and_then (collect_hashes type_str arr) (\<lambda>hashes. Ok (INV hashes))))
     else Err (UnrecognizedMessageType type_str)))"

definition message_from_msgpack :: "msgpack \<Rightarrow> (wire_message, decoding_error) result" where
  "message_from_msgpack msg =
     (case msg of
        MArray root_arr \<Rightarrow>
          (let n = length root_arr in
           if n < 2 \<or> n > 4 then Err (BadMessageRootArrayLength n)
           else and_then (ok_or (as_u64 (root_arr ! 0)) BadIdFieldType) (\<lambda>reply_id.
             and_then (data_from_msgpack (drop 1 root_arr)) (\<lambda>data. Ok (WireMessage reply_id data))))
      | _ \<Rightarrow> Err BadMessageRootType)"

definition decode_msgpack :: "(bytes \<Rightarrow> (msgpack, string) result) \<Rightarrow> bytes \<Rightarrow> (wire_message, decoding_error) result" where
  "decode_msgpack read_value bs =
     and_then (map_err MsgpackDeserializeError (read_value bs)) message_from_msgpack"

section \<open>Encoding\<close>

fun data_as_msgpack :: "message_data \<Rightarrow> msgpack list \<Rightarrow> msgpack list" where
  "data_as_msgpack (HELLO a) res = res @ [MString (Some ''HELLO''), of_u64 a]"
| "data_as_msgpack (OLLEH a) res = res @ [MString (Some ''OLLEH''), of_u64 a]"
| "data_as_msgpack PING res = res @ [MString (Some ''PING'')]"
| "data_as_msgpack ACK res = res @ [MString (Some ''ACK'')]"
| "data_as_msgpack (GET_DATA data) res = res @ [MString (Some ''GET_DATA''), MBinary data]"
| "data_as_msgpack (DATA data) res =
     res @ [MString (Some ''DATA''), if data = [] then MNil else MBinary data]"
| "data_as_msgpack (INV data) res =
     res @ [MString (Some ''INV''), MInteger 0, MArray (map MBinary data)]"

fun message_as_msgpack :: "wire_message \<Rightarrow> msgpack" where
  "message_as_msgpack (WireMessage reply_id data) = MArray (data_as_msgpack data [of_u64 reply_id])"

definition encode_msgpack :: "(msgpack \<Rightarrow> (bytes, string) result) \<Rightarrow> wire_message \<Rightarrow> (bytes, encoding_error) result" where
  "encode_msgpack write_value m = map_err MsgpackSerializeError (write_value (message_as_msgpack m))"

section \<open>Round trip\<close>

fun data_ok :: "message_data \<Rightarrow> bool" where
  "data_ok (GET_DATA h) = (h \<noteq> [])"
| "data_ok (INV hs) = ([] \<notin> set hs)"
| "data_ok _ = True"

fun data_type :: "message_data \<Rightarrow> string" where
  "data_type (HELLO _) = ''HELLO''"
| "data_type (OLLEH _) = ''OLLEH''"
| "data_type PING = ''PING''"
| "data_type ACK = ''ACK''"
| "data_type (GET_DATA _) = ''GET_DATA''"
| "data_type (DATA _) = ''DATA''"
| "data_type (INV _) = ''INV''"

lemma as_u64_of_u64 [simp]: "as_u64 (of_u64 n) = Some n"
  using uint_bounded [of n] by (simp add: as_u64_def of_u64_def)

lemma collect_hashes_map:
  "collect_hashes t (map MBinary hs) = (if [] \<in> set hs then Err (BadArgType t) else Ok hs)"
  by (induction hs) auto

lemma collect_hashes_ok: "collect_hashes t vs = Ok hs \<Longrightarrow> [] \<notin> set hs"
  by (induction vs arbitrary: hs) (auto split: msgpack.splits if_splits simp: ok_iff)

lemma data_msgpack:
  "data_from_msgpack (drop 1 (data_as_msgpack d [v])) = (if data_ok d then Ok d else Err (BadArgType (data_type d)))"
  by (cases d) (auto simp: data_from_msgpack_def check_data_len_def as_array_def collect_hashes_map type_string_def)

lemma message_msgpack:
  "message_from_msgpack (message_as_msgpack (WireMessage n d)) =
     (if data_ok d then Ok (WireMessage n d) else Err (BadArgType (data_type d)))"
proof -
  obtain vs where vs: "data_as_msgpack d [of_u64 n] = of_u64 n # vs" "1 \<le> length vs" "length vs \<le> 3"
    by (cases d) auto
  then show ?thesis using data_msgpack [of d "of_u64 n"] by (auto simp: message_from_msgpack_def)
qed

lemma data_from_msgpack_ok: "data_from_msgpack vs = Ok d \<Longrightarrow> data_ok d"
  by (auto simp: data_from_msgpack_def ok_iff Let_def dest: collect_hashes_ok split: if_splits msgpack.splits)

lemma message_from_msgpack_ok: "message_from_msgpack v = Ok (WireMessage n d) \<Longrightarrow> data_ok d"
  by (auto simp: message_from_msgpack_def ok_iff Let_def dest: data_from_msgpack_ok split: if_splits msgpack.splits)

lemma message_from_msgpack_no_panic: "message_from_msgpack v \<noteq> Panic"
proof -
  have c: "collect_hashes t vs \<noteq> Panic" for t vs
    by (induction vs) (auto split: msgpack.splits simp: panic_iff)
  have "data_from_msgpack vs \<noteq> Panic" if "1 \<le> length vs" "length vs \<le> 3" for vs
    using that c by (auto simp: data_from_msgpack_def panic_iff Let_def check_data_len_def type_string_def split: msgpack.splits)
  then show ?thesis by (auto simp: message_from_msgpack_def panic_iff Let_def split: msgpack.splits)
qed

text \<open>Given that the crate reads back what it writes, a written message reads back as itself if
  its hashes are not empty and is refused with BadArgType otherwise; every message that the decoder
  accepts has no empty hash.\<close>

theorem wire_message_roundtrip:
  assumes "\<And>v bs. write_value v = Ok bs \<Longrightarrow> read_value bs = Ok v"
    and "encode_msgpack write_value (WireMessage n d) = Ok bs"
  shows "decode_msgpack read_value bs = (if data_ok d then Ok (WireMessage n d) else Err (BadArgType (data_type d)))
    \<and> (\<forall>bs' n' d'. decode_msgpack read_value bs' = Ok (WireMessage n' d') \<longrightarrow> data_ok d')"
proof -
  have "read_value bs = Ok (message_as_msgpack (WireMessage n d))"
    using assms by (simp add: encode_msgpack_def)
  then show ?thesis
    using message_msgpack [of n d] by (auto simp: decode_msgpack_def ok_iff dest: message_from_msgpack_ok)
qed

text \<open>The witness writes one message as MessagePack does: array of 3, 2, string of 8, binary of 4.\<close>

definition sample_value :: msgpack where
  "sample_value = MArray [MInteger 2, MString (Some ''GET_DATA''), MBinary [0xa1, 0xb2, 0xc3, 0xd4]]"

definition sample_bytes :: bytes where
  "sample_bytes = [0x93, 0x02, 0xa8, 0x47, 0x45, 0x54, 0x5f, 0x44, 0x41, 0x54, 0x41, 0xc4, 0x04, 0xa1, 0xb2, 0xc3, 0xd4]"

end
