(* ===== verification/Peers.thy ===== *)
theory Peers
  imports State Slices Wire_Message "HOL-Library.Countable"
begin

text \<open>
  \<^verbatim>\<open>cjdns-snode/src/peer.rs\<close> and \<^verbatim>\<open>peer/\<close>: the announcements a supernode offers, its connections to
  other supernodes and the gossip messages. The handles of a connection share their data, so the
  data lives in a store indexed by the connection's number and a handle is that number. Instants
  and durations are nanoseconds.

  A handler runs in the task that also empties the connection's queue. When that queue is full the
  handler's own \<open>send\<close> therefore waits forever; this outcome is the error \<open>Blocked\<close>. Messages to the
  queues of other connections wait at most until those tasks have written them.
\<close>

section \<open>Announcement list\<close>

record ann_list =
  ann_by_hash :: "hash \<Rightarrow> bytes option"
  ann_hashes_ordered :: "hash list"

definition ann_list_new :: ann_list where
  "ann_list_new = \<lparr>ann_by_hash = Map.empty, ann_hashes_ordered = []\<rparr>"

definition ann_list_add :: "hash \<Rightarrow> bytes \<Rightarrow> ann_list \<Rightarrow> ann_list" where
  "ann_list_add h b l = \<lparr>ann_by_hash = (ann_by_hash l)(h \<mapsto> b), ann_hashes_ordered = ann_hashes_ordered l @ [h]\<rparr>"

definition ann_list_remove :: "hash \<Rightarrow> ann_list \<Rightarrow> ann_list" where
  "ann_list_remove h l =
     \<lparr>ann_by_hash = (ann_by_hash l)(h := None), ann_hashes_ordered = filter (\<lambda>x. x \<noteq> h) (ann_hashes_ordered l)\<rparr>"

definition hash_known :: "hash \<Rightarrow> ann_list \<Rightarrow> bool" where
  "hash_known h l \<longleftrightarrow> ann_by_hash l h \<noteq> None"

definition ann_list_info :: "ann_list \<Rightarrow> nat \<times> nat" where
  "ann_list_info l = (length (ann_hashes_ordered l), card (dom (ann_by_hash l)))"

definition ann_list_ok :: "ann_list \<Rightarrow> bool" where
  "ann_list_ok l \<longleftrightarrow> distinct (ann_hashes_ordered l) \<and> set (ann_hashes_ordered l) = dom (ann_by_hash l)"

lemma ann_list_new_ok [simp]: "ann_list_ok ann_list_new"
  by (simp add: ann_list_ok_def ann_list_new_def)

lemma ann_list_add_ok: "ann_list_ok l \<Longrightarrow> h \<notin> set (ann_hashes_ordered l) \<Longrightarrow> ann_list_ok (ann_list_add h b l)"
  by (auto simp: ann_list_ok_def ann_list_add_def)

lemma ann_list_remove_ok: "ann_list_ok l \<Longrightarrow> ann_list_ok (ann_list_remove h l)"
  by (auto simp: ann_list_ok_def ann_list_remove_def)

lemma ann_list_lookup:
  "ann_by_hash (ann_list_add h b l) h' = (if h' = h then Some b else ann_by_hash l h')"
  "ann_by_hash (ann_list_remove h l) h' = (if h' = h then None else ann_by_hash l h')"
  by (simp_all add: ann_list_add_def ann_list_remove_def)

section \<open>Connections\<close>

datatype peer_type = Incoming | Outgoing

record peer =
  addr :: string
  peer_type :: peer_type
  last_msg_time :: nat
  outstanding_reqs :: "u64 set"
  msg_queue :: "wire_message list"
  connected :: bool
  hung :: bool

datatype peer_error = PeerConnectionClosed | Blocked | BadHello u64 string | UnexpectedData u64 | AnnouncesClosed

record peers =
  peer_id_seq :: u64
  peer_list :: "u64 list"
  peer_store :: "u64 \<Rightarrow> peer"
  anns :: ann_list
  msg_id_seq :: u64
  announce_tx :: "bytes list"
  announce_open :: bool

definition MSG_QUEUE_SIZE :: nat where "MSG_QUEUE_SIZE = 1024"
definition INV_CHUNK :: nat where "INV_CHUNK = 128"
definition PEERS_VERSION :: u64 where "PEERS_VERSION = 1"

type_synonym 'a peers_st = "(peers, 'a, peer_error) st"

definition seq_next :: "u64 \<Rightarrow> u64 \<times> u64" where
  "seq_next counter = (counter, counter + 1)"

definition peer_new :: "string \<Rightarrow> peer_type \<Rightarrow> nat \<Rightarrow> peer" where
  "peer_new a t now = \<lparr>addr = a, peer_type = t, last_msg_time = now, outstanding_reqs = {}, msg_queue = [], connected = True, hung = False\<rparr>"

definition peers_new :: "u64 \<Rightarrow> peers" where
  "peers_new seed = \<lparr>peer_id_seq = 0, peer_list = [], peer_store = (\<lambda>_. peer_new [] Incoming 0), anns = ann_list_new,
     msg_id_seq = seed, announce_tx = [], announce_open = True\<rparr>"

definition on_peer :: "u64 \<Rightarrow> (peer \<Rightarrow> peer) \<Rightarrow> peers \<Rightarrow> peers" where
  "on_peer i f s = s\<lparr>peer_store := (peer_store s)(i := f (peer_store s i))\<rparr>"

definition create_peer :: "peer_type \<Rightarrow> string \<Rightarrow> nat \<Rightarrow> u64 peers_st" where
  "create_peer t a now s =
     (let (i, next) = seq_next (peer_id_seq s) in
      (Ok i, s\<lparr>peer_id_seq := next, peer_list := peer_list s @ [i], peer_store := (peer_store s)(i := peer_new a t now)\<rparr>))"

definition remove_peer :: "u64 \<Rightarrow> peers \<Rightarrow> peers" where
  "remove_peer i s = s\<lparr>peer_list := filter (\<lambda>p. p \<noteq> i) (peer_list s)\<rparr>"

definition drop_peer :: "u64 \<Rightarrow> unit peers_st" where
  "drop_peer i = st_modify (remove_peer i)"

definition enqueue :: "wire_message \<Rightarrow> peer \<Rightarrow> peer" where
  "enqueue m p = p\<lparr>msg_queue := msg_queue p @ [m]\<rparr>"

definition send_msg :: "u64 \<Rightarrow> wire_message \<Rightarrow> unit peers_st" where
  "send_msg i m s =
     (if connected (peer_store s i) then (Ok (), on_peer i (enqueue m) s) else (Err PeerConnectionClosed, s))"

definition send_own :: "u64 \<Rightarrow> wire_message \<Rightarrow> unit peers_st" where
  "send_own i m s =
     (if connected (peer_store s i) \<and> MSG_QUEUE_SIZE \<le> length (msg_queue (peer_store s i)) then (Err Blocked, s)
      else send_msg i m s)"

definition add_pending_req :: "u64 \<Rightarrow> u64 \<Rightarrow> peers \<Rightarrow> peers" where
  "add_pending_req i seq = on_peer i (\<lambda>p. p\<lparr>outstanding_reqs := insert seq (outstanding_reqs p)\<rparr>)"

definition complete_req :: "u64 \<Rightarrow> u64 \<Rightarrow> bool peers_st" where
  "complete_req i seq s =
     (Ok (seq \<in> outstanding_reqs (peer_store s i)), on_peer i (\<lambda>p. p\<lparr>outstanding_reqs := outstanding_reqs p - {seq}\<rparr>) s)"

definition next_msg_id :: "u64 peers_st" where
  "next_msg_id s = (let (n, next) = seq_next (msg_id_seq s) in (Ok n, s\<lparr>msg_id_seq := next\<rparr>))"

section \<open>Announcements to and from the server\<close>

text \<open>The result of sending to a connection that is going away is ignored.\<close>

definition send_ignore :: "u64 \<Rightarrow> wire_message \<Rightarrow> unit peers_st" where
  "send_ignore i m s = (Ok (), snd (send_msg i m s))"

definition offer :: "hash \<Rightarrow> u64 \<Rightarrow> unit peers_st" where
  "offer h i s =
     (if peer_type (peer_store s i) = Incoming then send_ignore i (WireMessage 0 (INV [h])) s else (Ok (), s))"

definition add_ann :: "hash \<Rightarrow> bytes \<Rightarrow> unit peers_st" where
  "add_ann h b s =
     (if h \<in> set (ann_hashes_ordered (anns s)) then (Ok (), s)
      else st_for (peer_list s) (offer h) (s\<lparr>anns := ann_list_add h b (anns s)\<rparr>))"

definition del_ann :: "hash \<Rightarrow> peers \<Rightarrow> peers" where
  "del_ann h s = s\<lparr>anns := ann_list_remove h (anns s)\<rparr>"

definition send_announce :: "bytes \<Rightarrow> unit peers_st" where
  "send_announce data s =
     (if announce_open s then (Ok (), s\<lparr>announce_tx := announce_tx s @ [data]\<rparr>) else (Err AnnouncesClosed, s))"

section \<open>Starting a connection\<close>

definition start_incoming :: "string \<Rightarrow> nat \<Rightarrow> u64 peers_st" where
  "start_incoming a now =
     st_bind (create_peer Incoming a now) (\<lambda>i.
     st_bind (send_own i (WireMessage 0 (HELLO PEERS_VERSION))) (\<lambda>_.
     st_bind (st_get (\<lambda>s. ann_hashes_ordered (anns s))) (\<lambda>hash_list.
     st_bind (st_for (chunks INV_CHUNK hash_list) (\<lambda>h. send_own i (WireMessage 0 (INV h)))) (\<lambda>_.
     st_ok i))))"

definition start_outgoing :: "string \<Rightarrow> nat \<Rightarrow> u64 peers_st" where
  "start_outgoing a now =
     st_bind (create_peer Outgoing a now) (\<lambda>i.
     st_bind (send_own i (WireMessage 0 (OLLEH PEERS_VERSION))) (\<lambda>_. st_ok i))"

definition end_connection :: "u64 \<Rightarrow> peers \<Rightarrow> peers" where
  "end_connection i s = remove_peer i (on_peer i (\<lambda>p. p\<lparr>connected := False\<rparr>) s)"

section \<open>Messages\<close>

definition hello_valid :: "peer_type \<Rightarrow> message_data \<Rightarrow> bool" where
  "hello_valid t msg =
     (case msg of
        HELLO _ \<Rightarrow> t = Outgoing
      | OLLEH _ \<Rightarrow> t \<noteq> Outgoing
      | _ \<Rightarrow> True)"

definition request_hash :: "u64 \<Rightarrow> hash \<Rightarrow> unit peers_st" where
  "request_hash i h s =
     (if hash_known h (anns s) then (Ok (), s)
      else st_bind next_msg_id (\<lambda>seq.
           st_bind (st_modify (add_pending_req i seq)) (\<lambda>_.
           send_own i (WireMessage seq (GET_DATA h)))) s)"

definition process_message :: "u64 \<Rightarrow> u64 \<Rightarrow> message_data \<Rightarrow> unit peers_st" where
  "process_message i n msg s =
     (case msg of
        HELLO version \<Rightarrow> (Ok (), s)
      | OLLEH version \<Rightarrow> (Ok (), s)
      | GET_DATA h \<Rightarrow>
          send_own i (WireMessage n (DATA (case ann_by_hash (anns s) h of Some ann \<Rightarrow> ann | None \<Rightarrow> []))) s
      | PING \<Rightarrow> send_own i (WireMessage n ACK) s
      | ACK \<Rightarrow> (Ok (), s)
      | INV hash_list \<Rightarrow>
          if peer_type (peer_store s i) = Outgoing then st_for hash_list (request_hash i) s else (Ok (), s)
      | DATA data \<Rightarrow>
          if peer_type (peer_store s i) = Outgoing then
            st_bind (complete_req i n) (\<lambda>known_id.
            if \<not> known_id then st_err (UnexpectedData n) else send_announce data) s
          else (Ok (), s))"

fun handle_message :: "nat \<Rightarrow> u64 \<Rightarrow> wire_message \<Rightarrow> unit peers_st" where
  "handle_message now i (WireMessage n msg) s =
     (let s = on_peer i (\<lambda>p. p\<lparr>last_msg_time := now\<rparr>) s in
      if \<not> hello_valid (peer_type (peer_store s i)) msg
      then (Err (BadHello i (addr (peer_store s i))), remove_peer i s)
      else process_message i n msg s)"

text \<open>The two arms of the socket loop: one queued message is written, one message is read. The loop ends
  with the first error, and then the connection is dropped. A loop whose handler is blocked does
  nothing any more; \<open>hung\<close> records that.\<close>

definition after_handler :: "u64 \<Rightarrow> (unit, peer_error) result \<times> peers \<Rightarrow> peers" where
  "after_handler i rs =
     (case rs of
        (Ok _, s) \<Rightarrow> s
      | (Err Blocked, s) \<Rightarrow> on_peer i (\<lambda>p. p\<lparr>hung := True\<rparr>) s
      | (_, s) \<Rightarrow> end_connection i s)"

definition ws_receive ::
  "(bytes \<Rightarrow> (msgpack, string) result) \<Rightarrow> nat \<Rightarrow> u64 \<Rightarrow> bytes \<Rightarrow> peers \<Rightarrow> peers" where
  "ws_receive read_value now i bs s =
     (if hung (peer_store s i) then s
      else case decode_msgpack read_value bs of
        Ok m \<Rightarrow> after_handler i (handle_message now i m s)
      | _ \<Rightarrow> end_connection i s)"

definition ws_transmit ::
  "(msgpack \<Rightarrow> (bytes, string) result) \<Rightarrow> u64 \<Rightarrow> peers \<Rightarrow> bytes option \<times> peers" where
  "ws_transmit write_value i s =
     (if hung (peer_store s i) then (None, s)
      else case msg_queue (peer_store s i) of
        [] \<Rightarrow> (None, s)
      | m # rest \<Rightarrow>
          (case encode_msgpack write_value m of
             Ok bs \<Rightarrow> (Some bs, on_peer i (\<lambda>p. p\<lparr>msg_queue := rest\<rparr>) s)
           | _ \<Rightarrow> (None, end_connection i s)))"

section \<open>Pings\<close>

definition DROP_AFTER :: nat where "DROP_AFTER = 60 * 10 ^ 9"
definition PING_AFTER :: nat where "PING_AFTER = 20 * 10 ^ 9"

definition get_timed_out_peers :: "nat \<Rightarrow> nat \<Rightarrow> nat \<Rightarrow> peers \<Rightarrow> u64 list \<times> u64 list" where
  "get_timed_out_peers now drop_after ping_after s =
     (let lag = (\<lambda>i. now - last_msg_time (peer_store s i)) in
      (filter (\<lambda>i. \<not> lag i > drop_after \<and> lag i > ping_after) (peer_list s),
       filter (\<lambda>i. lag i > drop_after) (peer_list s)))"

definition do_pings :: "nat \<Rightarrow> unit peers_st" where
  "do_pings now s =
     (let (ping_list, drop_list) = get_timed_out_peers now DROP_AFTER PING_AFTER s in
      st_bind (st_for ping_list (\<lambda>i. st_bind next_msg_id (\<lambda>seq. send_ignore i (WireMessage seq PING))))
        (\<lambda>_. st_for drop_list drop_peer) s)"

section \<open>Information\<close>

record peer_info =
  info_addr :: string
  outstanding_requests :: nat
  time_since_msg :: nat

record peers_info =
  info_peers :: "peer_info list"
  announcements :: nat
  ann_by_hash_len :: nat

definition peer_get_info :: "nat \<Rightarrow> peer \<Rightarrow> peer_info" where
  "peer_get_info now p = \<lparr>info_addr = addr p, outstanding_requests = card (outstanding_reqs p), time_since_msg = now - last_msg_time p\<rparr>"

definition get_info :: "nat \<Rightarrow> peers \<Rightarrow> peers_info" where
  "get_info now s =
     (let (hash_count, ann_count) = ann_list_info (anns s) in
      \<lparr>info_peers = map (\<lambda>i. peer_get_info now (peer_store s i)) (peer_list s), announcements = hash_count, ann_by_hash_len = ann_count\<rparr>)"

section \<open>Connecting\<close>

text \<open>Slicing a string at a byte index past its end panics; ASCII text is assumed, so bytes are characters.\<close>

definition trim_brackets :: "string \<Rightarrow> (string, 'e) result" where
  "trim_brackets host =
     (let n = length host in
      if n \<ge> 2 \<and> hd host = CHR ''['' \<and> last host = CHR '']'' then
        (if 1 \<le> n - 2 then Ok (drop 1 (take (n - 2) host)) else Panic)
      else Ok host)"

definition reconnect_delay :: "bool \<Rightarrow> nat" where
  "reconnect_delay sucessfully_connected = (if sucessfully_connected then 1 else 10) * 10 ^ 9"

section \<open>The invariant\<close>

text \<open>The list of announcements is consistent, the connections in the list are numbered below the
  counter and not listed twice, only outgoing connections have requests outstanding, and every
  queued message survives the wire.\<close>

definition peer_ok :: "peer \<Rightarrow> bool" where
  "peer_ok p \<longleftrightarrow> (peer_type p = Incoming \<longrightarrow> outstanding_reqs p = {})
     \<and> (\<forall>n d. WireMessage n d \<in> set (msg_queue p) \<longrightarrow> data_ok d \<and> ((\<exists>h. d = GET_DATA h) \<longrightarrow> peer_type p = Outgoing))"

definition peers_ok :: "peers \<Rightarrow> bool" where
  "peers_ok s \<longleftrightarrow> ann_list_ok (anns s) \<and> [] \<notin> set (ann_hashes_ordered (anns s)) \<and> distinct (peer_list s)
     \<and> (\<forall>i \<in> set (peer_list s). i < peer_id_seq s) \<and> (\<forall>i. peer_ok (peer_store s i))"

lemma on_peer_simps [simp]:
  "peer_store (on_peer i f s) = (peer_store s)(i := f (peer_store s i))" "anns (on_peer i f s) = anns s"
  "peer_list (on_peer i f s) = peer_list s" "peer_id_seq (on_peer i f s) = peer_id_seq s"
  "announce_tx (on_peer i f s) = announce_tx s" "announce_open (on_peer i f s) = announce_open s"
  "msg_id_seq (on_peer i f s) = msg_id_seq s"
  by (simp_all add: on_peer_def)

lemma on_peer_ok: "peers_ok s \<Longrightarrow> (peer_ok (peer_store s i) \<Longrightarrow> peer_ok (f (peer_store s i))) \<Longrightarrow> peers_ok (on_peer i f s)"
  by (simp add: peers_ok_def)

lemma peer_new_ok [simp]: "peer_ok (peer_new a t now)"
  by (simp add: peer_ok_def peer_new_def)

lemma peers_new_ok: "peers_ok (peers_new seed)"
  by (simp add: peers_ok_def peers_new_def ann_list_new_def ann_list_ok_def)

lemma enqueue_ok:
  "peer_ok p \<Longrightarrow> data_ok d \<Longrightarrow> ((\<exists>h. d = GET_DATA h) \<Longrightarrow> peer_type p = Outgoing) \<Longrightarrow> peer_ok (enqueue (WireMessage n d) p)"
  by (auto simp: peer_ok_def enqueue_def)

lemma send_msg_ok:
  assumes "peers_ok s" and "data_ok d" and "(\<exists>h. d = GET_DATA h) \<Longrightarrow> peer_type (peer_store s i) = Outgoing"
  shows "peers_ok (snd (send_msg i (WireMessage n d) s))"
  using assms by (auto simp: send_msg_def intro!: on_peer_ok enqueue_ok)

lemma send_own_ok:
  assumes "peers_ok s" and "data_ok d" and "(\<exists>h. d = GET_DATA h) \<Longrightarrow> peer_type (peer_store s i) = Outgoing"
  shows "peers_ok (snd (send_own i (WireMessage n d) s))"
  using assms by (auto simp: send_own_def send_msg_ok)

lemma keeps_send:
  "data_ok d \<Longrightarrow> (\<And>h. d \<noteq> GET_DATA h) \<Longrightarrow> keeps peers_ok (send_own i (WireMessage n d))"
  "data_ok d \<Longrightarrow> (\<And>h. d \<noteq> GET_DATA h) \<Longrightarrow> keeps peers_ok (send_ignore i (WireMessage n d))"
  by (auto simp: keeps_def send_ignore_def intro!: send_own_ok send_msg_ok)

lemma remove_peer_ok: "peers_ok s \<Longrightarrow> peers_ok (remove_peer i s)"
  by (auto simp: peers_ok_def remove_peer_def)

lemma below_next: "i \<le> w \<Longrightarrow> w \<noteq> - 1 \<Longrightarrow> i < (w :: u64) + 1"
proof -
  assume i: "i \<le> w" and w: "w \<noteq> - 1"
  have "1 + w \<noteq> 0" using w by (metis add.commute add_eq_0_iff2)
  then have "unat (1 + w) = Suc (unat w)" by (rule unatSuc)
  with i show ?thesis by (simp add: word_less_nat_alt word_le_nat_alt add.commute)
qed

lemma create_peer_ok:
  assumes "peers_ok s" and "peer_id_seq s \<noteq> - 1"
  shows "peers_ok (snd (create_peer t a now s))"
  using assms below_next by (auto simp: peers_ok_def create_peer_def seq_next_def intro: less_imp_le)

lemma start_incoming_ok:
  assumes "peers_ok s" and "peer_id_seq s \<noteq> - 1"
  shows "peers_ok (snd (start_incoming a now s))"
proof -
  obtain i s1 where c: "create_peer Incoming a now s = (Ok i, s1)" by (simp add: create_peer_def seq_next_def)
  then have s1: "peers_ok s1" using create_peer_ok [OF assms, of Incoming a now] by simp
  have "keeps peers_ok (st_for (chunks INV_CHUNK hs) (\<lambda>h. send_own i (WireMessage 0 (INV h))))" if "[] \<notin> set hs" for hs
    using that set_chunks by (intro keeps_for keeps_send) auto
  then have chunks: "keeps peers_ok (st_bind (st_for (chunks INV_CHUNK hs) (\<lambda>h. send_own i (WireMessage 0 (INV h)))) (\<lambda>_. st_ok i))"
    if "[] \<notin> set hs" for hs using that by (intro keeps_bind) simp_all
  have "keeps peers_ok (st_bind (send_own i (WireMessage 0 (HELLO PEERS_VERSION))) (\<lambda>_.
     st_bind (st_get (\<lambda>s. ann_hashes_ordered (anns s))) (\<lambda>hash_list.
     st_bind (st_for (chunks INV_CHUNK hash_list) (\<lambda>h. send_own i (WireMessage 0 (INV h)))) (\<lambda>_. st_ok i))))"
    by (intro keeps_bind keeps_get_bind keeps_send chunks) (simp_all add: peers_ok_def)
  from keepsD [OF this s1] show ?thesis using c by (simp add: start_incoming_def st_bind_run)
qed

lemma start_outgoing_ok:
  assumes "peers_ok s" and "peer_id_seq s \<noteq> - 1"
  shows "peers_ok (snd (start_outgoing a now s))"
proof -
  obtain i s1 where c: "create_peer Outgoing a now s = (Ok i, s1)" by (simp add: create_peer_def seq_next_def)
  then have s1: "peers_ok s1" using create_peer_ok [OF assms, of Outgoing a now] by simp
  have "keeps peers_ok (st_bind (send_own i (WireMessage 0 (OLLEH PEERS_VERSION))) (\<lambda>_. st_ok i))"
    by (intro keeps_bind keeps_send) simp_all
  from keepsD [OF this s1] show ?thesis using c by (simp add: start_outgoing_def st_bind_run)
qed

lemma end_connection_ok: "peers_ok s \<Longrightarrow> peers_ok (end_connection i s)"
  by (auto simp: end_connection_def peer_ok_def intro!: remove_peer_ok on_peer_ok)

section \<open>Messages keep the invariant\<close>

lemma request_hash_ok:
  assumes "peers_ok s" and "peer_type (peer_store s i) = Outgoing" and "h \<noteq> []"
  shows "peers_ok (snd (request_hash i h s))" and "peer_type (peer_store (snd (request_hash i h s)) i) = Outgoing"
proof -
  let ?n = "msg_id_seq s"
  let ?s = "add_pending_req i ?n (s\<lparr>msg_id_seq := ?n + 1\<rparr>)"
  have eq: "request_hash i h s = (if hash_known h (anns s) then (Ok (), s) else send_own i (WireMessage ?n (GET_DATA h)) ?s)"
    by (simp add: request_hash_def next_msg_id_def seq_next_def st_bind_def)
  have "peers_ok (s\<lparr>msg_id_seq := ?n + 1\<rparr>)" using assms(1) by (simp add: peers_ok_def)
  then have s: "peers_ok ?s" "peer_type (peer_store ?s i) = Outgoing"
    using assms(2) by (auto simp: add_pending_req_def peer_ok_def intro!: on_peer_ok)
  show "peers_ok (snd (request_hash i h s))" using assms s send_own_ok [OF s(1), of "GET_DATA h" i ?n] by (simp add: eq)
  show "peer_type (peer_store (snd (request_hash i h s)) i) = Outgoing"
    using assms(2) s(2) by (auto simp: eq send_own_def send_msg_def enqueue_def)
qed

lemma request_hashes_ok:
  assumes "peers_ok s" and "peer_type (peer_store s i) = Outgoing" and "[] \<notin> set hs"
  shows "peers_ok (snd (st_for hs (request_hash i) s))"
proof -
  have "keeps (\<lambda>s. peers_ok s \<and> peer_type (peer_store s i) = Outgoing) (st_for hs (request_hash i))"
  proof (rule keeps_for)
    fix h assume "h \<in> set hs"
    then have "h \<noteq> []" using assms(3) by auto
    then show "keeps (\<lambda>s. peers_ok s \<and> peer_type (peer_store s i) = Outgoing) (request_hash i h)"
      using request_hash_ok [of _ i h] by (simp add: keeps_def)
  qed
  from keepsD [OF this] show ?thesis using assms(1,2) by simp
qed

lemma process_message_ok:
  assumes "peers_ok s" and "data_ok msg"
  shows "peers_ok (snd (process_message i n msg s))"
proof (cases msg)
  case (INV hs)
  then show ?thesis using assms by (simp add: process_message_def request_hashes_ok)
next
  case (DATA d)
  have "peers_ok (snd (complete_req i n s))"
    using assms(1) by (auto simp: complete_req_def peer_ok_def intro!: on_peer_ok)
  then have "peers_ok s' \<and> peers_ok (s'\<lparr>announce_tx := t\<rparr>)" if "complete_req i n s = (r, s')" for r s' t
    using that by (simp add: peers_ok_def)
  then show ?thesis using assms DATA
    by (auto simp: process_message_def st_bind_def send_announce_def split: prod.splits result.splits)
qed (use assms in \<open>auto simp: process_message_def intro!: send_own_ok\<close>)

lemma handle_message_ok:
  assumes "peers_ok s" and "data_ok msg"
  shows "peers_ok (snd (handle_message now i (WireMessage n msg) s))"
proof -
  have "peers_ok (on_peer i (\<lambda>p. p\<lparr>last_msg_time := now\<rparr>) s)"
    using assms(1) by (auto simp: peer_ok_def intro!: on_peer_ok)
  then show ?thesis using assms(2) by (simp add: Let_def remove_peer_ok process_message_ok)
qed

lemma after_handler_ok: "peers_ok (snd rs) \<Longrightarrow> peers_ok (after_handler i rs)"
  by (cases rs) (auto simp: after_handler_def peer_ok_def end_connection_ok intro!: on_peer_ok split: result.splits peer_error.splits)

lemma ws_receive_ok: "peers_ok s \<Longrightarrow> peers_ok (ws_receive read_value now i bs s)"
proof (cases "decode_msgpack read_value bs")
  case (Ok m)
  moreover assume "peers_ok s"
  moreover obtain n d where "m = WireMessage n d" by (cases m)
  ultimately show ?thesis
    using message_from_msgpack_ok handle_message_ok [of s d now i n]
    by (auto simp: ws_receive_def decode_msgpack_def ok_iff intro!: after_handler_ok)
qed (auto simp: ws_receive_def end_connection_ok)

lemma ws_transmit_ok: "peers_ok s \<Longrightarrow> peers_ok (snd (ws_transmit write_value i s))"
  by (auto simp: ws_transmit_def peer_ok_def intro!: on_peer_ok end_connection_ok split: list.splits result.splits)

lemma add_ann_ok:
  assumes "peers_ok s" and "h \<noteq> []"
  shows "peers_ok (snd (add_ann h b s))"
proof -
  have "keeps peers_ok (offer h i)" for i
    using assms(2) keeps_send(2) [of "INV [h]" i 0] by (simp add: keeps_def offer_def)
  then have k: "keeps peers_ok (st_for is (offer h))" for "is" by (rule keeps_for)
  have "peers_ok (s\<lparr>anns := ann_list_add h b (anns s)\<rparr>)" if "h \<notin> set (ann_hashes_ordered (anns s))"
    using assms that by (auto simp: peers_ok_def ann_list_add_ok) (auto simp: ann_list_add_def)
  from keepsD [OF k this] show ?thesis using assms(1) by (auto simp: add_ann_def)
qed

lemma del_ann_ok: "peers_ok s \<Longrightarrow> peers_ok (del_ann h s)"
  by (auto simp: peers_ok_def del_ann_def ann_list_remove_ok) (auto simp: ann_list_remove_def)

lemma do_pings_ok: "peers_ok s \<Longrightarrow> peers_ok (snd (do_pings now s))"
proof -
  have n: "keeps peers_ok next_msg_id" by (auto simp: keeps_def next_msg_id_def seq_next_def peers_ok_def)
  have d: "keeps peers_ok (drop_peer i)" for i by (auto simp: drop_peer_def intro!: keeps_modify remove_peer_ok)
  have "keeps peers_ok (do_pings now)"
  proof -
    have "keeps peers_ok (st_bind (st_for ps (\<lambda>i. st_bind next_msg_id (\<lambda>seq. send_ignore i (WireMessage seq PING))))
        (\<lambda>_. st_for ds drop_peer))" for ps ds
      by (intro keeps_bind keeps_for n d keeps_send) simp_all
    then show ?thesis by (simp add: keeps_def do_pings_def split: prod.splits)
  qed
  then show "peers_ok s \<Longrightarrow> peers_ok (snd (do_pings now s))" by (rule keepsD)
qed

section \<open>Runs\<close>

text \<open>What can happen to the peer side of a supernode: the server publishes and withdraws
  announcements, connections start and end, messages come and go, pings are sent.\<close>

datatype event =
    Publish hash bytes
  | Withdraw hash
  | StartIncoming string nat
  | StartOutgoing string nat
  | Receive nat u64 bytes
  | Transmit u64
  | EndConnection u64
  | Pings nat

fun peers_step ::
  "(bytes \<Rightarrow> (msgpack, string) result) \<Rightarrow> (msgpack \<Rightarrow> (bytes, string) result) \<Rightarrow> peers \<Rightarrow> event \<Rightarrow> peers" where
  "peers_step r w s (Publish h b) = snd (add_ann h b s)"
| "peers_step r w s (Withdraw h) = del_ann h s"
| "peers_step r w s (StartIncoming a now) = snd (start_incoming a now s)"
| "peers_step r w s (StartOutgoing a now) = snd (start_outgoing a now s)"
| "peers_step r w s (Receive now i bs) = ws_receive r now i bs s"
| "peers_step r w s (Transmit i) = snd (ws_transmit w i s)"
| "peers_step r w s (EndConnection i) = end_connection i s"
| "peers_step r w s (Pings now) = snd (do_pings now s)"

text \<open>Hashes are SHA-512 digests, so a published hash is not empty; connections are counted in 64
  bits and fewer than that many are made.\<close>

fun event_ok :: "peers \<Rightarrow> event \<Rightarrow> bool" where
  "event_ok s (Publish h b) = (h \<noteq> [])"
| "event_ok s (StartIncoming a now) = (peer_id_seq s \<noteq> - 1)"
| "event_ok s (StartOutgoing a now) = (peer_id_seq s \<noteq> - 1)"
| "event_ok s _ = True"

inductive peers_reachable ::
  "(bytes \<Rightarrow> (msgpack, string) result) \<Rightarrow> (msgpack \<Rightarrow> (bytes, string) result) \<Rightarrow> peers \<Rightarrow> bool"
  for r w where
  start: "peers_reachable r w (peers_new seed)"
| step: "peers_reachable r w s \<Longrightarrow> event_ok s e \<Longrightarrow> peers_reachable r w (peers_step r w s e)"

lemma peers_step_ok: "peers_ok s \<Longrightarrow> event_ok s e \<Longrightarrow> peers_ok (peers_step r w s e)"
  by (cases e) (simp_all add: add_ann_ok del_ann_ok start_incoming_ok start_outgoing_ok ws_receive_ok ws_transmit_ok
      end_connection_ok do_pings_ok)

lemma reachable_ok: "peers_reachable r w s \<Longrightarrow> peers_ok s"
  by (induction rule: peers_reachable.induct) (simp_all add: peers_new_ok peers_step_ok)

section \<open>Gossip\<close>

lemma ws_receive_message:
  "\<not> hung (peer_store s i) \<Longrightarrow> r bs = Ok (message_as_msgpack (WireMessage n d)) \<Longrightarrow> data_ok d
   \<Longrightarrow> ws_receive r now i bs s = after_handler i (handle_message now i (WireMessage n d) s)"
  using message_msgpack [of n d] by (simp add: ws_receive_def decode_msgpack_def)

lemma ws_transmit_message:
  "\<not> hung (peer_store s i) \<Longrightarrow> msg_queue (peer_store s i) = m # rest \<Longrightarrow> w (message_as_msgpack m) = Ok bs
   \<Longrightarrow> ws_transmit w i s = (Some bs, on_peer i (\<lambda>p. p\<lparr>msg_queue := rest\<rparr>) s)"
  by (simp add: ws_transmit_def encode_msgpack_def)

lemma offer_step:
  "fst (offer h k s) = Ok ()" "anns (snd (offer h k s)) = anns s"
  "j \<noteq> k \<Longrightarrow> peer_store (snd (offer h k s)) j = peer_store s j"
  by (simp_all add: offer_def send_ignore_def send_msg_def)

lemma offers_Cons: "st_for (k # ks) (offer h) s = st_for ks (offer h) (snd (offer h k s))"
  using offer_step(1) [of h k s] by (cases "offer h k s") (simp add: st_bind_def)

lemma offers_others:
  "j \<notin> set is \<Longrightarrow> peer_store (snd (st_for is (offer h) s)) j = peer_store s j \<and> anns (snd (st_for is (offer h) s)) = anns s"
  by (induction "is" arbitrary: s) (simp_all add: offers_Cons offer_step del: st_for.simps(2))

lemma offers_sent:
  assumes "distinct is" and "i \<in> set is" and "peer_type (peer_store s i) = Incoming" and "connected (peer_store s i)"
  shows "peer_store (snd (st_for is (offer h) s)) i = enqueue (WireMessage 0 (INV [h])) (peer_store s i)
    \<and> anns (snd (st_for is (offer h) s)) = anns s"
  using assms
proof (induction "is" arbitrary: s)
  case (Cons k ks)
  show ?case
  proof (cases "k = i")
    case True
    have "peer_store (snd (offer h i s)) i = enqueue (WireMessage 0 (INV [h])) (peer_store s i)"
      using Cons.prems(3,4) by (simp add: offer_def send_ignore_def send_msg_def)
    then show ?thesis using Cons.prems(1) True offers_others [of i ks h "snd (offer h i s)"]
      by (simp add: offers_Cons offer_step del: st_for.simps)
  next
    case False
    then show ?thesis using Cons.prems Cons.IH [of "snd (offer h k s)"]
      by (simp add: offers_Cons offer_step del: st_for.simps)
  qed
qed simp

lemma add_ann_queues:
  assumes "h \<notin> set (ann_hashes_ordered (anns s))" and "distinct (peer_list s)"
    and "i \<in> set (peer_list s)" and "peer_type (peer_store s i) = Incoming" and "connected (peer_store s i)"
  shows "peer_store (snd (add_ann h b s)) i = enqueue (WireMessage 0 (INV [h])) (peer_store s i)"
    and "anns (snd (add_ann h b s)) = ann_list_add h b (anns s)"
  using offers_sent [OF assms(2,3), of "s\<lparr>anns := ann_list_add h b (anns s)\<rparr>" h] assms(1,4,5)
  by (simp_all add: add_ann_def)

definition idle :: "peers \<Rightarrow> u64 \<Rightarrow> bool" where
  "idle s i \<longleftrightarrow> connected (peer_store s i) \<and> \<not> hung (peer_store s i) \<and> msg_queue (peer_store s i) = []"

lemma inv_received:
  assumes "idle s i" and "peer_type (peer_store s i) = Outgoing" and "\<not> hash_known h (anns s)"
  shows "after_handler i (handle_message now i (WireMessage 0 (INV [h])) s)
     = on_peer i (\<lambda>p. p\<lparr>last_msg_time := now, outstanding_reqs := insert (msg_id_seq s) (outstanding_reqs p),
         msg_queue := [WireMessage (msg_id_seq s) (GET_DATA h)]\<rparr>) (s\<lparr>msg_id_seq := msg_id_seq s + 1\<rparr>)"
  using assms
  by (simp add: idle_def hello_valid_def process_message_def request_hash_def next_msg_id_def seq_next_def add_pending_req_def
      st_bind_def send_own_def send_msg_def enqueue_def MSG_QUEUE_SIZE_def after_handler_def on_peer_def)

lemma get_data_received:
  assumes "idle s i" and "ann_by_hash (anns s) h = Some b"
  shows "after_handler i (handle_message now i (WireMessage n (GET_DATA h)) s)
     = on_peer i (\<lambda>p. p\<lparr>last_msg_time := now, msg_queue := [WireMessage n (DATA b)]\<rparr>) s"
  using assms
  by (simp add: idle_def hello_valid_def process_message_def send_own_def send_msg_def enqueue_def MSG_QUEUE_SIZE_def
      after_handler_def on_peer_def)

lemma data_received:
  assumes "peer_type (peer_store s i) = Outgoing" and "n \<in> outstanding_reqs (peer_store s i)" and "announce_open s"
  shows "after_handler i (handle_message now i (WireMessage n (DATA b)) s)
     = on_peer i (\<lambda>p. p\<lparr>last_msg_time := now, outstanding_reqs := outstanding_reqs p - {n}\<rparr>) (s\<lparr>announce_tx := announce_tx s @ [b]\<rparr>)"
  using assms
  by (simp add: hello_valid_def process_message_def complete_req_def send_announce_def st_bind_def after_handler_def on_peer_def)

lemma announces_only_requested:
  "announce_tx (snd (handle_message now i (WireMessage n msg) s)) = announce_tx s
   \<or> (\<exists>d. msg = DATA d \<and> peer_type (peer_store s i) = Outgoing \<and> n \<in> outstanding_reqs (peer_store s i)
        \<and> announce_tx (snd (handle_message now i (WireMessage n msg) s)) = announce_tx s @ [d]
        \<and> n \<notin> outstanding_reqs (peer_store (snd (handle_message now i (WireMessage n msg) s)) i))"
proof -
  have own: "announce_tx (snd (send_own i m s)) = announce_tx s" for m s by (simp add: send_own_def send_msg_def)
  have req: "keeps (\<lambda>t. announce_tx t = announce_tx s) (request_hash i h)" for h s
    by (auto simp: keeps_def request_hash_def next_msg_id_def seq_next_def st_bind_def add_pending_req_def own)
  have "announce_tx (snd (st_for hs (request_hash i) s)) = announce_tx s" for hs s
    by (rule keepsD [OF keeps_for [OF req]]) simp
  then show ?thesis
    by (cases msg) (auto simp: Let_def remove_peer_def process_message_def own complete_req_def send_announce_def st_bind_def)
qed

lemma request_hash_run:
  assumes "connected (peer_store s i)"
  shows "request_hash i h s =
     (if hash_known h (anns s) then (Ok (), s)
      else let t = add_pending_req i (msg_id_seq s) (s\<lparr>msg_id_seq := msg_id_seq s + 1\<rparr>) in
        if MSG_QUEUE_SIZE \<le> length (msg_queue (peer_store s i)) then (Err Blocked, t)
        else (Ok (), on_peer i (enqueue (WireMessage (msg_id_seq s) (GET_DATA h))) t))"
  using assms
  by (simp add: request_hash_def next_msg_id_def seq_next_def st_bind_def add_pending_req_def send_own_def send_msg_def)

lemma inv_room:
  assumes "connected (peer_store s i)" and "length (msg_queue (peer_store s i)) \<le> MSG_QUEUE_SIZE"
  shows "fst (st_for hs (request_hash i) s) =
    (if length (msg_queue (peer_store s i)) + length (filter (\<lambda>h. \<not> hash_known h (anns s)) hs) \<le> MSG_QUEUE_SIZE
     then Ok () else Err Blocked)"
  using assms
proof (induction hs arbitrary: s)
  case (Cons h hs)
  let ?s = "on_peer i (enqueue (WireMessage (msg_id_seq s) (GET_DATA h))) (add_pending_req i (msg_id_seq s) (s\<lparr>msg_id_seq := msg_id_seq s + 1\<rparr>))"
  have s: "connected (peer_store ?s i)" "length (msg_queue (peer_store ?s i)) = Suc (length (msg_queue (peer_store s i)))" "anns ?s = anns s"
    using Cons.prems(1) by (simp_all add: enqueue_def add_pending_req_def)
  show ?case
  proof (cases "hash_known h (anns s)")
    case True
    then show ?thesis using Cons by (simp add: st_bind_run request_hash_run)
  next
    case False
    show ?thesis
    proof (cases "MSG_QUEUE_SIZE \<le> length (msg_queue (peer_store s i))")
      case True
      then show ?thesis using False Cons.prems by (simp add: st_bind_run(2) request_hash_run Let_def)
    next
      case room: False
      then have "request_hash i h s = (Ok (), ?s)" using False Cons.prems(1) by (simp add: request_hash_run Let_def)
      then show ?thesis using Cons.IH [OF s(1)] room False s(2,3) by (simp add: st_bind_run)
    qed
  qed
qed simp

lemma trim_brackets_cuts: "trim_brackets ''[fc01::1]'' = Ok ''fc01::''"
  by (simp add: trim_brackets_def)

section \<open>Properties\<close>

text \<open>C25: in every state the peer side can reach, the list of announcements is consistent and without
  duplicates, no connection is listed twice, incoming connections have no requests outstanding, and
  every queued message that is written is read back by the other side as the same message.\<close>

theorem peers_invariant:
  assumes "peers_reachable r w s"
  shows "distinct (ann_hashes_ordered (anns s)) \<and> set (ann_hashes_ordered (anns s)) = dom (ann_by_hash (anns s))
    \<and> distinct (peer_list s)
    \<and> (\<forall>i. peer_type (peer_store s i) = Incoming \<longrightarrow> outstanding_reqs (peer_store s i) = {})
    \<and> (\<forall>i m bs. m \<in> set (msg_queue (peer_store s i)) \<and> r bs = Ok (message_as_msgpack m) \<longrightarrow> decode_msgpack r bs = Ok m)"
proof -
  have ok: "peers_ok s" using assms by (rule reachable_ok)
  have "decode_msgpack r bs = Ok m"
    if "m \<in> set (msg_queue (peer_store s i))" "r bs = Ok (message_as_msgpack m)" for i m bs
  proof -
    obtain n d where m: "m = WireMessage n d" by (cases m)
    then have "data_ok d" using ok that(1) by (simp add: peers_ok_def peer_ok_def)
    then show ?thesis using that(2) m message_msgpack [of n d] by (simp add: decode_msgpack_def)
  qed
  then show ?thesis using ok by (auto simp: peers_ok_def peer_ok_def ann_list_ok_def)
qed

lemma peers_invariant_witness:
  "outstanding_reqs (peer_store (peers_step (\<lambda>_. Err []) (\<lambda>_. Err []) (peers_new 7) (StartIncoming ''fc01::1'' 5)) 0) = {}"
proof -
  let ?s = "peers_step (\<lambda>_. Err []) (\<lambda>_. Err []) (peers_new 7) (StartIncoming ''fc01::1'' 5)"
  have "peers_reachable (\<lambda>_. Err []) (\<lambda>_. Err []) ?s"
    by (rule peers_reachable.step [OF peers_reachable.start]) (simp add: peers_new_def)
  moreover have "peer_type (peer_store ?s 0) = Incoming"
    by (simp add: start_incoming_def create_peer_def seq_next_def peers_new_def st_bind_def send_own_def send_msg_def
        peer_new_def MSG_QUEUE_SIZE_def enqueue_def ann_list_new_def chunks.simps)
  ultimately show ?thesis using peers_invariant by blast
qed

text \<open>C26: an announcement reaches the server only as the data of a message whose identifier is
  outstanding on an outgoing connection, and then that identifier is used up; no other message and
  no incoming connection can hand anything to the server.\<close>

theorem announcements_only_requested:
  assumes "handle_message now i (WireMessage n msg) s = (res, s')"
  shows "announce_tx s' = announce_tx s
    \<or> (\<exists>d. msg = DATA d \<and> peer_type (peer_store s i) = Outgoing \<and> n \<in> outstanding_reqs (peer_store s i)
         \<and> announce_tx s' = announce_tx s @ [d] \<and> n \<notin> outstanding_reqs (peer_store s' i))"
  using announces_only_requested [of now i n msg s] assms by (simp del: handle_message.simps)

lemma announcements_only_requested_witness:
  "announce_tx (snd (handle_message 5 0 (WireMessage 9 (DATA [1])) (peers_new 7))) = []"
proof -
  obtain res s' where "handle_message 5 0 (WireMessage 9 (DATA [1])) (peers_new 7) = (res, s')"
    by (cases "handle_message 5 0 (WireMessage 9 (DATA [1])) (peers_new 7)")
  then show ?thesis using announcements_only_requested [of 5 0 9 "DATA [1]" "peers_new 7" res s']
    by (auto simp: peers_new_def peer_new_def)
qed

text \<open>C27: a new announcement spreads. When supernode A publishes an announcement that B does not know
  and their connection is idle on both sides, then four messages later (offer, request, data, and the
  socket loops that carry them) B's server has received exactly the bytes A published, and the
  request is no longer outstanding.\<close>

theorem gossip_delivers:
  assumes codec: "\<And>v. \<exists>bs. w v = Ok bs \<and> r bs = Ok v"
    and A: "h \<noteq> []" "peers_ok A" "h \<notin> set (ann_hashes_ordered (anns A))" "i \<in> set (peer_list A)"
      "peer_type (peer_store A i) = Incoming" "idle A i"
    and B: "peer_type (peer_store B j) = Outgoing" "\<not> hash_known h (anns B)" "idle B j" "announce_open B"
      "msg_id_seq B \<notin> outstanding_reqs (peer_store B j)"
  shows "\<exists>m1 A2 m2 B2 m3 A4.
      ws_transmit w i (snd (add_ann h b A)) = (Some m1, A2)
    \<and> ws_transmit w j (ws_receive r ta j m1 B) = (Some m2, B2)
    \<and> ws_transmit w i (ws_receive r tb i m2 A2) = (Some m3, A4)
    \<and> announce_tx (ws_receive r tc j m3 B2) = announce_tx B @ [b]
    \<and> outstanding_reqs (peer_store (ws_receive r tc j m3 B2) j) = outstanding_reqs (peer_store B j)"
proof -
  let ?n = "msg_id_seq B"
  obtain m1 where m1: "w (message_as_msgpack (WireMessage 0 (INV [h]))) = Ok m1" "r m1 = Ok (message_as_msgpack (WireMessage 0 (INV [h])))"
    using codec by blast
  obtain m2 where m2: "w (message_as_msgpack (WireMessage ?n (GET_DATA h))) = Ok m2" "r m2 = Ok (message_as_msgpack (WireMessage ?n (GET_DATA h)))"
    using codec by blast
  obtain m3 where m3: "w (message_as_msgpack (WireMessage ?n (DATA b))) = Ok m3" "r m3 = Ok (message_as_msgpack (WireMessage ?n (DATA b)))"
    using codec by blast
  have idA: "connected (peer_store A i)" "\<not> hung (peer_store A i)" "msg_queue (peer_store A i) = []"
    and idB: "connected (peer_store B j)" "\<not> hung (peer_store B j)" "msg_queue (peer_store B j) = []"
    using A(6) B(3) by (simp_all add: idle_def)
  have q: "peer_store (snd (add_ann h b A)) i = enqueue (WireMessage 0 (INV [h])) (peer_store A i)"
    "anns (snd (add_ann h b A)) = ann_list_add h b (anns A)"
    using add_ann_queues [OF A(3) _ A(4,5) idA(1)] A(2) by (simp_all add: peers_ok_def)
  define A2 where "A2 = on_peer i (\<lambda>p. p\<lparr>msg_queue := []\<rparr>) (snd (add_ann h b A))"
  have t1: "ws_transmit w i (snd (add_ann h b A)) = (Some m1, A2)"
    unfolding A2_def by (rule ws_transmit_message [where m = "WireMessage 0 (INV [h])"]) (use q idA m1 in \<open>simp_all add: enqueue_def\<close>)
  have A2: "idle A2 i" "ann_by_hash (anns A2) h = Some b"
    using q idA by (simp_all add: A2_def idle_def enqueue_def ann_list_lookup)
  define B1 where "B1 = on_peer j (\<lambda>p. p\<lparr>last_msg_time := ta, outstanding_reqs := insert ?n (outstanding_reqs p),
      msg_queue := [WireMessage ?n (GET_DATA h)]\<rparr>) (B\<lparr>msg_id_seq := ?n + 1\<rparr>)"
  have r1: "ws_receive r ta j m1 B = B1"
    unfolding B1_def using ws_receive_message [of B j r m1 0 "INV [h]" ta] idB(2) m1(2) A(1) inv_received [OF B(3,1,2)] by simp
  define B2 where "B2 = on_peer j (\<lambda>p. p\<lparr>msg_queue := []\<rparr>) B1"
  have t2: "ws_transmit w j B1 = (Some m2, B2)"
    unfolding B2_def by (rule ws_transmit_message [where m = "WireMessage ?n (GET_DATA h)"]) (use idB m2 in \<open>simp_all add: B1_def\<close>)
  define A3 where "A3 = on_peer i (\<lambda>p. p\<lparr>last_msg_time := tb, msg_queue := [WireMessage ?n (DATA b)]\<rparr>) A2"
  have r2: "ws_receive r tb i m2 A2 = A3"
    unfolding A3_def using ws_receive_message [of A2 i r m2 ?n "GET_DATA h" tb] m2(2) A(1) get_data_received [OF A2] A2(1)
    by (simp add: idle_def)
  have t3: "ws_transmit w i A3 = (Some m3, on_peer i (\<lambda>p. p\<lparr>msg_queue := []\<rparr>) A3)"
    by (rule ws_transmit_message [where m = "WireMessage ?n (DATA b)"]) (use A2(1) m3 in \<open>simp_all add: A3_def idle_def\<close>)
  have r3: "ws_receive r tc j m3 B2 = after_handler j (handle_message tc j (WireMessage ?n (DATA b)) B2)"
    by (rule ws_receive_message) (use idB m3 in \<open>simp_all add: B2_def B1_def\<close>)
  also have "\<dots> = on_peer j (\<lambda>p. p\<lparr>last_msg_time := tc, outstanding_reqs := outstanding_reqs p - {?n}\<rparr>) (B2\<lparr>announce_tx := announce_tx B2 @ [b]\<rparr>)"
    by (rule data_received) (use B in \<open>simp_all add: B2_def B1_def\<close>)
  finally have "announce_tx (ws_receive r tc j m3 B2) = announce_tx B @ [b]"
    "outstanding_reqs (peer_store (ws_receive r tc j m3 B2) j) = outstanding_reqs (peer_store B j)"
    using B(5) by (simp_all add: B2_def B1_def)
  with t1 r1 t2 r2 t3 show ?thesis by auto
qed

text \<open>The witness needs some codec for all values; it numbers them.\<close>

instance msgpack :: countable
  by countable_datatype

definition sample_conn :: "peer_type \<Rightarrow> peers" where
  "sample_conn t = snd (create_peer t ''fc01::1'' 0 (peers_new 3))"

lemma gossip_delivers_witness:
  "\<exists>m3 B2. announce_tx (ws_receive (\<lambda>bs. Ok (from_nat (length bs))) 9 0 m3 B2) = [[1, 2, 3]]"
proof -
  have "\<exists>bs. Ok (replicate (to_nat v) (0 :: u8)) = (Ok bs :: (bytes, string) result) \<and> Ok (from_nat (length bs)) = (Ok v :: (msgpack, string) result)" for v
    by simp
  moreover have "peers_ok (sample_conn Incoming)"
    unfolding sample_conn_def by (rule create_peer_ok [OF peers_new_ok]) (simp add: peers_new_def)
  ultimately show ?thesis
    using gossip_delivers [where w = "\<lambda>v. Ok (replicate (to_nat v) 0)" and r = "\<lambda>bs. Ok (from_nat (length bs))"
      and h = "[7]" and A = "sample_conn Incoming" and i = 0 and B = "sample_conn Outgoing" and j = 0 and b = "[1, 2, 3]"
      and ta = 9 and tb = 9 and tc = 9]
    by (fastforce simp: sample_conn_def create_peer_def seq_next_def peers_new_def ann_list_new_def peer_new_def idle_def hash_known_def)
qed

text \<open>C28: handling an offer of hashes on an outgoing connection comes back exactly if the connection's
  queue has room for a request per unknown hash; with more than 1024 of them the handler waits on
  the queue that only its own task empties.\<close>

theorem inv_returns_iff_room:
  assumes "peer_type (peer_store s i) = Outgoing" and "connected (peer_store s i)"
    and "length (msg_queue (peer_store s i)) \<le> MSG_QUEUE_SIZE"
  shows "fst (handle_message now i (WireMessage n (INV hs)) s) =
    (if length (msg_queue (peer_store s i)) + length (filter (\<lambda>h. \<not> hash_known h (anns s)) hs) \<le> MSG_QUEUE_SIZE
     then Ok () else Err Blocked)"
  using assms inv_room [of "on_peer i (\<lambda>p. p\<lparr>last_msg_time := now\<rparr>) s" i hs]
  by (simp add: Let_def hello_valid_def process_message_def)

lemma inv_returns_iff_room_witness:
  "fst (handle_message 5 0 (WireMessage 0 (INV (replicate 1025 [7]))) (sample_conn Outgoing)) = Err Blocked"
proof -
  have "filter (\<lambda>h. \<not> hash_known h (anns (sample_conn Outgoing))) (replicate 1025 [7]) = replicate 1025 [7]"
    by (rule filter_True) (simp add: sample_conn_def create_peer_def seq_next_def peers_new_def ann_list_new_def hash_known_def)
  then show ?thesis
    using inv_returns_iff_room [of "sample_conn Outgoing" 0 5 0 "replicate 1025 [7]"]
    by (simp add: sample_conn_def create_peer_def seq_next_def peers_new_def peer_new_def MSG_QUEUE_SIZE_def)
qed

end
