(* ===== verification/Nodes.thy ===== *)
theory Nodes
  imports Link Peers
begin

text \<open>
  \<^verbatim>\<open>cjdns-snode/src/server/nodes.rs\<close>, \<^verbatim>\<open>server/hash.rs\<close> and the state of \<^verbatim>\<open>server.rs\<close>: the table of
  nodes by address with their announcements and links, together with the peer side whose
  announcement list follows it. System time is an integer number of nanoseconds since the epoch.
  A handle to a node in the table is its address; the self node is a separate node that is never in
  the table. Operations take the whole server state and return it; locks are held within one step.
\<close>

section \<open>State\<close>

type_synonym system_time = int

definition mktime :: "u64 \<Rightarrow> system_time" where
  "mktime ts = int (unat ts) * 1000000"

definition secs :: "nat \<Rightarrow> system_time" where
  "secs n = int n * 1000000000"

definition time_diff :: "system_time \<Rightarrow> system_time \<Rightarrow> system_time" where
  "time_diff a b = (if b \<le> a then a - b else b - a)"

datatype node_type = NodeType_Node

record node =
  node_type :: node_type
  node_version :: u16
  node_key :: public_key
  node_ipv6 :: ip6
  node_scheme :: encoding_scheme
  inward_links :: links
  node_timestamp :: system_time
  node_anns :: "announcement list"
  state_hash :: "ann_hash option"
  reset_msg :: "announcement option"

record server =
  srv_peers :: peers
  nodes_by_ip :: "ip6 \<Rightarrow> node option"
  debug_node :: "ip6 option"
  self_node :: "node option"
  current_node :: "ip6 option"

definition AGREED_TIMEOUT :: system_time where "AGREED_TIMEOUT = secs AGREED_TIMEOUT_SECS"
definition MAX_CLOCKSKEW :: system_time where "MAX_CLOCKSKEW = secs 10"
definition MAX_GLOBAL_CLOCKSKEW :: system_time where "MAX_GLOBAL_CLOCKSKEW = secs (60 * 60 * 20)"
definition GLOBAL_TIMEOUT :: system_time where "GLOBAL_TIMEOUT = MAX_GLOBAL_CLOCKSKEW + AGREED_TIMEOUT"

definition server_new :: "peers \<Rightarrow> server" where
  "server_new p = \<lparr>srv_peers = p, nodes_by_ip = Map.empty, debug_node = None, self_node = None, current_node = None\<rparr>"

section \<open>The table of nodes\<close>

definition all_ips :: "key_order \<Rightarrow> server \<Rightarrow> ip6 list" where
  "all_ips order s = order (dom (nodes_by_ip s))"

definition by_ip :: "server \<Rightarrow> ip6 \<Rightarrow> node option" where
  "by_ip s ip = nodes_by_ip s ip"

definition node_count :: "server \<Rightarrow> nat" where
  "node_count s = card (dom (nodes_by_ip s))"

definition node_eq :: "node \<Rightarrow> node \<Rightarrow> bool" where
  "node_eq a b \<longleftrightarrow> node_type a = node_type b \<and> node_version a = node_version b \<and> node_key a = node_key b
     \<and> node_ipv6 a = node_ipv6 b \<and> node_scheme a = node_scheme b"

definition dump_ann :: "announcement \<Rightarrow> writer \<Rightarrow> writer" where
  "dump_ann ann w = write_slice (binary ann) (write_u32_be (word_of_nat (length (binary ann))) w)"

definition anns_dump :: "key_order \<Rightarrow> server \<Rightarrow> bytes" where
  "anns_dump order s =
     into_vec (write_u32_be 0
       (fold dump_ann (concat (map (\<lambda>ip. node_anns (the (nodes_by_ip s ip))) (all_ips order s))) writer_new))"

fun del_anns :: "announcement list \<Rightarrow> peers \<Rightarrow> peers" where
  "del_anns [] p = p"
| "del_anns (ann # as) p = del_anns as (del_ann (ann_hash ann) p)"

definition forget_node :: "node \<Rightarrow> peers \<Rightarrow> peers" where
  "forget_node node p =
     (let p = del_anns (node_anns node) p in
      case reset_msg node of Some reset \<Rightarrow> del_ann (ann_hash reset) p | None \<Rightarrow> p)"

fun clean_nodes :: "system_time \<Rightarrow> ip6 list \<Rightarrow> server \<Rightarrow> server" where
  "clean_nodes min_time [] s = s"
| "clean_nodes min_time (ip # ips) s =
     clean_nodes min_time ips
       (case nodes_by_ip s ip of
          Some node \<Rightarrow>
            if node_timestamp node < min_time
            then s\<lparr>srv_peers := forget_node node (srv_peers s), nodes_by_ip := (nodes_by_ip s)(ip := None)\<rparr>
            else s
        | None \<Rightarrow> s)"

definition keep_table_clean :: "key_order \<Rightarrow> system_time \<Rightarrow> server \<Rightarrow> server" where
  "keep_table_clean order now s = clean_nodes (now - GLOBAL_TIMEOUT) (order (dom (nodes_by_ip s))) s"

datatype handler_error = NoSelfNode | UnknownEncodingScheme | AddNodeFailed

definition new_node ::
  "server \<Rightarrow> u16 \<Rightarrow> public_key \<Rightarrow> encoding_scheme option \<Rightarrow> system_time \<Rightarrow> ip6 \<Rightarrow> announcement option \<Rightarrow> (node, handler_error) result" where
  "new_node s version key scheme ts ip ann =
     and_then (case scheme of
         Some sch \<Rightarrow> Ok sch
       | None \<Rightarrow> (case nodes_by_ip s ip of Some onode \<Rightarrow> Ok (node_scheme onode) | None \<Rightarrow> Err UnknownEncodingScheme))
     (\<lambda>sch. Ok \<lparr>node_type = NodeType_Node, node_version = version, node_key = key, node_ipv6 = ip, node_scheme = sch,
         inward_links = Map.empty, node_timestamp = ts,
         node_anns = (case ann of Some a \<Rightarrow> [a] | None \<Rightarrow> []), state_hash = None, reset_msg = ann\<rparr>)"

definition nodes_add_node :: "node \<Rightarrow> bool \<Rightarrow> server \<Rightarrow> (unit, unit) result \<times> server" where
  "nodes_add_node node overwrite s =
     (if node_type node \<noteq> NodeType_Node then (Err (), s)
      else let old_node = nodes_by_ip s (node_ipv6 node) in
        if \<not> overwrite \<and> old_node \<noteq> None then (Err (), s)
        else let p = (case old_node of Some old \<Rightarrow> forget_node old (srv_peers s) | None \<Rightarrow> srv_peers s) in
          (Ok (), s\<lparr>srv_peers := p, nodes_by_ip := (nodes_by_ip s)(node_ipv6 node \<mapsto> node)\<rparr>))"

definition on_node :: "ip6 \<Rightarrow> (node \<Rightarrow> node) \<Rightarrow> server \<Rightarrow> server" where
  "on_node ip f s = s\<lparr>nodes_by_ip := (nodes_by_ip s)(ip := map_option f (nodes_by_ip s ip))\<rparr>"

section \<open>State hash\<close>

text \<open>Announcements are kept newest first; the hash is chained from the oldest one.\<close>

definition announcements_hash :: "(bytes \<Rightarrow> bytes) \<Rightarrow> announcement list \<Rightarrow> ann_hash" where
  "announcements_hash sha512 as = foldl (\<lambda>carry ann. sha512 (carry @ binary ann)) (replicate 64 0) (rev as)"

definition node_announcement_hash :: "(bytes \<Rightarrow> bytes) \<Rightarrow> ip6 option \<Rightarrow> server \<Rightarrow> ann_hash \<times> server" where
  "node_announcement_hash sha512 ip s =
     (case ip of
        None \<Rightarrow> (replicate 64 0, s)
      | Some ip \<Rightarrow>
          (case nodes_by_ip s ip of
             None \<Rightarrow> (replicate 64 0, s)
           | Some node \<Rightarrow>
               let carry = announcements_hash sha512 (node_anns node) in
               (carry, on_node ip (\<lambda>n. n\<lparr>state_hash := Some carry\<rparr>) s)))"

section \<open>Adding an announcement\<close>

fun announce_entities :: "entity list \<Rightarrow> bool \<Rightarrow> entity list \<Rightarrow> bool \<times> entity list" where
  "announce_entities [] safe announced = (safe, announced)"
| "announce_entities (e # es) safe announced =
     (if is_entity_ephemeral e then announce_entities es safe announced
      else if length (filter (\<lambda>je. is_entity_replacement e je) announced) = 0
      then announce_entities es True (announced @ [e])
      else announce_entities es safe announced)"

fun retain_anns :: "system_time \<Rightarrow> announcement \<Rightarrow> announcement list \<Rightarrow> entity list \<Rightarrow> announcement list \<times> announcement list" where
  "retain_anns since ann [] announced = ([], [])"
| "retain_anns since ann (a # as) announced =
     (if mktime (timestamp (ann_header a)) < since
      then (let (kept, dropped) = retain_anns since ann as announced in (kept, a # dropped))
      else let (safe, announced) = announce_entities (entities a) False announced;
               (kept, dropped) = retain_anns since ann as announced
           in if safe \<or> a = ann then (a # kept, dropped) else (kept, a # dropped))"

fun drop_anns :: "announcement option \<Rightarrow> announcement list \<Rightarrow> peers \<Rightarrow> peers" where
  "drop_anns reset [] p = p"
| "drop_anns reset (a # as) p = drop_anns reset as (if reset \<noteq> Some a then del_ann (ann_hash a) p else p)"

definition add_announcement :: "ip6 \<Rightarrow> announcement \<Rightarrow> server \<Rightarrow> server" where
  "add_announcement ip ann s =
     (case nodes_by_ip s ip of
        None \<Rightarrow> s
      | Some node \<Rightarrow>
          let time = mktime (timestamp (ann_header ann));
              (kept, dropped) = retain_anns (time - AGREED_TIMEOUT) ann (ann # node_anns node) [];
              p = drop_anns (reset_msg node) dropped (srv_peers s)
          in s\<lparr>srv_peers := p,
               nodes_by_ip := (nodes_by_ip s)(ip \<mapsto> node\<lparr>node_anns := kept, node_timestamp := time\<rparr>)\<rparr>)"

section \<open>What is retained\<close>

datatype key_kind = KeyScheme | KeyVersion | KeyPeer u16 | KeyNone

fun entity_key :: "entity \<Rightarrow> key_kind" where
  "entity_key (EncodingSchemeEntity h s) = KeyScheme"
| "entity_key (NodeProtocolVersion v) = KeyVersion"
| "entity_key (Peer p) = KeyPeer (peer_num p)"
| "entity_key (LinkState d) = KeyNone"

definition lasting :: "entity list \<Rightarrow> entity list" where
  "lasting es = filter (\<lambda>e. \<not> is_entity_ephemeral e) es"

lemma replacement_key:
  "\<not> is_entity_ephemeral e \<Longrightarrow> \<not> is_entity_ephemeral e' \<Longrightarrow> is_entity_replacement e e' \<longleftrightarrow> entity_key e = entity_key e'"
  by (cases e; cases e') (auto simp: is_entity_replacement_def is_entity_ephemeral_def)

lemma announce_entities_keys:
  assumes "\<forall>e \<in> set announced. \<not> is_entity_ephemeral e" and "announce_entities es safe announced = (safe', announced')"
  shows "(\<forall>e \<in> set announced'. \<not> is_entity_ephemeral e)
    \<and> entity_key ` set announced' = entity_key ` set announced \<union> entity_key ` set (lasting es)
    \<and> (safe' \<longleftrightarrow> safe \<or> (\<exists>e \<in> set (lasting es). entity_key e \<notin> entity_key ` set announced))"
  using assms
proof (induction es safe announced arbitrary: safe' announced' rule: announce_entities.induct)
  case (1 safe announced)
  then show ?case by (simp add: lasting_def)
next
  case (2 e es safe announced)
  show ?case
  proof (cases "is_entity_ephemeral e")
    case True
    then have "announce_entities es safe announced = (safe', announced')" using 2(5) by simp
    from 2(1) [OF True 2(4) this] show ?thesis using True by (simp add: lasting_def)
  next
    case False
    then have rep: "length (filter (\<lambda>je. is_entity_replacement e je) announced) = 0 \<longleftrightarrow> entity_key e \<notin> entity_key ` set announced"
    proof -
      have "filter (\<lambda>je. is_entity_replacement e je) announced = filter (\<lambda>je. entity_key e = entity_key je) announced"
        using 2(4) replacement_key [OF False] by (intro filter_cong) simp_all
      then show ?thesis by (auto simp: filter_empty_conv)
    qed
    show ?thesis
    proof (cases "entity_key e \<in> entity_key ` set announced")
      case True
      then show ?thesis using 2(3-5) False rep by (auto simp: lasting_def)
    next
      case new: False
      then have "announce_entities es True (announced @ [e]) = (safe', announced')" using 2(5) False rep by simp
      moreover have "\<forall>x \<in> set (announced @ [e]). \<not> is_entity_ephemeral x" using 2(4) False by simp
      ultimately have IH: "(\<forall>e \<in> set announced'. \<not> is_entity_ephemeral e)
         \<and> entity_key ` set announced' = entity_key ` set (announced @ [e]) \<union> entity_key ` set (lasting es) \<and> safe'"
        using 2(2) False rep new by auto
      then show ?thesis using False new by (auto simp: lasting_def)
    qed
  qed
qed

definition fresh :: "system_time \<Rightarrow> announcement \<Rightarrow> bool" where
  "fresh since a \<longleftrightarrow> since \<le> mktime (timestamp (ann_header a))"

text \<open>The entity in force for a key: the newest one announced.\<close>

definition in_force :: "announcement list \<Rightarrow> key_kind \<Rightarrow> entity option" where
  "in_force as k = find (\<lambda>e. entity_key e = k) (concat (map (\<lambda>a. lasting (entities a)) as))"

lemma find_append: "find P (xs @ ys) = (case find P xs of Some x \<Rightarrow> Some x | None \<Rightarrow> find P ys)"
  by (induction xs) auto

lemma in_force_Cons:
  "in_force (a # as) k = (case find (\<lambda>e. entity_key e = k) (lasting (entities a)) of Some e \<Rightarrow> Some e | None \<Rightarrow> in_force as k)"
  by (simp add: in_force_def find_append split: option.split)

lemma find_key_None: "find (\<lambda>e. entity_key e = k) es = None \<longleftrightarrow> k \<notin> entity_key ` set es"
  by (auto simp: find_None_iff)

lemma retain_stale:
  "\<not> fresh since a \<Longrightarrow> retain_anns since ann (a # as) announced =
     (fst (retain_anns since ann as announced), a # snd (retain_anns since ann as announced))"
  by (simp add: fresh_def split: prod.split)

lemma retain_fresh:
  "fresh since a \<Longrightarrow> announce_entities (entities a) False announced = (safe, announced') \<Longrightarrow>
   retain_anns since ann (a # as) announced =
     (if safe \<or> a = ann then (a # fst (retain_anns since ann as announced'), snd (retain_anns since ann as announced'))
      else (fst (retain_anns since ann as announced'), a # snd (retain_anns since ann as announced')))"
  by (simp add: fresh_def split: prod.split)

declare retain_anns.simps(2) [simp del]

lemma retain_anns_in_force:
  assumes "\<forall>e \<in> set announced. \<not> is_entity_ephemeral e" and "k \<notin> entity_key ` set announced"
  shows "in_force (fst (retain_anns since ann as announced)) k = in_force (filter (fresh since) as) k"
  using assms
proof (induction as arbitrary: announced)
  case (Cons a as)
  obtain safe announced' where ae: "announce_entities (entities a) False announced = (safe, announced')"
    by (cases "announce_entities (entities a) False announced")
  note keys = announce_entities_keys [OF Cons.prems(1) ae]
  show ?case
  proof (cases "fresh since a")
    case False
    then show ?thesis using Cons by (simp add: retain_stale)
  next
    case True
    let ?kept = "fst (retain_anns since ann as announced')"
    have step: "fst (retain_anns since ann (a # as) announced) = (if safe \<or> a = ann then a # ?kept else ?kept)"
      using True ae by (simp add: retain_fresh)
    show ?thesis
    proof (cases "find (\<lambda>e. entity_key e = k) (lasting (entities a))")
      case None
      then have "k \<notin> entity_key ` set announced'" using Cons.prems(2) keys by (simp add: find_key_None)
      then have "in_force ?kept k = in_force (filter (fresh since) as) k" using Cons.IH [of announced'] keys by simp
      then show ?thesis unfolding step using None True by (simp add: in_force_Cons)
    next
      case (Some e)
      then have "e \<in> set (lasting (entities a))" "entity_key e = k" by (auto simp: find_Some_iff)
      then have "safe" using Cons.prems(2) keys by blast
      then show ?thesis unfolding step using Some True by (simp add: in_force_Cons)
    qed
  qed
qed simp

lemma retain_anns_sets:
  "subseq (fst (retain_anns since ann as announced)) as
   \<and> set as = set (fst (retain_anns since ann as announced)) \<union> set (snd (retain_anns since ann as announced))
   \<and> (\<forall>a \<in> set (fst (retain_anns since ann as announced)). fresh since a)"
proof (induction as arbitrary: announced)
  case (Cons a as)
  obtain safe announced' where ae: "announce_entities (entities a) False announced = (safe, announced')"
    by (cases "announce_entities (entities a) False announced")
  show ?case
  proof (cases "fresh since a")
    case False
    then show ?thesis using Cons.IH [of announced] by (auto simp: retain_stale)
  next
    case True
    then show ?thesis using Cons.IH [of announced'] by (auto simp: retain_fresh [OF True ae])
  qed
qed simp

lemma retain_anns_head:
  assumes "fresh since ann"
  shows "\<exists>kept'. fst (retain_anns since ann (ann # as) []) = ann # kept' \<and> subseq kept' as"
proof -
  obtain safe announced' where ae: "announce_entities (entities ann) False [] = (safe, announced')"
    by (cases "announce_entities (entities ann) False []")
  show ?thesis using retain_fresh [OF assms ae, of ann as] retain_anns_sets [of since ann as announced'] by simp
qed

text \<open>Every retained announcement but the new one has an entity that no newer retained one replaces.\<close>

definition lasting_keys :: "announcement list \<Rightarrow> key_kind set" where
  "lasting_keys as = (\<Union>a \<in> set as. entity_key ` set (lasting (entities a)))"

lemma retain_anns_needed:
  assumes "\<forall>e \<in> set announced. \<not> is_entity_ephemeral e"
    and "fst (retain_anns since ann as announced) = xs @ a # ys" and "a \<noteq> ann"
  shows "\<exists>e \<in> set (lasting (entities a)). entity_key e \<notin> entity_key ` set announced \<union> lasting_keys xs"
  using assms(1,2)
proof (induction as arbitrary: announced xs)
  case (Cons b as)
  obtain safe announced' where ae: "announce_entities (entities b) False announced = (safe, announced')"
    by (cases "announce_entities (entities b) False announced")
  note keys = announce_entities_keys [OF Cons.prems(1) ae]
  show ?case
  proof (cases "fresh since b")
    case False
    then show ?thesis using Cons by (simp add: retain_stale)
  next
    case True
    let ?kept = "fst (retain_anns since ann as announced')"
    have step: "(if safe \<or> b = ann then b # ?kept else ?kept) = xs @ a # ys"
      using Cons.prems(2) retain_fresh [OF True ae, of ann as] by (cases "safe \<or> b = ann") simp_all
    show ?thesis
    proof (cases "xs = [] \<and> (safe \<or> b = ann)")
      case True
      then have "b = a" "safe" using step assms(3) by auto
      then obtain e where "e \<in> set (lasting (entities a))" "entity_key e \<notin> entity_key ` set announced" using keys by blast
      then show ?thesis using True by (auto simp: lasting_keys_def)
    next
      case False
      then obtain zs where zs: "?kept = zs @ a # ys" "set xs \<subseteq> insert b (set zs)"
        using step by (cases xs) (auto split: if_splits)
      have "lasting_keys xs \<subseteq> entity_key ` set (lasting (entities b)) \<union> lasting_keys zs"
        using zs(2) by (auto simp: lasting_keys_def)
      moreover obtain e where "e \<in> set (lasting (entities a))" "entity_key e \<notin> entity_key ` set announced' \<union> lasting_keys zs"
        using Cons.IH [OF _ zs(1)] keys by blast
      moreover have "entity_key ` set (lasting (entities b)) \<union> entity_key ` set announced = entity_key ` set announced'"
        using keys by (simp add: Un_commute)
      ultimately show ?thesis by (intro bexI [of _ e]) auto
    qed
  qed
qed simp

end
