(* ===== verification/Server.thy ===== *)
theory Server
  imports Nodes
begin

text \<open>
  \<^verbatim>\<open>cjdns-snode/src/server.rs\<close>: handling of one announcement, from the packet to the reply. The
  cryptography of announcements, the current time and the iteration order of hash maps are
  parameters. The flag for verbose logging only selects log lines and is left out; so are the log
  lines themselves.
\<close>

datatype reply_error =
    NoError
  | FailedParseOrValidate
  | OldMessage
  | WrongSnode
  | ExcessiveClockSkew
  | NoEncodingScheme
  | NoVersion
  | UnknownNode

fun reply_error_text :: "reply_error \<Rightarrow> string" where
  "reply_error_text NoError = ''none''"
| "reply_error_text FailedParseOrValidate = ''failed_parse_or_validate''"
| "reply_error_text OldMessage = ''old_message''"
| "reply_error_text WrongSnode = ''wrong_snode''"
| "reply_error_text ExcessiveClockSkew = ''excessive_clock_skew''"
| "reply_error_text NoEncodingScheme = ''no_encodingScheme''"
| "reply_error_text NoVersion = ''no_version''"
| "reply_error_text UnknownNode = ''unknown_node''"

section \<open>The announcement\<close>

text \<open>The cryptographic functions that reading an announcement needs.\<close>

record 's crypto =
  sig_from_bytes :: "bytes \<Rightarrow> 's option"
  verify_detached :: "'s \<Rightarrow> bytes \<Rightarrow> bytes \<Rightarrow> bool"
  sha512 :: "bytes \<Rightarrow> bytes"
  pk_to_curve25519 :: "bytes \<Rightarrow> bytes option"
  hex_encode :: "bytes \<Rightarrow> string"

definition read_announcement :: "'s crypto \<Rightarrow> bytes \<Rightarrow> (announcement option, handler_error) result" where
  "read_announcement c announce =
     (case packet_try_new announce of
        Ok packet \<Rightarrow>
          (case packet_check (sig_from_bytes c) (verify_detached c) packet of
             Ok _ \<Rightarrow>
               (case packet_parse (sha512 c) (pk_to_curve25519 c) (hex_encode c) packet of
                  Ok ann \<Rightarrow> Ok (Some ann)
                | Err _ \<Rightarrow> Ok None
                | Panic \<Rightarrow> Panic)
           | Err _ \<Rightarrow> Ok None
           | Panic \<Rightarrow> Panic)
      | Err _ \<Rightarrow> Ok None
      | Panic \<Rightarrow> Panic)"

section \<open>Checks\<close>

type_synonym checked = "reply_error \<times> announcement option"

definition check_old :: "bool \<Rightarrow> node option \<Rightarrow> checked \<Rightarrow> checked" where
  "check_old from_subnode node ca =
     (case (node, snd ca) of
        (Some n, Some ann) \<Rightarrow>
          if from_subnode \<and> node_timestamp n > mktime (timestamp (ann_header ann)) then (OldMessage, None) else ca
      | _ \<Rightarrow> ca)"

definition check_snode :: "node \<Rightarrow> checked \<Rightarrow> checked" where
  "check_snode self ca =
     (case snd ca of
        Some ann \<Rightarrow> if snode_ip (ann_header ann) \<noteq> node_ipv6 self then (WrongSnode, None) else ca
      | None \<Rightarrow> ca)"

definition check_skew :: "system_time \<Rightarrow> checked \<Rightarrow> checked" where
  "check_skew now ca =
     (case snd ca of
        Some ann \<Rightarrow>
          if time_diff now (mktime (timestamp (ann_header ann))) > MAX_CLOCKSKEW then (ExcessiveClockSkew, None) else ca
      | None \<Rightarrow> ca)"

definition check_gossip :: "node option \<Rightarrow> checked \<Rightarrow> checked" where
  "check_gossip self ca =
     (case (self, snd ca) of
        (Some me, Some ann) \<Rightarrow> if node_ip ann = node_ipv6 me then (WrongSnode, None) else ca
      | _ \<Rightarrow> ca)"

definition check_source :: "system_time \<Rightarrow> bool \<Rightarrow> node option \<Rightarrow> checked \<Rightarrow> (checked, handler_error) result" where
  "check_source now from_subnode self ca =
     (if from_subnode
      then and_then (ok_or self NoSelfNode) (\<lambda>me. Ok (check_skew now (check_snode me ca)))
      else Ok (check_gossip self ca))"

definition find_scheme :: "node option \<Rightarrow> checked \<Rightarrow> encoding_scheme option \<times> checked" where
  "find_scheme node ca =
     (case map_option encoding_scheme_from_announcement (snd ca) of
        Some scheme \<Rightarrow> (scheme, ca)
      | None \<Rightarrow>
          (case node of
             Some n \<Rightarrow> (Some (node_scheme n), ca)
           | None \<Rightarrow> if snd ca \<noteq> None then (None, (NoEncodingScheme, None)) else (None, ca)))"

definition find_version :: "node option \<Rightarrow> checked \<Rightarrow> u16 option \<times> checked" where
  "find_version node ca =
     (case map_option version_from_announcement (snd ca) of
        Some ver \<Rightarrow> (ver, ca)
      | None \<Rightarrow>
          (case node of
             Some n \<Rightarrow> (Some (node_version n), ca)
           | None \<Rightarrow> if snd ca \<noteq> None then (None, (NoVersion, None)) else (None, ca)))"

section \<open>Handling\<close>

type_synonym 'a server_st = "(server, 'a, handler_error) st"

definition reply_hash :: "'s crypto \<Rightarrow> ip6 option \<Rightarrow> reply_error \<Rightarrow> (ann_hash \<times> reply_error) server_st" where
  "reply_hash c ip err s = (case node_announcement_hash (sha512 c) ip s of (h, s') \<Rightarrow> (Ok (h, err), s'))"

definition reset_node ::
  "u16 option \<Rightarrow> encoding_scheme option \<Rightarrow> announcement \<Rightarrow> unit server_st" where
  "reset_node version scheme ann s =
     (case version of
        None \<Rightarrow> (Panic, s)
      | Some ver \<Rightarrow>
          (case new_node s ver (node_pub_key ann) scheme (mktime (timestamp (ann_header ann))) (node_ip ann) (Some ann) of
             Err e \<Rightarrow> (Err e, s)
           | Panic \<Rightarrow> (Panic, s)
           | Ok n \<Rightarrow>
               (case nodes_add_node n True s of
                  (Ok _, s') \<Rightarrow> (Ok (), s')
                | (_, s') \<Rightarrow> (Err AddNodeFailed, s'))))"

definition update_links :: "(links \<Rightarrow> (links, handler_error) result) \<Rightarrow> ip6 \<Rightarrow> unit server_st" where
  "update_links f ip s =
     (case nodes_by_ip s ip of
        None \<Rightarrow> (Panic, s)
      | Some n \<Rightarrow>
          (case f (inward_links n) of
             Ok m \<Rightarrow> (Ok (), on_node ip (\<lambda>n. n\<lparr>inward_links := m\<rparr>) s)
           | Err e \<Rightarrow> (Err e, s)
           | Panic \<Rightarrow> (Panic, s)))"

definition publish :: "announcement \<Rightarrow> unit server_st" where
  "publish ann s =
     (case nodes_by_ip s (node_ip ann) of
        None \<Rightarrow> (Panic, s)
      | Some n \<Rightarrow>
          if ann \<in> set (node_anns n) \<or> reset_msg n = Some ann
          then (Ok (), s\<lparr>srv_peers := snd (add_ann (ann_hash ann) (binary ann) (srv_peers s))\<rparr>)
          else (Ok (), s))"

definition accept ::
  "'s crypto \<Rightarrow> key_order \<Rightarrow> announcement \<Rightarrow> reply_error \<Rightarrow> (ann_hash \<times> reply_error) server_st" where
  "accept c order ann err =
     st_bind (update_links (update_peers ann (peers_from_announcement ann)) (node_ip ann)) (\<lambda>_.
     st_bind (update_links (link_state_update1 order ann) (node_ip ann)) (\<lambda>_.
     st_bind (publish ann) (\<lambda>_.
     reply_hash c (Some (node_ip ann)) err)))"

definition handle_accepted ::
  "'s crypto \<Rightarrow> key_order \<Rightarrow> node option \<Rightarrow> u16 option \<Rightarrow> encoding_scheme option \<Rightarrow> announcement \<Rightarrow> reply_error
     \<Rightarrow> (ann_hash \<times> reply_error) server_st" where
  "handle_accepted c order node version scheme ann err s =
     (case node of
        Some n \<Rightarrow>
          if node_timestamp n > mktime (timestamp (ann_header ann)) then reply_hash c (Some (node_ip ann)) err s
          else if is_reset (ann_header ann)
          then st_bind (reset_node version scheme ann) (\<lambda>_. accept c order ann err) s
          else st_bind (st_modify (add_announcement (node_ip ann) ann)) (\<lambda>_. accept c order ann err) s
      | None \<Rightarrow>
          if is_reset (ann_header ann)
          then st_bind (reset_node version scheme ann) (\<lambda>_. accept c order ann err) s
          else reply_hash c None UnknownNode s)"

definition handle_checked ::
  "'s crypto \<Rightarrow> key_order \<Rightarrow> node option \<Rightarrow> ip6 option \<Rightarrow> checked \<Rightarrow> (ann_hash \<times> reply_error) server_st" where
  "handle_checked c order node ip ca =
     (let (scheme, ca) = find_scheme node ca;
          (version, ca) = find_version node ca
      in case snd ca of
           Some ann \<Rightarrow> handle_accepted c order node version scheme ann (fst ca)
         | None \<Rightarrow> reply_hash c (if node = None then None else ip) (fst ca))"

definition handle_announce_impl ::
  "'s crypto \<Rightarrow> key_order \<Rightarrow> system_time \<Rightarrow> bytes \<Rightarrow> bool \<Rightarrow> (ann_hash \<times> reply_error) server_st" where
  "handle_announce_impl c order now announce from_subnode s =
     (case read_announcement c announce of
        Panic \<Rightarrow> (Panic, s)
      | Err e \<Rightarrow> (Err e, s)
      | Ok None \<Rightarrow>
          (case check_source now from_subnode None (FailedParseOrValidate, None) of
             Ok ca \<Rightarrow> handle_checked c order None None ca s
           | Err e \<Rightarrow> (Err e, s)
           | Panic \<Rightarrow> (Panic, s))
      | Ok (Some ann) \<Rightarrow>
          (let s = s\<lparr>current_node := Some (node_ip ann)\<rparr>;
               node = by_ip s (node_ip ann) in
           case check_source now from_subnode (self_node s) (check_old from_subnode node (NoError, Some ann)) of
             Ok ca \<Rightarrow> handle_checked c order node (Some (node_ip ann)) ca s
           | Err e \<Rightarrow> (Err e, s)
           | Panic \<Rightarrow> (Panic, s)))"

definition peer_info :: "server \<Rightarrow> ip6 \<Rightarrow> ip6 option \<Rightarrow> nat \<times> bool" where
  "peer_info s ip reference_peer =
     (case by_ip s ip of
        None \<Rightarrow> (2 ^ 64 - 1, False)
      | Some n \<Rightarrow>
          (card (dom (inward_links n)),
           case reference_peer of Some rp \<Rightarrow> inward_links n rp \<noteq> None | None \<Rightarrow> False))"

end
