(* ===== verification/Seeder.thy ===== *)
theory Seeder
  imports Dnsseed Server
begin

text \<open>
  The seeder of the supernode (\<^verbatim>\<open>cjdns-snode/src/seeder/mod.rs\<close>): nodes post their peering
  credentials and get credentials of other nodes to peer with, testers report which of them
  answer, name servers ask for peers that do.

  What the seeder learns of the topology through \<open>PeerInfoProvider\<close> is the parameter \<open>pip\<close>; the
  supernode passes \<open>peer_info\<close> of its node table. The random index of \<open>gen_range(1, n)\<close> is
  \<open>pick n\<close>. Each operation runs with the lock on the state held, in one step.
\<close>

datatype seeder_error =
    WrongSender | MissingPeerId | UnknownPassword | BadAddress key_creation_error | BadRecord dns_error

definition NUM_PEERS_TO_RESPOND :: nat where
  "NUM_PEERS_TO_RESPOND = 6"

record seeder_peer =
  sp_ip :: ip6
  sp_peer_id :: bytes
  sp_creds :: cjdns_peer
  sp_ring :: u32
  sp_check_error :: "string option"
  sp_private :: bool
  sp_last_check :: nat
  sp_last_report :: nat

record seeder =
  sd_peers :: "seeder_peer list"
  sd_top_ring :: u32

record seeder_config =
  tester_passwds :: "string list"
  nameserver_passwds :: "string list"
  max_connection_count :: nat
  share_peers_with_nameserver :: nat

type_synonym peer_info_provider = "ip6 \<Rightarrow> ip6 option \<Rightarrow> nat \<times> bool"

definition seeder_new :: seeder where
  "seeder_new = \<lparr>sd_peers = [], sd_top_ring = 0\<rparr>"

fun is_ipv6 :: "socket_addr \<Rightarrow> bool" where
  "is_ipv6 (V4 _ _) = False"
| "is_ipv6 (V6 _ _ _ _) = True"

section \<open>Selecting peers\<close>

definition is_appropriate :: "seeder_config \<Rightarrow> peer_info_provider \<Rightarrow> ip6 \<Rightarrow> ip6 option \<Rightarrow> bool" where
  "is_appropriate cfg pip peer asker =
     (if asker = Some peer then False
      else case pip peer asker of (count, is_peer_of) \<Rightarrow> \<not> is_peer_of \<and> count < max_connection_count cfg)"

text \<open>Which rings an attempt looks at. The sum \<open>peer.ring + 1\<close> can overflow.\<close>

definition in_attempt :: "nat \<Rightarrow> u32 \<Rightarrow> seeder_peer \<Rightarrow> (bool, seeder_error) result" where
  "in_attempt attempt ring peer =
     (if attempt = 3 then Ok True
      else if attempt = 2 \<and> sp_ring peer \<ge> ring then Ok True
      else if attempt = 1 \<and> sp_ring peer = ring then Ok True
      else if attempt = 0 then map_ok (\<lambda>r. r = ring) (add_chk (sp_ring peer) 1)
      else Ok False)"

text \<open>
  One pass over the peers: whether the whole selection ends, how many peers were added, and the
  selection.
\<close>

fun try_peers ::
  "seeder_config \<Rightarrow> peer_info_provider \<Rightarrow> ip6 \<Rightarrow> bool \<Rightarrow> u32 \<Rightarrow> nat \<Rightarrow> seeder_peer list \<Rightarrow> nat \<Rightarrow> cjdns_peer list
     \<Rightarrow> (bool \<times> nat \<times> cjdns_peer list, seeder_error) result" where
  "try_peers cfg pip sender v6 ring attempt [] added out = Ok (False, added, out)"
| "try_peers cfg pip sender v6 ring attempt (peer # peers) added out =
     (if added \<ge> NUM_PEERS_TO_RESPOND then Ok (True, added, out)
      else if attempt = 4 then Ok (True, added, out)
      else and_then (in_attempt attempt ring peer) (\<lambda>looked_at.
        if \<not> looked_at \<or> sp_private peer \<or> is_ipv6 (peer_address (sp_creds peer)) \<noteq> v6
           \<or> sp_creds peer \<in> set out
        then try_peers cfg pip sender v6 ring attempt peers added out
        else if is_appropriate cfg pip (sp_ip peer) (Some sender)
        then if attempt = 0 then Ok (False, added + 1, out @ [sp_creds peer])
             else try_peers cfg pip sender v6 ring attempt peers (added + 1) (out @ [sp_creds peer])
        else try_peers cfg pip sender v6 ring attempt peers added out))"

function select_peers ::
  "seeder_config \<Rightarrow> peer_info_provider \<Rightarrow> ip6 \<Rightarrow> bool \<Rightarrow> u32 \<Rightarrow> seeder_peer list \<Rightarrow> nat \<Rightarrow> nat \<Rightarrow> cjdns_peer list
     \<Rightarrow> (cjdns_peer list, seeder_error) result" where
  "select_peers cfg pip sender v6 ring peers attempt added out =
     (if attempt > 4 then Ok out
      else and_then (try_peers cfg pip sender v6 ring attempt peers added out) (\<lambda>(finished, added', out').
        if finished then Ok out'
        else select_peers cfg pip sender v6 ring peers (attempt + 1) added' out'))"
  by pat_completeness auto

termination
  by (relation "measure (\<lambda>(cfg, pip, sender, v6, ring, peers, attempt, added, out). 5 - attempt)") auto

declare select_peers.simps [simp del]

section \<open>Posting credentials\<close>

text \<open>The first entry of the sender with the same credentials, if any, is refreshed.\<close>

definition same_entry :: "ip6 \<Rightarrow> cjdns_peer \<Rightarrow> seeder_peer \<Rightarrow> bool" where
  "same_entry sender creds p \<longleftrightarrow> sp_ip p = sender \<and> sp_creds p = creds"

fun update_first :: "('a \<Rightarrow> bool) \<Rightarrow> ('a \<Rightarrow> 'a) \<Rightarrow> 'a list \<Rightarrow> 'a list" where
  "update_first P f [] = []"
| "update_first P f (x # xs) = (if P x then f x # xs else x # update_first P f xs)"

definition refresh :: "nat \<Rightarrow> bytes \<Rightarrow> cjdns_peer \<Rightarrow> seeder_peer \<Rightarrow> seeder_peer" where
  "refresh now_s peer_id creds ent =
     (let ent = (if sp_peer_id ent \<noteq> peer_id \<or> creds \<noteq> creds
                 then ent\<lparr>sp_peer_id := peer_id, sp_creds := creds, sp_check_error := None, sp_last_check := 0\<rparr>
                 else ent)
      in ent\<lparr>sp_last_report := now_s\<rparr>)"

definition PUB_prefix :: bytes where
  "PUB_prefix = [80, 85, 66, 95]"

definition new_peer :: "nat \<Rightarrow> ip6 \<Rightarrow> bytes \<Rightarrow> cjdns_peer \<Rightarrow> u32 \<Rightarrow> seeder_peer" where
  "new_peer now_s sender peer_id creds ring =
     \<lparr>sp_ip = sender, sp_peer_id = peer_id, sp_creds = creds, sp_ring = ring, sp_check_error = None,
      sp_private = (take 4 peer_id \<noteq> PUB_prefix), sp_last_check = 0, sp_last_report = now_s\<rparr>"

definition report_peer :: "nat \<Rightarrow> ip6 \<Rightarrow> bytes \<Rightarrow> cjdns_peer \<Rightarrow> seeder \<Rightarrow> u32 \<times> seeder" where
  "report_peer now_s sender peer_id creds m =
     (case find (same_entry sender creds) (sd_peers m) of
        Some ent \<Rightarrow>
          (sp_ring ent, m\<lparr>sd_peers := update_first (same_entry sender creds) (refresh now_s peer_id creds) (sd_peers m)\<rparr>)
      | None \<Rightarrow>
          (sd_top_ring m, m\<lparr>sd_peers := sd_peers m @ [new_peer now_s sender peer_id creds (sd_top_ring m)]\<rparr>))"

definition handle_cred ::
  "(bytes \<Rightarrow> bytes) \<Rightarrow> seeder_config \<Rightarrow> peer_info_provider \<Rightarrow> nat \<Rightarrow> ip6 \<Rightarrow> bytes \<Rightarrow> cjdns_peer \<Rightarrow> cjdns_peer list
     \<Rightarrow> seeder \<Rightarrow> (cjdns_peer list, seeder_error) result \<times> seeder" where
  "handle_cred sha cfg pip now_s sender peer_id creds out m =
     (case ip6_try_from_key sha (peer_pubkey creds) of
        Err e \<Rightarrow> (Err (BadAddress e), m)
      | Panic \<Rightarrow> (Panic, m)
      | Ok ip6 \<Rightarrow>
          if ip6 \<noteq> sender then (Err WrongSender, m)
          else case report_peer now_s sender peer_id creds m of (ring, m') \<Rightarrow>
            (select_peers cfg pip sender (is_ipv6 (peer_address creds)) ring (sd_peers m')
               (if out = [] then 0 else 1) 0 out, m'))"

fun handle_creds ::
  "(bytes \<Rightarrow> bytes) \<Rightarrow> seeder_config \<Rightarrow> peer_info_provider \<Rightarrow> nat \<Rightarrow> ip6 \<Rightarrow> bytes \<Rightarrow> cjdns_peer list \<Rightarrow> cjdns_peer list
     \<Rightarrow> seeder \<Rightarrow> (cjdns_peer list, seeder_error) result \<times> seeder" where
  "handle_creds sha cfg pip now_s sender peer_id [] selections m = (Ok selections, m)"
| "handle_creds sha cfg pip now_s sender peer_id (peer # peers) selections m =
     (case handle_cred sha cfg pip now_s sender peer_id peer selections m of
        (Ok out, m') \<Rightarrow> handle_creds sha cfg pip now_s sender peer_id peers out m'
      | (Err e, m') \<Rightarrow> (Err e, m')
      | (Panic, m') \<Rightarrow> (Panic, m'))"

text \<open>\<open>Vec::remove\<close> panics out of range.\<close>

function drop_random :: "(nat \<Rightarrow> nat) \<Rightarrow> 'a list \<Rightarrow> ('a list, seeder_error) result" where
  "drop_random pick selections =
     (if length selections > NUM_PEERS_TO_RESPOND then
        let loser = pick (length selections) in
        if loser < length selections then drop_random pick (take loser selections @ drop (Suc loser) selections)
        else Panic
      else Ok selections)"
  by pat_completeness auto

termination
  by (relation "measure (\<lambda>(pick, sel). length sel)") auto

declare drop_random.simps [simp del]

definition post_credentials ::
  "(bytes \<Rightarrow> bytes) \<Rightarrow> (nat \<Rightarrow> nat) \<Rightarrow> seeder_config \<Rightarrow> peer_info_provider \<Rightarrow> nat \<Rightarrow> ip6 \<Rightarrow> bytes
     \<Rightarrow> seeder \<Rightarrow> (bytes, seeder_error) result \<times> seeder" where
  "post_credentials sha pick cfg pip now_s sender bin_creds m =
     (case decode_bin bin_creds of
        Err e \<Rightarrow> (Err (BadRecord e), m)
      | Panic \<Rightarrow> (Panic, m)
      | Ok rec \<Rightarrow>
          (case txt_peer_id rec of
             None \<Rightarrow> (Err MissingPeerId, m)
           | Some peer_id \<Rightarrow>
               (case handle_creds sha cfg pip now_s sender peer_id (txt_peers rec) [] m of (res, m') \<Rightarrow>
                  (and_then res (\<lambda>selections.
                   and_then (drop_random pick selections) (\<lambda>selections.
                   case encode_bin message_write message_len (txt_default\<lparr>txt_peers := selections\<rparr>) message_new of
                     (e, msg) \<Rightarrow> map_ok (\<lambda>_. as_vec msg) (map_err BadRecord e))), m'))))"

section \<open>Name servers and testers\<close>

text \<open>The entry of the answer is made from the fields of the peer.\<close>

definition listable :: "nat \<Rightarrow> seeder_peer \<Rightarrow> bool" where
  "listable last_check_cutoff p \<longleftrightarrow> \<not> sp_private p \<and> sp_check_error p = None \<and> sp_last_check p > last_check_cutoff"

fun take_appropriate ::
  "seeder_config \<Rightarrow> peer_info_provider \<Rightarrow> seeder_peer list \<Rightarrow> seeder_peer list \<Rightarrow> seeder_peer list" where
  "take_appropriate cfg pip [] out = out"
| "take_appropriate cfg pip (p # ps) out =
     (if is_appropriate cfg pip (sp_ip p) None
      then if length (out @ [p]) \<ge> share_peers_with_nameserver cfg then out @ [p]
           else take_appropriate cfg pip ps (out @ [p])
      else take_appropriate cfg pip ps out)"

definition list_peers ::
  "seeder_config \<Rightarrow> peer_info_provider \<Rightarrow> nat \<Rightarrow> string \<Rightarrow> seeder \<Rightarrow> (seeder_peer list, seeder_error) result" where
  "list_peers cfg pip now_s passwd m =
     (if passwd \<in> set (tester_passwds cfg) then Ok (sd_peers m)
      else if passwd \<notin> set (nameserver_passwds cfg) then Err UnknownPassword
      else and_then (nat_sub_chk now_s (60 * 60)) (\<lambda>last_check_cutoff.
        let ok_peers = sort_key (\<lambda>p. 2 ^ 32 - 1 - unat (sp_ring p)) (List.filter (listable last_check_cutoff) (sd_peers m))
        in Ok (take_appropriate cfg pip ok_peers [])))"

record test_node =
  tn_addr :: socket_addr
  tn_ip6 :: string
  tn_error :: "string option"

fun record_tests ::
  "(string \<Rightarrow> bytes option) \<Rightarrow> nat \<Rightarrow> test_node list \<Rightarrow> seeder \<Rightarrow> (unit, seeder_error) result \<times> seeder" where
  "record_tests hex_decode now_s [] m = (Ok (), m)"
| "record_tests hex_decode now_s (p # ps) m =
     (case ip6_try_from_str hex_decode (tn_ip6 p) of
        Err e \<Rightarrow> (Err (BadAddress e), m)
      | Panic \<Rightarrow> (Panic, m)
      | Ok ip6 \<Rightarrow>
          record_tests hex_decode now_s ps
            (m\<lparr>sd_peers := update_first (\<lambda>sp. peer_address (sp_creds sp) = tn_addr p \<and> sp_ip sp = ip6)
                 (\<lambda>sp. sp\<lparr>sp_check_error := tn_error p, sp_last_check := now_s\<rparr>) (sd_peers m)\<rparr>))"

definition testres ::
  "(string \<Rightarrow> bytes option) \<Rightarrow> seeder_config \<Rightarrow> nat \<Rightarrow> string \<Rightarrow> test_node list \<Rightarrow> seeder
     \<Rightarrow> (unit, seeder_error) result \<times> seeder" where
  "testres hex_decode cfg now_s passwd nodes m =
     (if passwd \<notin> set (tester_passwds cfg) then (Err UnknownPassword, m)
      else record_tests hex_decode now_s nodes m)"

end
