(* ===== verification/Seeder_Inv.thy ===== *)
theory Seeder_Inv
  imports Seeder
begin

text \<open>
  The invariant of the seeder and what it hands out: an answer to posted credentials decodes to at
  most six distinct peers that others have made public, in the address family of the posted
  credentials, none of which is the asker, is already peered with it or has too many peers.
\<close>

section \<open>What decoding credentials gives\<close>

lemma slice_read_exact:
  "read_exact slice_read n r = (if n \<le> length r then (Ok (take n r), drop n r) else (Err UnexpectedEof, []))"
  using slice_source.read_exact_enough [where r = r and n = n] slice_source.read_exact_short [where r = r and n = n] by auto

lemma io_then_ok_iff: "io_then m f = (Ok b, s') \<longleftrightarrow> (\<exists>a s. m = (Ok a, s) \<and> f a s = (Ok b, s'))"
  by (cases m; cases "fst m") (auto simp: io_then_def)

lemma io_err_ok_iff: "io_err g m = (Ok b, s') \<longleftrightarrow> m = (Ok b, s')"
  by (cases m; cases "fst m") (auto simp: io_err_def)

lemma peer_bytes_decode: "peer_decode code slice_read r = (Ok p, r') \<Longrightarrow> Dnsseed.peer_ok p"
  unfolding peer_decode_def
  by (auto simp: io_then_ok_iff io_err_ok_iff slice_read_exact Let_def Dnsseed.peer_ok_def addr_ok_def map_ok_ok_iff
      split: if_splits socket_addr.splits)

lemma from_tlvs_peers_ok:
  "from_tlvs items t = Ok t' \<Longrightarrow> \<forall>p \<in> set (txt_peers t). Dnsseed.peer_ok p \<Longrightarrow> \<forall>p \<in> set (txt_peers t'). Dnsseed.peer_ok p"
proof (induction items t rule: from_tlvs.induct)
  case (2 code data items t)
  then obtain t1 where t1: "from_tlv code data t = Ok t1" "from_tlvs items t1 = Ok t'"
    by (auto simp: and_then_ok_iff)
  have "\<forall>p \<in> set (txt_peers t1). Dnsseed.peer_ok p"
  proof -
    have "Dnsseed.peer_ok p" if "fst (peer_decode code slice_read data) = Ok p" for p
      using that peer_bytes_decode [of code data p] by (cases "peer_decode code slice_read data") auto
    then show ?thesis using t1(1) "2.prems"(2)
      by (auto simp: from_tlv_def parse_peerid_def parse_snode_def and_then_ok_iff split: if_splits)
  qed
  with "2.IH" [OF t1(1)] t1(2) show ?case by blast
qed simp

lemma decode_bin_peers: "decode_bin bs = Ok t \<Longrightarrow> \<forall>p \<in> set (txt_peers t). Dnsseed.peer_ok p"
  unfolding decode_bin_def by (auto simp: and_then_ok_iff txt_default_def dest!: from_tlvs_peers_ok)

lemma encode_peers:
  assumes "\<forall>p \<in> set ps. Dnsseed.peer_ok p"
  shows "\<exists>msg. encode_bin message_write message_len (txt_default\<lparr>txt_peers := ps\<rparr>) message_new = (Ok (), msg)
    \<and> decode_bin (as_vec msg) = Ok (txt_default\<lparr>txt_peers := ps\<rparr>)"
proof -
  let ?t = "txt_default\<lparr>txt_peers := ps\<rparr>"
  have ok: "txt_ok ?t" using assms by (simp add: txt_ok_def txt_default_def)
  have new: "message_new = with_chunk_size 0" by (simp add: with_chunk_size_def message_new_def)
  obtain msg where "encode_bin message_write message_len ?t (with_chunk_size 0) = (Ok (), msg)"
      "as_vec msg = tlv_bytes (txt_items ?t)"
    using msg_stack.encode_bin_ok [of "with_chunk_size 0" ?t] ok by auto
  then show ?thesis using decode_bin_items [OF ok] new by (simp add: txt_default_def)
qed

section \<open>The invariant\<close>

definition entry_ok :: "(bytes \<Rightarrow> bytes) \<Rightarrow> seeder_peer \<Rightarrow> bool" where
  "entry_ok sha p \<longleftrightarrow> ip6_try_from_key sha (peer_pubkey (sp_creds p)) = Ok (sp_ip p) \<and> Dnsseed.peer_ok (sp_creds p)
     \<and> sp_ring p = 0"

text \<open>
  Every entry is under the address of its own key, no two entries are of the same node and the
  same credentials, and all are in ring 0, because nothing ever raises \<open>top_ring\<close>.
\<close>

definition seeder_ok :: "(bytes \<Rightarrow> bytes) \<Rightarrow> seeder \<Rightarrow> bool" where
  "seeder_ok sha m \<longleftrightarrow> sd_top_ring m = 0 \<and> (\<forall>p \<in> set (sd_peers m). entry_ok sha p)
     \<and> distinct (map (\<lambda>p. (sp_ip p, sp_creds p)) (sd_peers m))"

lemma map_update_first: "(\<And>x. P x \<Longrightarrow> g (f x) = g x) \<Longrightarrow> map g (update_first P f xs) = map g xs"
  by (induction xs) auto

lemma set_update_first: "x \<in> set (update_first P f xs) \<Longrightarrow> x \<in> set xs \<or> (\<exists>y \<in> set xs. P y \<and> x = f y)"
  by (induction xs) (auto split: if_splits)

lemma update_first_keeps: "y \<in> set xs \<Longrightarrow> y \<in> set (update_first P f xs) \<or> f y \<in> set (update_first P f xs)"
  by (induction xs) (auto split: if_splits)

lemma find_update_first: "find P xs = Some x \<Longrightarrow> f x \<in> set (update_first P f xs)"
  by (induction xs) (auto split: if_splits)

lemma refresh_fields [simp]:
  "sp_ip (refresh now_s pid creds p) = sp_ip p" "sp_ring (refresh now_s pid creds p) = sp_ring p"
  "sp_private (refresh now_s pid creds p) = sp_private p" "sp_last_report (refresh now_s pid creds p) = now_s"
  "sp_creds p = creds \<Longrightarrow> sp_creds (refresh now_s pid creds p) = creds"
  by (auto simp: refresh_def Let_def)

lemma update_entries_ok:
  assumes "seeder_ok sha m" and "\<And>x. P x \<Longrightarrow> sp_ip (f x) = sp_ip x \<and> sp_creds (f x) = sp_creds x \<and> sp_ring (f x) = sp_ring x"
  shows "seeder_ok sha (m\<lparr>sd_peers := update_first P f (sd_peers m)\<rparr>)"
proof -
  have "map (\<lambda>p. (sp_ip p, sp_creds p)) (update_first P f (sd_peers m)) = map (\<lambda>p. (sp_ip p, sp_creds p)) (sd_peers m)"
    by (rule map_update_first) (simp add: assms(2))
  moreover have "entry_ok sha p" if "p \<in> set (update_first P f (sd_peers m))" for p
    using set_update_first [OF that] assms by (auto simp: seeder_ok_def entry_ok_def)
  ultimately show ?thesis using assms(1) by (simp add: seeder_ok_def)
qed

lemma report_peer_ok:
  assumes "seeder_ok sha m" and "ip6_try_from_key sha (peer_pubkey creds) = Ok sender" and "Dnsseed.peer_ok creds"
    and "report_peer now_s sender pid creds m = (ring, m')"
  shows "seeder_ok sha m'" and "ring = 0"
    and "\<exists>p \<in> set (sd_peers m'). same_entry sender creds p \<and> sp_last_report p = now_s"
    and "\<forall>p \<in> set (sd_peers m). \<exists>p' \<in> set (sd_peers m'). sp_ip p' = sp_ip p \<and> sp_creds p' = sp_creds p
       \<and> sp_private p' = sp_private p"
proof -
  have "seeder_ok sha m' \<and> ring = 0 \<and> (\<exists>p \<in> set (sd_peers m'). same_entry sender creds p \<and> sp_last_report p = now_s)
    \<and> (\<forall>p \<in> set (sd_peers m). \<exists>p' \<in> set (sd_peers m'). sp_ip p' = sp_ip p \<and> sp_creds p' = sp_creds p
       \<and> sp_private p' = sp_private p)"
  proof (cases "find (same_entry sender creds) (sd_peers m)")
    case None
    then have fresh: "\<not> same_entry sender creds p" if "p \<in> set (sd_peers m)" for p
      using that by (auto simp: find_None_iff)
    have m': "m' = m\<lparr>sd_peers := sd_peers m @ [new_peer now_s sender pid creds (sd_top_ring m)]\<rparr>" "ring = sd_top_ring m"
      using None assms(4) by (auto simp: report_peer_def)
    have "seeder_ok sha m'"
      using assms(1-3) fresh m'(1) by (force simp: seeder_ok_def entry_ok_def new_peer_def same_entry_def)
    moreover have "ring = 0" using m'(2) assms(1) by (simp add: seeder_ok_def)
    ultimately show ?thesis using m'(1) by (auto simp: new_peer_def same_entry_def)
  next
    case (Some ent)
    let ?f = "refresh now_s pid creds"
    have ent: "same_entry sender creds ent" "ent \<in> set (sd_peers m)"
      using Some by (auto simp: find_Some_iff)
    have m': "m' = m\<lparr>sd_peers := update_first (same_entry sender creds) ?f (sd_peers m)\<rparr>" "ring = sp_ring ent"
      using Some assms(4) by (auto simp: report_peer_def)
    have ok: "seeder_ok sha m'" unfolding m'(1) by (rule update_entries_ok [OF assms(1)]) (simp add: same_entry_def)
    have r: "ring = 0" using m'(2) ent(2) assms(1) by (simp add: seeder_ok_def entry_ok_def)
    have "?f ent \<in> set (sd_peers m')" using find_update_first [OF Some] m'(1) by simp
    then have e: "\<exists>p \<in> set (sd_peers m'). same_entry sender creds p \<and> sp_last_report p = now_s"
      using ent(1) by (intro bexI [of _ "?f ent"]) (auto simp: same_entry_def)
    have "\<exists>p' \<in> set (sd_peers m'). sp_ip p' = sp_ip p \<and> sp_creds p' = sp_creds p \<and> sp_private p' = sp_private p"
      if "p \<in> set (sd_peers m)" for p
    proof (cases "same_entry sender creds p")
      case True
      with update_first_keeps [OF that, of "same_entry sender creds" ?f] show ?thesis
        unfolding m'(1) by (elim disjE) (intro bexI [of _ p] bexI [of _ "?f p"]; simp add: same_entry_def)+
    next
      case False
      have "p \<in> set (update_first P f xs)" if "p \<in> set xs" "\<not> P p" for P f and xs :: "seeder_peer list"
        using that by (induction xs) auto
      with that False show ?thesis unfolding m'(1) by auto
    qed
    with ok r e show ?thesis by blast
  qed
  then show "seeder_ok sha m'" and "ring = 0"
    and "\<exists>p \<in> set (sd_peers m'). same_entry sender creds p \<and> sp_last_report p = now_s"
    and "\<forall>p \<in> set (sd_peers m). \<exists>p' \<in> set (sd_peers m'). sp_ip p' = sp_ip p \<and> sp_creds p' = sp_creds p
       \<and> sp_private p' = sp_private p"
    by auto
qed

section \<open>Selections\<close>

text \<open>What the asker may be given: the credentials of a registered peer that suits it.\<close>

definition suits :: "seeder_config \<Rightarrow> peer_info_provider \<Rightarrow> ip6 \<Rightarrow> seeder_peer list \<Rightarrow> cjdns_peer \<Rightarrow> bool" where
  "suits cfg pip sender peers c \<longleftrightarrow> (\<exists>p \<in> set peers. sp_creds p = c \<and> \<not> sp_private p \<and> sp_ip p \<noteq> sender
     \<and> \<not> snd (pip (sp_ip p) (Some sender)) \<and> fst (pip (sp_ip p) (Some sender)) < max_connection_count cfg)"

lemma is_appropriate_iff:
  "is_appropriate cfg pip peer (Some sender) \<longleftrightarrow> peer \<noteq> sender \<and> \<not> snd (pip peer (Some sender))
     \<and> fst (pip peer (Some sender)) < max_connection_count cfg"
  by (auto simp: is_appropriate_def split: prod.splits)

lemma in_attempt_ok: "sp_ring peer = 0 \<Longrightarrow> in_attempt attempt 0 peer = Ok (attempt \<in> {1, 2, 3})"
  by (auto simp: in_attempt_def add_chk_def)

lemma try_peers_ok:
  assumes "\<forall>p \<in> set peers. sp_ring p = 0" and "added \<le> NUM_PEERS_TO_RESPOND" and "distinct out"
  shows "\<exists>fin new. try_peers cfg pip sender v6 0 attempt peers added out = Ok (fin, added + length new, out @ new)
    \<and> added + length new \<le> NUM_PEERS_TO_RESPOND \<and> distinct (out @ new)
    \<and> (\<forall>c \<in> set new. suits cfg pip sender peers c \<and> is_ipv6 (peer_address c) = v6)"
  using assms
proof (induction peers arbitrary: added out)
  case Nil
  then show ?case by (intro exI [of _ False] exI [of _ "[]"]) simp
next
  case (Cons p peers)
  have mono: "suits cfg pip sender (p # peers) c" if "suits cfg pip sender peers c" for c
    using that by (auto simp: suits_def)
  show ?case
  proof (cases "added \<ge> NUM_PEERS_TO_RESPOND \<or> attempt = 4")
    case True
    then show ?thesis using Cons.prems by (intro exI [of _ True] exI [of _ "[]"]) auto
  next
    case False
    let ?skip = "attempt \<notin> {1, 2, 3} \<or> sp_private p \<or> is_ipv6 (peer_address (sp_creds p)) \<noteq> v6 \<or> sp_creds p \<in> set out
        \<or> \<not> is_appropriate cfg pip (sp_ip p) (Some sender)"
    have step: "try_peers cfg pip sender v6 0 attempt (p # peers) added out =
        (if ?skip then try_peers cfg pip sender v6 0 attempt peers added out
         else try_peers cfg pip sender v6 0 attempt peers (added + 1) (out @ [sp_creds p]))"
      using False Cons.prems(1) by (simp add: in_attempt_ok)
    show ?thesis
    proof (cases ?skip)
      case True
      have "\<forall>p \<in> set peers. sp_ring p = 0" using Cons.prems(1) by simp
      from Cons.IH [OF this Cons.prems(2,3)] obtain fin new where
        "try_peers cfg pip sender v6 0 attempt peers added out = Ok (fin, added + length new, out @ new)"
        "added + length new \<le> NUM_PEERS_TO_RESPOND" "distinct (out @ new)"
        "\<forall>c \<in> set new. suits cfg pip sender peers c \<and> is_ipv6 (peer_address c) = v6" by blast
      moreover from this(4) mono
      have "\<forall>c \<in> set new. suits cfg pip sender (p # peers) c \<and> is_ipv6 (peer_address c) = v6" by blast
      ultimately show ?thesis using True step by (intro exI [of _ fin] exI [of _ new]) (simp only: if_True simp_thms)
    next
      case skip: False
      have s: "suits cfg pip sender (p # peers) (sp_creds p)" "is_ipv6 (peer_address (sp_creds p)) = v6"
        "sp_creds p \<notin> set out"
        using skip by (auto simp: suits_def is_appropriate_iff)
      obtain fin new where n: "try_peers cfg pip sender v6 0 attempt peers (added + 1) (out @ [sp_creds p])
            = Ok (fin, added + 1 + length new, (out @ [sp_creds p]) @ new)"
          "added + 1 + length new \<le> NUM_PEERS_TO_RESPOND" "distinct ((out @ [sp_creds p]) @ new)"
          "\<forall>c \<in> set new. suits cfg pip sender peers c \<and> is_ipv6 (peer_address c) = v6"
        using Cons.IH [of "added + 1" "out @ [sp_creds p]"] Cons.prems False s(3) by auto
      then show ?thesis
        using step skip s mono by (intro exI [of _ fin] exI [of _ "sp_creds p # new"]) auto
    qed
  qed
qed

lemma select_peers_ok:
  assumes "\<forall>p \<in> set peers. sp_ring p = 0" and "added \<le> NUM_PEERS_TO_RESPOND" and "distinct out"
  shows "\<exists>new. select_peers cfg pip sender v6 0 peers attempt added out = Ok (out @ new) \<and> distinct (out @ new)
    \<and> added + length new \<le> NUM_PEERS_TO_RESPOND
    \<and> (\<forall>c \<in> set new. suits cfg pip sender peers c \<and> is_ipv6 (peer_address c) = v6)"
  using assms(2,3)
proof (induction "5 - attempt" arbitrary: attempt added out)
  case 0
  then show ?case by (simp add: select_peers.simps)
next
  case (Suc n)
  obtain fin new where t: "try_peers cfg pip sender v6 0 attempt peers added out = Ok (fin, added + length new, out @ new)"
    "added + length new \<le> NUM_PEERS_TO_RESPOND" "distinct (out @ new)"
    "\<forall>c \<in> set new. suits cfg pip sender peers c \<and> is_ipv6 (peer_address c) = v6"
    using try_peers_ok [OF assms(1) Suc.prems] by blast
  show ?case
  proof (cases fin)
    case True
    with t Suc.hyps(2) show ?thesis by (intro exI [of _ new]) (simp add: select_peers.simps)
  next
    case False
    have n: "n = 5 - (attempt + 1)" using Suc.hyps(2) by simp
    obtain new' where "select_peers cfg pip sender v6 0 peers (attempt + 1) (added + length new) (out @ new)
          = Ok ((out @ new) @ new')" "distinct ((out @ new) @ new')" "added + length new + length new' \<le> NUM_PEERS_TO_RESPOND"
        "\<forall>c \<in> set new'. suits cfg pip sender peers c \<and> is_ipv6 (peer_address c) = v6"
      using Suc.hyps(1) [OF _ t(2,3), of "attempt + 1"] n by blast
    with False t Suc.hyps(2) show ?thesis
      by (intro exI [of _ "new @ new'"]) (auto simp: select_peers.simps [of _ _ _ _ _ _ attempt])
  qed
qed

definition keeps_entries :: "seeder \<Rightarrow> seeder \<Rightarrow> bool" where
  "keeps_entries m m' \<longleftrightarrow> (\<forall>p \<in> set (sd_peers m). \<exists>p' \<in> set (sd_peers m'). sp_ip p' = sp_ip p
     \<and> sp_creds p' = sp_creds p \<and> sp_private p' = sp_private p)"

lemma keeps_entries_refl [simp]: "keeps_entries m m"
  by (auto simp: keeps_entries_def)

lemma keeps_entries_trans: "keeps_entries m m' \<Longrightarrow> keeps_entries m' m'' \<Longrightarrow> keeps_entries m m''"
  unfolding keeps_entries_def by metis

lemma suits_mono: "keeps_entries m m' \<Longrightarrow> suits cfg pip sender (sd_peers m) c \<Longrightarrow> suits cfg pip sender (sd_peers m') c"
  unfolding keeps_entries_def suits_def by metis

lemma handle_cred_ok:
  assumes "seeder_ok sha m" and "Dnsseed.peer_ok creds" and "distinct out"
    and "handle_cred sha cfg pip now_s sender pid creds out m = (res, m')"
  shows "seeder_ok sha m' \<and> keeps_entries m m'
    \<and> (\<forall>out'. res = Ok out' \<longrightarrow> (\<exists>new. out' = out @ new \<and> distinct out'
         \<and> (\<forall>c \<in> set new. suits cfg pip sender (sd_peers m') c \<and> is_ipv6 (peer_address c) = is_ipv6 (peer_address creds)))
       \<and> (\<exists>p \<in> set (sd_peers m'). same_entry sender creds p \<and> sp_last_report p = now_s))"
proof (cases "ip6_try_from_key sha (peer_pubkey creds) = Ok sender")
  case False
  then show ?thesis using assms(1,4) by (auto simp: handle_cred_def split: result.splits if_splits)
next
  case True
  obtain ring m1 where r: "report_peer now_s sender pid creds m = (ring, m1)" by (cases "report_peer now_s sender pid creds m")
  note ok = report_peer_ok [OF assms(1) True assms(2) r]
  have rings: "\<forall>p \<in> set (sd_peers m1). sp_ring p = 0" using ok(1) by (simp add: seeder_ok_def entry_ok_def)
  obtain new where n: "select_peers cfg pip sender (is_ipv6 (peer_address creds)) 0 (sd_peers m1) (if out = [] then 0 else 1) 0 out
        = Ok (out @ new)" "distinct (out @ new)"
      "\<forall>c \<in> set new. suits cfg pip sender (sd_peers m1) c \<and> is_ipv6 (peer_address c) = is_ipv6 (peer_address creds)"
    using select_peers_ok [OF rings _ assms(3), of 0] by blast
  have "res = Ok (out @ new)" "m' = m1"
    using assms(4) True r ok(2) n(1) by (auto simp: handle_cred_def)
  then show ?thesis using ok n by (auto simp: keeps_entries_def)
qed

definition selection_ok :: "seeder_config \<Rightarrow> peer_info_provider \<Rightarrow> ip6 \<Rightarrow> cjdns_peer list \<Rightarrow> seeder \<Rightarrow> cjdns_peer list \<Rightarrow> bool" where
  "selection_ok cfg pip sender posted m sel \<longleftrightarrow> distinct sel \<and> (\<forall>c \<in> set sel. suits cfg pip sender (sd_peers m) c
     \<and> (\<exists>p \<in> set posted. is_ipv6 (peer_address c) = is_ipv6 (peer_address p)))"

lemma handle_creds_ok:
  assumes "seeder_ok sha m" and "\<forall>c \<in> set creds. Dnsseed.peer_ok c" and "selection_ok cfg pip sender posted m out"
    and "set creds \<subseteq> set posted" and "handle_creds sha cfg pip now_s sender pid creds out m = (res, m')"
  shows "seeder_ok sha m' \<and> keeps_entries m m' \<and> (\<forall>sel. res = Ok sel \<longrightarrow> selection_ok cfg pip sender posted m' sel)"
  using assms
proof (induction creds arbitrary: out m)
  case Nil
  then show ?case by auto
next
  case (Cons c creds)
  obtain r1 m1 where h: "handle_cred sha cfg pip now_s sender pid c out m = (r1, m1)"
    by (cases "handle_cred sha cfg pip now_s sender pid c out m")
  have d: "distinct out" and c: "Dnsseed.peer_ok c" using Cons.prems by (auto simp: selection_ok_def)
  note ok = handle_cred_ok [OF Cons.prems(1) c d h]
  show ?case
  proof (cases r1)
    case (Ok out')
    then obtain new where n: "out' = out @ new" "distinct out'"
      "\<forall>c' \<in> set new. suits cfg pip sender (sd_peers m1) c' \<and> is_ipv6 (peer_address c') = is_ipv6 (peer_address c)"
      using ok by blast
    have "selection_ok cfg pip sender posted m1 out'"
      using n Cons.prems(3,4) ok suits_mono [of m m1] by (auto simp: selection_ok_def)
    moreover have "handle_creds sha cfg pip now_s sender pid creds out' m1 = (res, m')"
      using Cons.prems(5) h Ok by simp
    ultimately have "seeder_ok sha m' \<and> keeps_entries m1 m' \<and> (\<forall>sel. res = Ok sel \<longrightarrow> selection_ok cfg pip sender posted m' sel)"
      using Cons.IH [of m1 out'] Cons.prems(2,4) ok by auto
    then show ?thesis using ok keeps_entries_trans by blast
  qed (use Cons.prems(5) h ok in auto)
qed

text \<open>The first entry is never dropped, and the order is kept.\<close>

lemma drop_random_ok:
  assumes "\<And>n. 2 \<le> n \<Longrightarrow> 1 \<le> pick n \<and> pick n < n" and "distinct sel"
  shows "\<exists>sel'. drop_random pick sel = Ok sel' \<and> distinct sel' \<and> set sel' \<subseteq> set sel \<and> length sel' \<le> NUM_PEERS_TO_RESPOND
    \<and> take 1 sel' = take 1 sel"
  using assms(2)
proof (induction "length sel" arbitrary: sel rule: less_induct)
  case less
  show ?case
  proof (cases "length sel > NUM_PEERS_TO_RESPOND")
    case False
    with less.prems show ?thesis by (subst drop_random.simps) simp
  next
    case True
    let ?i = "pick (length sel)"
    let ?sel = "take ?i sel @ drop (Suc ?i) sel"
    have i: "1 \<le> ?i" "?i < length sel" using assms(1) [of "length sel"] True by (auto simp: NUM_PEERS_TO_RESPOND_def)
    have d: "distinct ?sel"
      using less.prems i(2) by (auto simp: set_take_disj_set_drop_if_distinct)
    have s: "set ?sel \<subseteq> set sel" using set_take_subset set_drop_subset by fastforce
    have t: "take 1 ?sel = take 1 sel" using i by (cases sel) (auto simp: take_Cons split: nat.splits)
    have l: "length ?sel < length sel" using i by simp
    obtain sel' where "drop_random pick ?sel = Ok sel'" "distinct sel'" "set sel' \<subseteq> set ?sel"
        "length sel' \<le> NUM_PEERS_TO_RESPOND" "take 1 sel' = take 1 ?sel"
      using less.hyps [OF l d] by blast
    with s t True i(2) show ?thesis by (subst drop_random.simps) (auto simp: Let_def)
  qed
qed

lemma post_credentials_ok:
  assumes "seeder_ok sha m" and "\<And>n. 2 \<le> n \<Longrightarrow> 1 \<le> pick n \<and> pick n < n"
    and "post_credentials sha pick cfg pip now_s sender bin_creds m = (res, m')"
  shows "seeder_ok sha m' \<and> keeps_entries m m'
    \<and> (\<forall>reply. res = Ok reply \<longrightarrow> (\<exists>rec sel. decode_bin bin_creds = Ok rec
         \<and> decode_bin reply = Ok (txt_default\<lparr>txt_peers := sel\<rparr>) \<and> length sel \<le> NUM_PEERS_TO_RESPOND
         \<and> selection_ok cfg pip sender (txt_peers rec) m' sel))"
proof (cases "decode_bin bin_creds")
  case (Ok rec)
  show ?thesis
  proof (cases "txt_peer_id rec")
    case None
    with Ok assms show ?thesis by (auto simp: post_credentials_def)
  next
    case (Some pid)
    obtain r1 m1 where h: "handle_creds sha cfg pip now_s sender pid (txt_peers rec) [] m = (r1, m1)"
      by (cases "handle_creds sha cfg pip now_s sender pid (txt_peers rec) [] m")
    have ok: "seeder_ok sha m1 \<and> keeps_entries m m1
        \<and> (\<forall>sel. r1 = Ok sel \<longrightarrow> selection_ok cfg pip sender (txt_peers rec) m1 sel)"
      using handle_creds_ok [OF assms(1) decode_bin_peers [OF Ok] _ _ h, of "txt_peers rec"] by (simp add: selection_ok_def)
    have m': "m' = m1" using assms(3) Ok Some h by (simp add: post_credentials_def)
    show ?thesis
    proof (cases r1)
      case r1: (Ok sel)
      then have sel: "selection_ok cfg pip sender (txt_peers rec) m1 sel" using ok by blast
      obtain sel' where s: "drop_random pick sel = Ok sel'" "distinct sel'" "set sel' \<subseteq> set sel"
          "length sel' \<le> NUM_PEERS_TO_RESPOND"
        using drop_random_ok [OF assms(2), of sel] sel by (auto simp: selection_ok_def)
      have sel': "selection_ok cfg pip sender (txt_peers rec) m1 sel'" using sel s by (auto simp: selection_ok_def)
      have "\<forall>p \<in> set sel'. Dnsseed.peer_ok p"
        using sel' ok by (auto simp: selection_ok_def suits_def seeder_ok_def entry_ok_def)
      from encode_peers [OF this] obtain msg where e: "encode_bin message_write message_len (txt_default\<lparr>txt_peers := sel'\<rparr>) message_new = (Ok (), msg)"
        "decode_bin (as_vec msg) = Ok (txt_default\<lparr>txt_peers := sel'\<rparr>)" by blast
      have "res = Ok (as_vec msg)" using assms(3) Ok Some h r1 s(1) e(1) by (simp add: post_credentials_def)
      with ok m' e(2) s(4) sel' Ok show ?thesis by auto
    qed (use assms(3) Ok Some h m' ok in \<open>auto simp: post_credentials_def\<close>)
  qed
qed (use assms in \<open>auto simp: post_credentials_def\<close>)

section \<open>Reports of testers and name servers\<close>

lemma record_tests_ok: "seeder_ok sha m \<Longrightarrow> seeder_ok sha (snd (record_tests hex_decode now_s nodes m))"
proof (induction nodes arbitrary: m)
  case (Cons p ps)
  show ?case
  proof (cases "ip6_try_from_str hex_decode (tn_ip6 p)")
    case (Ok k)
    have "seeder_ok sha (m\<lparr>sd_peers := update_first (\<lambda>sp. peer_address (sp_creds sp) = tn_addr p \<and> sp_ip sp = k)
        (\<lambda>sp. sp\<lparr>sp_check_error := tn_error p, sp_last_check := now_s\<rparr>) (sd_peers m)\<rparr>)"
      by (rule update_entries_ok [OF Cons.prems]) simp
    from Cons.IH [OF this] Ok show ?thesis by simp
  qed (use Cons.prems in auto)
qed simp

text \<open>The seeder as it runs: nodes post credentials and testers report results, in any order.\<close>

inductive seeder_step :: "(bytes \<Rightarrow> bytes) \<Rightarrow> (string \<Rightarrow> bytes option) \<Rightarrow> seeder_config \<Rightarrow> seeder \<Rightarrow> seeder \<Rightarrow> bool"
  for sha hex_decode cfg where
  post: "(\<And>n. 2 \<le> n \<Longrightarrow> 1 \<le> pick n \<and> pick n < n) \<Longrightarrow>
     seeder_step sha hex_decode cfg m (snd (post_credentials sha pick cfg pip now_s sender bin_creds m))"
| test: "seeder_step sha hex_decode cfg m (snd (testres hex_decode cfg now_s passwd nodes m))"

definition seeder_reachable :: "(bytes \<Rightarrow> bytes) \<Rightarrow> (string \<Rightarrow> bytes option) \<Rightarrow> seeder_config \<Rightarrow> seeder \<Rightarrow> bool" where
  "seeder_reachable sha hex_decode cfg m \<longleftrightarrow> (seeder_step sha hex_decode cfg)\<^sup>*\<^sup>* seeder_new m"

lemma seeder_step_ok: "seeder_step sha hex_decode cfg m m' \<Longrightarrow> seeder_ok sha m \<Longrightarrow> seeder_ok sha m'"
proof (induction rule: seeder_step.induct)
  case (post pick m pip now_s sender bin_creds)
  then show ?case using post_credentials_ok [OF post(2), of pick] by (metis prod.collapse)
next
  case (test m now_s passwd nodes)
  then show ?case by (simp add: testres_def record_tests_ok)
qed

lemma seeder_reachable_ok:
  assumes "seeder_reachable sha hex_decode cfg m"
  shows "seeder_ok sha m"
proof -
  from assms have "(seeder_step sha hex_decode cfg)\<^sup>*\<^sup>* seeder_new m" by (simp add: seeder_reachable_def)
  then show ?thesis
  proof (induction rule: rtranclp_induct)
    case base
    show ?case by (simp add: seeder_ok_def seeder_new_def)
  qed (rule seeder_step_ok)
qed

lemma take_appropriate_eq:
  "take_appropriate cfg pip ps out =
     out @ (if length out < share_peers_with_nameserver cfg
            then take (share_peers_with_nameserver cfg - length out) (List.filter (\<lambda>p. is_appropriate cfg pip (sp_ip p) None) ps)
            else take 1 (List.filter (\<lambda>p. is_appropriate cfg pip (sp_ip p) None) ps))"
proof (induction ps arbitrary: out)
  case (Cons p ps)
  show ?case
  proof (cases "is_appropriate cfg pip (sp_ip p) None \<and> length out + 1 < share_peers_with_nameserver cfg")
    case True
    then have "share_peers_with_nameserver cfg - length out = Suc (share_peers_with_nameserver cfg - Suc (length out))"
      by (simp add: Suc_diff_Suc)
    with True Cons.IH [of "out @ [p]"] show ?thesis by simp
  next
    case False
    then show ?thesis using Cons.IH [of out] by (cases "share_peers_with_nameserver cfg - length out") auto
  qed
qed simp

lemma list_peers_run:
  assumes "seeder_ok sha m" and "passwd \<notin> set (tester_passwds cfg)" and "passwd \<in> set (nameserver_passwds cfg)"
    and "60 * 60 \<le> now_s"
  shows "list_peers cfg pip now_s passwd m = Ok (take (max 1 (share_peers_with_nameserver cfg))
     (List.filter (\<lambda>p. is_appropriate cfg pip (sp_ip p) None \<and> listable (now_s - 60 * 60) p) (sd_peers m)))"
proof -
  let ?l = "List.filter (listable (now_s - 60 * 60)) (sd_peers m)"
  have ring: "sp_ring p = 0" if "p \<in> set ?l" for p using that assms(1) by (auto simp: seeder_ok_def entry_ok_def)
  have "sort_key (\<lambda>p. 2 ^ 32 - 1 - unat (sp_ring p)) ?l = ?l"
  proof (rule sort_key_id_if_sorted)
    have "map (\<lambda>p. 2 ^ 32 - 1 - unat (sp_ring p)) ?l = replicate (length ?l) (2 ^ 32 - 1)"
      using ring by (intro replicate_eqI) auto
    then show "sorted (map (\<lambda>p. 2 ^ 32 - 1 - unat (sp_ring p)) ?l)" by simp
  qed
  then show ?thesis
    using assms(2-4) by (simp add: list_peers_def take_appropriate_eq max_def Let_def conj_commute)
qed

section \<open>An example\<close>

text \<open>Two nodes; the second posts its credentials and gets those of the first.\<close>

definition demo_sha :: "bytes \<Rightarrow> bytes" where
  "demo_sha bs = 252 # bs @ replicate 64 0"

definition demo_creds :: "u8 \<Rightarrow> cjdns_peer" where
  "demo_creds b = \<lparr>peer_address = V4 [10, 0, 0, b] 1000, peer_pubkey = replicate 32 b, peer_login = 1,
     peer_password = replicate 8 b, peer_version = 22\<rparr>"

definition demo_ip :: "u8 \<Rightarrow> ip6" where
  "demo_ip b = [252, 252] @ replicate 14 b"

definition demo_cfg :: seeder_config where
  "demo_cfg = \<lparr>tester_passwds = [''t''], nameserver_passwds = [''n''], max_connection_count = 5,
     share_peers_with_nameserver = 2\<rparr>"

definition demo_pip :: peer_info_provider where
  "demo_pip ip6 asker = (1, False)"

definition demo_post :: "u8 \<Rightarrow> bytes" where
  "demo_post b = tlv_bytes (txt_items (txt_default\<lparr>txt_peers := [demo_creds b], txt_peer_id := Some PUB_prefix\<rparr>))"

lemma demo_decode: "decode_bin (demo_post b) = Ok (txt_default\<lparr>txt_peers := [demo_creds b], txt_peer_id := Some PUB_prefix\<rparr>)"
  unfolding demo_post_def
  by (rule decode_bin_items) (simp_all add: txt_ok_def Dnsseed.peer_ok_def addr_ok_def demo_creds_def txt_default_def PUB_prefix_def)

lemma demo_key: "ip6_try_from_key demo_sha (peer_pubkey (demo_creds b)) = Ok (demo_ip b)"
  by (simp add: ip6_try_from_key_def demo_sha_def demo_creds_def ip6_try_from_bytes_def IP6_FIRST_BYTE_def demo_ip_def
      numeral_eq_Suc)

definition demo_seeder :: seeder where
  "demo_seeder = \<lparr>sd_peers = [new_peer 7 (demo_ip 1) PUB_prefix (demo_creds 1) 0], sd_top_ring = 0\<rparr>"

lemma demo_pick: "2 \<le> n \<Longrightarrow> 1 \<le> (1 :: nat) \<and> 1 < (n :: nat)"
  by simp

lemmas demo_run = post_credentials_def demo_decode handle_cred_def demo_key report_peer_def txt_default_def
  same_entry_def is_appropriate_def demo_pip_def demo_cfg_def in_attempt_def add_chk_def select_peers.simps
  NUM_PEERS_TO_RESPOND_def drop_random.simps new_peer_def

lemma demo_parts [simp]:
  "demo_ip b = demo_ip c \<longleftrightarrow> b = c" "demo_creds b = demo_creds c \<longleftrightarrow> b = c"
  "is_ipv6 (peer_address (demo_creds b)) \<longleftrightarrow> False" "take 4 PUB_prefix = PUB_prefix"
  by (auto simp: demo_ip_def demo_creds_def PUB_prefix_def)

lemma demo_first:
  "\<exists>reply. post_credentials demo_sha (\<lambda>_. 1) demo_cfg demo_pip 7 (demo_ip 1) (demo_post 1) seeder_new = (Ok reply, demo_seeder)"
proof -
  have "handle_creds demo_sha demo_cfg demo_pip 7 (demo_ip 1) PUB_prefix [demo_creds 1] [] seeder_new = (Ok [], demo_seeder)"
    by (simp add: demo_run seeder_new_def demo_seeder_def)
  then show ?thesis using encode_peers [of "[]"]
    by (auto simp: post_credentials_def demo_decode drop_random.simps NUM_PEERS_TO_RESPOND_def txt_default_def)
qed

lemma demo_second:
  "\<exists>reply. fst (post_credentials demo_sha (\<lambda>_. 1) demo_cfg demo_pip 9 (demo_ip 2) (demo_post 2) demo_seeder) = Ok reply"
proof -
  have "fst (handle_creds demo_sha demo_cfg demo_pip 9 (demo_ip 2) PUB_prefix [demo_creds 2] [] demo_seeder) = Ok [demo_creds 1]"
    by (simp add: demo_run demo_seeder_def demo_parts)
  then obtain m' where "handle_creds demo_sha demo_cfg demo_pip 9 (demo_ip 2) PUB_prefix [demo_creds 2] [] demo_seeder = (Ok [demo_creds 1], m')"
    by (metis prod.collapse)
  then show ?thesis using encode_peers [of "[demo_creds 1]"]
    by (auto simp: post_credentials_def demo_decode drop_random.simps NUM_PEERS_TO_RESPOND_def txt_default_def
        Dnsseed.peer_ok_def addr_ok_def demo_creds_def)
qed

lemma demo_reachable: "seeder_reachable demo_sha hex_decode demo_cfg demo_seeder"
proof -
  have "seeder_step demo_sha hex_decode demo_cfg seeder_new demo_seeder"
    using seeder_step.post [of "\<lambda>_. 1" demo_sha hex_decode demo_cfg seeder_new demo_pip 7 "demo_ip 1" "demo_post 1"] demo_first
    by auto
  then show ?thesis by (simp add: seeder_reachable_def)
qed

section \<open>Properties\<close>

text \<open>C31: an answer to posted credentials decodes to at most six distinct peers, in the address family
  of one of the posted ones. Each is registered in the seeder by another node under the address of its
  own key, is public, is not already a peer of the asker and has fewer peers than the configured
  maximum. Afterwards the seeder is in a valid state again, and nobody's entry has gone or changed
  its visibility.\<close>

theorem seeder_answer_suits:
  assumes "seeder_reachable sha hex_decode cfg m" and "\<And>n. 2 \<le> n \<Longrightarrow> 1 \<le> pick n \<and> pick n < n"
    and "post_credentials sha pick cfg pip now_s sender bin_creds m = (res, m')"
  shows "seeder_ok sha m' \<and> keeps_entries m m'
    \<and> (\<forall>reply. res = Ok reply \<longrightarrow> (\<exists>rec sel. decode_bin bin_creds = Ok rec
         \<and> decode_bin reply = Ok (txt_default\<lparr>txt_peers := sel\<rparr>) \<and> length sel \<le> NUM_PEERS_TO_RESPOND
         \<and> selection_ok cfg pip sender (txt_peers rec) m' sel))"
  using seeder_reachable_ok [OF assms(1)] assms(2,3) by (rule post_credentials_ok)

lemma seeder_answer_suits_witness:
  "\<exists>reply sel m'. post_credentials demo_sha (\<lambda>_. 1) demo_cfg demo_pip 9 (demo_ip 2) (demo_post 2) demo_seeder = (Ok reply, m')
     \<and> decode_bin reply = Ok (txt_default\<lparr>txt_peers := sel\<rparr>)
     \<and> selection_ok demo_cfg demo_pip (demo_ip 2) [demo_creds 2] m' sel"
proof -
  obtain reply m' where r: "post_credentials demo_sha (\<lambda>_. 1) demo_cfg demo_pip 9 (demo_ip 2) (demo_post 2) demo_seeder = (Ok reply, m')"
    using demo_second by (metis prod.collapse)
  from seeder_answer_suits [OF demo_reachable demo_pick r] r show ?thesis
    by (auto simp: demo_decode)
qed

text \<open>A name server gets, in the order of registration, the first of the public peers that answered
  a tester within the hour without an error and have fewer peers than the maximum: as many as
  configured, but at least one.\<close>

theorem nameserver_listing:
  assumes "seeder_reachable sha hex_decode cfg m" and "passwd \<notin> set (tester_passwds cfg)"
    and "passwd \<in> set (nameserver_passwds cfg)" and "60 * 60 \<le> now_s"
  shows "list_peers cfg pip now_s passwd m = Ok (take (max 1 (share_peers_with_nameserver cfg))
     (List.filter (\<lambda>p. is_appropriate cfg pip (sp_ip p) None \<and> listable (now_s - 60 * 60) p) (sd_peers m)))"
  using seeder_reachable_ok [OF assms(1)] assms(2-4) by (rule list_peers_run)

end
