(* ===== verification/Hdr.thy ===== *)
theory Hdr
  imports Reader Labels Keys
begin

text \<open>
  \<^verbatim>\<open>cjdns-hdr\<close>: the data, switch and route headers and the content types, with the error types of
  \<^verbatim>\<open>cjdns-bytes/src/errors.rs\<close>. Flags and small fields share bytes; the lemmas on
  \<open>push_bit k a OR b\<close> take them apart.
\<close>

datatype parse_error =
    InvalidPacketSize | InvalidInvariant string | InvalidData string | InvalidChecksum u16 u16

datatype serialize_error =
    UnrecognizedData | SerInvalidInvariant string | SerInvalidData string

section \<open>Packed fields\<close>

lemma and_1_eq: "(w :: 'a::len word) AND 1 = take_bit 1 w"
  by (simp add: take_bit_eq_mask mask_eq_exp_minus_1)

lemma and_3f_eq: "(w :: 'a::len word) AND 0x3f = take_bit 6 w"
  by (simp add: take_bit_eq_mask mask_eq_exp_minus_1)

lemma packed_high:
  assumes "unat (a :: 'a::len word) < 2 ^ (LENGTH('a) - k)" and "unat b < 2 ^ k" and "k \<le> LENGTH('a)"
  shows "drop_bit k (push_bit k a OR b) = a"
proof (rule bit_word_eqI)
  fix i assume "i < LENGTH('a)"
  show "bit (drop_bit k (push_bit k a OR b)) i = bit a i"
  proof (cases "k + i < LENGTH('a)")
    case True
    then show ?thesis
      using not_bit_of_less [OF assms(2), of "k + i"] by (simp add: bit_drop_bit_eq bit_or_iff bit_push_bit_iff)
  next
    case False
    then have "\<not> bit a i" "\<not> bit (push_bit k a OR b) (k + i)"
      using not_bit_of_less [OF assms(1), of i] bit_imp_le_length by auto
    then show ?thesis unfolding bit_drop_bit_eq o_def by simp
  qed
qed

lemma packed_low:
  assumes "unat (b :: 'a::len word) < 2 ^ k"
  shows "take_bit k (push_bit k a OR b) = b"
  by (rule bit_word_eqI)
    (use not_bit_of_less [OF assms] in \<open>auto simp: bit_take_bit_iff bit_or_iff bit_push_bit_iff\<close>)

lemma packed_join: "push_bit k (drop_bit k w) OR take_bit k w = (w :: 'a::len word)"
  by (rule bit_word_eqI) (auto simp: bit_or_iff bit_push_bit_iff bit_take_bit_iff bit_drop_bit_eq)

section \<open>Content types\<close>

datatype content_type =
    Ip6Hop | Ip6Icmp | Ip6Igmp | Ip6Ipv4 | Ip6Tcp | Ip6Egp | Ip6Pup | Ip6Udp | Ip6Idp | Ip6Tp
  | Ip6Dccp | Ip6Ipv6 | Ip6Rsvp | Ip6Gre | Ip6Esp | Ip6Ah | Ip6Icmpv6 | Ip6Mtp | Ip6Beetph
  | Ip6Encap | Ip6Pim | Ip6Comp | Ip6Sctp | Ip6Udplite | Cjdht | Iptun | Ctrl | Other

definition content_type_table :: "(content_type \<times> u32) list" where
  "content_type_table =
    [(Ip6Hop, 0), (Ip6Icmp, 1), (Ip6Igmp, 2), (Ip6Ipv4, 4), (Ip6Tcp, 6), (Ip6Egp, 8), (Ip6Pup, 12),
     (Ip6Udp, 17), (Ip6Idp, 22), (Ip6Tp, 29), (Ip6Dccp, 33), (Ip6Ipv6, 41), (Ip6Rsvp, 46), (Ip6Gre, 47),
     (Ip6Esp, 50), (Ip6Ah, 51), (Ip6Icmpv6, 58), (Ip6Mtp, 92), (Ip6Beetph, 94), (Ip6Encap, 98),
     (Ip6Pim, 103), (Ip6Comp, 108), (Ip6Sctp, 132), (Ip6Udplite, 136), (Cjdht, 256), (Iptun, 257),
     (Ctrl, 0xffff + 1), (Other, 0xffff + 2)]"

definition content_type_to_u32 :: "content_type \<Rightarrow> u32" where
  "content_type_to_u32 c = the (map_of content_type_table c)"

definition content_type_from_u32 :: "u32 \<Rightarrow> content_type" where
  "content_type_from_u32 code =
     (case map_of (map (\<lambda>(c, n). (n, c)) content_type_table) code of Some c \<Rightarrow> c | None \<Rightarrow> Other)"

definition content_type_from_u16 :: "u16 \<Rightarrow> content_type" where
  "content_type_from_u16 code = content_type_from_u32 (ucast code)"

definition content_type_try_to_u16 :: "content_type \<Rightarrow> u16 option" where
  "content_type_try_to_u16 c =
     (let n = content_type_to_u32 c in if unat n < 2 ^ 16 then Some (ucast n) else None)"

lemma content_type_table_mem: "(c, content_type_to_u32 c) \<in> set content_type_table"
  by (cases c) (simp_all add: content_type_to_u32_def content_type_table_def)

lemma content_type_table_distinct:
  "distinct (map fst content_type_table)" "distinct (map snd content_type_table)"
  by (simp_all add: content_type_table_def)

lemma content_type_u32_roundtrip: "content_type_from_u32 (content_type_to_u32 c) = c"
proof -
  have "map_of (map (\<lambda>(c, n). (n, c)) content_type_table) (content_type_to_u32 c) = Some c"
  proof (rule map_of_is_SomeI)
    have "map fst (map (\<lambda>(c, n). (n, c)) content_type_table) = map snd content_type_table"
      by auto
    then show "distinct (map fst (map (\<lambda>(c, n). (n, c)) content_type_table))"
      using content_type_table_distinct(2) by (simp only:)
    show "(content_type_to_u32 c, c) \<in> set (map (\<lambda>(c, n). (n, c)) content_type_table)"
      using content_type_table_mem [of c] by force
  qed
  then show ?thesis by (simp add: content_type_from_u32_def)
qed

lemma content_type_u16_roundtrip:
  assumes "content_type_try_to_u16 c = Some n"
  shows "content_type_from_u16 n = c"
proof -
  let ?m = "content_type_to_u32 c"
  from assms have m: "unat ?m < 2 ^ 16" "n = ucast ?m"
    by (auto simp: content_type_try_to_u16_def Let_def split: if_splits)
  have "(ucast (ucast ?m :: u16) :: u32) = ?m"
    using m(1) by (simp add: word_unat_eq_iff unsigned_ucast_eq unsigned_take_bit_eq take_bit_nat_eq_self)
  then show ?thesis
    using content_type_u32_roundtrip [of c] m(2) by (simp add: content_type_from_u16_def)
qed

lemma content_type_u16_inverse:
  assumes "content_type_from_u16 n = c" and "c \<noteq> Other"
  shows "content_type_try_to_u16 c = Some n"
proof -
  have n: "(ucast (ucast n :: u32) :: u16) = n" "unat (ucast n :: u32) < 2 ^ 16"
    using unsigned_less [of n, where ?'a = nat] by (simp_all add: ucast_ucast_down unat_ucast_up)
  from assms have "map_of (map (\<lambda>(c, n). (n, c)) content_type_table) (ucast n) = Some c"
    by (auto simp: content_type_from_u16_def content_type_from_u32_def split: option.splits)
  then have "(c, ucast n) \<in> set content_type_table"
    by (auto dest!: map_of_SomeD)
  with content_type_table_distinct(1) have "content_type_to_u32 c = ucast n" by (simp add: content_type_to_u32_def)
  with n show ?thesis by (simp add: content_type_try_to_u16_def)
qed

section \<open>Data header\<close>

record data_header =
  dh_version :: u8
  dh_content_type :: content_type

definition data_header_parse :: "bytes \<Rightarrow> (data_header, parse_error) result" where
  "data_header_parse data =
     and_then (map_err (\<lambda>_. InvalidPacketSize) (fst (reader_read (Exact 4)
       (rd_bind read_u8 (\<lambda>version_with_flags.
        rd_bind (skip 1) (\<lambda>_.
        rd_bind read_u16_be (\<lambda>content_type_code.
        rd_ok (version_with_flags, content_type_code))))) data)))
     (\<lambda>(version_with_flags, content_type_code).
     Ok \<lparr>dh_version = drop_bit 4 version_with_flags, dh_content_type = content_type_from_u16 content_type_code\<rparr>)"

definition data_header_serialize :: "data_header \<Rightarrow> (bytes, serialize_error) result" where
  "data_header_serialize h =
     (if dh_version h > 15 then Err (SerInvalidInvariant ''version value can't take more than 4 bits'')
      else let version_with_flags = (if dh_version h = 0 then push_bit 4 1 else push_bit 4 (dh_version h)) in
      if dh_content_type h = Other then Err (SerInvalidData ''content type is not recognized or not preserved'')
      else and_then (ok_or (content_type_try_to_u16 (dh_content_type h))
             (SerInvalidData ''content type can't be serialized into bytes slice with respected length'')) (\<lambda>code.
      Ok (into_vec (write_u16_be code (write_u8 0 (write_u8 version_with_flags writer_new))))))"

definition data_header_default :: data_header where
  "data_header_default = \<lparr>dh_version = 1, dh_content_type = Other\<rparr>"

lemma data_header_parse_iff:
  "data_header_parse bs = Ok h \<longleftrightarrow> (\<exists>v p c. bs = v # p # to_be_bytes (c :: u16)
     \<and> h = \<lparr>dh_version = drop_bit 4 v, dh_content_type = content_type_from_u16 c\<rparr>)"
proof -
  have "fst (reader_read (Exact 4)
       (rd_bind read_u8 (\<lambda>v. rd_bind (skip 1) (\<lambda>_. rd_bind read_u16_be (\<lambda>c. rd_ok (v, c))))) bs) = Ok (v, c)
     \<longleftrightarrow> (\<exists>p. bs = v # p # to_be_bytes (c :: u16))" (is "fst ?r = _ \<longleftrightarrow> ?rhs") for v c
  proof
    assume "fst ?r = Ok (v, c)"
    then have "?r = (Ok (v, c), snd ?r)" by (metis prod.collapse)
    then show ?rhs by (auto simp: rd_iff length_Suc_conv)
  next
    assume ?rhs
    then show "fst ?r = Ok (v, c)"
      by (auto simp: read_exact_fields [where x = "(v, c)"] rd_bind_def skip_def read_slice_def rd_ok_def read_enc)
  qed
  then show ?thesis by (auto simp: data_header_parse_def ok_iff)
qed

section \<open>Switch header\<close>

record switch_header =
  sh_label :: "u64 routing_label"
  congestion :: u8
  suppress_errors :: bool
  sh_version :: u8
  label_shift :: u8
  penalty :: u16

definition SH_CURRENT_VERSION :: u8 where
  "SH_CURRENT_VERSION = 1"

definition switch_header_parse :: "bytes \<Rightarrow> (switch_header, parse_error) result" where
  "switch_header_parse data =
     and_then (map_err (\<lambda>_. InvalidPacketSize) (fst (reader_read (Exact 12)
       (rd_bind read_u64_be (\<lambda>label_num.
        rd_bind read_u8 (\<lambda>congestion_and_suppress_errors.
        rd_bind read_u8 (\<lambda>version_and_label_shift.
        rd_bind read_u16_be (\<lambda>penalty.
        rd_ok (label_num, congestion_and_suppress_errors, version_and_label_shift, penalty)))))) data)))
     (\<lambda>(label_num, congestion_and_suppress_errors, version_and_label_shift, penalty).
     and_then (ok_or (label_try_new label_num) (InvalidData ''zero label bytes'')) (\<lambda>label.
     let version = drop_bit 6 version_and_label_shift in
     if version \<noteq> SH_CURRENT_VERSION \<and> version \<noteq> 0
     then Err (InvalidData ''unrecognized switch header version'')
     else Ok \<lparr>sh_label = label, congestion = drop_bit 1 congestion_and_suppress_errors,
              suppress_errors = ((congestion_and_suppress_errors AND 1) = 1), sh_version = version,
              label_shift = version_and_label_shift AND 0x3f, penalty = penalty\<rparr>))"

definition switch_header_serialize :: "switch_header \<Rightarrow> (bytes, serialize_error) result" where
  "switch_header_serialize h =
     (if sh_version h \<noteq> SH_CURRENT_VERSION \<and> sh_version h \<noteq> 0 then Err UnrecognizedData
      else if label_shift h > 63 then Err (SerInvalidInvariant ''label_shift value can't take more than 6 bits'')
      else if congestion h > 127 then Err (SerInvalidInvariant ''congestion value can't take more than 7 bits'')
      else let congestion_and_suppress_errors = push_bit 1 (congestion h) OR of_bool (suppress_errors h);
               version_and_label_shift =
                 (if sh_version h = 0 then push_bit 6 SH_CURRENT_VERSION OR label_shift h
                  else push_bit 6 (sh_version h) OR label_shift h)
           in Ok (into_vec (write_u16_be (penalty h) (write_u8 version_and_label_shift
                (write_u8 congestion_and_suppress_errors (write_u64_be (bits (sh_label h)) writer_new))))))"

definition switch_header_bytes :: "u64 \<Rightarrow> u8 \<Rightarrow> u8 \<Rightarrow> u16 \<Rightarrow> bytes" where
  "switch_header_bytes l c v p = to_be_bytes l @ c # v # to_be_bytes p"

lemma length_switch_header_bytes [simp]: "length (switch_header_bytes l c v p) = 12"
  by (simp add: switch_header_bytes_def)

lemma switch_header_parse_bytes:
  "switch_header_parse (switch_header_bytes l c v p) =
     (if l = 0 then Err (InvalidData ''zero label bytes'')
      else if drop_bit 6 v \<noteq> 1 \<and> drop_bit 6 v \<noteq> 0 then Err (InvalidData ''unrecognized switch header version'')
      else Ok \<lparr>sh_label = RoutingLabel l, congestion = drop_bit 1 c, suppress_errors = (take_bit 1 c = 1),
              sh_version = drop_bit 6 v, label_shift = take_bit 6 v, penalty = p\<rparr>)"
proof -
  have "reader_read (Exact 12)
       (rd_bind read_u64_be (\<lambda>label_num. rd_bind read_u8 (\<lambda>c. rd_bind read_u8 (\<lambda>v. rd_bind read_u16_be (\<lambda>p.
        rd_ok (label_num, c, v, p)))))) (switch_header_bytes l c v p) = (Ok (l, c, v, p), [])"
    by (rule read_exact_fields) (simp_all add: switch_header_bytes_def rd_bind_def rd_ok_def read_enc)
  then show ?thesis
    by (auto simp: switch_header_parse_def SH_CURRENT_VERSION_def and_1_eq and_3f_eq label_try_new_def
        simp del: push_bit_of_1)
qed

lemma switch_header_bytes_exist:
  assumes "length bs = 12"
  shows "\<exists>l c v p. bs = switch_header_bytes l c v p"
proof -
  let ?l = "from_be_bytes (take 8 bs) :: u64" and ?p = "from_be_bytes (drop 10 bs) :: u16"
  have "bs = take 8 bs @ bs ! 8 # bs ! 9 # drop 10 bs"
  proof -
    have "drop 9 bs = bs ! 9 # drop 10 bs" using assms Cons_nth_drop_Suc [of 9 bs] by simp
    then show ?thesis using assms id_take_nth_drop [of 8 bs] by simp
  qed
  moreover have "to_be_bytes ?l = take 8 bs" "to_be_bytes ?p = drop 10 bs"
    using assms by (simp_all add: to_from_be_bytes)
  ultimately show ?thesis unfolding switch_header_bytes_def by metis
qed

lemma switch_header_parse_iff:
  "switch_header_parse bs = Ok h \<longleftrightarrow> (\<exists>l c v p. bs = switch_header_bytes l c v p \<and> l \<noteq> 0
     \<and> drop_bit 6 v \<in> {0, 1}
     \<and> h = \<lparr>sh_label = RoutingLabel l, congestion = drop_bit 1 c, suppress_errors = (take_bit 1 c = 1),
           sh_version = drop_bit 6 v, label_shift = take_bit 6 v, penalty = p\<rparr>)" (is "_ \<longleftrightarrow> ?rhs")
proof
  assume ok: "switch_header_parse bs = Ok h"
  have "length bs = 12"
  proof (rule ccontr)
    assume "length bs \<noteq> 12"
    with ok show False by (simp add: switch_header_parse_def reader_read_def)
  qed
  then obtain l c v p where bs: "bs = switch_header_bytes l c v p" using switch_header_bytes_exist by blast
  with ok show ?rhs
    by (intro exI [of _ l] exI [of _ c] exI [of _ v] exI [of _ p]) (auto simp: switch_header_parse_bytes split: if_splits)
next
  assume ?rhs
  then show "switch_header_parse bs = Ok h" by (auto simp: switch_header_parse_bytes)
qed

lemma switch_header_parse_no_panic: "switch_header_parse bs \<noteq> Panic"
proof (cases "length bs = 12")
  case True
  then obtain l c v p where "bs = switch_header_bytes l c v p" using switch_header_bytes_exist by blast
  then show ?thesis by (simp add: switch_header_parse_bytes)
next
  case False
  then show ?thesis by (simp add: switch_header_parse_def)
qed

definition current_sh :: "switch_header \<Rightarrow> switch_header" where
  "current_sh h = h\<lparr>sh_version := 1\<rparr>"

lemma switch_header_serialize_ok:
  assumes "switch_header_serialize h = Ok bs" and "label_ok (sh_label h)"
  shows "switch_header_parse bs = Ok (current_sh h)" and "length bs = 12"
proof -
  let ?c = "push_bit 1 (congestion h) OR of_bool (suppress_errors h) :: u8"
  let ?v = "push_bit 6 1 OR label_shift h :: u8"
  from assms(1) have bs: "bs = switch_header_bytes (bits (sh_label h)) ?c ?v (penalty h)"
    and lim: "unat (label_shift h) < 2 ^ 6" "unat (congestion h) < 2 ^ (LENGTH(8) - 1)"
    by (auto simp: switch_header_serialize_def SH_CURRENT_VERSION_def writer_defs switch_header_bytes_def Let_def
        word_le_nat_alt not_less split: if_splits)
  have c: "drop_bit 1 ?c = congestion h" "take_bit 1 ?c = of_bool (suppress_errors h)"
    using packed_high [OF lim(2), of "of_bool (suppress_errors h)"] packed_low [of "of_bool (suppress_errors h) :: u8" 1 "congestion h"]
    by simp_all
  have v: "drop_bit 6 ?v = 1" "take_bit 6 ?v = label_shift h"
    using packed_high [of "1 :: u8" 6, OF _ lim(1)] packed_low [OF lim(1), of 1] by simp_all
  show "switch_header_parse bs = Ok (current_sh h)"
    using assms(2) unfolding bs switch_header_parse_bytes c v
    by (cases "sh_label h") (simp add: label_ok_def current_sh_def)
  show "length bs = 12" by (simp add: bs)
qed

lemma switch_header_reserialize:
  assumes "switch_header_parse bs = Ok h" and "sh_version h = 1"
  shows "switch_header_serialize h = Ok bs"
proof -
  from assms(1) obtain l c v p where bs: "bs = switch_header_bytes l c v p"
    and h: "h = \<lparr>sh_label = RoutingLabel l, congestion = drop_bit 1 c, suppress_errors = (take_bit 1 c = 1),
           sh_version = drop_bit 6 v, label_shift = take_bit 6 v, penalty = p\<rparr>"
    by (auto simp: switch_header_parse_iff)
  have "unat (drop_bit 1 c) \<le> 127"
  proof -
    have "unat c div 2 < 128" by (rule less_mult_imp_div_less) (use unat_u8_less [of c] in linarith)
    then show ?thesis by (simp add: drop_bit_eq_div unat_div)
  qed
  moreover have "unat (take_bit 6 v) \<le> 63"
    by (simp add: take_bit_eq_mod unat_mod less_Suc_eq_le [symmetric])
  moreover have "of_bool (take_bit 1 c = 1) = take_bit 1 c"
  proof -
    have "take_bit 1 c = of_bool (bit c 0)"
      by (rule bit_word_eqI) (auto simp: bit_take_bit_iff bit_of_bool_iff bit_0)
    then show ?thesis by simp
  qed
  ultimately show ?thesis
    using assms(2) packed_join [of 1 c] packed_join [of 6 v]
    by (simp add: switch_header_serialize_def SH_CURRENT_VERSION_def h bs writer_defs switch_header_bytes_def
        word_le_nat_alt not_less)
qed

section \<open>Route header\<close>

record route_header =
  rh_public_key :: "public_key option"
  rh_ip6 :: "ip6 option"
  rh_version :: u32
  rh_switch_header :: switch_header
  is_incoming :: bool
  is_ctrl :: bool

definition INCOMING_FRAME :: u8 where "INCOMING_FRAME = 1"
definition CONTROL_FRAME :: u8 where "CONTROL_FRAME = 2"

definition route_fields :: "(bytes \<times> bytes \<times> u32 \<times> u8 \<times> bytes, insufficient_buffer) rd" where
  "route_fields =
     rd_bind read_array_32 (\<lambda>pk_bytes.
     rd_bind (read_slice 12) (\<lambda>header_bytes.
     rd_bind read_u32_be (\<lambda>version.
     rd_bind read_u8 (\<lambda>flags.
     rd_bind (skip 3) (\<lambda>_.
     rd_bind (read_slice 16) (\<lambda>ip6_bytes.
     rd_ok (pk_bytes, header_bytes, version, flags, ip6_bytes)))))))"

definition route_header_parse :: "(bytes \<Rightarrow> bytes) \<Rightarrow> bytes \<Rightarrow> (route_header, parse_error) result" where
  "route_header_parse sha512 data =
     and_then (map_err (\<lambda>_. InvalidPacketSize) (fst (reader_read (Exact 68) route_fields data)))
     (\<lambda>(pk_bytes, header_bytes, version, flags, ip6_bytes).
     let public_key = (if replicate 32 0 = pk_bytes then None else Some pk_bytes) in
     and_then (switch_header_parse header_bytes) (\<lambda>switch_header.
     let is_ctrl = (flags AND CONTROL_FRAME \<noteq> 0); is_incoming = (flags AND INCOMING_FRAME \<noteq> 0) in
     and_then (if ip6_bytes = replicate 16 0 then Ok None
               else map_ok Some (map_err (\<lambda>_. InvalidData ''can't create ip6 from received bytes'')
                      (ip6_try_from_bytes ip6_bytes))) (\<lambda>ip6_from_bytes.
     if is_ctrl \<and> public_key \<noteq> None then Err (InvalidInvariant ''public key can not be defined in control frame'')
     else if is_ctrl \<and> ip6_from_bytes \<noteq> None then Err (InvalidInvariant ''ip6 is defined for control frame'')
     else if \<not> is_ctrl \<and> ip6_from_bytes = None then Err (InvalidInvariant ''ip6 is not defined for non-control frame'')
     else and_then
       (case (public_key, ip6_from_bytes) of
          (Some pk, Some ip) \<Rightarrow>
            and_then (map_err (\<lambda>_. InvalidData ''can't create ip6 from public key'') (ip6_try_from_key sha512 pk))
              (\<lambda>ip6_from_key. check (ip6_from_key = ip)
                (InvalidData ''ip6 derived from public key is not equal to ip6 from header bytes''))
        | _ \<Rightarrow> Ok ()) (\<lambda>_.
     Ok \<lparr>rh_public_key = public_key, rh_ip6 = ip6_from_bytes, rh_version = version,
         rh_switch_header = switch_header, is_incoming = is_incoming, is_ctrl = is_ctrl\<rparr>))))"

definition route_header_serialize :: "(bytes \<Rightarrow> bytes) \<Rightarrow> route_header \<Rightarrow> (bytes, serialize_error) result" where
  "route_header_serialize sha512 h =
     (if is_ctrl h \<and> rh_public_key h \<noteq> None
      then Err (SerInvalidInvariant ''public key can not be defined in control frame'')
      else if is_ctrl h \<and> rh_ip6 h \<noteq> None then Err (SerInvalidInvariant ''ip6 is defined for control frame'')
      else if \<not> is_ctrl h \<and> rh_ip6 h = None then Err (SerInvalidInvariant ''ip6 is not defined for non-control frame'')
      else and_then
        (case (rh_public_key h, rh_ip6 h) of
           (Some pk, Some ip) \<Rightarrow>
             and_then (map_err (\<lambda>_. SerInvalidData ''can't create ip6 from public key'') (ip6_try_from_key sha512 pk))
               (\<lambda>ip6_from_key. check (ip6_from_key = ip)
                 (SerInvalidData ''ip6 derived from public key is not equal to ip6 from header bytes''))
         | _ \<Rightarrow> Ok ()) (\<lambda>_.
      let public_key_bytes = (case rh_public_key h of Some key \<Rightarrow> key | None \<Rightarrow> replicate 32 0) in
      and_then (switch_header_serialize (rh_switch_header h)) (\<lambda>switch_header_bytes.
      and_then (if is_ctrl h then add_chk 0 CONTROL_FRAME else Ok 0) (\<lambda>ret_flag.
      and_then (if is_incoming h then add_chk ret_flag INCOMING_FRAME else Ok ret_flag) (\<lambda>flags.
      let ip6_bytes = (case rh_ip6 h of Some ip6 \<Rightarrow> ip6 | None \<Rightarrow> replicate 16 0) in
      Ok (into_vec (write_slice ip6_bytes (write_slice [0, 0, 0] (write_u8 flags (write_u32_be (rh_version h)
        (write_slice switch_header_bytes (write_slice public_key_bytes writer_new))))))))))))"

text \<open>Well-formed in memory: what the types \<open>CJDNSPublicKey\<close> and \<open>CJDNS_IP6\<close> guarantee, and the
  all-zero values, which stand for "none" on the wire, not used as keys or addresses.\<close>

definition route_header_ok :: "route_header \<Rightarrow> bool" where
  "route_header_ok h \<longleftrightarrow> label_ok (sh_label (rh_switch_header h))
     \<and> (\<forall>k. rh_public_key h = Some k \<longrightarrow> length k = 32 \<and> k \<noteq> replicate 32 0)
     \<and> (\<forall>a. rh_ip6 h = Some a \<longrightarrow> ip6_ok a \<and> a \<noteq> replicate 16 0)"

lemma route_fields_append:
  assumes "length pk = 32" and "length sh = 12" and "length pad = 3" and "length ip = 16"
  shows "reader_read (Exact 68) route_fields (pk @ sh @ to_be_bytes (v :: u32) @ f # pad @ ip) = (Ok (pk, sh, v, f, ip), [])"
proof (rule read_exact_fields)
  show "length (pk @ sh @ to_be_bytes v @ f # pad @ ip) = 68" using assms by simp
  have "read_array_32 (pk @ sh @ to_be_bytes v @ f # pad @ ip) = (Ok pk, sh @ to_be_bytes v @ f # pad @ ip)"
    using array32.dec_enc [OF assms(1)] by simp
  moreover have "read_slice 12 (sh @ to_be_bytes v @ f # pad @ ip) = (Ok sh, to_be_bytes v @ f # pad @ ip)"
    using assms by simp
  moreover have "skip 3 (pad @ ip) = (Ok (), ip)" using assms by (simp add: skip_def rd_ok_def)
  moreover have "read_slice 16 ip = (Ok ip, [])" using assms read_slice_append [of ip 16 "[]"] by simp
  ultimately show "route_fields (pk @ sh @ to_be_bytes v @ f # pad @ ip) = (Ok (pk, sh, v, f, ip), [])"
    by (simp add: route_fields_def read_enc rd_ok_def)
qed

lemma flag_bits:
  "(((if c then 2 else 0) + (if i then 1 else 0) :: u8) AND CONTROL_FRAME \<noteq> 0) = c"
  "(((if c then 2 else 0) + (if i then 1 else 0) :: u8) AND INCOMING_FRAME \<noteq> 0) = i"
  by (simp_all add: CONTROL_FRAME_def INCOMING_FRAME_def)

lemma route_header_serialize_ok:
  assumes "route_header_serialize sha512 h = Ok bs" and "route_header_ok h"
  shows "route_header_parse sha512 bs = Ok (h\<lparr>rh_switch_header := current_sh (rh_switch_header h)\<rparr>) \<and> length bs = 68"
proof -
  let ?pk = "case rh_public_key h of Some key \<Rightarrow> key | None \<Rightarrow> replicate 32 0"
  let ?ip = "case rh_ip6 h of Some ip6 \<Rightarrow> ip6 | None \<Rightarrow> replicate 16 0"
  let ?f = "(if is_ctrl h then 2 else 0) + (if is_incoming h then 1 else 0) :: u8"
  have lp: "length ?pk = 32" and li: "length ?ip = 16"
    using assms(2) by (auto simp: route_header_ok_def ip6_ok_def split: option.splits)
  from assms(1) obtain sh where sh: "switch_header_serialize (rh_switch_header h) = Ok sh"
    and bs: "bs = ?pk @ sh @ to_be_bytes (rh_version h) @ ?f # [0, 0, 0] @ ?ip"
    and key: "\<And>k a. rh_public_key h = Some k \<Longrightarrow> rh_ip6 h = Some a \<Longrightarrow> ip6_try_from_key sha512 k = Ok a"
    and inv: "is_ctrl h \<longrightarrow> rh_public_key h = None" "is_ctrl h \<longrightarrow> rh_ip6 h = None" "\<not> is_ctrl h \<longrightarrow> rh_ip6 h \<noteq> None"
    by (auto simp: route_header_serialize_def ok_iff writer_defs Let_def add_chk_def CONTROL_FRAME_def INCOMING_FRAME_def
        split: if_splits option.splits)
  note p = switch_header_serialize_ok [OF sh]
  have ps: "switch_header_parse sh = Ok (current_sh (rh_switch_header h))" and ls: "length sh = 12"
    using p assms(2) by (auto simp: route_header_ok_def)
  have pk: "(if replicate 32 0 = ?pk then None else Some ?pk) = rh_public_key h"
    using assms(2) by (auto simp: route_header_ok_def split: option.splits)
  have ip: "(if ?ip = replicate 16 0 then Ok None
               else map_ok Some (map_err (\<lambda>_. InvalidData ''can't create ip6 from received bytes'')
                      (ip6_try_from_bytes ?ip))) = (Ok (rh_ip6 h) :: (_, parse_error) result)"
  proof (cases "rh_ip6 h")
    case (Some a)
    then have "ip6_try_from_bytes a = Ok a" using assms(2) by (simp add: route_header_ok_def ip6_try_from_bytes_iff)
    then show ?thesis using Some assms(2) by (simp add: route_header_ok_def)
  qed simp
  have "route_header_parse sha512 bs = Ok (h\<lparr>rh_switch_header := current_sh (rh_switch_header h)\<rparr>)"
    unfolding bs route_header_parse_def
    by (simp only: route_fields_append [OF lp ls _ li, of "[0, 0, 0]", simplified] fst_conv map_err.simps and_then.simps
        prod.case Let_def ps ip pk flag_bits append_Cons append_Nil)
      (use inv key in \<open>auto split: option.splits\<close>)
  then show ?thesis using lp ls li by (simp add: bs)
qed

lemma route_header_parse_no_panic:
  assumes "\<And>bs. 16 \<le> length (sha512 bs)"
  shows "route_header_parse sha512 bs \<noteq> Panic"
proof (cases "length bs = 68")
  case False
  then show ?thesis by (simp add: route_header_parse_def)
next
  case True
  let ?pk = "take 32 bs" and ?sh = "take 12 (drop 32 bs)" and ?v = "from_be_bytes (take 4 (drop 44 bs)) :: u32"
  let ?f = "bs ! 48" and ?pad = "take 3 (drop 49 bs)" and ?ip = "drop 52 bs"
  have "to_be_bytes ?v = take 4 (drop 44 bs)" using True by (simp add: to_from_be_bytes)
  moreover have "bs = take 32 bs @ take 12 (drop 32 bs) @ take 4 (drop 44 bs) @ bs ! 48 # take 3 (drop 49 bs) @ drop 52 bs"
  proof -
    have "drop 48 bs = bs ! 48 # drop 49 bs" using True Cons_nth_drop_Suc [of 48 bs] by simp
    moreover have "drop 49 bs = take 3 (drop 49 bs) @ drop 52 bs"
      using append_take_drop_id [of 3 "drop 49 bs"] by (simp del: append_take_drop_id)
    moreover have "drop 44 bs = take 4 (drop 44 bs) @ drop 48 bs"
      using append_take_drop_id [of 4 "drop 44 bs"] by (simp del: append_take_drop_id)
    moreover have "drop 32 bs = take 12 (drop 32 bs) @ drop 44 bs"
      using append_take_drop_id [of 12 "drop 32 bs"] by (simp del: append_take_drop_id)
    ultimately show ?thesis by (metis append_take_drop_id)
  qed
  ultimately have bs: "bs = ?pk @ ?sh @ to_be_bytes ?v @ ?f # ?pad @ ?ip" by simp
  have np: "ip6_try_from_key sha512 k \<noteq> Panic" for k
    using assms [of "sha512 k"] by (simp add: ip6_try_from_key_def Let_def not_less)
  have "reader_read (Exact 68) route_fields bs = (Ok (?pk, ?sh, ?v, ?f, ?ip), [])"
    using True by (subst bs) (rule route_fields_append; simp)
  then show ?thesis
    using np switch_header_parse_no_panic [of ?sh]
    by (auto simp: route_header_parse_def panic_iff Let_def split: if_splits option.splits)
qed

section \<open>Properties\<close>

text \<open>A switch header that serializes parses back, with the version set to the current one when
  it was 0; and bytes that parse to a header of the current version serialize to the same bytes.
  Parsing never panics.\<close>

theorem switch_header_roundtrip:
  "(switch_header_serialize h = Ok bs \<and> label_ok (sh_label h) \<longrightarrow> switch_header_parse bs = Ok (h\<lparr>sh_version := 1\<rparr>))
   \<and> (switch_header_parse bs = Ok h \<and> sh_version h = 1 \<longrightarrow> switch_header_serialize h = Ok bs)
   \<and> switch_header_parse bs \<noteq> Panic"
  using switch_header_serialize_ok(1) [of h bs] switch_header_reserialize [of bs h] switch_header_parse_no_panic [of bs]
  by (auto simp: current_sh_def)

text \<open>A well-formed route header that serializes takes 68 bytes and parses back to itself, up to
  the version of its switch header; parsing never panics when the hash is long enough.\<close>

theorem route_header_roundtrip:
  assumes "\<And>bs. 16 \<le> length (sha512 bs)" and "route_header_ok h" and "route_header_serialize sha512 h = Ok bs"
  shows "length bs = 68
    \<and> route_header_parse sha512 bs = Ok (h\<lparr>rh_switch_header := (rh_switch_header h)\<lparr>sh_version := 1\<rparr>\<rparr>)
    \<and> route_header_parse sha512 bs' \<noteq> Panic"
  using route_header_serialize_ok [OF assms(3,2)] route_header_parse_no_panic [OF assms(1)]
  by (simp add: current_sh_def)

text \<open>A data header that serializes parses back with version 0 replaced by the current version,
  and a 4-byte buffer with a known content type, a non-zero version, no flags and zero padding
  parses to a header that serializes to the same bytes.\<close>

theorem data_header_roundtrip:
  "(data_header_serialize h = Ok bs \<longrightarrow>
      data_header_parse bs = Ok (h\<lparr>dh_version := if dh_version h = 0 then 1 else dh_version h\<rparr>))
   \<and> (data_header_parse [v, 0, c1, c2] = Ok h \<and> dh_content_type h \<noteq> Other \<and> dh_version h \<noteq> 0 \<and> take_bit 4 v = 0
      \<longrightarrow> data_header_serialize h = Ok [v, 0, c1, c2])"
proof (intro conjI impI)
  assume ser: "data_header_serialize h = Ok bs"
  let ?v = "if dh_version h = 0 then 1 else dh_version h"
  from ser obtain c where c: "content_type_try_to_u16 (dh_content_type h) = Some c"
    and bs: "bs = push_bit 4 ?v # 0 # to_be_bytes c" and lim: "dh_version h \<le> 15"
    by (auto simp: data_header_serialize_def ok_iff writer_defs Let_def not_less split: if_splits)
  have "unat ?v < 2 ^ (LENGTH(8) - 4)" using lim by (simp add: word_le_nat_alt)
  then have "drop_bit 4 (push_bit 4 ?v) = ?v"
    using packed_high [of ?v 4 0] by simp
  then show "data_header_parse bs = Ok (h\<lparr>dh_version := ?v\<rparr>)"
    using content_type_u16_roundtrip [OF c] unfolding data_header_parse_iff
    by (intro exI [of _ "push_bit 4 ?v"] exI [of _ 0] exI [of _ c]) (simp add: bs)
next
  assume p: "data_header_parse [v, 0, c1, c2] = Ok h \<and> dh_content_type h \<noteq> Other \<and> dh_version h \<noteq> 0 \<and> take_bit 4 v = 0"
  then obtain c where c: "[c1, c2] = to_be_bytes (c :: u16)"
    and h: "h = \<lparr>dh_version = drop_bit 4 v, dh_content_type = content_type_from_u16 c\<rparr>"
    by (auto simp: data_header_parse_iff)
  have "push_bit 4 (drop_bit 4 v) = v" using packed_join [of 4 v] p by simp
  moreover have "unat (drop_bit 4 v) \<le> 15"
  proof -
    have "unat v div 16 < 16" by (rule less_mult_imp_div_less) (use unat_u8_less [of v] in linarith)
    then show ?thesis by (simp add: drop_bit_eq_div unat_div)
  qed
  ultimately show "data_header_serialize h = Ok [v, 0, c1, c2]"
    using content_type_u16_inverse [of c "content_type_from_u16 c"] p c h
    by (simp add: data_header_serialize_def writer_defs word_le_nat_alt not_less)
qed

end
