(* ===== verification/Netchecksum.thy ===== *)
theory Netchecksum
  imports Bytes
begin

text \<open>
  \<^verbatim>\<open>netchecksum/src/lib.rs\<close>: the one's complement checksum, summed over little-endian words and
  byte-swapped at the end. \<open>u16::from_be\<close> swaps the bytes, as it does on the little-endian
  targets the code is written for.
\<close>

fun sum_le_words :: "bytes \<Rightarrow> u32 \<Rightarrow> u32" where
  "sum_le_words (lo # hi # rest) s = sum_le_words rest (s + (ucast lo + push_bit 8 (ucast hi)))"
| "sum_le_words _ s = s"

definition sum_be_words :: "bytes \<Rightarrow> (u32, 'e) result" where
  "sum_be_words data =
     (if length data = 0 then Ok 0
      else let s = sum_le_words data 0; len = length data in
           if odd len then add_chk s (ucast (data ! (len - 1))) else Ok s)"

lemma unat_fold_step: "unat (drop_bit 16 s + (s AND 0xFFFF) :: u32) = unat s div 65536 + unat s mod 65536"
proof -
  have "s AND 0xFFFF = take_bit 16 s"
    by (simp add: take_bit_eq_mask mask_eq_exp_minus_1)
  then have lo: "unat (s AND 0xFFFF) = unat s mod 65536"
    by (simp add: take_bit_eq_mod unat_mod)
  have hi: "unat (drop_bit 16 s) = unat s div 65536"
    by (simp add: drop_bit_eq_div unat_div)
  have "unat s div 65536 < 65536"
    using unsigned_less [of s, where ?'a = nat] by simp
  then show ?thesis
    by (simp add: unat_plus_if' lo hi)
qed

function finalize_sum :: "u32 \<Rightarrow> u32" where
  "finalize_sum s = (if s > 0xFFFF then finalize_sum (drop_bit 16 s + (s AND 0xFFFF)) else s)"
  by pat_completeness auto

termination
proof (relation "measure unat")
  fix s :: u32
  assume "s > 0xFFFF"
  then have "unat s > 65535" by (simp add: word_less_nat_alt)
  moreover have "unat s = 65536 * (unat s div 65536) + unat s mod 65536" "unat s mod 65536 < 65536" by simp_all
  ultimately have "unat s div 65536 + unat s mod 65536 < unat s" by linarith
  then show "(drop_bit 16 s + (s AND 0xFFFF), s) \<in> measure unat"
    by (simp only: in_measure unat_fold_step)
qed simp

declare finalize_sum.simps [simp del]

definition swap_bytes :: "u16 \<Rightarrow> u16" where
  "swap_bytes w = push_bit 8 w OR drop_bit 8 w"

definition finalize_checksum :: "u32 \<Rightarrow> u16" where
  "finalize_checksum s = NOT (swap_bytes (ucast (finalize_sum s)))"

definition cksum_raw :: "bytes \<Rightarrow> (u16, 'e) result" where
  "cksum_raw buf = map_ok finalize_checksum (sum_be_words buf)"

definition cksum_udp4 :: "bytes \<Rightarrow> bytes \<Rightarrow> u16 \<Rightarrow> u16 \<Rightarrow> bytes \<Rightarrow> (u16, unit) result" where
  "cksum_udp4 src_ip dst_ip src_port dst_port content =
     (if 8 + length content > 0xFFFF then Err ()
      else let len = to_be_bytes (word_of_nat (8 + length content) :: u16) in
           cksum_raw (src_ip @ dst_ip @ [0, 17] @ len @ to_be_bytes src_port @ to_be_bytes dst_port @ len
             @ [0, 0] @ content))"

section \<open>The reference: one's complement sum of big-endian words\<close>

fun be_word_sum :: "bytes \<Rightarrow> nat" where
  "be_word_sum (hi # lo # rest) = 256 * unat hi + unat lo + be_word_sum rest"
| "be_word_sum [hi] = 256 * unat hi"
| "be_word_sum [] = 0"

definition oc_norm :: "nat \<Rightarrow> nat" where
  "oc_norm n = (if n = 0 then 0 else (n - 1) mod 65535 + 1)"

fun le_word_sum :: "bytes \<Rightarrow> nat" where
  "le_word_sum (lo # hi # rest) = unat lo + 256 * unat hi + le_word_sum rest"
| "le_word_sum [lo] = unat lo"
| "le_word_sum [] = 0"

lemma oc_norm_less: "oc_norm n \<le> 65535" and oc_norm_0_iff: "oc_norm n = 0 \<longleftrightarrow> n = 0"
  by (auto simp: oc_norm_def Suc_le_eq)

lemma oc_norm_mod: "oc_norm n mod 65535 = n mod 65535"
proof (cases n)
  case (Suc k)
  have "(k mod 65535 + 1) mod 65535 = (k + 1) mod 65535" by (rule mod_add_left_eq)
  with Suc show ?thesis by (simp add: oc_norm_def)
qed (simp add: oc_norm_def)

lemma oc_norm_unique:
  assumes "x \<le> 65535" and "x = 0 \<longleftrightarrow> n = 0" and "x mod 65535 = n mod 65535"
  shows "x = oc_norm n"
proof -
  have "x mod 65535 = oc_norm n mod 65535" using assms(3) oc_norm_mod by simp
  moreover have "x = 0 \<longleftrightarrow> oc_norm n = 0" using assms(2) oc_norm_0_iff by simp
  moreover have "y mod 65535 = (if y = 65535 then 0 else y)" if "y \<le> 65535" for y :: nat
    using that by auto
  ultimately show ?thesis
    using assms(1) oc_norm_less [of n] by (metis (no_types))
qed

lemma be_le_word_sum: "be_word_sum bs mod 65535 = (256 * le_word_sum bs) mod 65535"
proof (induction bs rule: be_word_sum.induct)
  case (1 hi lo rest)
  have "256 * le_word_sum (hi # lo # rest) = (256 * unat hi + unat lo + 256 * le_word_sum rest) + 65535 * unat lo"
    by (simp add: algebra_simps)
  then have "(256 * le_word_sum (hi # lo # rest)) mod 65535 = (256 * unat hi + unat lo + 256 * le_word_sum rest) mod 65535"
    by (simp only: mod_mult_self2)
  also have "\<dots> = (256 * unat hi + unat lo + be_word_sum rest) mod 65535"
    using mod_add_cong [OF refl 1] by metis
  finally show ?case by simp
qed simp_all

lemma be_le_zero: "be_word_sum bs = 0 \<longleftrightarrow> le_word_sum bs = 0"
  by (induction bs rule: be_word_sum.induct) auto

lemma le_word_sum_le: "le_word_sum bs \<le> 65535 * ((length bs + 1) div 2)"
proof (induction bs rule: le_word_sum.induct)
  case (1 lo hi rest)
  have "unat lo + 256 * unat hi \<le> 65535"
    using unat_u8_less [of lo] unat_u8_less [of hi] by linarith
  with 1 show ?case by (simp add: Suc_diff_le)
next
  case (2 lo)
  then show ?case using unat_u8_less [of lo] by (simp add: less_imp_le less_le_trans [of "unat lo" 256])
qed simp

lemma unat_add_small: "unat (a :: 'a::len word) + unat b < 2 ^ LENGTH('a) \<Longrightarrow> unat (a + b) = unat a + unat b"
  by (simp add: unat_plus_if')

lemma sum_le_words_val:
  assumes "unat s + le_word_sum bs < 2 ^ 32"
  shows "unat (sum_le_words bs s) + (if odd (length bs) then unat (last bs) else 0) = unat s + le_word_sum bs"
  using assms
proof (induction bs s rule: sum_le_words.induct)
  case (1 lo hi rest s)
  have hi: "unat (push_bit 8 (ucast hi) :: u32) = 256 * unat hi"
  proof -
    have "unat hi * 256 < 256 * 256" using unat_u8_less [of hi] by simp
    then have "unat hi * 256 < 2 ^ 32" by (rule less_le_trans) simp
    from take_bit_nat_eq_self [OF this] show ?thesis
      by (simp only: unsigned_push_bit_eq) (simp add: push_bit_eq_mult unat_ucast_up)
  qed
  have w: "unat (ucast lo + push_bit 8 (ucast hi) :: u32) = unat lo + 256 * unat hi"
  proof -
    have "unat lo + 256 * unat hi < 4294967296"
      using unat_u8_less [of lo] unat_u8_less [of hi] by linarith
    then show ?thesis by (simp only: unat_plus_if' hi) (simp add: unat_ucast_up)
  qed
  have s: "unat (s + (ucast lo + push_bit 8 (ucast hi))) = unat s + (unat lo + 256 * unat hi)"
    using "1.prems" unat_add_small [of s "ucast lo + push_bit 8 (ucast hi)"] w by simp
  let ?s = "s + (ucast lo + push_bit 8 (ucast hi))"
  have "unat ?s + le_word_sum rest < 2 ^ 32" using "1.prems" by (simp add: s)
  then have IH: "unat (sum_le_words rest ?s) + (if odd (length rest) then unat (last rest) else 0) = unat ?s + le_word_sum rest"
    by (rule "1.IH")
  have l: "odd (length rest) \<Longrightarrow> last (lo # hi # rest) = last rest" by (cases rest) auto
  then have c: "(if odd (length (lo # hi # rest)) then unat (last (lo # hi # rest)) else 0)
      = (if odd (length rest) then unat (last rest) else 0)" by simp
  show ?case
    by (simp only: c sum_le_words.simps IH s le_word_sum.simps add.assoc)
qed (auto)

lemma sum_be_words_val:
  assumes "length bs < 2 ^ 17"
  shows "\<exists>s. sum_be_words bs = (Ok s :: (_, 'e) result) \<and> unat s = le_word_sum bs"
proof -
  have "(length bs + 1) div 2 \<le> 65536" using assms by simp
  then have "65535 * ((length bs + 1) div 2) \<le> 65535 * 65536" by (rule mult_le_mono2)
  then have small: "le_word_sum bs < 2 ^ 32" using le_word_sum_le [of bs] by simp
  have v: "unat (sum_le_words bs 0) + (if odd (length bs) then unat (last bs) else 0) = le_word_sum bs"
    using sum_le_words_val [of 0 bs] small by simp
  show ?thesis
  proof (cases "odd (length bs)")
    case True
    then have ne: "bs \<noteq> []" by auto
    let ?l = "ucast (last bs) :: u32"
    have "unat ?l = unat (last bs)" by (simp add: unat_ucast_up)
    with v True small have "unat (sum_le_words bs 0) + unat ?l < 2 ^ 32" "unat (sum_le_words bs 0) + unat ?l = le_word_sum bs"
      by auto
    with True ne show ?thesis
      by (simp add: sum_be_words_def Let_def add_chk_def last_conv_nth unat_plus_if')
  next
    case False
    with v show ?thesis by (auto simp: sum_be_words_def Let_def)
  qed
qed

lemma finalize_sum_norm: "unat (finalize_sum s) = oc_norm (unat s)"
proof (induction s rule: finalize_sum.induct)
  case (1 s)
  show ?case
  proof (cases "s > 0xFFFF")
    case True
    let ?s' = "drop_bit 16 s + (s AND 0xFFFF)"
    have "unat s = 65536 * (unat s div 65536) + unat s mod 65536" by simp
    then have "unat s mod 65535 = (65535 * (unat s div 65536) + unat ?s') mod 65535"
      by (simp add: unat_fold_step)
    then have m: "unat ?s' mod 65535 = unat s mod 65535" by simp
    have "unat s > 0xFFFF" using True by (simp add: word_less_nat_alt)
    then have "unat s div 65536 \<noteq> 0" by simp
    then have "unat ?s' \<noteq> 0" "unat s \<noteq> 0" using \<open>unat s > 0xFFFF\<close> by (simp_all add: unat_fold_step)
    then have "oc_norm (unat ?s') = oc_norm (unat s)"
      using m by (intro oc_norm_unique) (auto simp: oc_norm_less oc_norm_0_iff oc_norm_mod)
    with 1 True show ?thesis by (simp add: finalize_sum.simps [of s])
  next
    case False
    then have "unat s \<le> 65535" by (simp add: not_less word_le_nat_alt)
    then have "unat s = oc_norm (unat s)" by (intro oc_norm_unique) auto
    with False show ?thesis by (simp add: finalize_sum.simps [of s])
  qed
qed

lemma unat_swap_bytes: "unat (swap_bytes w) = 256 * (unat w mod 256) + unat w div 256"
proof -
  have w: "unat w < 65536" using unsigned_less [of w, where ?'a = nat] by simp
  have "push_bit 8 w OR drop_bit 8 w = push_bit 8 w + drop_bit 8 w"
    by (rule disjunctive_add [symmetric])
      (auto simp: bit_push_bit_iff bit_drop_bit_eq dest: bit_imp_le_length)
  moreover have "unat (push_bit 8 w) = 256 * (unat w mod 256)"
    by (simp only: unsigned_push_bit_eq) (simp add: push_bit_eq_mult take_bit_eq_mod mult_mod_right mult.commute)
  moreover have "unat (drop_bit 8 w) = unat w div 256"
    by (simp add: drop_bit_eq_div unat_div)
  moreover have "256 * (unat w mod 256) + unat w div 256 < 65536"
  proof -
    have "unat w div 256 < 256" "unat w mod 256 < 256" using w by simp_all
    then show ?thesis by linarith
  qed
  ultimately show ?thesis by (simp add: swap_bytes_def unat_plus_if')
qed

lemma swap_norm: "256 * (oc_norm n mod 256) + oc_norm n div 256 = oc_norm (256 * n)"
proof (rule oc_norm_unique)
  let ?x = "oc_norm n"
  have x: "?x div 256 \<le> 255" "?x mod 256 < 256" using oc_norm_less [of n] by (simp_all add: div_le_mono)
  then show "256 * (?x mod 256) + ?x div 256 \<le> 65535" by linarith
  have e: "?x = 256 * (?x div 256) + ?x mod 256" by simp
  show "256 * (?x mod 256) + ?x div 256 = 0 \<longleftrightarrow> 256 * n = 0"
    using e oc_norm_0_iff [of n] by auto
  have "256 * ?x = (256 * (?x mod 256) + ?x div 256) + 65535 * (?x div 256)" using e by linarith
  then have "(256 * (?x mod 256) + ?x div 256) mod 65535 = (256 * ?x) mod 65535" by (simp only: mod_mult_self2)
  also have "\<dots> = (256 * (?x mod 65535)) mod 65535" by (simp add: mod_mult_right_eq)
  also have "\<dots> = (256 * n) mod 65535" by (simp add: oc_norm_mod mod_mult_right_eq)
  finally show "(256 * (?x mod 256) + ?x div 256) mod 65535 = (256 * n) mod 65535" .
qed

lemma cksum_raw_reference:
  assumes "length data < 2 ^ 17"
  shows "cksum_raw data = (Ok (NOT (word_of_nat (oc_norm (be_word_sum data)))) :: (_, 'e) result)"
proof -
  obtain s where s: "sum_be_words data = (Ok s :: (_, 'e) result)" "unat s = le_word_sum data"
    using sum_be_words_val [OF assms] by blast
  let ?f = "ucast (finalize_sum s) :: u16"
  have f: "unat ?f = oc_norm (le_word_sum data)"
    using oc_norm_less [of "le_word_sum data"]
    by (simp add: unsigned_ucast_eq finalize_sum_norm s(2) take_bit_nat_eq_self)
  have "oc_norm (256 * le_word_sum data) = oc_norm (be_word_sum data)"
    by (rule oc_norm_unique) (auto simp: oc_norm_less oc_norm_0_iff oc_norm_mod be_le_word_sum be_le_zero)
  then have "unat (swap_bytes ?f) = oc_norm (be_word_sum data)"
    by (simp only: unat_swap_bytes f swap_norm)
  then have "swap_bytes ?f = word_of_nat (oc_norm (be_word_sum data))"
    by (metis of_nat_unat ucast_id)
  then show ?thesis by (simp add: cksum_raw_def s(1) finalize_checksum_def)
qed

section \<open>Properties\<close>

text \<open>C24: on buffers shorter than 128 KiB the byte-swapped little-endian summation computes the
  standard checksum: the complement of the one's complement sum of the big-endian words, an odd
  last byte being the high byte of a word. It does not overflow there.\<close>

theorem cksum_raw_is_internet_checksum:
  assumes "length data < 2 ^ 17"
  shows "cksum_raw data = (Ok (NOT (word_of_nat (oc_norm (be_word_sum data)))) :: (u16, unit) result)"
  using assms by (rule cksum_raw_reference)

lemma cksum_raw_is_internet_checksum_witness: "cksum_raw [0, 1, 2] = (Ok 0xfdfe :: (u16, unit) result)"
  by (subst cksum_raw_is_internet_checksum) (simp_all add: oc_norm_def)

end
