(* ===== verification/Ctrl.thy ===== *)
theory Ctrl
  imports Hdr Netchecksum
begin

text \<open>
  \<^verbatim>\<open>cjdns-ctrl\<close>: control messages, which carry a checksum, a type and a ping or error body.
\<close>

datatype error_message_type =
    NoError | MalformedAddress | Flood | LinkLimitExceeded | OversizeMessage | UndersizedMessage
  | Authentication | Invalid | Undeliverable | LoopRoute | ReturnPathInvalid | Unrecognized

datatype ctrl_message_type = Error | Ping | Pong | KeyPing | KeyPong | GetSuperNodeQuery | GetSuperNodeResponse

record ping_data =
  ping_version :: u32
  ping_key :: "public_key option"
  ping_content :: bytes

record error_data =
  err_type :: error_message_type
  err_switch_header :: switch_header
  additional :: bytes

datatype ctrl_message_data = PingData ping_data | ErrorData error_data | SuperNodeQueryData

record ctrl_message =
  msg_type :: ctrl_message_type
  msg_data :: ctrl_message_data

section \<open>Codes\<close>

definition error_types :: "error_message_type list" where
  "error_types = [NoError, MalformedAddress, Flood, LinkLimitExceeded, OversizeMessage, UndersizedMessage,
     Authentication, Invalid, Undeliverable, LoopRoute, ReturnPathInvalid, Unrecognized]"

definition error_type_from_u32 :: "u32 \<Rightarrow> error_message_type" where
  "error_type_from_u32 code = (if unat code < length error_types then error_types ! unat code else Unrecognized)"

definition error_type_to_u32 :: "error_message_type \<Rightarrow> u32" where
  "error_type_to_u32 t = (case t of NoError \<Rightarrow> 0 | MalformedAddress \<Rightarrow> 1 | Flood \<Rightarrow> 2 | LinkLimitExceeded \<Rightarrow> 3
     | OversizeMessage \<Rightarrow> 4 | UndersizedMessage \<Rightarrow> 5 | Authentication \<Rightarrow> 6 | Invalid \<Rightarrow> 7 | Undeliverable \<Rightarrow> 8
     | LoopRoute \<Rightarrow> 9 | ReturnPathInvalid \<Rightarrow> 10 | Unrecognized \<Rightarrow> 11)"

definition ctrl_type_to_u16 :: "ctrl_message_type \<Rightarrow> u16" where
  "ctrl_type_to_u16 t = (case t of Error \<Rightarrow> 2 | Ping \<Rightarrow> 3 | Pong \<Rightarrow> 4 | KeyPing \<Rightarrow> 5 | KeyPong \<Rightarrow> 6
     | GetSuperNodeQuery \<Rightarrow> 7 | GetSuperNodeResponse \<Rightarrow> 8)"

definition ctrl_type_from_u16 :: "u16 \<Rightarrow> ctrl_message_type option" where
  "ctrl_type_from_u16 code =
     (if code = 2 then Some Error else if code = 3 then Some Ping else if code = 4 then Some Pong
      else if code = 5 then Some KeyPing else if code = 6 then Some KeyPong
      else if code = 7 then Some GetSuperNodeQuery else if code = 8 then Some GetSuperNodeResponse else None)"

lemma ctrl_type_roundtrip [simp]: "ctrl_type_from_u16 (ctrl_type_to_u16 t) = Some t"
  by (cases t) (simp_all add: ctrl_type_from_u16_def ctrl_type_to_u16_def)

lemma error_type_roundtrip [simp]: "error_type_from_u32 (error_type_to_u32 t) = t"
  by (cases t) (simp_all add: error_type_from_u32_def error_type_to_u32_def error_types_def)

section \<open>Ping bodies\<close>

definition ping_to_magic :: "ctrl_message_type \<Rightarrow> (u32, 'e) result" where
  "ping_to_magic ping = (case ping of Ping \<Rightarrow> Ok 0x09f91102 | Pong \<Rightarrow> Ok 0x9d74e35b
     | KeyPing \<Rightarrow> Ok 0x01234567 | KeyPong \<Rightarrow> Ok 0x89abcdef | _ \<Rightarrow> Panic)"

text \<open>The key is read for every kind of ping; only its error is examined later.\<close>

definition ping_fields :: "(u32 \<times> u32 \<times> (bytes, insufficient_buffer) result \<times> bytes, insufficient_buffer) rd" where
  "ping_fields =
     rd_bind read_u32_be (\<lambda>encoded_magic.
     rd_bind read_u32_be (\<lambda>version r.
     case read_array_32 r of (key_bytes, r) \<Rightarrow>
       rd_bind read_remainder (\<lambda>content. rd_ok (encoded_magic, version, key_bytes, content)) r))"

definition ping_parse :: "bytes \<Rightarrow> ctrl_message_type \<Rightarrow> (ping_data, parse_error) result" where
  "ping_parse bytes ping =
     and_then (map_err (\<lambda>_. InvalidPacketSize) (fst (reader_read (NotLessThan 8) ping_fields bytes)))
     (\<lambda>(encoded_magic, version, pk_bytes, content).
     and_then (ping_to_magic ping) (\<lambda>original_magic.
     if encoded_magic \<noteq> original_magic then Err (InvalidData ''invalid encoded connection magic'')
     else and_then (if ping = KeyPing \<or> ping = KeyPong
                    then map_ok Some (map_err (\<lambda>_. InvalidPacketSize) pk_bytes) else Ok None) (\<lambda>key.
     Ok \<lparr>ping_version = version, ping_key = key, ping_content = content\<rparr>)))"

definition ping_serialize :: "ping_data \<Rightarrow> ctrl_message_type \<Rightarrow> (bytes, serialize_error) result" where
  "ping_serialize d ping =
     (if ping_version d = 0 then Err (SerInvalidData ''version should be greater than 0'')
      else if (ping = KeyPing \<or> ping = KeyPong) \<and> ping_key d = None
      then Err (SerInvalidInvariant ''key should be specified for key ping/pong messages'')
      else and_then (ping_to_magic ping) (\<lambda>ping_magic.
        let w = write_u32_be (ping_version d) (write_u32_be ping_magic writer_new);
            w = (case ping_key d of Some key \<Rightarrow> write_slice key w | None \<Rightarrow> w)
        in Ok (into_vec (write_slice (ping_content d) w))))"

section \<open>Error bodies\<close>

definition error_fields :: "(u32 \<times> bytes \<times> bytes, insufficient_buffer) rd" where
  "error_fields =
     rd_bind read_u32_be (\<lambda>err_type_code.
     rd_bind (read_slice 12) (\<lambda>header_bytes.
     rd_bind read_remainder (\<lambda>additional.
     rd_ok (err_type_code, header_bytes, additional))))"

definition error_parse :: "bytes \<Rightarrow> (error_data, parse_error) result" where
  "error_parse bytes =
     and_then (map_err (\<lambda>_. InvalidPacketSize) (fst (reader_read (NotLessThan (4 + 12)) error_fields bytes)))
     (\<lambda>(err_type_code, header_bytes, additional).
     let err_type = error_type_from_u32 err_type_code in
     if err_type = NoError then Err (InvalidData ''control message has None body error type'')
     else and_then (switch_header_parse header_bytes) (\<lambda>switch_header.
     Ok \<lparr>err_type = err_type, err_switch_header = switch_header, additional = additional\<rparr>))"

definition error_serialize :: "error_data \<Rightarrow> (bytes, serialize_error) result" where
  "error_serialize d =
     (if err_type d = Unrecognized \<or> err_type d = NoError then Err (SerInvalidData ''Unrecognized or None error type'')
      else and_then (switch_header_serialize (err_switch_header d)) (\<lambda>switch_header_bytes.
      Ok (into_vec (write_slice (additional d) (write_slice switch_header_bytes
        (write_u32_be (error_type_to_u32 (err_type d)) writer_new))))))"

section \<open>Messages\<close>

definition extract_error_data :: "ctrl_message_data \<Rightarrow> error_data option" where
  "extract_error_data d = (case d of ErrorData e \<Rightarrow> Some e | _ \<Rightarrow> None)"

definition extract_ping_data :: "ctrl_message_data \<Rightarrow> ping_data option" where
  "extract_ping_data d = (case d of PingData p \<Rightarrow> Some p | _ \<Rightarrow> None)"

definition ctrl_fields :: "(u16 \<times> bytes \<times> u16 \<times> bytes, insufficient_buffer) rd" where
  "ctrl_fields =
     rd_bind read_u16_be (\<lambda>received_checksum.
     rd_bind peek_remainder (\<lambda>after_checksum_data.
     rd_bind read_u16_be (\<lambda>type_code.
     rd_bind read_remainder (\<lambda>raw_data.
     rd_ok (received_checksum, after_checksum_data, type_code, raw_data)))))"

definition ctrl_parse :: "bytes \<Rightarrow> (ctrl_message, parse_error) result" where
  "ctrl_parse bytes =
     and_then (map_err (\<lambda>_. InvalidPacketSize) (fst (reader_read (NotLessThan 4) ctrl_fields bytes)))
     (\<lambda>(received_checksum, data, type_code, raw_data).
     and_then (cksum_raw data) (\<lambda>computed_checksum.
     let inverted_checksum = push_bit 8 computed_checksum OR drop_bit 8 computed_checksum in
     if received_checksum \<noteq> computed_checksum \<and> received_checksum \<noteq> inverted_checksum
     then Err (InvalidChecksum received_checksum computed_checksum)
     else and_then (ok_or (ctrl_type_from_u16 type_code) (InvalidData ''unknown ctrl packet'')) (\<lambda>t.
     and_then (case t of
         Error \<Rightarrow> map_ok ErrorData (error_parse raw_data)
       | GetSuperNodeQuery \<Rightarrow> Ok SuperNodeQueryData
       | GetSuperNodeResponse \<Rightarrow> Ok SuperNodeQueryData
       | _ \<Rightarrow> map_ok PingData (ping_parse raw_data t)) (\<lambda>d.
     Ok \<lparr>msg_type = t, msg_data = d\<rparr>))))"

definition ctrl_serialize :: "ctrl_message \<Rightarrow> (bytes, serialize_error) result" where
  "ctrl_serialize m =
     and_then (case msg_type m of
         Error \<Rightarrow>
           and_then (ok_or (extract_error_data (msg_data m))
             (SerInvalidInvariant ''message with error header, but ping data body'')) error_serialize
       | GetSuperNodeQuery \<Rightarrow> Err (SerInvalidData ''can't serialize GetsNode messages'')
       | GetSuperNodeResponse \<Rightarrow> Err (SerInvalidData ''can't serialize GetsNode messages'')
       | ping_type \<Rightarrow>
           and_then (ok_or (extract_ping_data (msg_data m))
             (SerInvalidInvariant ''message with ping header, but error data body'')) (\<lambda>d. ping_serialize d ping_type))
     (\<lambda>raw_data.
     let checksum_data = to_be_bytes (ctrl_type_to_u16 (msg_type m)) @ raw_data in
     and_then (cksum_raw checksum_data) (\<lambda>checksum.
     Ok (into_vec (write_slice checksum_data (write_u16_be checksum writer_new)))))"

section \<open>Lemmas\<close>

definition is_ping :: "ctrl_message_type \<Rightarrow> bool" where
  "is_ping t \<longleftrightarrow> t = Ping \<or> t = Pong \<or> t = KeyPing \<or> t = KeyPong"

lemma ping_to_magic_ok: "is_ping t \<Longrightarrow> \<exists>m. ping_to_magic t = (Ok m :: (_, 'e) result)"
  by (auto simp: is_ping_def ping_to_magic_def)

lemma ping_parse_bytes:
  assumes "ping_to_magic t = (Ok magic :: (_, parse_error) result)"
  shows "ping_parse (to_be_bytes m @ to_be_bytes v @ rest) t =
    (if m \<noteq> magic then Err (InvalidData ''invalid encoded connection magic'')
     else if t = KeyPing \<or> t = KeyPong then
       (if length rest < 32 then Err InvalidPacketSize
        else Ok \<lparr>ping_version = v, ping_key = Some (take 32 rest), ping_content = drop 32 rest\<rparr>)
     else Ok \<lparr>ping_version = v, ping_key = None, ping_content = (if length rest < 32 then rest else drop 32 rest)\<rparr>)"
proof -
  have "reader_read (NotLessThan 8) ping_fields (to_be_bytes m @ to_be_bytes v @ rest) =
    (Ok (m, v, fst (read_array_32 rest), if length rest < 32 then rest else drop 32 rest), [])"
    by (rule read_at_least_fields)
      (auto simp: ping_fields_def read_enc read_array_32_def rd_bind_def read_slice_def rd_ok_def)
  then show ?thesis
    using assms by (auto simp: ping_parse_def read_array_32_def rd_bind_def read_slice_def rd_ok_def)
qed

lemma ping_serialize_ok:
  assumes "ping_serialize d t = Ok bs" and "is_ping t"
  obtains magic where "ping_to_magic t = (Ok magic :: (_, parse_error) result)"
    and "bs = to_be_bytes magic @ to_be_bytes (ping_version d)
           @ (case ping_key d of Some k \<Rightarrow> k | None \<Rightarrow> []) @ ping_content d"
    and "t = KeyPing \<or> t = KeyPong \<longrightarrow> ping_key d \<noteq> None"
proof -
  from assms(1) obtain magic where "ping_to_magic t = (Ok magic :: (_, serialize_error) result)"
    and bs: "bs = to_be_bytes magic @ to_be_bytes (ping_version d)
           @ (case ping_key d of Some k \<Rightarrow> k | None \<Rightarrow> []) @ ping_content d"
    and k: "t = KeyPing \<or> t = KeyPong \<longrightarrow> ping_key d \<noteq> None"
    by (auto simp: ping_serialize_def ok_iff Let_def writer_defs split: if_splits option.splits)
  moreover from this(1) have "ping_to_magic t = (Ok magic :: (_, parse_error) result)"
    by (cases t) (auto simp: ping_to_magic_def)
  ultimately show thesis using that by blast
qed

definition ping_fits :: "ctrl_message_type \<Rightarrow> ping_data \<Rightarrow> bool" where
  "ping_fits t d \<longleftrightarrow> (if t = KeyPing \<or> t = KeyPong then \<forall>k. ping_key d = Some k \<longrightarrow> length k = 32
     else ping_key d = None \<and> length (ping_content d) < 32)"

lemma ping_roundtrip_lemma:
  assumes "ping_serialize d t = Ok bs" and "is_ping t" and "ping_fits t d"
  shows "ping_parse bs t = Ok d"
proof -
  obtain magic where m: "ping_to_magic t = (Ok magic :: (_, parse_error) result)"
    and bs: "bs = to_be_bytes magic @ to_be_bytes (ping_version d)
           @ (case ping_key d of Some k \<Rightarrow> k | None \<Rightarrow> []) @ ping_content d"
    and k: "t = KeyPing \<or> t = KeyPong \<longrightarrow> ping_key d \<noteq> None"
    using ping_serialize_ok [OF assms(1,2)] by blast
  show ?thesis
    using k assms(3) by (cases "ping_key d") (auto simp: bs ping_parse_bytes [OF m] ping_fits_def)
qed

lemma error_parse_bytes:
  assumes "length h = 12"
  shows "error_parse (to_be_bytes c @ h @ rest) =
    (if error_type_from_u32 c = NoError then Err (InvalidData ''control message has None body error type'')
     else and_then (switch_header_parse h) (\<lambda>sh.
       Ok \<lparr>err_type = error_type_from_u32 c, err_switch_header = sh, additional = rest\<rparr>))"
proof -
  have "reader_read (NotLessThan (4 + 12)) error_fields (to_be_bytes c @ h @ rest) = (Ok (c, h, rest), [])"
    by (rule read_at_least_fields)
      (use assms in \<open>simp_all add: error_fields_def read_enc rd_ok_def\<close>)
  then show ?thesis by (simp add: error_parse_def Let_def)
qed

lemma error_roundtrip_lemma:
  assumes "error_serialize d = Ok bs" and "label_ok (sh_label (err_switch_header d))"
  shows "error_parse bs = Ok (d\<lparr>err_switch_header := current_sh (err_switch_header d)\<rparr>)"
proof -
  from assms(1) obtain h where h: "switch_header_serialize (err_switch_header d) = Ok h"
    and bs: "bs = to_be_bytes (error_type_to_u32 (err_type d)) @ h @ additional d" and t: "err_type d \<noteq> NoError"
    by (auto simp: error_serialize_def ok_iff writer_defs split: if_splits)
  note p = switch_header_serialize_ok [OF h assms(2)]
  show ?thesis unfolding bs error_parse_bytes [OF p(2)] using p(1) t by simp
qed

lemma ctrl_parse_bytes:
  assumes "cksum_raw (to_be_bytes (ctrl_type_to_u16 t) @ raw) = (Ok c :: (_, parse_error) result)"
  shows "ctrl_parse (to_be_bytes c @ to_be_bytes (ctrl_type_to_u16 t) @ raw) =
    map_ok (\<lambda>d. \<lparr>msg_type = t, msg_data = d\<rparr>) (case t of
         Error \<Rightarrow> map_ok ErrorData (error_parse raw)
       | GetSuperNodeQuery \<Rightarrow> Ok SuperNodeQueryData
       | GetSuperNodeResponse \<Rightarrow> Ok SuperNodeQueryData
       | _ \<Rightarrow> map_ok PingData (ping_parse raw t))"
proof -
  have ok: "map_ok f m = and_then m (\<lambda>a. Ok (f a))" for f :: "ctrl_message_data \<Rightarrow> ctrl_message" and m :: "(_, parse_error) result"
    by (cases m) auto
  have "reader_read (NotLessThan 4) ctrl_fields (to_be_bytes c @ to_be_bytes (ctrl_type_to_u16 t) @ raw)
      = (Ok (c, to_be_bytes (ctrl_type_to_u16 t) @ raw, ctrl_type_to_u16 t, raw), [])"
    by (rule read_at_least_fields) (simp_all add: ctrl_fields_def read_enc rd_ok_def peek_remainder_def)
  then show ?thesis using assms by (simp add: ctrl_parse_def Let_def ok)
qed

lemma cksum_raw_error_type: "(cksum_raw bs = (Ok c :: (_, 'e) result)) \<longleftrightarrow> (cksum_raw bs = (Ok c :: (_, 'f) result))"
  by (auto simp: cksum_raw_def sum_be_words_def Let_def add_chk_def)

definition ctrl_fits :: "ctrl_message \<Rightarrow> bool" where
  "ctrl_fits m \<longleftrightarrow> (case msg_data m of
      PingData d \<Rightarrow> ping_fits (msg_type m) d
    | ErrorData d \<Rightarrow> label_ok (sh_label (err_switch_header d)) \<and> sh_version (err_switch_header d) = 1
    | SuperNodeQueryData \<Rightarrow> True)"

section \<open>Properties\<close>

text \<open>A control message that serializes parses back to itself, checksum included, if its switch
  header has the current version, a key has 32 bytes and the content of a ping without a key is
  shorter than 32 bytes.\<close>

theorem ctrl_message_roundtrip:
  assumes "ctrl_serialize m = Ok bs" and "ctrl_fits m"
  shows "ctrl_parse bs = Ok m"
proof -
  from assms(1) obtain raw c where c: "cksum_raw (to_be_bytes (ctrl_type_to_u16 (msg_type m)) @ raw) = (Ok c :: (_, serialize_error) result)"
    and bs: "bs = to_be_bytes c @ to_be_bytes (ctrl_type_to_u16 (msg_type m)) @ raw"
    and raw: "(msg_type m = Error \<and> (\<exists>d. msg_data m = ErrorData d \<and> error_serialize d = Ok raw))
       \<or> (is_ping (msg_type m) \<and> (\<exists>d. msg_data m = PingData d \<and> ping_serialize d (msg_type m) = Ok raw))"
    by (auto simp: ctrl_serialize_def ok_iff Let_def writer_defs is_ping_def extract_error_data_def extract_ping_data_def
        split: ctrl_message_type.splits ctrl_message_data.splits)
  have c': "cksum_raw (to_be_bytes (ctrl_type_to_u16 (msg_type m)) @ raw) = (Ok c :: (_, parse_error) result)"
    using c cksum_raw_error_type by blast
  from raw show ?thesis
  proof (elim disjE conjE exE)
    fix d
    assume d: "msg_type m = Error" "msg_data m = ErrorData d" "error_serialize d = Ok raw"
    then have "error_parse raw = Ok d"
      using error_roundtrip_lemma [OF d(3)] assms(2) by (simp add: ctrl_fits_def current_sh_def)
    with d show ?thesis unfolding bs ctrl_parse_bytes [OF c'] by simp
  next
    fix d
    assume d: "is_ping (msg_type m)" "msg_data m = PingData d" "ping_serialize d (msg_type m) = Ok raw"
    then have "ping_parse raw (msg_type m) = Ok d"
      using ping_roundtrip_lemma assms(2) by (simp add: ctrl_fits_def)
    with d show ?thesis unfolding bs ctrl_parse_bytes [OF c'] by (auto simp: is_ping_def)
  qed
qed

text \<open>The parser takes the first 32 bytes after the version of a ping for a key whatever the kind
  of the ping: a \<open>Ping\<close> or \<open>Pong\<close> with 32 or more bytes of content serializes, and parsing returns
  the content without its first 32 bytes.\<close>

theorem ping_content_lost:
  assumes "t = Ping \<or> t = Pong" and "v \<noteq> 0" and "32 \<le> length content"
  shows "\<exists>bs. ping_serialize \<lparr>ping_version = v, ping_key = None, ping_content = content\<rparr> t = Ok bs
    \<and> ping_parse bs t = Ok \<lparr>ping_version = v, ping_key = None, ping_content = drop 32 content\<rparr>"
proof -
  obtain magic where m: "\<And>T :: 'e itself. ping_to_magic t = (Ok magic :: (_, parse_error) result)"
    "ping_to_magic t = (Ok magic :: (_, serialize_error) result)"
    using assms(1) by (auto simp: ping_to_magic_def)
  let ?bs = "to_be_bytes magic @ to_be_bytes v @ content"
  have "ping_serialize \<lparr>ping_version = v, ping_key = None, ping_content = content\<rparr> t = Ok ?bs"
    using assms m by (auto simp: ping_serialize_def writer_defs)
  moreover have "ping_parse ?bs t = Ok \<lparr>ping_version = v, ping_key = None, ping_content = drop 32 content\<rparr>"
    using assms by (auto simp: ping_parse_bytes [OF m(1)])
  ultimately show ?thesis by blast
qed

end
