(* ===== verification/Sniff.thy ===== *)
theory Sniff
  imports Ctrl Benc_Spec
begin

text \<open>
  The messages a supernode exchanges with its local cjdns node (\<^verbatim>\<open>cjdns-sniff/src/lib.rs\<close>): a route
  header, for all but control messages a data header, and a content whose format follows from the
  two. Sockets are parameters; the handler table of the node is read page by page.
\<close>

datatype sniff_content =
    Content_Empty
  | Content_Bytes bytes
  | Content_Benc "(bytes \<times> object) list"
  | Content_Ctrl ctrl_message

record sniff_message =
  sm_route_header :: route_header
  sm_content_type :: content_type
  sm_content :: sniff_content
  sm_raw_bytes :: "bytes option"

datatype send_error = SerializeFailed serialize_error | SendSocketError | WriteError nat nat

section \<open>Sending\<close>

text \<open>
  The bytes of a message. A content that does not fit the content type or the route header is left
  out, and the data header is written for every message.
\<close>

definition content_bytes :: "sniff_message \<Rightarrow> (bytes option, send_error) result" where
  "content_bytes msg =
     (case sm_content msg of
        Content_Benc d \<Rightarrow>
          if sm_content_type msg = Cjdht then Ok (Some (benc_serialize [] (Object_Dict d) 4)) else Ok None
      | Content_Ctrl c \<Rightarrow>
          if is_ctrl (sm_route_header msg) then map_ok Some (map_err SerializeFailed (ctrl_serialize c)) else Ok None
      | Content_Bytes b \<Rightarrow> Ok (Some b)
      | Content_Empty \<Rightarrow> Ok None)"

definition encode_message :: "(bytes \<Rightarrow> bytes) \<Rightarrow> sniff_message \<Rightarrow> (bytes, send_error) result" where
  "encode_message sha msg =
     and_then (map_err SerializeFailed (route_header_serialize sha (sm_route_header msg))) (\<lambda>route_header_bytes.
     and_then (map_err SerializeFailed
         (data_header_serialize (data_header_default\<lparr>dh_content_type := sm_content_type msg\<rparr>))) (\<lambda>data_header_bytes.
     and_then (content_bytes msg) (\<lambda>content.
     Ok (route_header_bytes @ data_header_bytes @ (case content of Some c \<Rightarrow> c | None \<Rightarrow> [])))))"

text \<open>The socket sends a datagram and tells how many bytes it wrote.\<close>

definition sniff_send ::
  "(bytes \<Rightarrow> bytes) \<Rightarrow> (bytes \<Rightarrow> nat option) \<Rightarrow> sniff_message \<Rightarrow> (unit, send_error) result" where
  "sniff_send sha send_to msg =
     and_then (encode_message sha msg) (\<lambda>buf.
     and_then (ok_or (send_to buf) SendSocketError) (\<lambda>written.
     if written \<noteq> length buf then Err (WriteError written (length buf)) else Ok ()))"

section \<open>Receiving\<close>

definition decode_content ::
  "content_type \<Rightarrow> bytes \<Rightarrow> bool \<Rightarrow> (sniff_content, parse_error) result" where
  "decode_content content_type data ctrl =
     (if data = [] then Ok Content_Empty
      else if content_type = Cjdht \<and> \<not> ctrl then
        and_then (map_err (\<lambda>_. InvalidData ''failed to decode bencoded content'') (benc_parse 32 True data)) (\<lambda>(content, _).
        and_then (map_err (\<lambda>_. InvalidData ''bencoded content not a Dict'') (as_dict content)) (\<lambda>cdict.
        Ok (Content_Benc cdict)))
      else if ctrl then map_ok Content_Ctrl (ctrl_parse data)
      else Ok (Content_Bytes data))"

definition decode_message :: "(bytes \<Rightarrow> bytes) \<Rightarrow> bytes \<Rightarrow> (sniff_message, parse_error) result" where
  "decode_message sha bytes =
     (if length bytes < 68 then Err InvalidPacketSize
      else
        let rest = drop 68 bytes in
        and_then (route_header_parse sha (take 68 bytes)) (\<lambda>route_header.
        let ctrl = is_ctrl route_header in
        if \<not> ctrl \<and> length rest < 4 then Err InvalidPacketSize
        else
          and_then (if ctrl then Ok None else map_ok Some (data_header_parse (take 4 rest))) (\<lambda>data_header.
          let data = (if ctrl then rest else drop 4 rest);
              content_type = (case data_header of Some h \<Rightarrow> dh_content_type h | None \<Rightarrow> content_type.Ctrl)
          in
          and_then (decode_content content_type data ctrl) (\<lambda>content.
          Ok \<lparr>sm_route_header = route_header, sm_content_type = content_type, sm_content = content,
              sm_raw_bytes = Some bytes\<rparr>))))"

text \<open>What is received is cut at 1500 bytes.\<close>

datatype receive_error = RecvSocketError | RecvParseError parse_error bytes

definition sniff_receive :: "(bytes \<Rightarrow> bytes) \<Rightarrow> bytes option \<Rightarrow> (sniff_message, receive_error) result" where
  "sniff_receive sha datagram =
     and_then (ok_or datagram RecvSocketError) (\<lambda>d.
     let data = take 1500 d in
     map_err (\<lambda>e. RecvParseError e data) (decode_message sha data))"

section \<open>Finding a port\<close>

text \<open>
  \<open>connect_with_existing_port\<close>: the handlers the node lists, one page after the other until an
  empty one. \<open>bind\<close> is the attempt to bind a port: bound, in use, or failed. The result is the
  port that was bound, if any.
\<close>

datatype connect_error = RpcError | BadResponse | SocketError

datatype bind_outcome = Bound | AddrInUse | BindFailed

definition str_handlers :: bytes where "str_handlers = [104, 97, 110, 100, 108, 101, 114, 115]"
definition str_type :: bytes where "str_type = [116, 121, 112, 101]"
definition str_udpPort :: bytes where "str_udpPort = [117, 100, 112, 80, 111, 114, 116]"

fun try_handlers :: "(int \<Rightarrow> bind_outcome) \<Rightarrow> int \<Rightarrow> object list \<Rightarrow> (int option, connect_error) result" where
  "try_handlers bind code [] = Ok None"
| "try_handlers bind code (vhandler # handlers) =
     and_then (map_err (\<lambda>_. BadResponse) (as_dict vhandler)) (\<lambda>handler.
     case (try_get_int dict_try_get_obj handler str_type, try_get_int dict_try_get_obj handler str_udpPort) of
       (Ok (Some handler_type), Ok (Some udp_port)) \<Rightarrow>
         if handler_type < 0 \<or> handler_type > 2 ^ 32 - 1 \<or> udp_port \<le> 0 \<or> udp_port > 2 ^ 16 - 1 then Err BadResponse
         else if handler_type \<noteq> code then try_handlers bind code handlers
         else (case bind udp_port of
                 Bound \<Rightarrow> Ok (Some udp_port)
               | AddrInUse \<Rightarrow> try_handlers bind code handlers
               | BindFailed \<Rightarrow> Err SocketError)
     | _ \<Rightarrow> Err BadResponse)"

text \<open>
  The pages are asked for without bound, so a node that never returns an empty page keeps the caller
  busy forever; then the value is \<open>None\<close>.
\<close>

partial_function (option) connect_from_page ::
  "(nat \<Rightarrow> (bytes \<times> object) list option) \<Rightarrow> (int \<Rightarrow> bind_outcome) \<Rightarrow> int \<Rightarrow> nat \<Rightarrow> (int option, connect_error) result option" where
  [code]: "connect_from_page list_handlers bind code page =
     (case list_handlers page of
        None \<Rightarrow> Some (Err RpcError)
      | Some res \<Rightarrow>
          (case try_get_list dict_try_get_obj res str_handlers of
             Ok (Some handlers) \<Rightarrow>
               if handlers = [] then Some (Ok None)
               else (case try_handlers bind code handlers of
                       Ok None \<Rightarrow> connect_from_page list_handlers bind code (page + 1)
                     | r \<Rightarrow> Some r)
           | _ \<Rightarrow> Some (Err BadResponse)))"

definition connect_with_existing_port ::
  "(nat \<Rightarrow> (bytes \<times> object) list option) \<Rightarrow> (int \<Rightarrow> bind_outcome) \<Rightarrow> content_type \<Rightarrow> (int option, connect_error) result option" where
  "connect_with_existing_port list_handlers bind ct = connect_from_page list_handlers bind (uint (content_type_to_u32 ct)) 0"

text \<open>
  When no listed port can be bound the node is told of a new one; leaving, it is told to forget the
  port. \<open>bind_any\<close> is the port the system chooses and \<open>register\<close>, \<open>unregister\<close> tell whether the
  call of the node succeeds.
\<close>

definition connect_with_new_port :: "int option \<Rightarrow> (int \<Rightarrow> int \<Rightarrow> bool) \<Rightarrow> int \<Rightarrow> (int, connect_error) result" where
  "connect_with_new_port bind_any register code =
     and_then (ok_or bind_any SocketError) (\<lambda>port.
     if register code port then Ok port else Err RpcError)"

definition sniff_connect ::
  "(nat \<Rightarrow> (bytes \<times> object) list option) \<Rightarrow> (int \<Rightarrow> bind_outcome) \<Rightarrow> int option \<Rightarrow> (int \<Rightarrow> int \<Rightarrow> bool) \<Rightarrow> content_type
     \<Rightarrow> (int, connect_error) result option" where
  "sniff_connect list_handlers bind bind_any register ct =
     (case connect_with_existing_port list_handlers bind ct of
        None \<Rightarrow> None
      | Some r \<Rightarrow> Some (and_then r (\<lambda>found.
          case found of Some port \<Rightarrow> Ok port
          | None \<Rightarrow> connect_with_new_port bind_any register (uint (content_type_to_u32 ct)))))"

definition sniff_disconnect :: "int option \<Rightarrow> (int \<Rightarrow> bool) \<Rightarrow> (unit, connect_error) result" where
  "sniff_disconnect local_port unregister =
     and_then (ok_or local_port SocketError) (\<lambda>port.
     if unregister port then Ok () else Err RpcError)"

section \<open>Sent messages are received\<close>

lemma data_header_wire:
  assumes "data_header_serialize h = Ok bs"
  shows "length bs = 4" and "data_header_parse bs = Ok (h\<lparr>dh_version := if dh_version h = 0 then 1 else dh_version h\<rparr>)"
proof -
  show p: "data_header_parse bs = Ok (h\<lparr>dh_version := if dh_version h = 0 then 1 else dh_version h\<rparr>)"
    using data_header_roundtrip [of h bs] assms by blast
  then obtain v p' c where "bs = v # p' # to_be_bytes (c :: u16)" by (auto simp: data_header_parse_iff)
  then show "length bs = 4" by simp
qed

definition sendable :: "sniff_message \<Rightarrow> bool" where
  "sendable msg \<longleftrightarrow> \<not> is_ctrl (sm_route_header msg) \<and> route_header_ok (sm_route_header msg)
     \<and> (case sm_content msg of
          Content_Benc d \<Rightarrow> sm_content_type msg = Cjdht \<and> d \<noteq> [] \<and> representable (Object_Dict d) \<and> obj_depth (Object_Dict d) \<le> 33
        | Content_Bytes b \<Rightarrow> sm_content_type msg \<noteq> Cjdht \<and> b \<noteq> []
        | Content_Empty \<Rightarrow> True
        | Content_Ctrl _ \<Rightarrow> False)"

lemma decode_sent_content:
  assumes "sendable msg" and "content_bytes msg = Ok c"
  shows "decode_content (sm_content_type msg) (case c of Some x \<Rightarrow> x | None \<Rightarrow> []) False = Ok (sm_content msg)"
proof (cases "sm_content msg")
  case (Content_Benc d)
  then have c: "c = Some (benc_serialize [] (Object_Dict d) 4)" "sm_content_type msg = Cjdht"
    using assms by (auto simp: content_bytes_def sendable_def)
  have "benc_parse 32 True (benc_serialize [] (Object_Dict d) 4) = Ok (Object_Dict d, [])"
    using assms(1) Content_Benc by (intro aligned_reads_back) (auto simp: sendable_def)
  moreover have "benc_serialize [] (Object_Dict d) 4 \<noteq> []"
    by (simp add: benc_serialize_def write_value_dict del: write_value.simps)
  ultimately show ?thesis using c Content_Benc by (simp add: decode_content_def)
qed (use assms in \<open>auto simp: content_bytes_def sendable_def decode_content_def\<close>)

lemma decode_encoded:
  assumes "encode_message sha msg = Ok bs" and "sendable msg"
  shows "decode_message sha bs = Ok (msg\<lparr>sm_route_header := (sm_route_header msg)
      \<lparr>rh_switch_header := current_sh (rh_switch_header (sm_route_header msg))\<rparr>, sm_raw_bytes := Some bs\<rparr>)"
proof -
  from assms(1) obtain rh dh c where rh: "route_header_serialize sha (sm_route_header msg) = Ok rh"
    and dh: "data_header_serialize (data_header_default\<lparr>dh_content_type := sm_content_type msg\<rparr>) = Ok dh"
    and c: "content_bytes msg = Ok c" and bs: "bs = rh @ dh @ (case c of Some x \<Rightarrow> x | None \<Rightarrow> [])"
    by (auto simp: encode_message_def ok_iff)
  have ok: "route_header_ok (sm_route_header msg)" and nc: "\<not> is_ctrl (sm_route_header msg)"
    using assms(2) by (auto simp: sendable_def)
  note p = route_header_serialize_ok [OF rh ok]
  note d = data_header_wire [OF dh]
  show ?thesis
    using p d nc decode_sent_content [OF assms(2) c] bs
    by (cases msg) (simp add: decode_message_def Let_def data_header_default_def)
qed

text \<open>A control message has a content type that no data header can carry.\<close>

lemma ctrl_not_encoded:
  assumes "decode_message sha bs = Ok msg" and "is_ctrl (sm_route_header msg)"
  shows "\<not> is_ok (encode_message sha' msg)"
proof -
  have "sm_content_type msg = content_type.Ctrl"
    using assms by (auto simp: decode_message_def Let_def and_then_ok_iff map_ok_ok_iff split: if_splits)
  moreover have "\<not> is_ok (data_header_serialize (data_header_default\<lparr>dh_content_type := content_type.Ctrl\<rparr>))"
    by (simp add: data_header_serialize_def data_header_default_def content_type_try_to_u16_def content_type_to_u32_def
        content_type_table_def Let_def)
  ultimately show ?thesis by (auto simp: encode_message_def is_ok_iff and_then_ok_iff)
qed

lemma connect_returns:
  assumes "list_handlers (page + n) = Some d" and "try_get_list dict_try_get_obj d str_handlers = Ok (Some [])"
  shows "\<exists>r. connect_from_page list_handlers bind code page = Some r"
  using assms
proof (induction n arbitrary: page)
  case 0
  then show ?case by (simp add: connect_from_page.simps)
next
  case (Suc n)
  then have "\<exists>r. connect_from_page list_handlers bind code (page + 1) = Some r"
    using Suc.IH [of "page + 1"] by simp
  then show ?case
    by (subst connect_from_page.simps) (auto split: option.splits result.splits)
qed

section \<open>Properties\<close>

definition demo_route_header :: route_header where
  "demo_route_header = \<lparr>rh_public_key = None, rh_ip6 = Some (0xFC # replicate 15 1), rh_version = 22,
     rh_switch_header = \<lparr>sh_label = RoutingLabel 0x13, congestion = 0, suppress_errors = False, sh_version = 1,
       label_shift = 0, penalty = 0\<rparr>, is_incoming = False, is_ctrl = False\<rparr>"

definition demo_message :: sniff_message where
  "demo_message = \<lparr>sm_route_header = demo_route_header, sm_content_type = Cjdht,
     sm_content = Content_Benc [([113], Object_Bytes [112, 110])], sm_raw_bytes = None\<rparr>"

lemma demo_ip_not_zero: "0xFC # replicate 15 1 \<noteq> replicate 16 (0 :: u8)"
proof -
  have "replicate 16 (0 :: u8) = 0 # replicate 15 0" by (simp add: numeral_eq_Suc)
  then show ?thesis by simp
qed

lemma demo_encodes: "\<exists>bs. encode_message (\<lambda>_. []) demo_message = Ok bs"
  by (simp add: encode_message_def demo_message_def demo_route_header_def route_header_serialize_def
      switch_header_serialize_def data_header_serialize_def data_header_default_def content_bytes_def
      content_type_try_to_u16_def content_type_to_u32_def content_type_table_def Let_def SH_CURRENT_VERSION_def)

text \<open>A message that is sent is received as itself, with the current version of the switch
  header and its raw bytes filled in: a bencoded dictionary (not empty, in the limits of the parser),
  which goes aligned to 4 bytes, other bytes under another content type, or nothing.\<close>

theorem sniff_roundtrip:
  assumes "encode_message sha msg = Ok bs" and "sendable msg"
  shows "decode_message sha bs = Ok (msg\<lparr>sm_route_header := (sm_route_header msg)
      \<lparr>rh_switch_header := current_sh (rh_switch_header (sm_route_header msg))\<rparr>, sm_raw_bytes := Some bs\<rparr>)"
  using assms by (rule decode_encoded)

end
