(* ===== verification/Frontier.thy ===== *)
theory Frontier
  imports Prelude
begin

text \<open>
  \<^verbatim>\<open>cjdns-snode/src/pathsearch/frontier.rs\<close>: the queue of the path search. Items are kept in a
  vector ordered by falling cost, and by tag among equal costs, so the cheapest item is the last;
  a hash map links every tag to its position. The locale \<open>prio_queue\<close> is what the search relies
  on. \<open>slice::binary_search_by_key\<close> of the standard library is the function \<open>binary_search\<close>.
\<close>

section \<open>The model\<close>

record ('t, 'w) frontier =
  queue :: "('t \<times> 'w) list"
  index :: "'t \<Rightarrow> nat option"

definition frontier_new :: "('t, 'w) frontier" where
  "frontier_new = \<lparr>queue = [], index = (\<lambda>_. None)\<rparr>"

text \<open>The order of the keys \<open>(Reverse(cost), tag)\<close>.\<close>

definition key_less :: "('t::linorder \<times> 'w::linorder) \<Rightarrow> ('t \<times> 'w) \<Rightarrow> bool" where
  "key_less a b \<longleftrightarrow> snd b < snd a \<or> (snd a = snd b \<and> fst a < fst b)"

function binary_search :: "('a \<Rightarrow> 'a \<Rightarrow> bool) \<Rightarrow> 'a \<Rightarrow> 'a list \<Rightarrow> nat \<Rightarrow> nat \<Rightarrow> (nat, nat) result" where
  "binary_search lt x xs l r =
     (if l \<ge> r then Err l
      else let mid = l + (r - l) div 2 in
        if lt (xs ! mid) x then binary_search lt x xs (mid + 1) r
        else if lt x (xs ! mid) then binary_search lt x xs l mid
        else Ok mid)"
  by pat_completeness auto

termination
  by (relation "measure (\<lambda>(lt, x, xs, l, r). r - l)") (auto simp: Let_def)

declare binary_search.simps [simp del]

definition insertion_pos :: "('t::linorder, 'w::linorder) frontier \<Rightarrow> 't \<times> 'w \<Rightarrow> nat" where
  "insertion_pos f item =
     (case binary_search key_less item (queue f) 0 (length (queue f)) of Ok i \<Rightarrow> i | Err i \<Rightarrow> i | Panic \<Rightarrow> 0)"

definition vec_insert :: "nat \<Rightarrow> 'a \<Rightarrow> 'a list \<Rightarrow> ('a list, 'e) result" where
  "vec_insert i x xs = (if i \<le> length xs then Ok (take i xs @ x # drop i xs) else Panic)"

definition vec_remove :: "nat \<Rightarrow> 'a list \<Rightarrow> ('a list, 'e) result" where
  "vec_remove i xs = (if i < length xs then Ok (take i xs @ drop (Suc i) xs) else Panic)"

definition shift_up :: "nat \<Rightarrow> ('t \<Rightarrow> nat option) \<Rightarrow> 't \<Rightarrow> nat option" where
  "shift_up k m = (\<lambda>t. map_option (\<lambda>old_idx. if old_idx \<ge> k then old_idx + 1 else old_idx) (m t))"

definition shift_down :: "nat \<Rightarrow> ('t \<Rightarrow> nat option) \<Rightarrow> 't \<Rightarrow> nat option" where
  "shift_down k m = (\<lambda>t. map_option (\<lambda>old_idx. if old_idx \<ge> k then old_idx - 1 else old_idx) (m t))"

definition frontier_push :: "('t::linorder, 'w::linorder) frontier \<Rightarrow> 't \<Rightarrow> 'w \<Rightarrow> (('t, 'w) frontier, 'e) result" where
  "frontier_push f tag weight =
     (let i = insertion_pos f (tag, weight) in
      and_then (vec_insert i (tag, weight) (queue f)) (\<lambda>q.
      Ok \<lparr>queue = q, index = (shift_up i (index f))(tag \<mapsto> i)\<rparr>))"

definition frontier_pop :: "('t, 'w) frontier \<Rightarrow> ('t \<times> 'w) option \<times> ('t, 'w) frontier" where
  "frontier_pop f =
     (if queue f = [] then (None, f)
      else let (tag, weight) = last (queue f) in
        (Some (tag, weight), \<lparr>queue = butlast (queue f), index = (index f)(tag := None)\<rparr>))"

definition try_insert_or_decrease_cost ::
  "('t::linorder, 'w::linorder) frontier \<Rightarrow> 't \<Rightarrow> 'w \<Rightarrow> (bool \<times> ('t, 'w) frontier, 'e) result" where
  "try_insert_or_decrease_cost f tag new_cost =
     (case index f tag of
        Some i \<Rightarrow>
          and_then (index_chk (queue f) i) (\<lambda>old.
          if new_cost < snd old then
            and_then (vec_remove i (queue f)) (\<lambda>q.
            let ix = shift_down i ((index f)(tag := None));
                new_index = insertion_pos \<lparr>queue = q, index = ix\<rparr> (tag, new_cost)
            in and_then (vec_insert new_index (tag, new_cost) q) (\<lambda>q'.
               Ok (True, \<lparr>queue = q', index = (shift_up new_index ix)(tag \<mapsto> new_index)\<rparr>)))
          else Ok (False, f))
      | None \<Rightarrow> map_ok (\<lambda>f'. (True, f')) (frontier_push f tag new_cost))"

section \<open>Binary search on a sorted vector\<close>

definition split_point :: "('a \<Rightarrow> 'a \<Rightarrow> bool) \<Rightarrow> 'a \<Rightarrow> 'a list \<Rightarrow> nat \<Rightarrow> bool" where
  "split_point lt x xs i \<longleftrightarrow> i \<le> length xs \<and> (\<forall>j < i. lt (xs ! j) x) \<and> (\<forall>j. i \<le> j \<and> j < length xs \<longrightarrow> lt x (xs ! j))"

lemma binary_search_sorted:
  assumes srt: "sorted_wrt lt xs" and tr: "\<And>a b c. lt a b \<Longrightarrow> lt b c \<Longrightarrow> lt a c"
    and tot: "\<And>y. y \<in> set xs \<Longrightarrow> lt x y \<or> lt y x"
    and "l \<le> r" "r \<le> length xs"
    and "\<forall>j < l. lt (xs ! j) x" and "\<forall>j. r \<le> j \<and> j < length xs \<longrightarrow> lt x (xs ! j)"
  shows "\<exists>i. binary_search lt x xs l r = Err i \<and> split_point lt x xs i"
  using assms(4-)
proof (induction "r - l" arbitrary: l r rule: less_induct)
  case less
  show ?case
  proof (cases "l \<ge> r")
    case True
    with less.prems have "l = r" by simp
    then have "binary_search lt x xs l r = Err r" by (subst binary_search.simps) simp
    then show ?thesis using less.prems \<open>l = r\<close> unfolding split_point_def by blast
  next
    case False
    define m where "m = l + (r - l) div 2"
    have m: "l \<le> m" "m < r" "m < length xs" using False less.prems(2) by (auto simp: m_def)
    have mono: "lt (xs ! i) (xs ! j)" if "i < j" "j < length xs" for i j
      using srt that by (simp add: sorted_wrt_iff_nth_less)
    show ?thesis
    proof (cases "lt (xs ! m) x")
      case True
      have "\<forall>j < m + 1. lt (xs ! j) x"
        using mono [of _ m] m True tr by (metis less_Suc_eq Suc_eq_plus1)
      then have "\<exists>i. binary_search lt x xs (m + 1) r = Err i \<and> split_point lt x xs i"
        using less.hyps [of r "m + 1"] less.prems m by (auto simp: m_def)
      then show ?thesis using False True by (simp add: binary_search.simps [of lt x xs l r] m_def Let_def)
    next
      case not: False
      then have gt: "lt x (xs ! m)" using tot [OF nth_mem [OF m(3)]] by blast
      have "\<forall>j. m \<le> j \<and> j < length xs \<longrightarrow> lt x (xs ! j)"
        using mono [of m] gt tr by (metis le_neq_implies_less)
      then have "\<exists>i. binary_search lt x xs l m = Err i \<and> split_point lt x xs i"
        using less.hyps [of m l] less.prems m by simp
      then show ?thesis using False not gt by (simp add: binary_search.simps [of lt x xs l r] m_def Let_def)
    qed
  qed
qed

lemma sorted_wrt_insert:
  assumes "sorted_wrt lt xs" and "split_point lt x xs i"
  shows "sorted_wrt lt (take i xs @ x # drop i xs)"
proof -
  have "\<forall>y \<in> set (take i xs). lt y x" "\<forall>y \<in> set (drop i xs). lt x y"
    using assms(2) by (auto simp: split_point_def in_set_conv_nth)
  moreover from this assms(1) have "sorted_wrt lt (take i xs @ drop i xs)" by simp
  ultimately show ?thesis by (subst (asm) append_take_drop_id [symmetric], simp only: sorted_wrt_append) (auto simp: sorted_wrt_append)
qed

section \<open>The contract\<close>

definition frontier_ok :: "('t::linorder, 'w::linorder) frontier \<Rightarrow> bool" where
  "frontier_ok f \<longleftrightarrow> sorted_wrt key_less (queue f) \<and> distinct (map fst (queue f))
     \<and> (\<forall>t i. index f t = Some i \<longleftrightarrow> i < length (queue f) \<and> fst (queue f ! i) = t)"

definition costs :: "('t, 'w) frontier \<Rightarrow> 't \<Rightarrow> 'w option" where
  "costs f = map_of (queue f)"

lemma key_less_trans: "key_less a b \<Longrightarrow> key_less b c \<Longrightarrow> key_less a c"
  by (auto simp: key_less_def)

lemma key_less_total: "fst a \<noteq> fst b \<Longrightarrow> key_less a b \<or> key_less b a"
  by (auto simp: key_less_def)

lemma insertion_pos_split:
  assumes "sorted_wrt key_less (queue f)" and "tag \<notin> fst ` set (queue f)"
  shows "split_point key_less (tag, w) (queue f) (insertion_pos f (tag, w))"
proof -
  have "\<exists>i. binary_search key_less (tag, w) (queue f) 0 (length (queue f)) = Err i \<and> split_point key_less (tag, w) (queue f) i"
  proof (rule binary_search_sorted [OF assms(1)])
    show "key_less (tag, w) y \<or> key_less y (tag, w)" if "y \<in> set (queue f)" for y
      using that assms(2) key_less_total [of "(tag, w)" y] by fastforce
  qed (auto intro: key_less_trans)
  then show ?thesis by (auto simp: insertion_pos_def)
qed

text \<open>Insertion into a queue whose index is right, without the tag.\<close>

lemma nth_insert:
  "i \<le> length xs \<Longrightarrow> j \<le> length xs \<Longrightarrow>
   (take i xs @ x # drop i xs) ! j = (if j < i then xs ! j else if j = i then x else xs ! (j - 1))"
  by (cases "j - i") (auto simp: nth_append min_absorb2 intro: arg_cong [where f = "nth xs"])

lemma nth_remove:
  "i < length xs \<Longrightarrow> (take i xs @ drop (Suc i) xs) ! j = (if j < i then xs ! j else xs ! Suc j)"
  by (auto simp: nth_append min_absorb2)

lemma set_insert_at: "set (take i xs @ x # drop i xs) = insert x (set xs)"
  by (metis Un_insert_right append_take_drop_id list.simps(15) set_append)

lemma distinct_insert_at:
  "distinct (map fst xs) \<Longrightarrow> fst x \<notin> fst ` set xs \<Longrightarrow> distinct (map fst (take i xs @ x # drop i xs))"
proof -
  assume d: "distinct (map fst xs)" "fst x \<notin> fst ` set xs"
  then have "distinct (map fst (take i xs) @ map fst (drop i xs))" by (simp flip: map_append)
  moreover have "fst x \<notin> fst ` set (take i xs)" "fst x \<notin> fst ` set (drop i xs)"
    using d(2) by (auto dest: in_set_takeD in_set_dropD)
  ultimately show ?thesis by auto
qed

lemma insert_ok:
  assumes "frontier_ok \<lparr>queue = q, index = ix\<rparr>" and "tag \<notin> fst ` set q"
    and "i = insertion_pos \<lparr>queue = q, index = ix\<rparr> (tag, w)"
  shows "\<exists>q'. vec_insert i (tag, w) q = (Ok q' :: (_, 'e) result)
    \<and> frontier_ok \<lparr>queue = q', index = (shift_up i ix)(tag \<mapsto> i)\<rparr> \<and> map_of q' = (map_of q)(tag \<mapsto> w)"
proof -
  let ?q = "take i q @ (tag, w) # drop i q"
  have ok: "sorted_wrt key_less q" "distinct (map fst q)" "\<And>t k. ix t = Some k \<longleftrightarrow> k < length q \<and> fst (q ! k) = t"
    using assms(1) by (auto simp: frontier_ok_def)
  have sp: "split_point key_less (tag, w) q i"
    using insertion_pos_split [of "\<lparr>queue = q, index = ix\<rparr>" tag w] ok(1) assms(2,3) by simp
  then have i: "i \<le> length q" by (simp add: split_point_def)
  have d: "distinct (map fst ?q)" using distinct_insert_at [of q "(tag, w)"] ok(2) assms(2) by simp
  have "((shift_up i ix)(tag \<mapsto> i)) t = Some j \<longleftrightarrow> j < length ?q \<and> fst (?q ! j) = t" for t j
  proof (cases "t = tag")
    case True
    have "fst (q ! k) \<noteq> tag" if "k < length q" for k using assms(2) that nth_mem by fastforce
    then have "j < length ?q \<and> fst (?q ! j) = tag \<longleftrightarrow> j = i"
      using i by (cases "j \<le> length q") (auto simp: nth_insert min_absorb2)
    with True show ?thesis by auto
  next
    case False
    have "shift_up i ix t = Some j \<longleftrightarrow> (\<exists>k. k < length q \<and> fst (q ! k) = t \<and> j = (if k \<ge> i then k + 1 else k))"
      using ok(3) by (auto simp: shift_up_def)
    also have "\<dots> \<longleftrightarrow> j < length q + 1 \<and> j \<noteq> i \<and> fst (if j < i then q ! j else q ! (j - 1)) = t"
    proof
      assume "j < length q + 1 \<and> j \<noteq> i \<and> fst (if j < i then q ! j else q ! (j - 1)) = t"
      then show "\<exists>k. k < length q \<and> fst (q ! k) = t \<and> j = (if k \<ge> i then k + 1 else k)"
        using i by (intro exI [of _ "if j < i then j else j - 1"]) auto
    qed (auto split: if_splits)
    also have "\<dots> \<longleftrightarrow> j < length ?q \<and> fst (?q ! j) = t"
      using i False nth_insert [of i q j "(tag, w)"] by (cases "j \<le> length q") (auto simp: min_absorb2)
    finally show ?thesis using False by simp
  qed
  then have "frontier_ok \<lparr>queue = ?q, index = (shift_up i ix)(tag \<mapsto> i)\<rparr>"
    using sorted_wrt_insert [OF ok(1) sp] d by (simp add: frontier_ok_def)
  moreover have "map_of ?q = map_of ((tag, w) # q)"
    using d ok(2) assms(2) set_insert_at [of i q "(tag, w)"] by (subst map_of_inject_set) auto
  ultimately show ?thesis using i by (simp add: vec_insert_def)
qed

lemma remove_ok:
  assumes "frontier_ok \<lparr>queue = q, index = ix\<rparr>" and "ix tag = Some i"
  shows "\<exists>q'. vec_remove i q = (Ok q' :: (_, 'e) result) \<and> i < length q \<and> map_of q tag = Some (snd (q ! i)) \<and> tag \<notin> fst ` set q'
    \<and> frontier_ok \<lparr>queue = q', index = shift_down i (ix(tag := None))\<rparr> \<and> map_of q' = (map_of q)(tag := None)"
proof -
  let ?q = "take i q @ drop (Suc i) q"
  have ok: "sorted_wrt key_less q" "distinct (map fst q)" "\<And>t k. ix t = Some k \<longleftrightarrow> k < length q \<and> fst (q ! k) = t"
    using assms(1) by (auto simp: frontier_ok_def)
  have i: "i < length q" "fst (q ! i) = tag" using ok(3) assms(2) by auto
  have q: "q = take i q @ (tag, snd (q ! i)) # drop (Suc i) q"
    using id_take_nth_drop [OF i(1)] i(2) by (metis prod.collapse)
  then have set_q: "set q = insert (tag, snd (q ! i)) (set ?q)" by (metis set_insert_at append_Cons set_append Un_insert_right list.simps(15))
  have dq: "distinct (map fst (take i q) @ tag # map fst (drop (Suc i) q))"
    using ok(2) q by (metis list.simps(9) map_append fst_conv)
  then have notin: "tag \<notin> fst ` set ?q" and d: "distinct (map fst ?q)" by auto
  have srt: "sorted_wrt key_less ?q"
  proof -
    have "sorted_wrt key_less (take i q @ (tag, snd (q ! i)) # drop (Suc i) q)" using ok(1) q by metis
    then show ?thesis by (simp add: sorted_wrt_append)
  qed
  have "shift_down i (ix(tag := None)) t = Some j \<longleftrightarrow> j < length ?q \<and> fst (?q ! j) = t" for t j
  proof (cases "t = tag")
    case True
    have "fst (?q ! j) \<noteq> tag" if "j < length ?q" using notin nth_mem [OF that] by force
    with True show ?thesis by (auto simp: shift_down_def)
  next
    case False
    have "shift_down i (ix(tag := None)) t = Some j \<longleftrightarrow> (\<exists>k. k < length q \<and> fst (q ! k) = t \<and> j = (if k \<ge> i then k - 1 else k))"
      using ok(3) False by (auto simp: shift_down_def)
    also have "\<dots> \<longleftrightarrow> j < length q - 1 \<and> fst (if j < i then q ! j else q ! Suc j) = t"
    proof
      assume "\<exists>k. k < length q \<and> fst (q ! k) = t \<and> j = (if k \<ge> i then k - 1 else k)"
      then obtain k where k: "k < length q" "fst (q ! k) = t" "j = (if k \<ge> i then k - 1 else k)" by blast
      moreover from this have "k \<noteq> i" using i False by auto
      ultimately show "j < length q - 1 \<and> fst (if j < i then q ! j else q ! Suc j) = t"
        using i by auto
    next
      assume "j < length q - 1 \<and> fst (if j < i then q ! j else q ! Suc j) = t"
      then show "\<exists>k. k < length q \<and> fst (q ! k) = t \<and> j = (if k \<ge> i then k - 1 else k)"
        using i by (intro exI [of _ "if j < i then j else Suc j"]) auto
    qed
    also have "\<dots> \<longleftrightarrow> j < length ?q \<and> fst (?q ! j) = t"
      using i by (auto simp: nth_remove min_absorb2)
    finally show ?thesis .
  qed
  then have "frontier_ok \<lparr>queue = ?q, index = shift_down i (ix(tag := None))\<rparr>"
    using srt d by (simp add: frontier_ok_def)
  moreover have m: "map_of q = map_of ((tag, snd (q ! i)) # ?q)"
    using set_q ok(2) d notin by (subst map_of_inject_set) auto
  then have "map_of ?q = (map_of q)(tag := None)"
    using notin by (auto simp: fun_eq_iff map_of_eq_None_iff simp del: map_of_append)
  moreover have "map_of q tag = Some (snd (q ! i))" using m by simp
  ultimately show ?thesis using i(1) notin by (simp add: vec_remove_def)
qed

section \<open>The interface of the path search\<close>

locale prio_queue =
  fixes empty :: 'f
    and pop :: "'f \<Rightarrow> ('t \<times> 'w::linorder) option \<times> 'f"
    and upsert :: "'f \<Rightarrow> 't \<Rightarrow> 'w \<Rightarrow> (bool \<times> 'f, unit) result"
    and insert_new :: "'f \<Rightarrow> 't \<Rightarrow> 'w \<Rightarrow> ('f, unit) result"
    and ok :: "'f \<Rightarrow> bool"
    and entries :: "'f \<Rightarrow> 't \<Rightarrow> 'w option"
  assumes empty_law: "ok empty" "entries empty = Map.empty"
    and finite_law: "ok f \<Longrightarrow> finite (dom (entries f))"
    and pop_none: "ok f \<Longrightarrow> fst (pop f) = None \<longleftrightarrow> entries f = Map.empty"
    and pop_some: "ok f \<Longrightarrow> pop f = (Some (t, w), f') \<Longrightarrow>
          ok f' \<and> entries f t = Some w \<and> entries f' = (entries f)(t := None)
          \<and> (\<forall>t' w'. entries f t' = Some w' \<longrightarrow> w \<le> w')"
    and upsert_law: "ok f \<Longrightarrow> \<exists>f'. upsert f t w = Ok (case entries f t of None \<Rightarrow> True | Some w' \<Rightarrow> w < w', f') \<and> ok f'
          \<and> entries f' = (if case entries f t of None \<Rightarrow> True | Some w' \<Rightarrow> w < w' then (entries f)(t \<mapsto> w) else entries f)"
    and insert_law: "ok f \<Longrightarrow> entries f t = None \<Longrightarrow> \<exists>f'. insert_new f t w = Ok f' \<and> ok f' \<and> entries f' = (entries f)(t \<mapsto> w)"
begin

lemma pop_cases:
  assumes "ok f"
  obtains (none) f' where "pop f = (None, f')" "entries f = Map.empty"
  | (some) t w f' where "pop f = (Some (t, w), f')" "ok f'" "entries f t = Some w" "entries f' = (entries f)(t := None)"
      "\<And>t' w'. entries f t' = Some w' \<Longrightarrow> w \<le> w'"
proof (cases "pop f")
  case (Pair r f')
  show thesis
  proof (cases r)
    case None
    then show thesis using none Pair pop_none [OF assms] by simp
  next
    case (Some x)
    then obtain t w where "pop f = (Some (t, w), f')" using Pair by (cases x) simp
    with pop_some [OF assms this] show thesis using some by blast
  qed
qed

lemma upsert_min:
  assumes "ok f" and "upsert f t w = Ok (b, f')"
  shows "ok f'" "b \<longleftrightarrow> (\<forall>w'. entries f t = Some w' \<longrightarrow> w < w')"
    "entries f' = (if b then (entries f)(t \<mapsto> w) else entries f)"
  using upsert_law [OF assms(1), of t w] assms(2) by (auto split: option.splits)

lemma upsert_total: "ok f \<Longrightarrow> \<exists>b f'. upsert f t w = Ok (b, f')"
  using upsert_law by blast

lemma start_law: "\<exists>f. insert_new empty t w = Ok f \<and> ok f \<and> entries f = [t \<mapsto> w]"
  using insert_law [OF empty_law(1)] empty_law(2) by simp

end

lemma frontier_ok_eta: "frontier_ok f \<Longrightarrow> frontier_ok \<lparr>queue = queue f, index = index f\<rparr>"
  by (simp add: frontier_ok_def)

lemma frontier_push_ok:
  assumes "frontier_ok f" and "costs f t = None"
  shows "\<exists>f'. frontier_push f t w = (Ok f' :: (_, 'e) result) \<and> frontier_ok f' \<and> costs f' = (costs f)(t \<mapsto> w)"
proof -
  have "t \<notin> fst ` set (queue f)" using assms(2) by (simp add: costs_def map_of_eq_None_iff)
  moreover have "insertion_pos f (t, w) = insertion_pos \<lparr>queue = queue f, index = index f\<rparr> (t, w)"
    by (simp add: insertion_pos_def)
  ultimately obtain q' where "vec_insert (insertion_pos f (t, w)) (t, w) (queue f) = (Ok q' :: (_, 'e) result)"
    "frontier_ok \<lparr>queue = q', index = (shift_up (insertion_pos f (t, w)) (index f))(t \<mapsto> insertion_pos f (t, w))\<rparr>"
    "map_of q' = (map_of (queue f))(t \<mapsto> w)"
    using insert_ok [OF frontier_ok_eta [OF assms(1)], of t "insertion_pos f (t, w)" w, where ?'e = 'e] by blast
  then show ?thesis by (simp add: frontier_push_def Let_def costs_def)
qed

lemma index_None_iff: "frontier_ok f \<Longrightarrow> index f t = None \<longleftrightarrow> costs f t = None"
proof -
  assume ok: "frontier_ok f"
  have "index f t = None \<longleftrightarrow> (\<forall>i. index f t \<noteq> Some i)" by simp
  also have "\<dots> \<longleftrightarrow> t \<notin> set (map fst (queue f))" using ok unfolding frontier_ok_def in_set_conv_nth by auto
  finally show ?thesis by (simp add: costs_def map_of_eq_None_iff)
qed

lemma upsert_frontier_ok:
  assumes "frontier_ok f"
  shows "\<exists>f'. try_insert_or_decrease_cost f t w = (Ok (case costs f t of None \<Rightarrow> True | Some w' \<Rightarrow> w < w', f') :: (_, 'e) result)
      \<and> frontier_ok f' \<and> costs f' = (if case costs f t of None \<Rightarrow> True | Some w' \<Rightarrow> w < w' then (costs f)(t \<mapsto> w) else costs f)"
proof (cases "index f t")
  case None
  then have "costs f t = None" using index_None_iff [OF assms] by simp
  with frontier_push_ok [OF assms this, of w, where ?'e = 'e] None show ?thesis
    by (auto simp: try_insert_or_decrease_cost_def)
next
  case (Some i)
  note f = frontier_ok_eta [OF assms]
  obtain q where q: "vec_remove i (queue f) = (Ok q :: (_, 'e) result)" "i < length (queue f)" "map_of (queue f) t = Some (snd (queue f ! i))"
    "t \<notin> fst ` set q" "frontier_ok \<lparr>queue = q, index = shift_down i ((index f)(t := None))\<rparr>" "map_of q = (map_of (queue f))(t := None)"
    using remove_ok [OF f Some, where ?'e = 'e] by blast
  obtain q' where q': "vec_insert (insertion_pos \<lparr>queue = q, index = shift_down i ((index f)(t := None))\<rparr> (t, w)) (t, w) q = (Ok q' :: (_, 'e) result)"
    "frontier_ok \<lparr>queue = q', index = (shift_up (insertion_pos \<lparr>queue = q, index = shift_down i ((index f)(t := None))\<rparr> (t, w))
        (shift_down i ((index f)(t := None))))(t \<mapsto> insertion_pos \<lparr>queue = q, index = shift_down i ((index f)(t := None))\<rparr> (t, w))\<rparr>"
    "map_of q' = (map_of q)(t \<mapsto> w)"
    using insert_ok [OF q(5,4) refl, of w, where ?'e = 'e] by blast
  show ?thesis
    using Some q q' assms by (simp add: try_insert_or_decrease_cost_def costs_def Let_def)
qed

lemma frontier_pop_ok:
  assumes "frontier_ok f" and "frontier_pop f = (Some (t, w), f')"
  shows "frontier_ok f' \<and> costs f t = Some w \<and> costs f' = (costs f)(t := None)
      \<and> (\<forall>t' w'. costs f t' = Some w' \<longrightarrow> w \<le> w')"
proof -
  have ok: "sorted_wrt key_less (queue f)" "distinct (map fst (queue f))" "\<And>t k. index f t = Some k \<longleftrightarrow> k < length (queue f) \<and> fst (queue f ! k) = t"
    using assms(1) by (auto simp: frontier_ok_def)
  have ne: "queue f \<noteq> []" "last (queue f) = (t, w)" and f': "f' = \<lparr>queue = butlast (queue f), index = (index f)(t := None)\<rparr>"
    using assms(2) by (auto simp: frontier_pop_def Let_def split: if_splits prod.splits)
  then have q: "queue f = butlast (queue f) @ [(t, w)]" by (metis append_butlast_last_id)
  have s: "sorted_wrt key_less (butlast (queue f) @ [(t, w)])" "distinct (map fst (butlast (queue f) @ [(t, w)]))"
    using ok(1,2) q by simp_all
  then have b: "sorted_wrt key_less (butlast (queue f))" "distinct (map fst (butlast (queue f)))" "t \<notin> fst ` set (butlast (queue f))"
    and least: "\<forall>x \<in> set (butlast (queue f)). key_less x (t, w)"
    by (auto simp: sorted_wrt_append)
  have idx: "((index f)(t := None)) t' = Some k \<longleftrightarrow> k < length (butlast (queue f)) \<and> fst (butlast (queue f) ! k) = t'" for t' k
  proof -
    have "k < length (queue f) \<and> fst (queue f ! k) = t' \<longleftrightarrow>
      k < length (butlast (queue f)) \<and> fst (butlast (queue f) ! k) = t' \<or> k = length (butlast (queue f)) \<and> t = t'"
      by (subst (1 2) q) (auto simp: nth_append less_Suc_eq)
    moreover have "fst (butlast (queue f) ! k) \<noteq> t" if "k < length (butlast (queue f))" for k
      using b(3) nth_mem [OF that] by force
    moreover have "fst (queue f ! length (butlast (queue f))) = t" using q by (metis fst_conv nth_append_length)
    ultimately show ?thesis using ok(3) by auto
  qed
  have "costs f = (map_of (butlast (queue f)))(t \<mapsto> w)"
  proof -
    have "map_of (butlast (queue f) @ [(t, w)]) = map_of ((t, w) # butlast (queue f))"
      using s(2) by (subst map_of_inject_set) auto
    then show ?thesis unfolding costs_def using q by simp
  qed
  moreover have "map_of (butlast (queue f)) t = None" using b(3) by (simp add: map_of_eq_None_iff)
  moreover have "w \<le> w'" if "map_of (butlast (queue f)) t' = Some w'" for t' w'
    using least map_of_SomeD [OF that] by (auto simp: key_less_def)
  ultimately show ?thesis
    using b idx by (auto simp: f' frontier_ok_def costs_def fun_eq_iff)
qed

interpretation fq: prio_queue frontier_new frontier_pop try_insert_or_decrease_cost frontier_push frontier_ok costs
proof
  show "frontier_ok frontier_new" "costs frontier_new = Map.empty"
    by (simp_all add: frontier_new_def frontier_ok_def costs_def)
  show "finite (dom (costs f))" for f :: "('a, 'b) frontier" by (simp add: costs_def finite_dom_map_of)
  show "fst (frontier_pop f) = None \<longleftrightarrow> costs f = Map.empty" for f :: "('a, 'b) frontier"
    by (cases "queue f" rule: rev_cases) (auto simp: frontier_pop_def costs_def fun_eq_iff split: prod.splits)
qed (rule frontier_pop_ok upsert_frontier_ok frontier_push_ok; assumption)+

section \<open>Properties\<close>

text \<open>C21: on a queue whose vector is sorted and whose index is right, the operations of the frontier
  are those of a map from tags to costs, and keep it so: \<open>pop\<close> removes an entry of least cost,
  \<open>try_insert_or_decrease_cost\<close> enters a cost that is new or lower and says so, and none of the
  vector operations is out of range.\<close>

theorem frontier_refines_cost_map:
  assumes "frontier_ok f"
  shows "(case frontier_pop f of
      (None, f') \<Rightarrow> costs f = Map.empty
    | (Some (t, w), f') \<Rightarrow> frontier_ok f' \<and> costs f t = Some w \<and> costs f' = (costs f)(t := None)
        \<and> (\<forall>t' w'. costs f t' = Some w' \<longrightarrow> w \<le> w'))
    \<and> (\<exists>b f'. try_insert_or_decrease_cost f t w = (Ok (b, f') :: (_, unit) result) \<and> frontier_ok f'
        \<and> (b \<longleftrightarrow> (\<forall>w'. costs f t = Some w' \<longrightarrow> w < w'))
        \<and> costs f' = (if b then (costs f)(t \<mapsto> w) else costs f))"
proof
  show "case frontier_pop f of (None, f') \<Rightarrow> costs f = Map.empty
    | (Some (t, w), f') \<Rightarrow> frontier_ok f' \<and> costs f t = Some w \<and> costs f' = (costs f)(t := None)
        \<and> (\<forall>t' w'. costs f t' = Some w' \<longrightarrow> w \<le> w')"
    by (rule fq.pop_cases [OF assms]) auto
  show "\<exists>b f'. try_insert_or_decrease_cost f t w = (Ok (b, f') :: (_, unit) result) \<and> frontier_ok f'
        \<and> (b \<longleftrightarrow> (\<forall>w'. costs f t = Some w' \<longrightarrow> w < w')) \<and> costs f' = (if b then (costs f)(t \<mapsto> w) else costs f)"
    using fq.upsert_total [OF assms, of t w] fq.upsert_min [OF assms, of t w] by blast
qed

lemma frontier_refines_cost_map_witness:
  "\<exists>b f'. try_insert_or_decrease_cost (frontier_new :: (nat, nat) frontier) 1 5 = (Ok (b, f') :: (_, unit) result) \<and> b \<and> costs f' 1 = Some 5"
  using frontier_refines_cost_map [OF fq.empty_law(1), of "1 :: nat" "5 :: nat"]
  by (auto simp: fq.empty_law(2))

end
