(* ===== verification/Dijkstra.thy ===== *)
theory Dijkstra
  imports Frontier
begin

text \<open>
  \<^verbatim>\<open>cjdns-snode/src/pathsearch/dijkstra.rs\<close>: the path search. Tags and weights are type variables,
  as in the code; the zero and the addition of the trait bounds \<open>Zero\<close> and \<open>Add\<close> are arguments.
  The loops follow the queue and the map of predecessors, so they are partial functions: \<open>None\<close>
  says that they do not end, and the theorems show that they do. Floating-point addition is
  monotone but not associative; the proofs ask for no more than \<open>weights_ok\<close>.
\<close>

section \<open>The model\<close>

type_synonym ('t, 'w) nodes = "'t \<Rightarrow> ('t \<times> 'w) list option"

definition add_node :: "'w::linorder \<Rightarrow> ('t, 'w) nodes \<Rightarrow> 't \<Rightarrow> ('t \<times> 'w) list \<Rightarrow> (('t, 'w) nodes, unit) result" where
  "add_node zero nodes node_tag links =
     and_then (assert_that (list_all (\<lambda>(_, w). w \<ge> zero) links)) (\<lambda>_. Ok (nodes(node_tag \<mapsto> links)))"

record ('t, 'w) search =
  explored :: "'t set"
  frontier :: "('t, 'w) frontier"
  previous :: "'t \<Rightarrow> 't option"

fun relax_neighbors ::
  "('w \<Rightarrow> 'w \<Rightarrow> 'w) \<Rightarrow> 't::linorder \<Rightarrow> 'w::linorder \<Rightarrow> ('t \<times> 'w) list \<Rightarrow> ('t, 'w) search \<Rightarrow> (('t, 'w) search, unit) result" where
  "relax_neighbors add tag cost [] s = Ok s"
| "relax_neighbors add tag cost ((n_tag, n_cost) # neighbors) s =
     (if n_tag \<in> explored s then relax_neighbors add tag cost neighbors s
      else and_then (try_insert_or_decrease_cost (frontier s) n_tag (add cost n_cost)) (\<lambda>(updated, f).
           relax_neighbors add tag cost neighbors
             (s\<lparr>frontier := f, previous := (if updated then (previous s)(n_tag \<mapsto> tag) else previous s)\<rparr>)))"

definition search_step ::
  "('w \<Rightarrow> 'w \<Rightarrow> 'w) \<Rightarrow> ('t::linorder, 'w::linorder) nodes \<Rightarrow> 't \<Rightarrow> 'w \<Rightarrow> ('t, 'w) search \<Rightarrow> (('t, 'w) search, unit) result" where
  "search_step add nodes tag cost s =
     (let s = s\<lparr>explored := insert tag (explored s)\<rparr> in
      case nodes tag of None \<Rightarrow> Ok s | Some neighbors \<Rightarrow> relax_neighbors add tag cost neighbors s)"

definition search_start :: "'w \<Rightarrow> 't::linorder \<Rightarrow> (('t, 'w::linorder) search, unit) result" where
  "search_start zero src =
     map_ok (\<lambda>f. \<lparr>explored = {}, frontier = f, previous = (\<lambda>_. None)\<rparr>) (frontier_push frontier_new src zero)"

partial_function (option) trace_back :: "('t \<Rightarrow> 't option) \<Rightarrow> 't \<Rightarrow> 't list option" where
  "trace_back prv cur_tag =
     (case prv cur_tag of
        None \<Rightarrow> Some []
      | Some prev_tag \<Rightarrow> Option.bind (trace_back prv prev_tag) (\<lambda>rest. Some (cur_tag # rest)))"

partial_function (option) reverse_path_loop ::
  "('w \<Rightarrow> 'w \<Rightarrow> 'w) \<Rightarrow> ('t::linorder, 'w::linorder) nodes \<Rightarrow> 't \<Rightarrow> ('t, 'w) search \<Rightarrow> ('t list, unit) result option" where
  "reverse_path_loop add nodes to s =
     (case frontier_pop (frontier s) of
        (None, f) \<Rightarrow> Some (Ok [])
      | (Some (tag, cost), f) \<Rightarrow>
          if tag = to then map_option Ok (trace_back (previous s) tag)
          else (case search_step add nodes tag cost (s\<lparr>frontier := f\<rparr>) of
                  Ok s' \<Rightarrow> reverse_path_loop add nodes to s'
                | Err e \<Rightarrow> Some (Err e)
                | Panic \<Rightarrow> Some Panic))"

definition reverse_path ::
  "'w \<Rightarrow> ('w \<Rightarrow> 'w \<Rightarrow> 'w) \<Rightarrow> ('t::linorder, 'w::linorder) nodes \<Rightarrow> 't \<Rightarrow> 't \<Rightarrow> ('t list, unit) result option" where
  "reverse_path zero add nodes src to =
     (if nodes = Map.empty then Some (Ok [])
      else case search_start zero src of
        Ok s \<Rightarrow> map_option (map_ok (\<lambda>rev_path. if rev_path = [] then rev_path else rev_path @ [src]))
                  (reverse_path_loop add nodes to s)
      | Err e \<Rightarrow> Some (Err e)
      | Panic \<Rightarrow> Some Panic)"

definition find_path ::
  "'w \<Rightarrow> ('w \<Rightarrow> 'w \<Rightarrow> 'w) \<Rightarrow> ('t::linorder, 'w::linorder) nodes \<Rightarrow> 't \<Rightarrow> 't \<Rightarrow> ('t list, unit) result option" where
  "find_path zero add nodes src to = map_option (map_ok rev) (reverse_path zero add nodes src to)"

text \<open>The whole search, without a goal.\<close>

partial_function (option) tree_loop ::
  "('w \<Rightarrow> 'w \<Rightarrow> 'w) \<Rightarrow> ('t::linorder, 'w::linorder) nodes \<Rightarrow> ('t, 'w) search \<Rightarrow> (('t, 'w) search, unit) result option" where
  "tree_loop add nodes s =
     (case frontier_pop (frontier s) of
        (None, f) \<Rightarrow> Some (Ok s)
      | (Some (tag, cost), f) \<Rightarrow>
          (case search_step add nodes tag cost (s\<lparr>frontier := f\<rparr>) of
             Ok s' \<Rightarrow> tree_loop add nodes s'
           | Err e \<Rightarrow> Some (Err e)
           | Panic \<Rightarrow> Some Panic))"

partial_function (option) tree_trace :: "('t \<Rightarrow> 't option) \<Rightarrow> 't \<Rightarrow> 't \<Rightarrow> 't list option" where
  "tree_trace prv start cur_tag =
     (case prv cur_tag of
        None \<Rightarrow> Some []
      | Some prev_tag \<Rightarrow>
          Option.bind (tree_trace prv start prev_tag)
            (\<lambda>rest. Some (if prev_tag \<noteq> start then prev_tag # rest else rest)))"

record 't search_tree =
  start_node :: 't
  paths :: "('t \<times> 't list) list"

text \<open>The paths stand in the order of the tags; in the code they come in the order of a hash map.\<close>

fun tree_paths :: "('t \<Rightarrow> 't option) \<Rightarrow> 't \<Rightarrow> 't list \<Rightarrow> ('t \<times> 't list) list option" where
  "tree_paths prv start [] = Some []"
| "tree_paths prv start (end_tag # rest) =
     (case tree_trace prv start end_tag of
        None \<Rightarrow> None
      | Some rev_path \<Rightarrow> map_option (\<lambda>ps. (end_tag, rev rev_path) # ps) (tree_paths prv start rest))"

definition path_search_tree ::
  "'w \<Rightarrow> ('w \<Rightarrow> 'w \<Rightarrow> 'w) \<Rightarrow> ('t::linorder, 'w::linorder) nodes \<Rightarrow> 't \<Rightarrow> ('t search_tree, unit) result option" where
  "path_search_tree zero add nodes start =
     (if nodes = Map.empty then Some (Ok \<lparr>start_node = start, paths = []\<rparr>)
      else case search_start zero start of
        Ok s \<Rightarrow> (case tree_loop add nodes s of
            Some (Ok s') \<Rightarrow> map_option (\<lambda>ps. Ok \<lparr>start_node = start, paths = ps\<rparr>)
                              (tree_paths (previous s') start (sorted_list_of_set (dom (previous s'))))
          | Some (Err e) \<Rightarrow> Some (Err e)
          | Some Panic \<Rightarrow> Some Panic
          | None \<Rightarrow> None)
      | Err e \<Rightarrow> Some (Err e)
      | Panic \<Rightarrow> Some Panic)"

section \<open>Walks and their cost\<close>

definition edge :: "('t, 'w) nodes \<Rightarrow> 't \<Rightarrow> 't \<Rightarrow> 'w \<Rightarrow> bool" where
  "edge nodes u v w \<longleftrightarrow> (\<exists>ls. nodes u = Some ls \<and> (v, w) \<in> set ls)"

text \<open>Walks are lists from the end to the start, like \<open>rev_path\<close>; the cost adds up from the start.\<close>

inductive rwalk :: "'w \<Rightarrow> ('w \<Rightarrow> 'w \<Rightarrow> 'w) \<Rightarrow> ('t, 'w) nodes \<Rightarrow> 't \<Rightarrow> 't list \<Rightarrow> 'w \<Rightarrow> bool"
  for zero add nodes src where
  start: "rwalk zero add nodes src [src] zero"
| step: "rwalk zero add nodes src (u # p) c \<Longrightarrow> edge nodes u v w \<Longrightarrow> rwalk zero add nodes src (v # u # p) (add c w)"

definition weights_ok :: "('w \<Rightarrow> 'w \<Rightarrow> 'w) \<Rightarrow> ('t, 'w::linorder) nodes \<Rightarrow> bool" where
  "weights_ok add nodes \<longleftrightarrow> (\<forall>u v w. edge nodes u v w \<longrightarrow> (\<forall>x. x \<le> add x w) \<and> (\<forall>x y. x \<le> y \<longrightarrow> add x w \<le> add y w))"

inductive chain :: "('t \<Rightarrow> 't option) \<Rightarrow> 't \<Rightarrow> 't \<Rightarrow> 't list \<Rightarrow> bool" for prv src where
  start: "prv src = None \<Longrightarrow> chain prv src src [src]"
| step: "prv t = Some u \<Longrightarrow> chain prv src u p \<Longrightarrow> chain prv src t (t # p)"

lemma chain_update: "chain prv src t p \<Longrightarrow> v \<notin> set p \<Longrightarrow> chain (prv(v := x)) src t p"
  by (induction rule: chain.induct) (auto intro: chain.intros)

lemma chain_trace: "chain prv src t p \<Longrightarrow> trace_back prv t = Some (butlast p)"
proof (induction rule: chain.induct)
  case (step t u p)
  moreover from step.hyps(2) have "p \<noteq> []" by cases simp_all
  ultimately show ?case by (simp add: trace_back.simps [of prv t])
qed (simp add: trace_back.simps)

lemma chain_last: "chain prv src t p \<Longrightarrow> p \<noteq> [] \<and> hd p = t \<and> last p = src"
  by (induction rule: chain.induct) auto

section \<open>The invariant of the search\<close>

text \<open>
  \<open>D\<close> is the least cost found so far of every tag that was met: it agrees with the queue, and for
  explored tags with the cost they were taken from the queue at. \<open>E\<close> is the set of the edges that
  were relaxed.
\<close>

definition search_inv ::
  "'w \<Rightarrow> ('w \<Rightarrow> 'w \<Rightarrow> 'w) \<Rightarrow> ('t::linorder, 'w::linorder) nodes \<Rightarrow> 't \<Rightarrow> ('t \<Rightarrow> 'w option) \<Rightarrow> ('t \<times> 't \<times> 'w) set \<Rightarrow> ('t, 'w) search \<Rightarrow> bool" where
  "search_inv zero add nodes src D E s \<longleftrightarrow>
     frontier_ok (frontier s)
     \<and> dom D = explored s \<union> dom (costs (frontier s)) \<and> explored s \<inter> dom (costs (frontier s)) = {}
     \<and> costs (frontier s) \<subseteq>\<^sub>m D
     \<and> src \<in> dom D \<and> previous s src = None \<and> dom (previous s) = dom D - {src}
     \<and> (\<forall>t c. D t = Some c \<longrightarrow> (\<exists>p. chain (previous s) src t (t # p) \<and> set p \<subseteq> explored s \<and> rwalk zero add nodes src (t # p) c))
     \<and> (\<forall>u t c d. u \<in> explored s \<longrightarrow> D u = Some c \<longrightarrow> costs (frontier s) t = Some d \<longrightarrow> c \<le> d)
     \<and> (\<forall>(u, v, w) \<in> E. u \<in> explored s \<and> (\<exists>c d. D u = Some c \<and> D v = Some d \<and> d \<le> add c w))"

lemma search_invD:
  assumes "search_inv zero add nodes src D E s"
  shows "frontier_ok (frontier s)" "dom D = explored s \<union> dom (costs (frontier s))"
    "explored s \<inter> dom (costs (frontier s)) = {}" "costs (frontier s) \<subseteq>\<^sub>m D"
    "src \<in> dom D" "previous s src = None" "dom (previous s) = dom D - {src}"
    "\<And>t c. D t = Some c \<Longrightarrow> \<exists>p. chain (previous s) src t (t # p) \<and> set p \<subseteq> explored s \<and> rwalk zero add nodes src (t # p) c"
    "\<And>u t c d. u \<in> explored s \<Longrightarrow> D u = Some c \<Longrightarrow> costs (frontier s) t = Some d \<Longrightarrow> c \<le> d"
    "\<And>u v w. (u, v, w) \<in> E \<Longrightarrow> u \<in> explored s \<and> (\<exists>c d. D u = Some c \<and> D v = Some d \<and> d \<le> add c w)"
proof -
  note inv = assms [unfolded search_inv_def]
  show "frontier_ok (frontier s)" "dom D = explored s \<union> dom (costs (frontier s))"
    "explored s \<inter> dom (costs (frontier s)) = {}" "costs (frontier s) \<subseteq>\<^sub>m D"
    "src \<in> dom D" "previous s src = None" "dom (previous s) = dom D - {src}"
    using inv by - (elim conjE, assumption)+
  show "\<exists>p. chain (previous s) src t (t # p) \<and> set p \<subseteq> explored s \<and> rwalk zero add nodes src (t # p) c"
    if "D t = Some c" for t c
    using inv that by (elim conjE) simp
  show "c \<le> d" if "u \<in> explored s" "D u = Some c" "costs (frontier s) t = Some d" for u t c d
    using inv that by (elim conjE) simp
  show "u \<in> explored s \<and> (\<exists>c d. D u = Some c \<and> D v = Some d \<and> d \<le> add c w)" if "(u, v, w) \<in> E" for u v w
    using inv that by (elim conjE) (drule bspec, assumption, simp)
qed

text \<open>One neighbor of a tag that was just explored.\<close>

lemma relax_one:
  assumes inv: "search_inv zero add nodes src D E s" and wt: "weights_ok add nodes"
    and tag: "tag \<in> explored s" "D tag = Some cost" and e: "edge nodes tag v w"
    and top: "\<forall>u \<in> explored s. \<forall>c. D u = Some c \<longrightarrow> c \<le> cost" and fr: "src \<in> explored s"
  shows "\<exists>s' D'. relax_neighbors add tag cost [(v, w)] s = Ok s' \<and> search_inv zero add nodes src D' (insert (tag, v, w) E) s'
    \<and> explored s' = explored s \<and> (\<forall>u \<in> explored s. D' u = D u)"
proof (cases "v \<in> explored s")
  case True
  note I = search_invD [OF inv]
  obtain d where d: "D v = Some d" using True I(2) by blast
  have "d \<le> add cost w" using top True d wt e unfolding weights_ok_def by (meson order_trans)
  then have "search_inv zero add nodes src D (insert (tag, v, w) E) s"
    using inv tag d unfolding search_inv_def by auto
  with True show ?thesis by auto
next
  case False
  note I = search_invD [OF inv]
  let ?c = "add cost w"
  obtain b f where f: "try_insert_or_decrease_cost (frontier s) v ?c = (Ok (b, f) :: (_, unit) result)"
    using fq.upsert_total [OF I(1), of v "add cost w"] by auto
  note F = fq.upsert_min [OF I(1) f]
  show ?thesis
  proof (cases b)
    case no: False
    obtain w' where w': "costs (frontier s) v = Some w'" "\<not> ?c < w'" using F(2) no by blast
    then have "D v = Some w'" using I(4) by (auto simp: map_le_def dom_def)
    then have "search_inv zero add nodes src D (insert (tag, v, w) E) (s\<lparr>frontier := f\<rparr>)"
      using inv tag w'(2) F(1) F(3) no unfolding search_inv_def by auto
    with False f no show ?thesis by auto
  next
    case yes: True
    let ?s = "s\<lparr>frontier := f, previous := (previous s)(v \<mapsto> tag)\<rparr>" and ?D = "D(v \<mapsto> ?c)"
    have cf: "costs f = (costs (frontier s))(v \<mapsto> ?c)" using F(3) yes by simp
    have vf: "v \<noteq> src" "v \<noteq> tag" using False fr tag(1) by auto
    obtain p where p: "chain (previous s) src tag (tag # p)" "set p \<subseteq> explored s" "rwalk zero add nodes src (tag # p) cost"
      using I(8) [OF tag(2)] by blast
    have new: "chain ((previous s)(v \<mapsto> tag)) src v (v # tag # p)" "rwalk zero add nodes src (v # tag # p) ?c"
    proof -
      have "v \<notin> set (tag # p)" using False p(2) tag(1) by auto
      from chain_update [OF p(1) this] show "chain ((previous s)(v \<mapsto> tag)) src v (v # tag # p)"
        by (rule chain.step [rotated]) simp
      show "rwalk zero add nodes src (v # tag # p) ?c" by (rule rwalk.step [OF p(3) e])
    qed
    have "search_inv zero add nodes src ?D (insert (tag, v, w) E) ?s"
      unfolding search_inv_def
    proof (intro conjI)
      show "\<forall>t c. ?D t = Some c \<longrightarrow> (\<exists>p. chain (previous ?s) src t (t # p) \<and> set p \<subseteq> explored ?s \<and> rwalk zero add nodes src (t # p) c)"
      proof (intro allI impI)
        fix t c assume t: "?D t = Some c"
        show "\<exists>p. chain (previous ?s) src t (t # p) \<and> set p \<subseteq> explored ?s \<and> rwalk zero add nodes src (t # p) c"
        proof (cases "t = v")
          case True
          then show ?thesis using t new p(2) tag(1) by (intro exI [of _ "tag # p"]) auto
        next
          case neq: False
          then obtain q where q: "chain (previous s) src t (t # q)" "set q \<subseteq> explored s" "rwalk zero add nodes src (t # q) c"
            using I(8) [of t c] t neq by auto
          have "v \<notin> set (t # q)" using False q(2) neq by auto
          from chain_update [OF q(1) this] q show ?thesis by auto
        qed
      qed
      show "\<forall>u t c d. u \<in> explored ?s \<longrightarrow> ?D u = Some c \<longrightarrow> costs (frontier ?s) t = Some d \<longrightarrow> c \<le> d"
      proof (intro allI impI)
        fix u t c d assume u: "u \<in> explored ?s" "?D u = Some c" "costs (frontier ?s) t = Some d"
        have un: "u \<in> explored s" "D u = Some c" using u(1,2) False by (auto split: if_splits)
        show "c \<le> d"
        proof (cases "t = v")
          case True
          then have "d = ?c" using u(3) cf by simp
          with top un wt e show ?thesis unfolding weights_ok_def by (meson order_trans)
        qed (use I(9) [OF un] u(3) cf in auto)
      qed
      show "\<forall>(u, v', w') \<in> insert (tag, v, w) E. u \<in> explored ?s \<and> (\<exists>c d. ?D u = Some c \<and> ?D v' = Some d \<and> d \<le> add c w')"
      proof -
        have dec: "?c \<le> d" if "D v = Some d" for d
          using that I(2) False F(2) yes I(4) by (force simp: map_le_def)
        have "u \<in> explored s \<and> (\<exists>c d. ?D u = Some c \<and> ?D v' = Some d \<and> d \<le> add c w')" if e': "(u, v', w') \<in> E" for u v' w'
        proof -
          obtain c d where cd: "u \<in> explored s" "D u = Some c" "D v' = Some d" "d \<le> add c w'" using I(10) [OF e'] by blast
          then have "u \<noteq> v" using False by auto
          then show ?thesis using cd dec by (cases "v' = v") (auto intro: order_trans)
        qed
        then show ?thesis using tag vf by auto
      qed
    qed (use I False F(1) vf cf in \<open>auto simp: map_le_def\<close>)
    with False f yes show ?thesis by auto
  qed
qed

lemma relax_neighbors_Cons:
  "relax_neighbors add tag cost (x # ls) s = and_then (relax_neighbors add tag cost [x] s) (relax_neighbors add tag cost ls)"
  by (cases x; cases "try_insert_or_decrease_cost (frontier s) (fst x) (add cost (snd x)) :: (_, unit) result") auto

lemma relax_all:
  assumes "search_inv zero add nodes src D E s" and "weights_ok add nodes"
    and "tag \<in> explored s" "D tag = Some cost" and "\<forall>(v, w) \<in> set ls. edge nodes tag v w"
    and "\<forall>u \<in> explored s. \<forall>c. D u = Some c \<longrightarrow> c \<le> cost" and "src \<in> explored s"
  shows "\<exists>s' D'. relax_neighbors add tag cost ls s = Ok s' \<and> search_inv zero add nodes src D' (E \<union> (\<lambda>(v, w). (tag, v, w)) ` set ls) s'
    \<and> explored s' = explored s \<and> (\<forall>u \<in> explored s. D' u = D u)"
  using assms
proof (induction ls arbitrary: D E s)
  case (Cons x ls)
  obtain v w where x: "x = (v, w)" by (cases x)
  have e: "edge nodes tag v w" using Cons.prems(5) x by simp
  obtain s1 D1 where 1: "relax_neighbors add tag cost [x] s = Ok s1" "search_inv zero add nodes src D1 (insert (tag, v, w) E) s1"
    "explored s1 = explored s" "\<forall>u \<in> explored s. D1 u = D u"
    using relax_one [OF Cons.prems(1-4) e Cons.prems(6,7)] x by blast
  have "tag \<in> explored s1" "D1 tag = Some cost" "\<forall>(v, w) \<in> set ls. edge nodes tag v w"
    "\<forall>u \<in> explored s1. \<forall>c. D1 u = Some c \<longrightarrow> c \<le> cost" "src \<in> explored s1"
    using 1(3,4) Cons.prems(3-7) by auto
  from Cons.IH [OF 1(2) Cons.prems(2) this]
  obtain s2 D2 where 2: "relax_neighbors add tag cost ls s1 = Ok s2"
    "search_inv zero add nodes src D2 (insert (tag, v, w) E \<union> (\<lambda>(v, w). (tag, v, w)) ` set ls) s2"
    "explored s2 = explored s1" "\<forall>u \<in> explored s1. D2 u = D1 u" by auto
  have "relax_neighbors add tag cost (x # ls) s = Ok s2" using 1(1) 2(1) by (simp add: relax_neighbors_Cons [of add tag cost x ls])
  moreover have "insert (tag, v, w) E \<union> (\<lambda>(v, w). (tag, v, w)) ` set ls = E \<union> (\<lambda>(v, w). (tag, v, w)) ` set (x # ls)"
    using x by auto
  ultimately show ?case using 1(3,4) 2(2-4) by auto
qed auto

section \<open>One step, and all walks\<close>

definition full_inv ::
  "'w \<Rightarrow> ('w \<Rightarrow> 'w \<Rightarrow> 'w) \<Rightarrow> ('t::linorder, 'w::linorder) nodes \<Rightarrow> 't \<Rightarrow> ('t \<Rightarrow> 'w option) \<Rightarrow> ('t, 'w) search \<Rightarrow> bool" where
  "full_inv zero add nodes src D s \<longleftrightarrow>
     search_inv zero add nodes src D {(u, v, w). u \<in> explored s \<and> edge nodes u v w} s
     \<and> (src \<in> explored s \<or> explored s = {} \<and> dom (costs (frontier s)) = {src})"

lemma full_inv_start:
  "\<exists>s D. search_start zero src = Ok s \<and> full_inv zero add nodes src D s \<and> explored s = {}"
proof -
  obtain f where f: "frontier_push frontier_new src zero = (Ok f :: (_, unit) result)" "frontier_ok f" "costs f = [src \<mapsto> zero]"
    using fq.start_law [of src zero] by blast
  let ?s = "\<lparr>explored = {}, frontier = f, previous = (\<lambda>_. None)\<rparr>"
  have "full_inv zero add nodes src [src \<mapsto> zero] ?s"
    using f(2,3) by (auto simp: full_inv_def search_inv_def intro: chain.start rwalk.start split: if_splits)
  then show ?thesis using f(1) by (auto simp: search_start_def)
qed

lemma search_step_inv:
  assumes inv: "full_inv zero add nodes src D s" and wt: "weights_ok add nodes"
    and pop: "frontier_pop (frontier s) = (Some (tag, cost), f)"
  shows "tag \<notin> explored s \<and> D tag = Some cost \<and> (\<exists>s' D'. search_step add nodes tag cost (s\<lparr>frontier := f\<rparr>) = Ok s'
    \<and> full_inv zero add nodes src D' s' \<and> explored s' = insert tag (explored s))"
proof -
  let ?E = "{(u, v, w). u \<in> explored s \<and> edge nodes u v w}" and ?s = "s\<lparr>frontier := f, explored := insert tag (explored s)\<rparr>"
  have si: "search_inv zero add nodes src D ?E s" using inv by (simp add: full_inv_def)
  note I = search_invD [OF si] and P = fq.pop_some [OF search_invD(1) [OF si] pop]
  have tag: "tag \<notin> explored s" "D tag = Some cost" using I(3,4) P by (auto simp: map_le_def dom_def)
  have top: "\<forall>u \<in> explored ?s. \<forall>c. D u = Some c \<longrightarrow> c \<le> cost"
    using tag(2) I(9) [of _ _ tag cost] P by auto
  have src: "src \<in> explored ?s"
    using inv P by (auto simp: full_inv_def)
  have "search_inv zero add nodes src D ?E ?s"
    unfolding search_inv_def
  proof (intro conjI)
    show "\<forall>t c. D t = Some c \<longrightarrow> (\<exists>p. chain (previous ?s) src t (t # p) \<and> set p \<subseteq> explored ?s \<and> rwalk zero add nodes src (t # p) c)"
      using I(8) by fastforce
    show "\<forall>u t c d. u \<in> explored ?s \<longrightarrow> D u = Some c \<longrightarrow> costs (frontier ?s) t = Some d \<longrightarrow> c \<le> d"
    proof (intro allI impI)
      fix u t c d assume u: "u \<in> explored ?s" "D u = Some c" "costs (frontier ?s) t = Some d"
      then have "costs (frontier s) t = Some d" using P by (auto split: if_splits)
      with P have "cost \<le> d" by blast
      moreover have "c \<le> cost" using top u(1,2) by blast
      ultimately show "c \<le> d" by simp
    qed
    show "\<forall>(u, v, w) \<in> ?E. u \<in> explored ?s \<and> (\<exists>c d. D u = Some c \<and> D v = Some d \<and> d \<le> add c w)"
      using I(10) by fastforce
    show "frontier_ok (frontier ?s)" using P by simp
    show "dom D = explored ?s \<union> dom (costs (frontier ?s))" using I(2) P by auto
    show "explored ?s \<inter> dom (costs (frontier ?s)) = {}" using I(3) P by auto
    show "costs (frontier ?s) \<subseteq>\<^sub>m D" using I(4) P by (auto simp: map_le_def)
    show "src \<in> dom D" by (rule I(5))
    show "previous ?s src = None" "dom (previous ?s) = dom D - {src}" using I(6,7) by simp_all
  qed
  note si' = this
  have "\<exists>s' D'. search_step add nodes tag cost (s\<lparr>frontier := f\<rparr>) = Ok s'
    \<and> search_inv zero add nodes src D' {(u, v, w). u \<in> explored s' \<and> edge nodes u v w} s' \<and> explored s' = insert tag (explored s)"
  proof (cases "nodes tag")
    case None
    then have "{(u, v, w). u \<in> explored ?s \<and> edge nodes u v w} = ?E" by (auto simp: edge_def)
    with None si' show ?thesis by (auto simp: search_step_def)
  next
    case (Some ls)
    have "?E \<union> (\<lambda>(v, w). (tag, v, w)) ` set ls = {(u, v, w). u \<in> insert tag (explored s) \<and> edge nodes u v w}"
      using Some by (auto simp: edge_def)
    moreover obtain s' D' where "relax_neighbors add tag cost ls ?s = Ok s'"
      "search_inv zero add nodes src D' (?E \<union> (\<lambda>(v, w). (tag, v, w)) ` set ls) s'" "explored s' = explored ?s"
      using relax_all [OF si' wt _ tag(2) _ top src, of ls] Some by (fastforce simp: edge_def)
    ultimately show ?thesis using Some by (auto simp: search_step_def)
  qed
  then show ?thesis using tag src by (auto simp: full_inv_def)
qed

lemma source_cost:
  assumes "full_inv zero add nodes src D s"
  shows "D src = Some zero"
proof -
  have si: "search_inv zero add nodes src D {(u, v, w). u \<in> explored s \<and> edge nodes u v w} s" using assms by (simp add: full_inv_def)
  note I = search_invD [OF si]
  obtain c where c: "D src = Some c" using I(5) by blast
  with I(8) obtain p where "chain (previous s) src src (src # p)" "rwalk zero add nodes src (src # p) c" by blast
  from this(1) I(6) have "p = []" by cases auto
  with \<open>rwalk zero add nodes src (src # p) c\<close> have "c = zero" by (auto elim: rwalk.cases)
  with c show ?thesis by simp
qed

text \<open>Every walk ends in an explored tag whose cost is no higher, or an entry of the queue is not dearer.\<close>

lemma walk_covered:
  assumes inv: "full_inv zero add nodes src D s" and wt: "weights_ok add nodes" and "rwalk zero add nodes src p c"
  shows "(hd p \<in> explored s \<and> (\<exists>d. D (hd p) = Some d \<and> d \<le> c)) \<or> (\<exists>t d. costs (frontier s) t = Some d \<and> d \<le> c)"
proof -
  have si: "search_inv zero add nodes src D {(u, v, w). u \<in> explored s \<and> edge nodes u v w} s" using inv by (simp add: full_inv_def)
  note I = search_invD [OF si]
  have front: "v \<in> explored s \<or> costs (frontier s) v = Some d" if "D v = Some d" for v d
    using that I(2,4) by (auto simp: map_le_def) (metis domI domD UnE)
  from assms(3) show ?thesis
  proof (induction rule: rwalk.induct)
    case start
    then show ?case using source_cost [OF inv] front [of src zero] by auto
  next
    case (step u p c v w)
    have mono: "\<And>x y. x \<le> y \<Longrightarrow> add x w \<le> add y w" "\<And>x. x \<le> add x w" using wt step.hyps(2) by (auto simp: weights_ok_def)
    from step.IH show ?case
    proof
      assume "hd (u # p) \<in> explored s \<and> (\<exists>d. D (hd (u # p)) = Some d \<and> d \<le> c)"
      then obtain d where d: "u \<in> explored s" "D u = Some d" "d \<le> c" by auto
      with I(10) [of u v w] step.hyps(2) obtain d' where "D v = Some d'" "d' \<le> add d w" by auto
      moreover from this(2) have "d' \<le> add c w" using mono(1) [OF d(3)] by simp
      ultimately show ?thesis using front [of v d'] by auto
    next
      assume "\<exists>t d. costs (frontier s) t = Some d \<and> d \<le> c"
      then show ?thesis using mono(2) [of c] by (meson order_trans)
    qed
  qed
qed

text \<open>The tags that a search can meet.\<close>

definition met :: "('t, 'w) nodes \<Rightarrow> 't \<Rightarrow> 't set" where
  "met nodes src = insert src (\<Union>ls \<in> ran nodes. fst ` set ls)"

lemma finite_met: "finite (dom nodes) \<Longrightarrow> finite (met nodes src)"
  by (simp add: met_def finite_ran)

lemma rwalk_met: "rwalk zero add nodes src p c \<Longrightarrow> p \<noteq> [] \<and> hd p \<in> met nodes src \<and> last p = src"
  by (induction rule: rwalk.induct) (force simp: met_def edge_def ran_def)+

lemma explored_met: "full_inv zero add nodes src D s \<Longrightarrow> dom D \<subseteq> met nodes src \<and> explored s \<subseteq> met nodes src"
proof -
  assume inv: "full_inv zero add nodes src D s"
  then have si: "search_inv zero add nodes src D {(u, v, w). u \<in> explored s \<and> edge nodes u v w} s" by (simp add: full_inv_def)
  have "dom D \<subseteq> met nodes src" using search_invD(8) [OF si] rwalk_met by (metis domD list.sel(1) subsetI)
  then show ?thesis using search_invD(2) [OF si] by blast
qed

section \<open>The loops\<close>

definition shortest :: "'w \<Rightarrow> ('w \<Rightarrow> 'w \<Rightarrow> 'w) \<Rightarrow> ('t, 'w::linorder) nodes \<Rightarrow> 't \<Rightarrow> 't list \<Rightarrow> bool" where
  "shortest zero add nodes src p \<longleftrightarrow>
     (\<exists>c. rwalk zero add nodes src p c \<and> (\<forall>p' c'. rwalk zero add nodes src p' c' \<longrightarrow> hd p' = hd p \<longrightarrow> c \<le> c'))"

definition reachable :: "'w \<Rightarrow> ('w \<Rightarrow> 'w \<Rightarrow> 'w) \<Rightarrow> ('t, 'w) nodes \<Rightarrow> 't \<Rightarrow> 't \<Rightarrow> bool" where
  "reachable zero add nodes src t \<longleftrightarrow> (\<exists>p c. rwalk zero add nodes src p c \<and> hd p = t)"

lemma measure_step:
  assumes "finite (met nodes src)" and "x \<notin> S" and "x \<in> met nodes src"
  shows "card (met nodes src - insert x S) < card (met nodes src - S)"
  using assms by (intro psubset_card_mono) auto

lemma reverse_loop:
  assumes wt: "weights_ok add nodes" and fin: "finite (dom nodes)"
    and "full_inv zero add nodes src D s" and "dest \<notin> explored s"
  shows "\<exists>r. reverse_path_loop add nodes dest s = Some (Ok r) \<and> (r = [] \<longleftrightarrow> dest = src \<or> \<not> reachable zero add nodes src dest)
    \<and> (r \<noteq> [] \<longrightarrow> hd r = dest \<and> shortest zero add nodes src (r @ [src]))"
  using assms(3,4)
proof (induction "card (met nodes src - explored s)" arbitrary: s D rule: less_induct)
  case less
  note inv = less.prems(1)
  have si: "search_inv zero add nodes src D {(u, v, w). u \<in> explored s \<and> edge nodes u v w} s"
    using inv by (simp add: full_inv_def)
  note I = search_invD [OF si] and cov = walk_covered [OF inv wt]
  from I(1) show ?case
  proof (cases rule: fq.pop_cases)
    case (none f')
    have "\<not> reachable zero add nodes src dest"
      using cov none(2) less.prems(2) by (auto simp: reachable_def)
    then show ?thesis using none(1) by (simp add: reverse_path_loop.simps [of add nodes dest s])
  next
    case (some tag cost f)
    note st = search_step_inv [OF inv wt some(1)]
    show ?thesis
    proof (cases "tag = dest")
      case True
      obtain p where p: "chain (previous s) src tag (tag # p)" "rwalk zero add nodes src (tag # p) cost"
        using I(8) [of tag cost] st by blast
      have tb: "reverse_path_loop add nodes dest s = Some (Ok (butlast (tag # p)))"
        using some(1) True chain_trace [OF p(1)] by (simp add: reverse_path_loop.simps [of add nodes dest s])
      have lst: "last (tag # p) = src" using chain_last [OF p(1)] by simp
      have re: "reachable zero add nodes src dest" using p(2) True by (auto simp: reachable_def)
      show ?thesis
      proof (cases "dest = src")
        case eq: True
        with p(1) I(6) True have "p = []" by (auto elim: chain.cases)
        with tb eq show ?thesis by simp
      next
        case neq: False
        then have "p \<noteq> []" using lst True by auto
        have "cost \<le> c'" if "rwalk zero add nodes src p' c'" "hd p' = dest" for p' c'
          using cov [OF that(1)] that(2) less.prems(2) some(5) by (meson order_trans)
        then have "shortest zero add nodes src (tag # p)" using p(2) True by (auto simp: shortest_def)
        moreover have "butlast (tag # p) @ [src] = tag # p" using lst append_butlast_last_id [of "tag # p"] by simp
        ultimately show ?thesis using tb \<open>p \<noteq> []\<close> re neq True by auto
      qed
    next
      case False
      from st obtain s' D' where s': "search_step add nodes tag cost (s\<lparr>frontier := f\<rparr>) = Ok s'"
        "full_inv zero add nodes src D' s'" "explored s' = insert tag (explored s)" by blast
      have "tag \<in> met nodes src" "tag \<notin> explored s" using explored_met [OF inv] st by auto
      then have "card (met nodes src - explored s') < card (met nodes src - explored s)"
        using measure_step finite_met [OF fin] s'(3) by metis
      from less.hyps [OF this s'(2)] s'(3) False less.prems(2)
      show ?thesis using some(1) s'(1) False by (simp add: reverse_path_loop.simps [of add nodes dest s])
    qed
  qed
qed

lemma tree_loop_ok:
  assumes wt: "weights_ok add nodes" and fin: "finite (dom nodes)" and "full_inv zero add nodes src D s"
  shows "\<exists>s' D'. tree_loop add nodes s = Some (Ok s') \<and> full_inv zero add nodes src D' s' \<and> costs (frontier s') = Map.empty"
  using assms(3)
proof (induction "card (met nodes src - explored s)" arbitrary: s D rule: less_induct)
  case less
  note inv = less.prems(1)
  then have "frontier_ok (frontier s)" by (auto simp: full_inv_def search_inv_def)
  then show ?case
  proof (cases rule: fq.pop_cases)
    case (none f')
    then show ?thesis using inv by (auto simp: tree_loop.simps [of add nodes s])
  next
    case (some tag cost f)
    note st = search_step_inv [OF inv wt some(1)]
    then obtain s' D' where s': "search_step add nodes tag cost (s\<lparr>frontier := f\<rparr>) = Ok s'"
      "full_inv zero add nodes src D' s'" "explored s' = insert tag (explored s)" by blast
    have "tag \<in> met nodes src" "tag \<notin> explored s" using explored_met [OF inv] st by auto
    then have "card (met nodes src - explored s') < card (met nodes src - explored s)"
      using measure_step finite_met [OF fin] s'(3) by metis
    from less.hyps [OF this s'(2)] show ?thesis using some(1) s'(1) by (simp add: tree_loop.simps [of add nodes s])
  qed
qed

lemma chain_tree_trace: "chain prv src t p \<Longrightarrow> tree_trace prv src t = Some (filter (\<lambda>x. x \<noteq> src) (tl p))"
proof (induction rule: chain.induct)
  case (step t u p)
  obtain q where "p = u # q" using chain_last [OF step.hyps(2)] by (cases p) auto
  with step show ?case by (simp add: tree_trace.simps [of prv src t])
qed (simp add: tree_trace.simps)

lemma chain_src_last: "chain prv src t p \<Longrightarrow> prv src = None \<Longrightarrow> src \<notin> set (butlast p)"
  by (induction rule: chain.induct) auto

lemma tree_paths_map:
  "(\<And>e. e \<in> set es \<Longrightarrow> tree_trace prv src e = Some (g e)) \<Longrightarrow> tree_paths prv src es = Some (map (\<lambda>e. (e, rev (g e))) es)"
  by (induction es) auto

lemma rwalk_empty: "rwalk zero add Map.empty src p c \<Longrightarrow> p = [src]"
  by (erule rwalk.cases) (auto simp: edge_def)

lemma reverse_path_ok:
  assumes "weights_ok add nodes" and "finite (dom nodes)"
  shows "\<exists>p. reverse_path zero add nodes src dest = Some (Ok p)
    \<and> (p = [] \<longleftrightarrow> dest = src \<or> \<not> reachable zero add nodes src dest)
    \<and> (p \<noteq> [] \<longrightarrow> hd p = dest \<and> last p = src \<and> shortest zero add nodes src p)"
proof (cases "nodes = Map.empty")
  case True
  then have "p = [src]" if "rwalk zero add nodes src p c" for p c
    using that by (simp add: rwalk_empty)
  then have "\<not> reachable zero add nodes src dest \<or> dest = src" by (force simp: reachable_def)
  with True show ?thesis by (auto simp: reverse_path_def)
next
  case False
  obtain s D where s: "search_start zero src = Ok s" "full_inv zero add nodes src D s" "explored s = {}"
    using full_inv_start [where nodes = nodes] by blast
  obtain r where r: "reverse_path_loop add nodes dest s = Some (Ok r)"
    "r = [] \<longleftrightarrow> dest = src \<or> \<not> reachable zero add nodes src dest"
    "r \<noteq> [] \<longrightarrow> hd r = dest \<and> shortest zero add nodes src (r @ [src])"
    using reverse_loop [OF assms s(2), of dest] s(3) by auto
  then have "reverse_path zero add nodes src dest = Some (Ok (if r = [] then r else r @ [src]))"
    using False s(1) by (simp add: reverse_path_def)
  with r(2,3) show ?thesis by auto
qed

section \<open>Properties\<close>

text \<open>C22: the path search returns, without panic, on every finite graph whose weights are monotone
  and do not lower a cost: the empty path if the goal is the start or no walk leads to it, and
  otherwise a walk from the start to the goal of least cost.\<close>

theorem find_path_shortest:
  assumes "weights_ok add nodes" and "finite (dom nodes)"
  shows "\<exists>p. find_path zero add nodes src dest = Some (Ok p)
    \<and> (p = [] \<longleftrightarrow> dest = src \<or> \<not> reachable zero add nodes src dest)
    \<and> (p \<noteq> [] \<longrightarrow> hd p = src \<and> last p = dest \<and> shortest zero add nodes src (rev p))"
proof -
  obtain p where "reverse_path zero add nodes src dest = Some (Ok p)"
    "p = [] \<longleftrightarrow> dest = src \<or> \<not> reachable zero add nodes src dest"
    "p \<noteq> [] \<longrightarrow> hd p = dest \<and> last p = src \<and> shortest zero add nodes src p"
    using reverse_path_ok [OF assms, of zero src dest] by blast
  then show ?thesis by (intro exI [of _ "rev p"]) (auto simp: find_path_def hd_rev last_rev)
qed

lemma find_path_shortest_witness:
  "\<exists>p. find_path (0 :: nat) (+) [0 \<mapsto> [(1, 5), (2, 1)], 2 \<mapsto> [(1, 2)]] 0 (1 :: nat) = Some (Ok p) \<and> hd p = 0 \<and> last p = 1
     \<and> shortest (0 :: nat) (+) [0 \<mapsto> [(1, 5), (2, 1)], 2 \<mapsto> [(1, 2)]] 0 (rev p)"
proof -
  let ?n = "[0 \<mapsto> [(1, 5), (2, 1)], 2 \<mapsto> [(1, 2)]] :: (nat, nat) nodes"
  have "weights_ok (+) ?n" by (simp add: weights_ok_def)
  moreover have "reachable 0 (+) ?n 0 1"
    using rwalk.step [OF rwalk.start, of ?n 0 1 5 0 "(+)"] by (auto simp: reachable_def edge_def)
  ultimately show ?thesis using find_path_shortest [of "(+)" ?n 0 0 1] by auto
qed

text \<open>C23: the path search tree is found for every such graph; it has exactly one path for every
  reachable tag but the start, and the start, the waypoints and the tag are a walk of least cost.\<close>

theorem path_search_tree_shortest:
  assumes "weights_ok add nodes" and "finite (dom nodes)"
  shows "\<exists>T. path_search_tree zero add nodes src = Some (Ok T) \<and> start_node T = src
    \<and> distinct (map fst (paths T)) \<and> fst ` set (paths T) = {t. t \<noteq> src \<and> reachable zero add nodes src t}
    \<and> (\<forall>(t, path) \<in> set (paths T). shortest zero add nodes src (rev (src # path @ [t])))"
proof (cases "nodes = Map.empty")
  case True
  then have "p = [src]" if "rwalk zero add nodes src p c" for p c
    using that by (simp add: rwalk_empty)
  then have "{t. t \<noteq> src \<and> reachable zero add nodes src t} = {}" by (force simp: reachable_def)
  with True show ?thesis by (auto simp: path_search_tree_def)
next
  case False
  obtain s D0 where s: "search_start zero src = Ok s" "full_inv zero add nodes src D0 s"
    using full_inv_start [where nodes = nodes] by blast
  obtain s' D where s': "tree_loop add nodes s = Some (Ok s')" "full_inv zero add nodes src D s'" "costs (frontier s') = Map.empty"
    using tree_loop_ok [OF assms s(2)] by blast
  have si: "search_inv zero add nodes src D {(u, v, w). u \<in> explored s' \<and> edge nodes u v w} s'"
    using s'(2) by (simp add: full_inv_def)
  note I = search_invD [OF si] and cov = walk_covered [OF s'(2) assms(1)]
  have dD: "t \<in> dom D \<longleftrightarrow> reachable zero add nodes src t" for t
  proof
    assume "t \<in> dom D" then show "reachable zero add nodes src t" using I(8) by (fastforce simp: reachable_def)
  next
    assume "reachable zero add nodes src t" then show "t \<in> dom D" using cov s'(3) by (fastforce simp: reachable_def)
  qed
  have opt: "\<exists>p. chain (previous s') src t (t # p) \<and> shortest zero add nodes src (t # p)" if tD: "t \<in> dom D" for t
  proof -
    obtain c where "D t = Some c" using tD by blast
    then obtain p where cp: "D t = Some c" "chain (previous s') src t (t # p)" "rwalk zero add nodes src (t # p) c"
      using I(8) by blast
    have "c \<le> c'" if "rwalk zero add nodes src p' c'" "hd p' = t" for p' c' using cov [OF that(1)] that(2) cp(1) s'(3) by auto
    with cp show ?thesis by (auto simp: shortest_def)
  qed
  define way where "way t = the (tree_trace (previous s') src t)" for t
  have way: "tree_trace (previous s') src t = Some (way t) \<and> shortest zero add nodes src (rev (src # rev (way t) @ [t]))"
    if t: "t \<in> dom (previous s')" for t
  proof -
    have tD: "t \<in> dom D" "t \<noteq> src" using I(7) t by auto
    then obtain p where p: "chain (previous s') src t (t # p)" "shortest zero add nodes src (t # p)" using opt by blast
    have tr: "tree_trace (previous s') src t = Some (filter (\<lambda>x. x \<noteq> src) p)" using chain_tree_trace [OF p(1)] by simp
    then have w: "way t = filter (\<lambda>x. x \<noteq> src) p" by (simp add: way_def)
    have "last (t # p) = src" "src \<notin> set (butlast (t # p))" using chain_last [OF p(1)] chain_src_last [OF p(1) I(6)] by simp_all
    with tD(2) obtain q where q: "p = q @ [src]" "src \<notin> set q"
      by (cases p rule: rev_cases) auto
    have "filter (\<lambda>x. x \<noteq> src) q = q" using q(2) by (simp add: filter_id_conv) blast
    then have "way t = q" by (simp add: w q(1))
    then show ?thesis using tr w p(2) q by simp
  qed
  let ?ends = "sorted_list_of_set (dom (previous s'))"
  have fin: "finite (dom (previous s'))"
    using I(7) explored_met [OF s'(2)] finite_met [OF assms(2), of src] by (metis finite_Diff finite_subset)
  have "path_search_tree zero add nodes src = Some (Ok \<lparr>start_node = src, paths = map (\<lambda>e. (e, rev (way e))) ?ends\<rparr>)"
    using tree_paths_map [of ?ends "previous s'" src way] way fin False s(1) s'(1)
    by (simp add: path_search_tree_def)
  moreover have "dom (previous s') = {t. t \<noteq> src \<and> reachable zero add nodes src t}"
    unfolding I(7) using dD by blast
  ultimately show ?thesis using way fin by (auto simp: image_image comp_def)
qed

lemma path_search_tree_shortest_witness:
  "\<exists>T. path_search_tree (0 :: nat) (+) [0 \<mapsto> [(1, 5), (2, 1)], 2 \<mapsto> [(1, 2)]] (0 :: nat) = Some (Ok T)
     \<and> (\<forall>(t, path) \<in> set (paths T). shortest (0 :: nat) (+) [0 \<mapsto> [(1, 5), (2, 1)], 2 \<mapsto> [(1, 2)]] 0 (rev (0 # path @ [t])))"
proof -
  have "weights_ok (+) ([0 \<mapsto> [(1, 5), (2, 1)], 2 \<mapsto> [(1, 2)]] :: (nat, nat) nodes)" by (simp add: weights_ok_def)
  from path_search_tree_shortest [OF this, of 0 0] show ?thesis by auto
qed

end
