(* ===== verification/Cost.thy ===== *)
theory Cost
  imports Float64 Dijkstra
begin

text \<open>
  Link costs as the weights of the path search: non-negative doubles with infinity, ordered as
  numbers, which is the order of their bits, and added with rounding. They are a type of their own
  so that the ordering is a \<open>linorder\<close>. The debug assertion of \<open>into_ord\<close> that a weight is finite is
  not part of it: an infinite cost comes last, as it does in a release build.
\<close>

section \<open>Rounding is monotone\<close>

lemma f64_round_below_middle:
  assumes "f64_round n d = k" and "k < F64_INF" and "0 < d"
  shows "2 * n * F64_SCALE \<le> (f64_magnitude k + f64_magnitude (Suc k)) * d"
proof -
  define s where "s = n * F64_SCALE div d"
  define q where "q = f64_floor s"
  note f = f64_floor_bounds [of s]
  have low: "f64_magnitude q * d \<le> n * F64_SCALE"
    using f assms(3) by (simp add: s_def q_def less_eq_div_iff_mult_less_eq)
  have high: "n * F64_SCALE < f64_magnitude (Suc q) * d"
    using f assms(3) by (simp add: s_def q_def div_less_iff_less_mult)
  let ?near = "n * F64_SCALE - f64_magnitude q * d < f64_magnitude (Suc q) * d - n * F64_SCALE
     \<or> (n * F64_SCALE - f64_magnitude q * d = f64_magnitude (Suc q) * d - n * F64_SCALE \<and> even q)"
  have "k = min (if ?near then q else Suc q) F64_INF"
    using assms(1) unfolding f64_round_def s_def [symmetric] q_def [symmetric] Let_def by (rule sym)
  then have k: "k = (if ?near then q else Suc q)" using assms(2) by (cases ?near) (simp_all add: min_def split: if_splits)
  show ?thesis
  proof (cases ?near)
    case True
    then have "k = q" using k by simp
    have "n * F64_SCALE - f64_magnitude q * d \<le> f64_magnitude (Suc q) * d - n * F64_SCALE" using True by linarith
    then have "n * F64_SCALE + n * F64_SCALE \<le> f64_magnitude q * d + f64_magnitude (Suc q) * d" using low high by linarith
    then show ?thesis by (simp add: \<open>k = q\<close> distrib_right)
  next
    case False
    then have "k = Suc q" using k by simp
    have "f64_magnitude k * d \<le> f64_magnitude (Suc k) * d" using magnitude_Suc [of k] by simp
    then have "n * F64_SCALE + n * F64_SCALE \<le> f64_magnitude k * d + f64_magnitude (Suc k) * d"
      using high [folded \<open>k = Suc q\<close>] by linarith
    then show ?thesis by (simp add: distrib_right)
  qed
qed

lemma f64_round_mono:
  assumes "n \<le> n'" and "0 < d"
  shows "f64_round n d \<le> f64_round n' d"
proof (cases "n = n' \<or> f64_round n' d = F64_INF")
  case True
  then show ?thesis using f64_round_INF by auto
next
  case False
  then have lt: "f64_round n' d < F64_INF" using f64_round_INF [of n' d] by simp
  have "2 * n * F64_SCALE < 2 * n' * F64_SCALE" using False assms(1) scale_pos by simp
  also have "\<dots> \<le> (f64_magnitude (f64_round n' d) + f64_magnitude (Suc (f64_round n' d))) * d"
    by (rule f64_round_below_middle [OF refl lt assms(2)])
  finally show ?thesis by (rule f64_round_near [OF _ assms(2)])
qed

lemma f64_add_unat:
  assumes "unat a \<le> F64_INF" and "unat b \<le> F64_INF"
  shows "unat (f64_add a b) =
    (if unat a = F64_INF \<or> unat b = F64_INF then F64_INF
     else f64_round (f64_magnitude (unat a) + f64_magnitude (unat b)) F64_SCALE)"
  using assms unat_f64 [of F64_INF]
  by (simp add: f64_add_def f64_is_nan_def f64_is_inf_def f64_bits_unat unat_of_ratio f64_mag_def)

lemma f64_add_mono:
  assumes "unat a \<le> unat a'" and "unat a' \<le> F64_INF" and "unat b \<le> F64_INF"
  shows "unat (f64_add a b) \<le> unat (f64_add a' b)"
proof (cases "unat a' = F64_INF \<or> unat b = F64_INF")
  case True
  then show ?thesis using f64_ops_ok [of a b] assms by (auto simp: f64_add_unat [of a' b])
next
  case False
  have "f64_magnitude (unat a) \<le> f64_magnitude (unat a')" using assms(1) by (simp add: magnitude_le)
  then show ?thesis using False assms scale_pos by (auto simp: f64_add_unat intro!: f64_round_mono)
qed

lemma f64_add_ge:
  assumes "unat a \<le> F64_INF" and "unat b \<le> F64_INF"
  shows "unat a \<le> unat (f64_add a b)"
  using assms scale_pos by (auto simp: f64_add_unat intro!: f64_round_ge)

section \<open>The type of costs\<close>

typedef cost = "{w :: u64. unat w \<le> F64_INF}"
  morphisms cost_bits cost_of
  by (rule exI [of _ 0]) simp

setup_lifting type_definition_cost

lemma cost_bits_le: "unat (cost_bits c) \<le> F64_INF"
  using cost_bits [of c] by simp

lemma cost_bits_of [simp]: "unat w \<le> F64_INF \<Longrightarrow> cost_bits (cost_of w) = w"
  by (simp add: cost_of_inverse)

instantiation cost :: linorder
begin

lift_definition less_eq_cost :: "cost \<Rightarrow> cost \<Rightarrow> bool" is "\<lambda>a b. unat a \<le> unat b" .

lift_definition less_cost :: "cost \<Rightarrow> cost \<Rightarrow> bool" is "\<lambda>a b. unat a < unat b" .

instance
  by standard (transfer; auto simp: word_unat_eq_iff)+

end

lift_definition cost_add :: "cost \<Rightarrow> cost \<Rightarrow> cost" is f64_add
  by (simp add: f64_ops_ok)

lift_definition cost_zero :: cost is 0
  by simp

text \<open>Any costs will do for the search.\<close>

lemma costs_ok: "weights_ok cost_add nodes"
proof -
  have "x \<le> cost_add x w" for x w by transfer (rule f64_add_ge)
  moreover have "x \<le> y \<Longrightarrow> cost_add x w \<le> cost_add y w" for x y w by transfer (rule f64_add_mono)
  ultimately show ?thesis by (simp add: weights_ok_def)
qed

end
