(* ===== verification/Server_Inv.thy ===== *)
theory Server_Inv
  imports Server
begin

text \<open>
  The invariant of the supernode's state, kept by every step of \<^verbatim>\<open>server.rs\<close>, \<^verbatim>\<open>server/nodes.rs\<close> and
  of the connections to other supernodes: the table of nodes, the announcements each node is
  described by, its links, and the list of announcements served to peers.
\<close>

section \<open>The invariant\<close>

abbreviation ann_time :: "announcement \<Rightarrow> system_time" where
  "ann_time a \<equiv> mktime (timestamp (ann_header a))"

definition ann_ok :: "'s crypto \<Rightarrow> announcement \<Rightarrow> bool" where
  "ann_ok c a \<longleftrightarrow> ann_hash a = sha512 c (binary a) \<and> (\<forall>e \<in> set (entities a). entity_ok e)
     \<and> ip6_try_from_key (sha512 c) (node_pub_key a) = Ok (node_ip a)"

text \<open>A node is described by its announcements, newest first, all of them from its address and none
  older than the timeout before the newest; each of them but the newest announces something that no
  newer one announces again. Its reset message is kept.\<close>

definition needed :: "announcement list \<Rightarrow> bool" where
  "needed as \<longleftrightarrow> (\<forall>xs a ys. as = xs @ a # ys \<and> a \<noteq> hd as \<longrightarrow> (\<exists>e \<in> set (lasting (entities a)). entity_key e \<notin> lasting_keys xs))"

definition newest_first :: "announcement list \<Rightarrow> bool" where
  "newest_first as \<longleftrightarrow> sorted_wrt (\<lambda>a b. ann_time b \<le> ann_time a) as"

definition node_ok :: "'s crypto \<Rightarrow> ip6 \<Rightarrow> node \<Rightarrow> bool" where
  "node_ok c ip n \<longleftrightarrow> node_ipv6 n = ip \<and> links_ok (inward_links n)
     \<and> node_anns n \<noteq> [] \<and> node_timestamp n = ann_time (hd (node_anns n)) \<and> newest_first (node_anns n) \<and> needed (node_anns n)
     \<and> (\<forall>a \<in> set (node_anns n). ann_ok c a \<and> node_ip a = ip \<and> node_timestamp n - AGREED_TIMEOUT \<le> ann_time a)
     \<and> (\<exists>r. reset_msg n = Some r \<and> ann_ok c r \<and> node_ip r = ip \<and> is_reset (ann_header r))"

fun node_known :: "node option \<Rightarrow> announcement set" where
  "node_known None = {}"
| "node_known (Some n) = set (node_anns n) \<union> set_option (reset_msg n)"

definition known_anns :: "(ip6 \<Rightarrow> node option) \<Rightarrow> announcement set" where
  "known_anns t = (\<Union>ip. node_known (t ip))"

definition served :: "peers \<Rightarrow> hash \<Rightarrow> bytes option" where
  "served p = ann_by_hash (anns p)"

definition serves_only :: "peers \<Rightarrow> announcement set \<Rightarrow> bool" where
  "serves_only p A \<longleftrightarrow> (\<forall>h b. served p h = Some b \<longrightarrow> (\<exists>a \<in> A. ann_hash a = h \<and> binary a = b))"

definition table_ok :: "'s crypto \<Rightarrow> (ip6 \<Rightarrow> node option) \<Rightarrow> bool" where
  "table_ok c t \<longleftrightarrow> finite (dom t) \<and> (\<forall>ip n. t ip = Some n \<longrightarrow> node_ok c ip n)"

definition server_ok :: "'s crypto \<Rightarrow> server \<Rightarrow> bool" where
  "server_ok c s \<longleftrightarrow> table_ok c (nodes_by_ip s) \<and> peers_ok (srv_peers s) \<and> serves_only (srv_peers s) (known_anns (nodes_by_ip s))"

lemma table_ok_upd: "table_ok c t \<Longrightarrow> node_ok c ip n \<Longrightarrow> table_ok c (t(ip \<mapsto> n))"
  by (simp add: table_ok_def)

lemma table_ok_del: "table_ok c t \<Longrightarrow> table_ok c (t(ip := None))"
  by (simp add: table_ok_def)

lemma table_okD: "table_ok c t \<Longrightarrow> t ip = Some n \<Longrightarrow> node_ok c ip n"
  by (simp add: table_ok_def)

lemma server_okD:
  "server_ok c s \<Longrightarrow> table_ok c (nodes_by_ip s)" "server_ok c s \<Longrightarrow> peers_ok (srv_peers s)"
  "server_ok c s \<Longrightarrow> serves_only (srv_peers s) (known_anns (nodes_by_ip s))"
  by (simp_all add: server_ok_def)

lemma known_anns_upd: "known_anns t - node_known (t ip) \<union> node_known v \<subseteq> known_anns (t(ip := v))"
  by (auto simp: known_anns_def split: if_splits)

lemma known_annsI: "t ip = Some n \<Longrightarrow> a \<in> set (node_anns n) \<or> reset_msg n = Some a \<Longrightarrow> a \<in> known_anns t"
  unfolding known_anns_def by (intro UN_I [of ip]) auto

section \<open>What is served\<close>

lemma serves_only_mono: "serves_only p A \<Longrightarrow> A \<subseteq> B \<Longrightarrow> serves_only p B"
  unfolding serves_only_def by blast

lemma served_del: "served (del_ann h p) h' = (if h' = h then None else served p h')"
  by (simp add: served_def del_ann_def ann_list_lookup)

lemma serves_only_del: "serves_only p A \<Longrightarrow> serves_only (del_ann h p) {a \<in> A. ann_hash a \<noteq> h}"
  unfolding serves_only_def served_del by (metis (mono_tags, lifting) mem_Collect_eq option.distinct(1))

lemma del_anns_ok: "peers_ok p \<Longrightarrow> peers_ok (del_anns as p)"
  by (induction "as" arbitrary: p) (simp_all add: del_ann_ok)

lemma serves_only_del_anns: "serves_only p A \<Longrightarrow> serves_only (del_anns as p) (A - set as)"
proof (induction "as" arbitrary: p A)
  case (Cons a as)
  have "serves_only (del_anns as (del_ann (ann_hash a) p)) ({x \<in> A. ann_hash x \<noteq> ann_hash a} - set as)"
    by (intro Cons.IH serves_only_del Cons.prems)
  then show ?case by (auto elim: serves_only_mono)
qed simp

lemma forget_node_ok: "peers_ok p \<Longrightarrow> peers_ok (forget_node n p)"
  by (simp add: forget_node_def del_anns_ok del_ann_ok Let_def split: option.split)

lemma serves_only_forget: "serves_only p A \<Longrightarrow> serves_only (forget_node n p) (A - node_known (Some n))"
proof -
  assume "serves_only p A"
  then have d: "serves_only (del_anns (node_anns n) p) (A - set (node_anns n))" by (rule serves_only_del_anns)
  show ?thesis
  proof (cases "reset_msg n")
    case (Some r)
    have "serves_only (forget_node n p) {x \<in> A - set (node_anns n). ann_hash x \<noteq> ann_hash r}"
      using serves_only_del [OF d] Some by (simp add: forget_node_def)
    then show ?thesis using Some by (auto elim: serves_only_mono)
  qed (use d in \<open>simp add: forget_node_def\<close>)
qed

lemma drop_anns_ok: "peers_ok p \<Longrightarrow> peers_ok (drop_anns r as p)"
  by (induction "as" arbitrary: p) (simp_all add: del_ann_ok)

lemma serves_only_drop: "serves_only p A \<Longrightarrow> serves_only (drop_anns r as p) (A - (set as - set_option r))"
proof (induction "as" arbitrary: p A)
  case (Cons a as)
  show ?case
  proof (cases "r = Some a")
    case True
    then show ?thesis using Cons.IH [OF Cons.prems] by (auto elim: serves_only_mono)
  next
    case False
    then have "serves_only (drop_anns r (a # as) p) ({x \<in> A. ann_hash x \<noteq> ann_hash a} - (set as - set_option r))"
      using Cons.IH [OF serves_only_del [OF Cons.prems]] by simp
    then show ?thesis by (auto elim: serves_only_mono)
  qed
qed simp

definition same_anns :: "peers \<Rightarrow> peers \<Rightarrow> bool" where
  "same_anns p q \<longleftrightarrow> anns q = anns p"

lemma offer_anns: "keeps (same_anns p) (offer h i)"
  by (simp add: keeps_def same_anns_def offer_def send_ignore_def send_msg_def split: prod.split)

lemma served_add:
  "served (snd (add_ann h b p)) = (if h \<in> set (ann_hashes_ordered (anns p)) then served p else (served p)(h \<mapsto> b))"
proof -
  have "keeps (same_anns q) (st_for is (offer h))" for "is" q by (intro keeps_for offer_anns)
  from keepsD [OF this [of "p\<lparr>anns := ann_list_add h b (anns p)\<rparr>" "peer_list p"], of "p\<lparr>anns := ann_list_add h b (anns p)\<rparr>"]
  show ?thesis
    by (auto simp: same_anns_def add_ann_def served_def ann_list_lookup fun_eq_iff)
qed

lemma serves_only_add: "serves_only p A \<Longrightarrow> a \<in> A \<Longrightarrow> serves_only (snd (add_ann (ann_hash a) (binary a) p)) A"
  by (auto simp: serves_only_def served_add split: if_splits)

section \<open>Every step keeps the invariant\<close>

lemma server_ok_forget:
  assumes "server_ok c s" and "nodes_by_ip s ip = Some n"
  shows "server_ok c (s\<lparr>srv_peers := forget_node n (srv_peers s), nodes_by_ip := (nodes_by_ip s)(ip := None)\<rparr>)"
proof -
  have "serves_only (forget_node n (srv_peers s)) (known_anns (nodes_by_ip s) - node_known (nodes_by_ip s ip))"
    using serves_only_forget [OF server_okD(3) [OF assms(1)], of n] assms(2) by simp
  then have "serves_only (forget_node n (srv_peers s)) (known_anns ((nodes_by_ip s)(ip := None)))"
    by (rule serves_only_mono) (use known_anns_upd [of "nodes_by_ip s" ip None] in blast)
  then show ?thesis using assms(1) by (simp add: server_ok_def table_ok_del forget_node_ok)
qed

lemma clean_nodes_ok: "server_ok c s \<Longrightarrow> server_ok c (clean_nodes t ips s)"
  by (induction ips arbitrary: s) (simp_all add: server_ok_forget split: option.split)

lemma keep_table_clean_ok: "server_ok c s \<Longrightarrow> server_ok c (keep_table_clean order now s)"
  by (simp add: keep_table_clean_def clean_nodes_ok)

lemma server_ok_put:
  assumes "server_ok c s" and "node_ok c ip n" and "peers_ok p"
    and "serves_only p (known_anns (nodes_by_ip s) - node_known (nodes_by_ip s ip) \<union> node_known (Some n))"
  shows "server_ok c (s\<lparr>srv_peers := p, nodes_by_ip := (nodes_by_ip s)(ip \<mapsto> n)\<rparr>)"
proof -
  have "serves_only p (known_anns ((nodes_by_ip s)(ip \<mapsto> n)))"
    by (rule serves_only_mono [OF assms(4) known_anns_upd])
  then show ?thesis using assms(1-3) by (simp add: server_ok_def table_ok_upd)
qed

lemma nodes_add_node_ok:
  assumes "server_ok c s" and "node_ok c (node_ipv6 n) n"
  shows "server_ok c (snd (nodes_add_node n overwrite s))"
proof -
  let ?t = "nodes_by_ip s"
  define p where "p = (case ?t (node_ipv6 n) of Some old \<Rightarrow> forget_node old (srv_peers s) | None \<Rightarrow> srv_peers s)"
  have "serves_only p (known_anns ?t - node_known (?t (node_ipv6 n)))" "peers_ok p"
    using serves_only_forget [OF server_okD(3) [OF assms(1)]] server_okD(2,3) [OF assms(1)]
    by (cases "?t (node_ipv6 n)"; simp add: p_def forget_node_ok)+
  then have "server_ok c (s\<lparr>srv_peers := p, nodes_by_ip := ?t(node_ipv6 n \<mapsto> n)\<rparr>)"
    by (intro server_ok_put assms) (auto elim: serves_only_mono)
  then show ?thesis using assms(1) by (simp add: nodes_add_node_def Let_def p_def)
qed

lemma new_node_ok:
  assumes "new_node s v key sch t ip (Some a) = Ok n" and "ann_ok c a" and "node_ip a = ip" and "is_reset (ann_header a)" and "t = ann_time a"
  shows "node_ok c ip n \<and> node_ipv6 n = ip \<and> node_type n = NodeType_Node \<and> node_anns n = [a] \<and> reset_msg n = Some a
     \<and> node_timestamp n = t \<and> inward_links n = Map.empty \<and> node_version n = v \<and> state_hash n = None"
  using assms
  by (auto simp: new_node_def ok_iff node_ok_def newest_first_def needed_def AGREED_TIMEOUT_def secs_def AGREED_TIMEOUT_SECS_def Cons_eq_append_conv
      split: option.splits)

lemma reset_node_ok:
  assumes "ann_ok c a" and "is_reset (ann_header a)" and "server_ok c s"
  shows "server_ok c (snd (reset_node v sch a s))"
proof -
  have "server_ok c (snd (nodes_add_node n True s))"
    if "new_node s ver (node_pub_key a) sch (ann_time a) (node_ip a) (Some a) = Ok n" for n ver
    using new_node_ok [OF that assms(1) refl assms(2) refl] by (intro nodes_add_node_ok assms(3)) simp
  then show ?thesis using assms(3)
    by (auto simp: reset_node_def split: option.splits result.splits prod.splits) (metis snd_conv)+
qed

lemma newest_first_Cons: "newest_first (a # as) \<longleftrightarrow> (\<forall>b \<in> set as. ann_time b \<le> ann_time a) \<and> newest_first as"
  by (simp add: newest_first_def)

lemma newest_first_subseq: "subseq xs as \<Longrightarrow> newest_first as \<Longrightarrow> newest_first xs"
proof (induction rule: list_emb.induct)
  case (list_emb_Cons2 x y xs ys)
  then show ?case using list_emb_set [of _ xs ys] by (force simp: newest_first_Cons)
qed (simp_all add: newest_first_def)

lemma newest_first_hd: "newest_first as \<Longrightarrow> a \<in> set as \<Longrightarrow> ann_time a \<le> ann_time (hd as)"
  by (cases "as") (auto simp: newest_first_Cons)

text \<open>What the node of an announcement becomes.\<close>

lemma add_announcement_node:
  assumes "node_ok c ip n" and "ann_ok c a" and "node_ip a = ip" and "node_timestamp n \<le> ann_time a"
    and "retain_anns (ann_time a - AGREED_TIMEOUT) a (a # node_anns n) [] = (kept, dropped)"
  shows "node_ok c ip (n\<lparr>node_anns := kept, node_timestamp := ann_time a\<rparr>)" and "hd kept = a"
    and "set (a # node_anns n) = set kept \<union> set dropped"
proof -
  let ?since = "ann_time a - AGREED_TIMEOUT"
  have "fresh ?since a" by (simp add: fresh_def AGREED_TIMEOUT_def secs_def)
  then obtain kept' where kept: "kept = a # kept'" using retain_anns_head [of ?since a "node_anns n"] assms(5) by auto
  have sets: "subseq kept (a # node_anns n)" "\<forall>b \<in> set kept. fresh ?since b" "set (a # node_anns n) = set kept \<union> set dropped"
    using retain_anns_sets [of ?since a "a # node_anns n" "[]"] assms(5) by simp_all
  then show "set (a # node_anns n) = set kept \<union> set dropped" by blast
  show "hd kept = a" by (simp add: kept)
  have "newest_first (a # node_anns n)"
    using assms(1,4) newest_first_hd [of "node_anns n"] by (force simp: newest_first_Cons node_ok_def)
  then have "newest_first kept" using sets(1) newest_first_subseq by blast
  moreover have "needed kept"
    using retain_anns_needed [of "[]" ?since a "a # node_anns n"] assms(5) unfolding needed_def kept by auto
  moreover have "ann_ok c b \<and> node_ip b = ip \<and> ?since \<le> ann_time b" if "b \<in> set kept" for b
    using that sets(2,3) assms(1-3) by (force simp: node_ok_def fresh_def)
  ultimately show "node_ok c ip (n\<lparr>node_anns := kept, node_timestamp := ann_time a\<rparr>)"
    using assms(1) by (simp add: node_ok_def kept)
qed

lemma add_announcement_ok:
  assumes "server_ok c s" and "ann_ok c a" and "\<And>n. nodes_by_ip s (node_ip a) = Some n \<Longrightarrow> node_timestamp n \<le> ann_time a"
  shows "server_ok c (add_announcement (node_ip a) a s)"
proof (cases "nodes_by_ip s (node_ip a)")
  case (Some n)
  obtain kept dropped where r: "retain_anns (ann_time a - AGREED_TIMEOUT) a (a # node_anns n) [] = (kept, dropped)"
    by (cases "retain_anns (ann_time a - AGREED_TIMEOUT) a (a # node_anns n) []")
  let ?n = "n\<lparr>node_anns := kept, node_timestamp := ann_time a\<rparr>"
  have n: "node_ok c (node_ip a) n" using table_okD server_okD(1) [OF assms(1)] Some by blast
  note node = add_announcement_node [OF n assms(2) refl assms(3) [OF Some] r]
  let ?A = "known_anns (nodes_by_ip s)"
  have "serves_only (drop_anns (reset_msg n) dropped (srv_peers s)) (?A - (set dropped - set_option (reset_msg n)))"
    by (rule serves_only_drop [OF server_okD(3) [OF assms(1)]])
  moreover have "?A - (set dropped - set_option (reset_msg n)) \<subseteq> ?A - node_known (nodes_by_ip s (node_ip a)) \<union> node_known (Some ?n)"
    using node(3) Some by auto
  ultimately have "server_ok c (s\<lparr>srv_peers := drop_anns (reset_msg n) dropped (srv_peers s),
      nodes_by_ip := (nodes_by_ip s)(node_ip a \<mapsto> ?n)\<rparr>)"
    by (intro server_ok_put assms(1) node(1) drop_anns_ok server_okD(2) [OF assms(1)]) (rule serves_only_mono)
  then show ?thesis using Some r by (simp add: add_announcement_def Let_def)
qed (simp add: add_announcement_def assms(1))

lemma server_ok_same_known:
  assumes "server_ok c s" and "nodes_by_ip s ip = Some n" and "node_ok c ip n'"
    and "node_anns n' = node_anns n" and "reset_msg n' = reset_msg n"
  shows "server_ok c (s\<lparr>nodes_by_ip := (nodes_by_ip s)(ip \<mapsto> n')\<rparr>)"
proof -
  have "serves_only (srv_peers s) (known_anns (nodes_by_ip s) - node_known (nodes_by_ip s ip) \<union> node_known (Some n'))"
    using server_okD(3) [OF assms(1)] by (rule serves_only_mono) (use assms(2,4,5) in auto)
  from server_ok_put [OF assms(1,3) server_okD(2) [OF assms(1)] this] show ?thesis by simp
qed

lemma node_ok_frame:
  "node_ok c ip n \<Longrightarrow> links_ok m \<Longrightarrow> node_ok c ip (n\<lparr>inward_links := m\<rparr>)"
  "node_ok c ip n \<Longrightarrow> node_ok c ip (n\<lparr>state_hash := h\<rparr>)"
  by (auto simp: node_ok_def)

lemma on_node_some: "nodes_by_ip s ip = Some n \<Longrightarrow> on_node ip f s = s\<lparr>nodes_by_ip := (nodes_by_ip s)(ip \<mapsto> f n)\<rparr>"
  by (simp add: on_node_def)

lemma update_links_ok:
  assumes "server_ok c s" and "\<And>n m. nodes_by_ip s ip = Some n \<Longrightarrow> f (inward_links n) = Ok m \<Longrightarrow> links_ok m"
  shows "server_ok c (snd (update_links f ip s))"
proof (cases "nodes_by_ip s ip")
  case (Some n)
  have "server_ok c (s\<lparr>nodes_by_ip := (nodes_by_ip s)(ip \<mapsto> n\<lparr>inward_links := m\<rparr>)\<rparr>)" if "f (inward_links n) = Ok m" for m
    using table_okD [OF server_okD(1) [OF assms(1)] Some] assms(2) [OF Some that]
    by (intro server_ok_same_known [OF assms(1) Some] node_ok_frame) simp_all
  then show ?thesis using assms(1) Some by (simp add: update_links_def on_node_some split: result.split)
qed (simp add: update_links_def assms(1))

lemma ann_link_parts:
  assumes "ann_ok c a"
  shows "\<forall>p \<in> set (peers_from_announcement a). \<forall>lab. peer_label p = Some lab \<longrightarrow> label_ok lab"
    and "\<forall>ls \<in> set (link_states_from_announcement a). slots_ok ls"
  using assms unfolding ann_ok_def peers_from_announcement_def link_states_from_announcement_def slots_ok_def List.map_filter_def
  by (force split: entity.splits)+

lemma links_ok_finite: "links_ok m \<Longrightarrow> finite (dom m)"
  by (simp add: links_ok_def)

lemma accept_links:
  assumes "ann_ok c a" and "links_ok m"
  shows "\<exists>m'. update_peers a (peers_from_announcement a) m = (Ok m' :: (links, 'e) result) \<and> links_ok m'"
    and "order_ok order \<Longrightarrow> link_state_update1 order a m = (Panic :: (links, 'e) result) \<or> 
      (\<exists>m'. link_state_update1 order a m = (Ok m' :: (links, 'e) result) \<and> links_ok m')"
  using update_peers_ok [OF assms(2) ann_link_parts(1) [OF assms(1)]]
    link_state_update1_ok [OF assms(2) _ ann_link_parts(2) [OF assms(1)], of order]
  by (blast, meson)

lemma publish_ok:
  assumes "server_ok c s" and "ann_ok c a" and "\<And>b. sha512 c b \<noteq> []"
  shows "server_ok c (snd (publish a s))"
proof (cases "nodes_by_ip s (node_ip a)")
  case (Some n)
  have "server_ok c (s\<lparr>srv_peers := snd (add_ann (ann_hash a) (binary a) (srv_peers s))\<rparr>)"
    if "a \<in> set (node_anns n) \<or> reset_msg n = Some a"
    using server_okD [OF assms(1)] serves_only_add [OF server_okD(3) [OF assms(1)] known_annsI [of "nodes_by_ip s" "node_ip a" n a]]
      Some that assms(2) add_ann_ok [of "srv_peers s" "ann_hash a" "binary a"] assms(3) [of "binary a"]
    by (simp add: server_ok_def ann_ok_def)
  then show ?thesis using assms(1) Some by (simp add: publish_def)
qed (simp add: publish_def assms(1))

lemma reply_hash_ok: "server_ok c s \<Longrightarrow> server_ok c (snd (reply_hash c' ip err s))"
proof -
  assume s: "server_ok c s"
  have "server_ok c (s\<lparr>nodes_by_ip := (nodes_by_ip s)(i \<mapsto> n\<lparr>state_hash := h\<rparr>)\<rparr>)" if "nodes_by_ip s i = Some n" for i n h
    using table_okD [OF server_okD(1) [OF s] that] by (intro server_ok_same_known [OF s that] node_ok_frame) simp_all
  then show ?thesis using s
    by (auto simp: reply_hash_def node_announcement_hash_def Let_def on_node_some split: option.split)
qed

lemma keepsI: "(\<And>s. I s \<Longrightarrow> I (snd (m s))) \<Longrightarrow> keeps I m"
  by (simp add: keeps_def)

lemma keeps_then: "I (snd (m s)) \<Longrightarrow> (\<And>a. keeps I (f a)) \<Longrightarrow> I (snd (st_bind m f s))"
  by (cases "m s"; cases "fst (m s)") (simp_all add: keeps_def st_bind_run)

lemma accept_ok:
  assumes "ann_ok c a" and "order_ok order" and "\<And>b. sha512 c b \<noteq> []"
  shows "keeps (server_ok c) (accept c' order a err)"
  unfolding accept_def
proof (intro keeps_bind keepsI)
  fix s assume s: "server_ok c s"
  have links: "links_ok (inward_links n)" if "nodes_by_ip s (node_ip a) = Some n" for n
    using table_okD [OF server_okD(1) [OF s] that] by (simp add: node_ok_def)
  show "server_ok c (snd (update_links (update_peers a (peers_from_announcement a)) (node_ip a) s))"
    using accept_links(1) [OF assms(1) links, where 'e = handler_error] by (intro update_links_ok s) fastforce
  show "server_ok c (snd (update_links (link_state_update1 order a) (node_ip a) s))"
    using accept_links(2) [OF assms(1) links assms(2), where 'e = handler_error] by (intro update_links_ok s) fastforce
  show "server_ok c (snd (publish a s))" by (rule publish_ok [OF s assms(1,3)])
  show "server_ok c (snd (reply_hash c' (Some (node_ip a)) err s))" by (rule reply_hash_ok [OF s])
qed

section \<open>The verdict on an announcement\<close>

definition verdict :: "system_time \<Rightarrow> bool \<Rightarrow> node option \<Rightarrow> node option \<Rightarrow> announcement \<Rightarrow> reply_error" where
  "verdict now from_subnode me old a =
     (if from_subnode then
        (if \<exists>n. old = Some n \<and> ann_time a < node_timestamp n then OldMessage
         else if \<exists>n. me = Some n \<and> snode_ip (ann_header a) \<noteq> node_ipv6 n then WrongSnode
         else if MAX_CLOCKSKEW < time_diff now (ann_time a) then ExcessiveClockSkew
         else NoError)
      else if \<exists>n. me = Some n \<and> node_ip a = node_ipv6 n then WrongSnode
      else NoError)"

abbreviation see_node :: "announcement \<Rightarrow> server \<Rightarrow> server" where
  "see_node a s \<equiv> s\<lparr>current_node := Some (node_ip a)\<rparr>"

lemma handle_unread:
  "read_announcement c bytes = Ok None \<Longrightarrow>
   handle_announce_impl c order now bytes from_subnode s =
     (if from_subnode then (Err NoSelfNode, s) else (Ok (replicate 64 0, FailedParseOrValidate), s))"
  by (simp add: handle_announce_impl_def check_source_def check_gossip_def handle_checked_def find_scheme_def
      find_version_def reply_hash_def node_announcement_hash_def ok_or_def)

lemma handle_read:
  assumes "read_announcement c bytes = Ok (Some a)"
  shows "handle_announce_impl c order now bytes from_subnode s =
    (if from_subnode \<and> self_node s = None then (Err NoSelfNode, see_node a s)
     else let old = nodes_by_ip s (node_ip a); v = verdict now from_subnode (self_node s) old a in
       if v = NoError
       then handle_accepted c order old (version_from_announcement a) (encoding_scheme_from_announcement a) a NoError (see_node a s)
       else reply_hash c (if old = None then None else Some (node_ip a)) v (see_node a s))"
  by (cases "self_node s"; cases "nodes_by_ip s (node_ip a)")
    (auto simp: handle_announce_impl_def assms verdict_def by_ip_def check_source_def check_old_def check_snode_def check_skew_def
      check_gossip_def handle_checked_def find_scheme_def find_version_def ok_or_def Let_def)

lemma read_announcement_no_err: "read_announcement c bs \<noteq> Err e"
  by (simp add: read_announcement_def split: result.splits)

lemma read_announcement_ok:
  assumes "read_announcement c bs = Ok (Some a)"
  shows "ann_ok c a" "binary a = bs"
proof -
  obtain p where p: "packet_try_new bs = Ok p" "packet_parse (sha512 c) (pk_to_curve25519 c) (hex_encode c) p = Ok a"
    using assms by (auto simp: read_announcement_def split: result.splits)
  have "p = bs" using p(1) by (simp add: packet_try_new_def split: if_splits)
  from parsed_facts [OF p(2)] have "binary a = p" "ann_hash a = sha512 c p"
      "ip6_try_from_key (sha512 c) (node_pub_key a) = Ok (node_ip a)" "\<forall>e \<in> set (entities a). entity_ok e"
    by blast+
  then show "ann_ok c a" "binary a = bs" by (simp_all add: ann_ok_def \<open>p = bs\<close>)
qed


section \<open>Handling an announcement keeps the invariant\<close>

lemma server_ok_current [simp]: "server_ok c (s\<lparr>current_node := x\<rparr>) = server_ok c s"
  by (simp add: server_ok_def)

text \<open>The state after the announcement is stored, when it is.\<close>

definition store_ann :: "u16 option \<Rightarrow> encoding_scheme option \<Rightarrow> announcement \<Rightarrow> unit server_st" where
  "store_ann version scheme a =
     (if is_reset (ann_header a) then reset_node version scheme a else st_modify (add_announcement (node_ip a) a))"

lemma handle_accepted_eq:
  "handle_accepted c order old version scheme a err s =
     (if \<exists>n. old = Some n \<and> ann_time a < node_timestamp n then reply_hash c (Some (node_ip a)) err s
      else if old = None \<and> \<not> is_reset (ann_header a) then reply_hash c None UnknownNode s
      else st_bind (store_ann version scheme a) (\<lambda>_. accept c order a err) s)"
  by (cases old) (simp_all add: handle_accepted_def store_ann_def)

lemma store_ann_ok:
  assumes "server_ok c s" and "ann_ok c a" and "\<And>n. nodes_by_ip s (node_ip a) = Some n \<Longrightarrow> node_timestamp n \<le> ann_time a"
  shows "server_ok c (snd (store_ann version scheme a s))"
  using assms by (simp add: store_ann_def reset_node_ok add_announcement_ok)

lemma handle_accepted_ok:
  assumes "server_ok c s" and "ann_ok c a" and "order_ok order" and "\<And>b. sha512 c b \<noteq> []"
  shows "server_ok c (snd (handle_accepted c' order (nodes_by_ip s (node_ip a)) version scheme a err s))"
proof (cases "\<exists>n. nodes_by_ip s (node_ip a) = Some n \<and> ann_time a < node_timestamp n")
  case True
  then show ?thesis unfolding handle_accepted_eq using reply_hash_ok [OF assms(1)] by simp
next
  case fresh: False
  show ?thesis
  proof (cases "nodes_by_ip s (node_ip a) = None \<and> \<not> is_reset (ann_header a)")
    case True
    then show ?thesis unfolding handle_accepted_eq using reply_hash_ok [OF assms(1)] fresh by simp
  next
    case False
    have "server_ok c (snd (store_ann version scheme a s))"
      using fresh by (intro store_ann_ok assms(1,2)) (auto simp: not_less)
    then have "server_ok c (snd (st_bind (store_ann version scheme a) (\<lambda>_. accept c' order a err) s))"
      by (rule keeps_then) (rule accept_ok [OF assms(2-4)])
    then show ?thesis unfolding handle_accepted_eq using fresh False by auto
  qed
qed

lemma handle_announce_ok:
  assumes "server_ok c s" and "order_ok order" and "\<And>b. sha512 c b \<noteq> []"
  shows "server_ok c (snd (handle_announce_impl c order now bytes from_subnode s))"
proof (cases "read_announcement c bytes")
  case (Ok r)
  show ?thesis
  proof (cases r)
    case None
    then show ?thesis using Ok assms(1) by (simp add: handle_unread)
  next
    case (Some a)
    have s: "server_ok c (see_node a s)" using assms(1) by simp
    have r: "read_announcement c bytes = Ok (Some a)" using Ok Some by simp
    have "server_ok c (snd (handle_accepted c order (nodes_by_ip s (node_ip a)) ver sch a NoError (see_node a s)))" for ver sch
      using handle_accepted_ok [OF s read_announcement_ok(1) [OF r] assms(2,3), of c ver sch NoError] by simp
    then show ?thesis
      using reply_hash_ok [OF s, of c] s by (simp only: handle_read [OF r] Let_def snd_conv split: if_split) simp
  qed
next
  case Panic
  then show ?thesis using assms(1) by (simp add: handle_announce_impl_def)
qed (simp add: read_announcement_no_err)


section \<open>Connections leave the announcement list alone\<close>

lemma same_anns_refl [simp]: "same_anns p p"
  by (simp add: same_anns_def)

lemma keeps_same_send:
  "keeps (same_anns p) (send_own i m)" "keeps (same_anns p) (send_ignore i m)" "keeps (same_anns p) next_msg_id"
  "keeps (same_anns p) (create_peer t a now)" "keeps (same_anns p) (drop_peer i)" "keeps (same_anns p) (send_announce d)"
  "keeps (same_anns p) (complete_req i n)"
  by (simp_all add: keeps_def same_anns_def send_own_def send_ignore_def send_msg_def next_msg_id_def seq_next_def create_peer_def
      drop_peer_def remove_peer_def send_announce_def complete_req_def split: prod.split)

lemma keeps_get: "keeps I (st_get f)"
  by (simp add: keeps_def)

lemma keeps_same_request: "keeps (same_anns p) (request_hash i h)"
proof -
  have "keeps (same_anns p) (st_bind next_msg_id (\<lambda>seq. st_bind (st_modify (add_pending_req i seq)) (\<lambda>_. send_own i (WireMessage seq (GET_DATA h)))))"
    by (intro keeps_bind keeps_same_send keeps_modify) (simp add: same_anns_def add_pending_req_def)
  then show ?thesis by (simp add: keeps_def request_hash_def)
qed

lemma keeps_same_process: "keeps (same_anns p) (process_message i n msg)"
proof -
  have "keeps (same_anns p) (st_for hs (request_hash i))" for hs by (intro keeps_for keeps_same_request)
  moreover have "keeps (same_anns p) (st_bind (complete_req i n) (\<lambda>known. if \<not> known then st_err (UnexpectedData n) else send_announce d))" for d
    by (intro keeps_bind keeps_same_send) (auto simp: keeps_same_send)
  ultimately show ?thesis
    using keeps_same_send(1) by (simp add: keeps_def process_message_def split: message_data.split)
qed

lemma end_connection_anns [simp]: "anns (end_connection i p) = anns p"
  by (simp add: end_connection_def remove_peer_def)

lemma ws_receive_anns: "anns (ws_receive rd now i bs p) = anns p"
proof (cases "decode_msgpack rd bs")
  case (Ok m)
  obtain n d where m: "m = WireMessage n d" by (cases m)
  let ?p = "on_peer i (\<lambda>q. q\<lparr>last_msg_time := now\<rparr>) p"
  have "anns (snd (handle_message now i m p)) = anns p"
    using keepsD [OF keeps_same_process [of ?p i n d], of ?p] by (simp add: m same_anns_def Let_def remove_peer_def)
  moreover have "anns (after_handler i rs) = anns (snd rs)" for rs :: "(unit, peer_error) result \<times> peers"
    by (cases rs) (simp add: after_handler_def split: result.split peer_error.split)
  ultimately show ?thesis using Ok by (simp add: ws_receive_def)
qed (simp_all add: ws_receive_def)

fun connection_event :: "event \<Rightarrow> bool" where
  "connection_event (Publish h b) = False"
| "connection_event (Withdraw h) = False"
| "connection_event _ = True"

lemma peers_step_anns: "connection_event e \<Longrightarrow> anns (peers_step rd wr p e) = anns p"
proof (cases e)
  case (StartIncoming a now)
  have "keeps (same_anns p) (start_incoming a now)"
    unfolding start_incoming_def by (intro keeps_bind keeps_for keeps_same_send keeps_get) simp
  from keepsD [OF this, of p] show ?thesis by (simp add: StartIncoming same_anns_def)
next
  case (StartOutgoing a now)
  have "keeps (same_anns p) (start_outgoing a now)"
    unfolding start_outgoing_def by (intro keeps_bind keeps_same_send) simp
  from keepsD [OF this, of p] show ?thesis by (simp add: StartOutgoing same_anns_def)
next
  case (Transmit i)
  then show ?thesis by (simp add: ws_transmit_def split: list.split result.split)
next
  case (Pings now)
  have "keeps (same_anns p) (do_pings now)"
  proof -
    have "keeps (same_anns p) (st_bind (st_for ps (\<lambda>i. st_bind next_msg_id (\<lambda>seq. send_ignore i (WireMessage seq PING)))) (\<lambda>_. st_for ds drop_peer))" for ps ds
      by (intro keeps_bind keeps_for keeps_same_send)
    then show ?thesis by (simp add: keeps_def do_pings_def split: prod.split)
  qed
  from keepsD [OF this, of p] show ?thesis by (simp add: Pings same_anns_def)
qed (simp_all add: ws_receive_anns)

section \<open>Runs of the supernode\<close>

text \<open>What happens to a supernode: its own router hands it an announcement, the task that reads the
  announcements from peers takes one, the table is cleaned, the router's service task sets the self
  node, and the connections to peers do their steps.\<close>

datatype server_event =
    FromRouter system_time bytes
  | FromPeers system_time
  | CleanTable system_time
  | SetSelf node
  | OnPeers event

fun server_step ::
  "'s crypto \<Rightarrow> key_order \<Rightarrow> (bytes \<Rightarrow> (msgpack, string) result) \<Rightarrow> (msgpack \<Rightarrow> (bytes, string) result)
     \<Rightarrow> server \<Rightarrow> server_event \<Rightarrow> server" where
  "server_step c order rd wr s (FromRouter now bs) = snd (handle_announce_impl c order now bs True s)"
| "server_step c order rd wr s (FromPeers now) =
     (case announce_tx (srv_peers s) of
        [] \<Rightarrow> s
      | bs # rest \<Rightarrow> snd (handle_announce_impl c order now bs False (s\<lparr>srv_peers := (srv_peers s)\<lparr>announce_tx := rest\<rparr>\<rparr>)))"
| "server_step c order rd wr s (CleanTable now) = keep_table_clean order now s"
| "server_step c order rd wr s (SetSelf n) = s\<lparr>self_node := Some n\<rparr>"
| "server_step c order rd wr s (OnPeers e) = s\<lparr>srv_peers := peers_step rd wr (srv_peers s) e\<rparr>"

fun server_event_ok :: "server \<Rightarrow> server_event \<Rightarrow> bool" where
  "server_event_ok s (OnPeers e) = (connection_event e \<and> event_ok (srv_peers s) e)"
| "server_event_ok s _ = True"

inductive server_reachable ::
  "'s crypto \<Rightarrow> key_order \<Rightarrow> (bytes \<Rightarrow> (msgpack, string) result) \<Rightarrow> (msgpack \<Rightarrow> (bytes, string) result) \<Rightarrow> server \<Rightarrow> bool"
  for c order rd wr where
  start: "server_reachable c order rd wr (server_new (peers_new seed))"
| step: "server_reachable c order rd wr s \<Longrightarrow> server_event_ok s e \<Longrightarrow> server_reachable c order rd wr (server_step c order rd wr s e)"

lemma serves_only_same: "anns p = anns q \<Longrightarrow> serves_only p A = serves_only q A"
  by (simp add: serves_only_def served_def)

lemma server_new_ok: "server_ok c (server_new (peers_new seed))"
  using peers_new_ok [of seed]
  by (simp add: server_ok_def server_new_def table_ok_def serves_only_def served_def) (simp add: peers_new_def ann_list_new_def)

lemma server_step_ok:
  assumes "server_ok c s" and "server_event_ok s e" and "order_ok order" and "\<And>b. sha512 c b \<noteq> []"
  shows "server_ok c (server_step c order rd wr s e)"
proof (cases e)
  case (FromPeers now)
  have "server_ok c (s\<lparr>srv_peers := (srv_peers s)\<lparr>announce_tx := rest\<rparr>\<rparr>)" for rest
    using assms(1) serves_only_same [of "(srv_peers s)\<lparr>announce_tx := rest\<rparr>" "srv_peers s"] by (simp add: server_ok_def peers_ok_def)
  then show ?thesis using FromPeers assms(1,3,4) by (simp add: handle_announce_ok split: list.split)
next
  case (OnPeers pe)
  then have "anns (peers_step rd wr (srv_peers s) pe) = anns (srv_peers s)" using assms(2) by (simp add: peers_step_anns)
  then have "serves_only (peers_step rd wr (srv_peers s) pe) (known_anns (nodes_by_ip s))"
    using serves_only_same server_okD(3) [OF assms(1)] by blast
  moreover have "peers_ok (peers_step rd wr (srv_peers s) pe)"
    using assms(2) OnPeers by (intro peers_step_ok server_okD(2) [OF assms(1)]) simp
  ultimately show ?thesis using OnPeers assms(1) by (simp add: server_ok_def)
next
  case (SetSelf n)
  then show ?thesis using assms(1) by (simp add: server_ok_def)
qed (use assms in \<open>simp_all add: handle_announce_ok keep_table_clean_ok\<close>)

lemma server_reachable_ok:
  "server_reachable c order rd wr s \<Longrightarrow> order_ok order \<Longrightarrow> (\<And>b. sha512 c b \<noteq> []) \<Longrightarrow> server_ok c s"
  by (induction rule: server_reachable.induct) (simp_all add: server_new_ok server_step_ok)

end
