(* ===== verification/Server_Spec.thy ===== *)
theory Server_Spec
  imports Server_Inv "HOL-Library.List_Lexorder"
begin

text \<open>
  What \<^verbatim>\<open>handle_announce_impl\<close> of \<^verbatim>\<open>server.rs\<close> does, branch by branch: which announcements are
  refused and leave the state alone, what an accepted one changes, and on which the handler panics.
\<close>

section \<open>Accepting\<close>

definition bad_slot :: "announcement \<Rightarrow> bool" where
  "bad_slot a \<longleftrightarrow> unat (time_slot (timestamp (ann_header a))) < 120"

definition publish_known :: "announcement \<Rightarrow> node \<Rightarrow> peers \<Rightarrow> peers" where
  "publish_known a n p = (if a \<in> set (node_anns n) \<or> reset_msg n = Some a then snd (add_ann (ann_hash a) (binary a) p) else p)"

definition put_node :: "node \<Rightarrow> ip6 \<Rightarrow> server \<Rightarrow> server" where
  "put_node n ip s = s\<lparr>nodes_by_ip := (nodes_by_ip s)(ip \<mapsto> n)\<rparr>"

lemma put_node_simps [simp]:
  "nodes_by_ip (put_node n ip s) = (nodes_by_ip s)(ip \<mapsto> n)" "srv_peers (put_node n ip s) = srv_peers s"
  "put_node n ip (put_node n' ip s) = put_node n ip s" "self_node (put_node n ip s) = self_node s"
  by (simp_all add: put_node_def)

lemma update_links_run:
  "nodes_by_ip s ip = Some n \<Longrightarrow> update_links f ip s =
    (case f (inward_links n) of Ok m \<Rightarrow> (Ok (), put_node (n\<lparr>inward_links := m\<rparr>) ip s) | Err e \<Rightarrow> (Err e, s) | Panic \<Rightarrow> (Panic, s))"
  by (simp add: update_links_def on_node_some put_node_def split: result.split)

lemma publish_run: "nodes_by_ip s (node_ip a) = Some n \<Longrightarrow> publish a s = (Ok (), s\<lparr>srv_peers := publish_known a n (srv_peers s)\<rparr>)"
  by (simp add: publish_def publish_known_def)

lemma reply_hash_run:
  "nodes_by_ip s ip = Some n \<Longrightarrow> reply_hash c (Some ip) err s =
    (Ok (announcements_hash (sha512 c) (node_anns n), err),
     put_node (n\<lparr>state_hash := Some (announcements_hash (sha512 c) (node_anns n))\<rparr>) ip s)"
  by (simp add: reply_hash_def node_announcement_hash_def Let_def on_node_some put_node_def)

lemma accept_run:
  assumes "nodes_by_ip s (node_ip a) = Some n" and "links_ok (inward_links n)" and "ann_ok c a" and "order_ok order"
  shows "\<exists>m. update_peers a (peers_from_announcement a) (inward_links n) = (Ok m :: (links, handler_error) result) \<and> links_ok m
    \<and> (if bad_slot a
       then accept c' order a err s = (Panic, put_node (n\<lparr>inward_links := m\<rparr>) (node_ip a) s)
       else \<exists>m'. link_state_update1 order a m = (Ok m' :: (links, handler_error) result) \<and> links_ok m'
         \<and> accept c' order a err s =
           (let h = announcements_hash (sha512 c') (node_anns n) in
             (Ok (h, err), put_node (n\<lparr>inward_links := m', state_hash := Some h\<rparr>) (node_ip a)
               (s\<lparr>srv_peers := publish_known a n (srv_peers s)\<rparr>))))"
proof -
  obtain m where m: "update_peers a (peers_from_announcement a) (inward_links n) = (Ok m :: (links, handler_error) result)" "links_ok m"
    using accept_links(1) [OF assms(3,2)] by blast
  let ?s1 = "put_node (n\<lparr>inward_links := m\<rparr>) (node_ip a) s"
  have s1: "update_links (update_peers a (peers_from_announcement a)) (node_ip a) s = (Ok (), ?s1)"
    using assms(1) m(1) by (simp add: update_links_run)
  have n1: "nodes_by_ip ?s1 (node_ip a) = Some (n\<lparr>inward_links := m\<rparr>)" by simp
  note lsu = link_state_update1_ok [OF m(2) assms(4) ann_link_parts(2) [OF assms(3)], where ?'e = handler_error]
  show ?thesis
  proof (cases "bad_slot a")
    case True
    then have "link_state_update1 order a m = (Panic :: (links, handler_error) result)" using lsu by (simp add: bad_slot_def)
    then have "update_links (link_state_update1 order a) (node_ip a) ?s1 = (Panic, ?s1)" using update_links_run [OF n1] by simp
    then show ?thesis using True m s1 by (intro exI [of _ m]) (simp add: accept_def st_bind_run)
  next
    case False
    then obtain m' where m': "link_state_update1 order a m = (Ok m' :: (links, handler_error) result)" "links_ok m'"
      using lsu by (auto simp: bad_slot_def)
    let ?s2 = "put_node (n\<lparr>inward_links := m'\<rparr>) (node_ip a) s"
    have s2: "update_links (link_state_update1 order a) (node_ip a) ?s1 = (Ok (), ?s2)" using update_links_run [OF n1] m'(1) by simp
    have n2: "nodes_by_ip ?s2 (node_ip a) = Some (n\<lparr>inward_links := m'\<rparr>)" by simp
    let ?s3 = "?s2\<lparr>srv_peers := publish_known a n (srv_peers s)\<rparr>"
    have s3: "publish a ?s2 = (Ok (), ?s3)" using publish_run [OF n2] by (simp add: publish_known_def)
    have n3: "nodes_by_ip ?s3 (node_ip a) = Some (n\<lparr>inward_links := m'\<rparr>)" by simp
    show ?thesis using False m m' s1 s2 s3 reply_hash_run [OF n3, of c' err]
      by (intro exI [of _ m]) (simp add: accept_def st_bind_run Let_def put_node_def)
  qed
qed

section \<open>Storing\<close>

text \<open>The node an announcement leads to, and what the list of announcements loses to it.\<close>

definition next_node :: "node option \<Rightarrow> announcement \<Rightarrow> (node, handler_error) result" where
  "next_node old a =
     (if is_reset (ann_header a) then
        (case (version_from_announcement a, encoding_scheme_from_announcement a, old) of
           (None, _, _) \<Rightarrow> Panic
         | (Some v, None, None) \<Rightarrow> Err UnknownEncodingScheme
         | (Some v, sch, _) \<Rightarrow>
             Ok \<lparr>node_type = NodeType_Node, node_version = v, node_key = node_pub_key a, node_ipv6 = node_ip a,
                 node_scheme = (case sch of Some s \<Rightarrow> s | None \<Rightarrow> node_scheme (the old)),
                 inward_links = Map.empty, node_timestamp = ann_time a, node_anns = [a], state_hash = None, reset_msg = Some a\<rparr>)
      else Ok ((the old)\<lparr>node_anns := fst (retain_anns (ann_time a - AGREED_TIMEOUT) a (a # node_anns (the old)) []),
                       node_timestamp := ann_time a\<rparr>))"

definition next_peers :: "node option \<Rightarrow> announcement \<Rightarrow> peers \<Rightarrow> peers" where
  "next_peers old a p =
     (case old of
        None \<Rightarrow> p
      | Some n \<Rightarrow>
          if is_reset (ann_header a) then forget_node n p
          else drop_anns (reset_msg n) (snd (retain_anns (ann_time a - AGREED_TIMEOUT) a (a # node_anns n) [])) p)"

lemma store_ann_run:
  assumes "nodes_by_ip s (node_ip a) \<noteq> None \<or> is_reset (ann_header a)"
  shows "store_ann (version_from_announcement a) (encoding_scheme_from_announcement a) a s =
    (case next_node (nodes_by_ip s (node_ip a)) a of
       Ok n \<Rightarrow> (Ok (), put_node n (node_ip a) (s\<lparr>srv_peers := next_peers (nodes_by_ip s (node_ip a)) a (srv_peers s)\<rparr>))
     | Err e \<Rightarrow> (Err e, s)
     | Panic \<Rightarrow> (Panic, s))"
proof (cases "is_reset (ann_header a)")
  case True
  then show ?thesis
    by (cases "version_from_announcement a"; cases "encoding_scheme_from_announcement a"; cases "nodes_by_ip s (node_ip a)")
      (simp_all add: store_ann_def reset_node_def new_node_def next_node_def next_peers_def nodes_add_node_def put_node_def Let_def)
next
  case False
  then obtain n where "nodes_by_ip s (node_ip a) = Some n" using assms by auto
  with False show ?thesis
    by (simp add: store_ann_def add_announcement_def next_node_def next_peers_def put_node_def Let_def split: prod.split)
qed

lemma next_node_ok:
  assumes "next_node old a = Ok n" and "ann_ok c a" and "old \<noteq> None \<or> is_reset (ann_header a)"
    and "\<And>oldn. old = Some oldn \<Longrightarrow> node_ok c (node_ip a) oldn \<and> node_timestamp oldn \<le> ann_time a"
  shows "node_ok c (node_ip a) n" and "hd (node_anns n) = a" and "node_timestamp n = ann_time a"
proof -
  have "node_ok c (node_ip a) n \<and> hd (node_anns n) = a \<and> node_timestamp n = ann_time a"
  proof (cases "is_reset (ann_header a)")
    case True
    have t: "- AGREED_TIMEOUT \<le> 0" by (simp add: AGREED_TIMEOUT_def secs_def)
    then show ?thesis using assms(1,2) True
      by (auto simp: next_node_def node_ok_def newest_first_def needed_def Cons_eq_append_conv split: option.splits)
  next
    case False
    then obtain n' where n': "old = Some n'" using assms(3) by auto
    obtain kept dropped where r: "retain_anns (ann_time a - AGREED_TIMEOUT) a (a # node_anns n') [] = (kept, dropped)"
      by (cases "retain_anns (ann_time a - AGREED_TIMEOUT) a (a # node_anns n') []")
    show ?thesis
      using add_announcement_node [OF _ assms(2) refl _ r] assms(1) assms(4) [OF n'] False n' r
      by (auto simp: next_node_def)
  qed
  then show "node_ok c (node_ip a) n" and "hd (node_anns n) = a" and "node_timestamp n = ann_time a" by blast+
qed

lemma handle_accepted_cases:
  assumes "server_ok c s" and "ann_ok c a" and "order_ok order"
    and "handle_accepted c' order (nodes_by_ip s (node_ip a)) (version_from_announcement a) (encoding_scheme_from_announcement a) a NoError s = (r, s')"
  obtains
    (stale) n h where "nodes_by_ip s (node_ip a) = Some n" and "ann_time a < node_timestamp n"
      and "h = announcements_hash (sha512 c') (node_anns n)" and "r = Ok (h, NoError)" and "s' = put_node (n\<lparr>state_hash := Some h\<rparr>) (node_ip a) s"
  | (unknown) "nodes_by_ip s (node_ip a) = None" and "\<not> is_reset (ann_header a)" and "r = Ok (replicate 64 0, UnknownNode)" and "s' = s"
  | (no_version) "is_reset (ann_header a)" and "version_from_announcement a = None" and "r = Panic" and "s' = s"
      and "\<And>n. nodes_by_ip s (node_ip a) = Some n \<Longrightarrow> node_timestamp n \<le> ann_time a"
  | (no_scheme) "is_reset (ann_header a)" and "version_from_announcement a \<noteq> None" and "encoding_scheme_from_announcement a = None"
      and "nodes_by_ip s (node_ip a) = None" and "r = Err UnknownEncodingScheme" and "s' = s"
  | (stored) n m where "nodes_by_ip s (node_ip a) \<noteq> None \<or> is_reset (ann_header a)"
      and "next_node (nodes_by_ip s (node_ip a)) a = Ok n" and "node_ok c (node_ip a) n" and "hd (node_anns n) = a"
      and "node_timestamp n = ann_time a" and "\<And>oldn. nodes_by_ip s (node_ip a) = Some oldn \<Longrightarrow> node_timestamp oldn \<le> ann_time a"
      and "update_peers a (peers_from_announcement a) (inward_links n) = (Ok m :: (links, handler_error) result)" and "links_ok m"
      and "if bad_slot a then r = Panic
             \<and> s' = put_node (n\<lparr>inward_links := m\<rparr>) (node_ip a) (s\<lparr>srv_peers := next_peers (nodes_by_ip s (node_ip a)) a (srv_peers s)\<rparr>)
           else \<exists>m'. link_state_update1 order a m = (Ok m' :: (links, handler_error) result) \<and> links_ok m'
             \<and> r = Ok (announcements_hash (sha512 c') (node_anns n), NoError)
             \<and> s' = put_node (n\<lparr>inward_links := m', state_hash := Some (announcements_hash (sha512 c') (node_anns n))\<rparr>) (node_ip a)
                 (s\<lparr>srv_peers := publish_known a n (next_peers (nodes_by_ip s (node_ip a)) a (srv_peers s))\<rparr>)"
proof -
  let ?old = "nodes_by_ip s (node_ip a)"
  show thesis
  proof (cases "\<exists>n. ?old = Some n \<and> ann_time a < node_timestamp n")
    case True
    then obtain n where n: "?old = Some n" "ann_time a < node_timestamp n" by blast
    then show thesis using assms(4) reply_hash_run [OF n(1), of c' NoError] True by (intro stale [OF n refl]) (auto simp: handle_accepted_eq)
  next
    case fresh: False
    then have time: "node_timestamp n \<le> ann_time a" if "?old = Some n" for n using that by (auto simp: not_less)
    show thesis
    proof (cases "?old = None \<and> \<not> is_reset (ann_header a)")
      case True
      then show thesis using assms(4) fresh
        by (intro unknown) (auto simp: handle_accepted_eq reply_hash_def node_announcement_hash_def)
    next
      case False
      then have known: "?old \<noteq> None \<or> is_reset (ann_header a)" by auto
      have run: "st_bind (store_ann (version_from_announcement a) (encoding_scheme_from_announcement a) a) (\<lambda>_. accept c' order a NoError) s = (r, s')"
        using assms(4) fresh False unfolding handle_accepted_eq by auto
      show thesis
      proof (cases "next_node ?old a")
        case (Ok n)
        have old: "node_ok c (node_ip a) o' \<and> node_timestamp o' \<le> ann_time a" if "?old = Some o'" for o'
          using that time table_okD server_okD(1) [OF assms(1)] by blast
        note n = next_node_ok [OF Ok assms(2) known old]
        let ?s = "put_node n (node_ip a) (s\<lparr>srv_peers := next_peers ?old a (srv_peers s)\<rparr>)"
        have links: "links_ok (inward_links n)" using n(1) by (simp add: node_ok_def)
        have acc: "accept c' order a NoError ?s = (r, s')" using run store_ann_run [OF known] Ok by (simp add: st_bind_run)
        have n': "nodes_by_ip ?s (node_ip a) = Some n" by simp
        from accept_run [OF n' links assms(2,3), of c' NoError] acc obtain m where
          "update_peers a (peers_from_announcement a) (inward_links n) = (Ok m :: (links, handler_error) result)" "links_ok m"
          "if bad_slot a then r = Panic \<and> s' = put_node (n\<lparr>inward_links := m\<rparr>) (node_ip a) ?s
           else \<exists>m'. link_state_update1 order a m = (Ok m' :: (links, handler_error) result) \<and> links_ok m'
             \<and> r = Ok (announcements_hash (sha512 c') (node_anns n), NoError)
             \<and> s' = put_node (n\<lparr>inward_links := m', state_hash := Some (announcements_hash (sha512 c') (node_anns n))\<rparr>) (node_ip a)
                 (?s\<lparr>srv_peers := publish_known a n (srv_peers ?s)\<rparr>)"
          by (auto simp: Let_def split: if_splits)
        then show thesis using n known Ok time by (intro stored) (auto simp: put_node_def split: if_splits)
      next
        case (Err e)
        then have "r = Err e" "s' = s" using run store_ann_run [OF known] by (simp_all add: st_bind_run)
        then show thesis using Err known by (intro no_scheme) (auto simp: next_node_def split: if_splits option.splits)
      next
        case Panic
        then have "r = Panic" "s' = s" using run store_ann_run [OF known] by (simp_all add: st_bind_run)
        then show thesis using Panic known time by (intro no_version) (auto simp: next_node_def split: if_splits option.splits)
      qed
    qed
  qed
qed

section \<open>Effects\<close>

definition sans_hash :: "node \<Rightarrow> node" where
  "sans_hash n = n\<lparr>state_hash := None\<rparr>"

definition same_nodes :: "server \<Rightarrow> server \<Rightarrow> bool" where
  "same_nodes s s' \<longleftrightarrow> (\<forall>ip. map_option sans_hash (nodes_by_ip s' ip) = map_option sans_hash (nodes_by_ip s ip))"

lemma same_nodes_hash: "nodes_by_ip s ip = Some n \<Longrightarrow> same_nodes s (put_node (n\<lparr>state_hash := h\<rparr>) ip (s\<lparr>current_node := x\<rparr>))"
  by (simp add: same_nodes_def sans_hash_def)

lemma same_nodes_current [simp]: "same_nodes s (s\<lparr>current_node := x\<rparr>)" "same_nodes s s"
  by (simp_all add: same_nodes_def)

text \<open>The outcomes of handling a message.\<close>

lemma handle_cases:
  assumes "server_ok c s" and "order_ok order" and "handle_announce_impl c order now bs from_subnode s = (r, s')"
  obtains
    (read_panic) "read_announcement c bs = Panic" and "r = Panic" and "s' = s"
  | (unread) "read_announcement c bs = Ok None" and "s' = s"
      and "r = (if from_subnode then Err NoSelfNode else Ok (replicate 64 0, FailedParseOrValidate))"
  | (no_self) a where "read_announcement c bs = Ok (Some a)" and "from_subnode" and "self_node s = None" and "r = Err NoSelfNode" and "s' = see_node a s"
  | (refused) a h where "read_announcement c bs = Ok (Some a)" and "\<not> (from_subnode \<and> self_node s = None)"
      and "verdict now from_subnode (self_node s) (nodes_by_ip s (node_ip a)) a \<noteq> NoError"
      and "r = Ok (h, verdict now from_subnode (self_node s) (nodes_by_ip s (node_ip a)) a)" and "same_nodes s s'" and "srv_peers s' = srv_peers s"
      and "\<And>ip. ip \<noteq> node_ip a \<Longrightarrow> nodes_by_ip s' ip = nodes_by_ip s ip"
  | (accepted) a where "read_announcement c bs = Ok (Some a)" and "\<not> (from_subnode \<and> self_node s = None)"
      and "verdict now from_subnode (self_node s) (nodes_by_ip s (node_ip a)) a = NoError" and "ann_ok c a" and "binary a = bs"
      and "handle_accepted c order (nodes_by_ip s (node_ip a)) (version_from_announcement a) (encoding_scheme_from_announcement a) a NoError
        (see_node a s) = (r, s')"
proof (cases "read_announcement c bs")
  case Panic
  then show thesis using assms(3) by (intro read_panic) (simp_all add: handle_announce_impl_def)
next
  case (Err e)
  then show thesis by (simp add: read_announcement_no_err)
next
  case (Ok x)
  show thesis
  proof (cases x)
    case None
    then show thesis using assms(3) Ok by (intro unread) (auto simp: handle_unread split: if_splits)
  next
    case (Some a)
    have r: "read_announcement c bs = Ok (Some a)" using Ok Some by simp
    let ?old = "nodes_by_ip s (node_ip a)" and ?v = "verdict now from_subnode (self_node s) (nodes_by_ip s (node_ip a)) a"
    show thesis
    proof (cases "from_subnode \<and> self_node s = None")
      case True
      then show thesis using assms(3) r by (intro no_self [OF r]) (auto simp: handle_read [OF r])
    next
      case known: False
      show thesis
      proof (cases "?v = NoError")
        case True
        then show thesis using assms(3) known read_announcement_ok [OF r]
          by (intro accepted [OF r known]) (simp_all only: handle_read [OF r] Let_def if_True if_False simp_thms)
      next
        case False
        then have "reply_hash c (if ?old = None then None else Some (node_ip a)) ?v (see_node a s) = (r, s')"
          using assms(3) known by (simp only: handle_read [OF r] Let_def if_False)
        moreover have "\<exists>h. fst (reply_hash c ip v (see_node a s)) = Ok (h, v) \<and> same_nodes s (snd (reply_hash c ip v (see_node a s)))
            \<and> srv_peers (snd (reply_hash c ip v (see_node a s))) = srv_peers s
            \<and> (\<forall>i. ip \<noteq> Some i \<longrightarrow> nodes_by_ip (snd (reply_hash c ip v (see_node a s))) i = nodes_by_ip s i)" for ip v
          by (cases ip)
            (auto simp: reply_hash_def node_announcement_hash_def Let_def same_nodes_def on_node_def sans_hash_def split: option.split)
        from this [of "if ?old = None then None else Some (node_ip a)" ?v] obtain h where
          "fst (reply_hash c (if ?old = None then None else Some (node_ip a)) ?v (see_node a s)) = Ok (h, ?v)"
          "same_nodes s (snd (reply_hash c (if ?old = None then None else Some (node_ip a)) ?v (see_node a s)))"
          "srv_peers (snd (reply_hash c (if ?old = None then None else Some (node_ip a)) ?v (see_node a s))) = srv_peers s"
          "\<And>i. (if ?old = None then None else Some (node_ip a)) \<noteq> Some i \<Longrightarrow>
             nodes_by_ip (snd (reply_hash c (if ?old = None then None else Some (node_ip a)) ?v (see_node a s))) i = nodes_by_ip s i"
          by blast
        ultimately show thesis by (intro refused [OF r known False, of h]) simp_all
      qed
    qed
  qed
qed

lemma refused_ignored:
  assumes "server_ok c s" and "order_ok order" and "handle_announce_impl c order now bs from_subnode s = (r, s')"
    and "r \<noteq> Panic" and "\<And>h. r \<noteq> Ok (h, NoError)"
  shows "same_nodes s s' \<and> srv_peers s' = srv_peers s"
  using assms(1-3)
proof (cases rule: handle_cases)
  case (accepted a)
  have s: "server_ok c (see_node a s)" using assms(1) by simp
  have "handle_accepted c order (nodes_by_ip (see_node a s) (node_ip a)) (version_from_announcement a)
      (encoding_scheme_from_announcement a) a NoError (see_node a s) = (r, s')" using accepted(6) by simp
  with s accepted(4) assms(2) show ?thesis
  proof (cases rule: handle_accepted_cases)
    case (stored n m)
    then show ?thesis using assms(4,5) by (cases "bad_slot a") auto
  qed (use assms(4,5) in auto)
qed (use assms(4,5) in auto)

lemma node_moves_forward:
  assumes "server_ok c s" and "order_ok order" and "nodes_by_ip s ip = Some n"
  shows "\<exists>n'. nodes_by_ip (snd (handle_announce_impl c order now bs from_subnode s)) ip = Some n' \<and> node_timestamp n \<le> node_timestamp n'
     \<and> ((\<forall>a. read_announcement c bs = Ok (Some a) \<longrightarrow> node_ip a \<noteq> ip) \<longrightarrow> n' = n)"
proof -
  obtain r s' where h: "handle_announce_impl c order now bs from_subnode s = (r, s')" by fastforce
  let ?P = "\<exists>n'. nodes_by_ip s' ip = Some n' \<and> node_timestamp n \<le> node_timestamp n'
     \<and> ((\<forall>a. read_announcement c bs = Ok (Some a) \<longrightarrow> node_ip a \<noteq> ip) \<longrightarrow> n' = n)"
  have "?P"
    using assms(1,2) h
  proof (cases rule: handle_cases)
    case (accepted a)
    have s: "server_ok c (see_node a s)" using assms(1) by simp
    have "handle_accepted c order (nodes_by_ip (see_node a s) (node_ip a)) (version_from_announcement a)
        (encoding_scheme_from_announcement a) a NoError (see_node a s) = (r, s')" using accepted(6) by simp
    with s accepted(4) assms(2) show ?thesis
    proof (cases rule: handle_accepted_cases)
      case (stored n0 m)
      then have "node_timestamp n \<le> node_timestamp n0" if "node_ip a = ip" using assms(3) that by simp
      then show ?thesis using stored(9) assms(3) accepted(1) by (cases "bad_slot a"; cases "node_ip a = ip") auto
    qed (use assms(3) accepted(1) in auto)
  next
    case (refused a h)
    have "map_option sans_hash (nodes_by_ip s' ip) = map_option sans_hash (nodes_by_ip s ip)" using refused(5) by (simp add: same_nodes_def)
    then obtain n' where n': "nodes_by_ip s' ip = Some n'" "sans_hash n' = sans_hash n" using assms(3) by (cases "nodes_by_ip s' ip") auto
    have "node_timestamp (sans_hash n') = node_timestamp (sans_hash n)" using n'(2) by simp
    then have "node_timestamp n' = node_timestamp n" by (simp add: sans_hash_def)
    moreover have "n' = n" if "node_ip a \<noteq> ip" using refused(7) [of ip] that n'(1) assms(3) by simp
    ultimately show ?thesis using n'(1) refused(1) by auto
  qed (use assms(3) in auto)
  then show ?thesis using h by simp
qed

lemma served_after_publish: "peers_ok p \<Longrightarrow> a \<in> set (node_anns n) \<Longrightarrow> served (publish_known a n p) (ann_hash a) \<noteq> None"
  by (auto simp: publish_known_def served_add peers_ok_def ann_list_ok_def) (auto simp: served_def)

lemma next_peers_ok: "peers_ok p \<Longrightarrow> peers_ok (next_peers old a p)"
  by (simp add: next_peers_def forget_node_ok drop_anns_ok split: option.split)

lemma next_node_in_force:
  assumes "next_node old a = Ok n"
  shows "in_force (node_anns n) k = (if is_reset (ann_header a) then in_force [a] k
     else in_force (filter (fresh (ann_time a - AGREED_TIMEOUT)) (a # node_anns (the old))) k)"
  using assms retain_anns_in_force [of "[]" k "ann_time a - AGREED_TIMEOUT" a "a # node_anns (the old)"]
  by (auto simp: next_node_def split: if_splits option.splits)

text \<open>When a message is accepted, and when the handler panics on it.\<close>

definition storable :: "node option \<Rightarrow> announcement \<Rightarrow> bool" where
  "storable old a \<longleftrightarrow> (\<forall>n. old = Some n \<longrightarrow> node_timestamp n \<le> ann_time a)
     \<and> (if is_reset (ann_header a)
        then version_from_announcement a \<noteq> None \<and> (encoding_scheme_from_announcement a \<noteq> None \<or> old \<noteq> None)
        else old \<noteq> None)"

definition crashes :: "node option \<Rightarrow> announcement \<Rightarrow> bool" where
  "crashes old a \<longleftrightarrow> (storable old a \<and> bad_slot a)
     \<or> (is_reset (ann_header a) \<and> version_from_announcement a = None \<and> (\<forall>n. old = Some n \<longrightarrow> node_timestamp n \<le> ann_time a))"

lemma known_anns_ok: "table_ok c t \<Longrightarrow> a \<in> known_anns t \<Longrightarrow> ann_ok c a"
proof -
  assume t: "table_ok c t" and "a \<in> known_anns t"
  then obtain ip where "a \<in> node_known (t ip)" by (auto simp: known_anns_def)
  moreover from this obtain n where n: "t ip = Some n" by (cases "t ip") auto
  ultimately have "a \<in> set (node_anns n) \<or> reset_msg n = Some a" by auto
  then show ?thesis using table_okD [OF t n] by (auto simp: node_ok_def)
qed

lemma accepted_stored:
  assumes "server_ok c s" and "order_ok order" and "\<And>b. sha512 c b \<noteq> []" and "read_announcement c bs = Ok (Some a)"
    and "from_subnode \<Longrightarrow> self_node s \<noteq> None" and "verdict now from_subnode (self_node s) (nodes_by_ip s (node_ip a)) a = NoError"
    and "storable (nodes_by_ip s (node_ip a)) a" and "\<not> bad_slot a"
  shows "\<exists>n s'. handle_announce_impl c order now bs from_subnode s = (Ok (announcements_hash (sha512 c) (node_anns n), NoError), s')
    \<and> nodes_by_ip s' (node_ip a) = Some n \<and> hd (node_anns n) = a \<and> state_hash n = Some (announcements_hash (sha512 c) (node_anns n))
    \<and> (\<forall>k. in_force (node_anns n) k = (if is_reset (ann_header a) then in_force [a] k
         else in_force (filter (fresh (ann_time a - AGREED_TIMEOUT)) (a # node_anns (the (nodes_by_ip s (node_ip a))))) k))
    \<and> (\<exists>b. served (srv_peers s') (ann_hash a) = Some b \<and> sha512 c b = sha512 c bs)"
proof -
  obtain r s' where h: "handle_announce_impl c order now bs from_subnode s = (r, s')" by fastforce
  have s: "server_ok c (see_node a s)" and a: "ann_ok c a" "binary a = bs" using assms(1) read_announcement_ok [OF assms(4)] by simp_all
  have "handle_accepted c order (nodes_by_ip (see_node a s) (node_ip a)) (version_from_announcement a)
      (encoding_scheme_from_announcement a) a NoError (see_node a s) = (r, s')"
    using h assms(5) unfolding handle_read [OF assms(4)] Let_def assms(6) by (auto split: if_splits)
  with s a(1) assms(2) show ?thesis
  proof (cases rule: handle_accepted_cases)
    case (stored n m)
    obtain m' where m': "r = Ok (announcements_hash (sha512 c) (node_anns n), NoError)"
      "s' = put_node (n\<lparr>inward_links := m', state_hash := Some (announcements_hash (sha512 c) (node_anns n))\<rparr>) (node_ip a)
         ((see_node a s)\<lparr>srv_peers := publish_known a n (next_peers (nodes_by_ip s (node_ip a)) a (srv_peers s))\<rparr>)"
      using stored(9) assms(8) by auto
    have "a \<in> set (node_anns n)" using stored(3,4) hd_in_set [of "node_anns n"] by (simp add: node_ok_def)
    then have "served (srv_peers s') (ann_hash a) \<noteq> None"
      using m'(2) served_after_publish next_peers_ok [OF server_okD(2) [OF assms(1)]] by simp
    then obtain b where b: "served (srv_peers s') (ann_hash a) = Some b" by blast
    have "server_ok c s'" using handle_announce_ok [OF assms(1-3), of now bs from_subnode] h by simp
    then obtain a' where "a' \<in> known_anns (nodes_by_ip s')" "ann_hash a' = ann_hash a" "binary a' = b"
      using server_okD(3) [OF \<open>server_ok c s'\<close>] b unfolding serves_only_def by blast
    moreover have "ann_ok c a'" if "a' \<in> known_anns (nodes_by_ip s')" for a'
      using known_anns_ok [OF server_okD(1) [OF \<open>server_ok c s'\<close>] that] .
    ultimately have "sha512 c b = sha512 c bs" using a by (simp add: ann_ok_def)
    then show ?thesis using h m' stored(4) b next_node_in_force [OF stored(2)]
      by (intro exI [of _ "n\<lparr>inward_links := m', state_hash := Some (announcements_hash (sha512 c) (node_anns n))\<rparr>"] exI [of _ s']) simp
  qed (use assms(7) in \<open>auto simp: storable_def\<close>)
qed

lemma handler_panics:
  assumes "server_ok c s" and "order_ok order"
  shows "fst (handle_announce_impl c order now bs from_subnode s) = Panic \<longleftrightarrow>
    read_announcement c bs = Panic
    \<or> (\<exists>a. read_announcement c bs = Ok (Some a) \<and> (from_subnode \<longrightarrow> self_node s \<noteq> None)
         \<and> verdict now from_subnode (self_node s) (nodes_by_ip s (node_ip a)) a = NoError \<and> crashes (nodes_by_ip s (node_ip a)) a)"
proof -
  obtain r s' where h: "handle_announce_impl c order now bs from_subnode s = (r, s')" by fastforce
  have "r = Panic \<longleftrightarrow> read_announcement c bs = Panic
    \<or> (\<exists>a. read_announcement c bs = Ok (Some a) \<and> (from_subnode \<longrightarrow> self_node s \<noteq> None)
         \<and> verdict now from_subnode (self_node s) (nodes_by_ip s (node_ip a)) a = NoError \<and> crashes (nodes_by_ip s (node_ip a)) a)"
    using assms h
  proof (cases rule: handle_cases)
    case (accepted a)
    have s: "server_ok c (see_node a s)" using assms(1) by simp
    have "handle_accepted c order (nodes_by_ip (see_node a s) (node_ip a)) (version_from_announcement a)
        (encoding_scheme_from_announcement a) a NoError (see_node a s) = (r, s')" using accepted(6) by simp
    with s accepted(4) assms(2) have "r = Panic \<longleftrightarrow> crashes (nodes_by_ip s (node_ip a)) a"
    proof (cases rule: handle_accepted_cases)
      case (stored n m)
      have "version_from_announcement a \<noteq> None" "encoding_scheme_from_announcement a \<noteq> None \<or> nodes_by_ip s (node_ip a) \<noteq> None"
        if "is_reset (ann_header a)"
        using stored(2) that by (auto simp: next_node_def split: option.splits)
      then have "storable (nodes_by_ip s (node_ip a)) a" using stored(1,6) by (auto simp: storable_def)
      moreover have "r = Panic \<longleftrightarrow> bad_slot a" using stored(9) by (cases "bad_slot a") auto
      ultimately show ?thesis using stored(2) by (auto simp: crashes_def next_node_def split: option.splits if_splits)
    qed (auto simp: crashes_def storable_def)
    then show ?thesis using accepted(1-3) by auto
  qed auto
  then show ?thesis using h by simp
qed

section \<open>A supernode for examples\<close>

definition demo_order :: key_order where
  "demo_order S = sorted_list_of_set S"

lemma demo_order_ok: "order_ok demo_order"
  by (simp add: order_ok_def demo_order_def)

definition demo_crypto :: "unit crypto" where
  "demo_crypto = \<lparr>sig_from_bytes = (\<lambda>_. Some ()), verify_detached = (\<lambda>_ _ _. True), sha512 = (\<lambda>_. replicate 64 0xFC),
     pk_to_curve25519 = Some, hex_encode = lower_hex\<rparr>"

definition demo_packet :: "u64 \<Rightarrow> bytes \<Rightarrow> bytes" where
  "demo_packet stamp ents = replicate 96 0 @ replicate 16 0xFC @ to_be_bytes stamp @ ents"

definition demo_ip :: ip6 where "demo_ip = replicate 16 0xFC"

definition demo_ann :: "u64 \<Rightarrow> bytes \<Rightarrow> entity list \<Rightarrow> announcement" where
  "demo_ann stamp ents es =
     \<lparr>ann_header = \<lparr>signature = lower_hex (replicate 64 0), pub_signing_key = lower_hex (replicate 32 0), snode_ip = demo_ip,
         ann_version = word_of_nat (unat stamp) AND 7, is_reset = (drop_bit 3 (word_of_nat (unat stamp) :: u8) AND 1 = 1), timestamp = drop_bit 4 stamp\<rparr>,
      entities = es, node_pub_key = replicate 32 0, node_ip = demo_ip, binary = demo_packet stamp ents, ann_hash = replicate 64 0xFC\<rparr>"

lemma demo_read:
  assumes "parse_entities lower_hex ents = Ok es"
  shows "read_announcement demo_crypto (demo_packet stamp ents) = Ok (Some (demo_ann stamp ents es))"
proof -
  let ?p = "demo_packet stamp ents"
  have h: "get_header_bytes ?p = demo_packet stamp []" "length (demo_packet stamp []) = HEADER_SIZE"
    by (simp_all add: get_header_bytes_def demo_packet_def ann_sizes)
  have "ip6_try_from_bytes (replicate 16 0xFC) = Ok (replicate 16 0xFC)"
    by (simp add: ip6_try_from_bytes_def IP6_FIRST_BYTE_def)
  then have "parse_header lower_hex (get_header_bytes ?p) = Ok (ann_header (demo_ann stamp ents es))"
    unfolding h(1) parse_header_eq [OF h(2)]
    by (simp add: demo_packet_def demo_ann_def Let_def from_to_be_bytes ann_sizes demo_ip_def)
  moreover have "parse_sender_auth_data (\<lambda>_. replicate 64 0xFC) Some (get_pub_key_bytes ?p) = Ok (replicate 32 0, replicate 16 0xFC)"
    by (simp add: parse_sender_auth_data_def get_pub_key_bytes_def get_signed_data_def demo_packet_def ann_sizes ip6_try_from_key_def
        ip6_try_from_bytes_def IP6_FIRST_BYTE_def Let_def)
  moreover have "get_entities_bytes ?p = ents" by (simp add: get_entities_bytes_def demo_packet_def ann_sizes)
  moreover have "packet_try_new ?p = Ok ?p" by (simp add: packet_try_new_def demo_packet_def ann_sizes)
  moreover have "packet_check (sig_from_bytes demo_crypto) (verify_detached demo_crypto) ?p = Ok ()"
    by (simp add: packet_check_def demo_crypto_def get_signature_bytes_def get_signed_data_def get_pub_key_bytes_def demo_packet_def ann_sizes)
  ultimately show ?thesis using assms
    by (simp add: read_announcement_def packet_parse_def parser_parse_def demo_crypto_def demo_ann_def demo_ip_def)
qed

lemma demo_sha512: "sha512 demo_crypto b \<noteq> []"
  by (simp add: demo_crypto_def)

text \<open>Entities: protocol version 18, and a version together with the 4 bit scheme.\<close>

lemma demo_version: "parse_entities lower_hex [4, 2, 0, 18] = Ok [NodeProtocolVersion 18]"
  using parse_entities_items [of "[Item 2 [0, 18]]" lower_hex "[]"] u16.dec_enc [OF TrueI, of 18 "[]"]
  by (simp add: parse_entities_def parse_entity_def parse_version_def reader_read_def to_be_bytes_def)


lemma demo_version_scheme: "parse_entities lower_hex [4, 2, 0, 18, 4, 0, 128, 0] = Ok [NodeProtocolVersion 18, EncodingSchemeEntity ''8000'' F4]"
proof -
  have "deserialize_scheme [128, 0] = Ok F4" by code_simp
  moreover have "lower_hex [128, 0] = ''8000''" by code_simp
  ultimately show ?thesis
    using parse_entities_items [of "[Item 2 [0, 18], Item 0 [128, 0]]" lower_hex "[]"] u16.dec_enc [OF TrueI, of 18 "[]"]
    by (simp add: parse_entities_def parse_entity_def parse_version_def parse_encoding_scheme_def reader_read_def to_be_bytes_def)
qed

text \<open>A reset announcement of 2000 seconds after the epoch, and the same time without the reset flag.\<close>

abbreviation reset_packet :: bytes where "reset_packet \<equiv> demo_packet 32000008 [4, 2, 0, 18, 4, 0, 128, 0]"
abbreviation reset_ann :: announcement where
  "reset_ann \<equiv> demo_ann 32000008 [4, 2, 0, 18, 4, 0, 128, 0] [NodeProtocolVersion 18, EncodingSchemeEntity ''8000'' F4]"
abbreviation plain_packet :: bytes where "plain_packet \<equiv> demo_packet 32000000 [4, 2, 0, 18]"

lemma demo_flags:
  "is_reset (ann_header reset_ann)" "timestamp (ann_header reset_ann) = 2000000" "node_ip (demo_ann w e es) = demo_ip" "entities (demo_ann w e es) = es"
  "\<not> is_reset (ann_header (demo_ann 32000000 e es))" "is_reset (ann_header (demo_ann 32000008 e es))" "timestamp (ann_header (demo_ann 32000000 e es)) = 2000000"
  by (simp_all add: demo_ann_def)

lemma reset_ann_storable: "storable None reset_ann" "\<not> bad_slot reset_ann"
  by (simp_all add: storable_def bad_slot_def demo_flags version_from_announcement_def encoding_scheme_from_announcement_def time_slot_def)

lemma demo_verdict: "verdict now False None old a = NoError"
  by (simp add: verdict_def)

definition demo_server :: server where
  "demo_server = snd (handle_announce_impl demo_crypto demo_order 0 reset_packet False (server_new (peers_new 0)))"

lemma demo_server_ok: "server_ok demo_crypto demo_server"
  unfolding demo_server_def by (rule handle_announce_ok [OF server_new_ok demo_order_ok demo_sha512])

lemma demo_accepts:
  "storable (nodes_by_ip (server_new (peers_new 0)) (node_ip reset_ann)) reset_ann"
  "verdict now False (self_node (server_new (peers_new 0))) (nodes_by_ip (server_new (peers_new 0)) (node_ip reset_ann)) reset_ann = NoError"
  using reset_ann_storable(1) demo_verdict by (simp_all add: server_new_def)

lemma demo_server_node: "\<exists>n. nodes_by_ip demo_server demo_ip = Some n"
proof -
  from accepted_stored [OF server_new_ok demo_order_ok demo_sha512 demo_read [OF demo_version_scheme] _ demo_accepts(2,1) reset_ann_storable(2)]
  obtain n s' where "handle_announce_impl demo_crypto demo_order 0 reset_packet False (server_new (peers_new 0))
      = (Ok (announcements_hash (sha512 demo_crypto) (node_anns n), NoError), s')" "nodes_by_ip s' (node_ip reset_ann) = Some n"
    by blast
  then show ?thesis by (simp add: demo_server_def demo_flags)
qed

section \<open>Properties\<close>

text \<open>C1: every reachable state of the supernode satisfies the invariant: each node of the table has its
  announcements newest first, all from its address and within the timeout of the newest, none but the
  newest fully announced again by newer ones, with a well-formed link table; and peers are served
  only announcements that some node of the table is described by.\<close>

theorem supernode_invariant:
  assumes "server_reachable c order rd wr s" and "order_ok order" and "\<And>b. sha512 c b \<noteq> []"
  shows "server_ok c s"
  using assms by (rule server_reachable_ok)

lemma supernode_invariant_witness:
  "server_ok demo_crypto (server_step demo_crypto demo_order (\<lambda>_. Err []) (\<lambda>_. Err [])
     (server_step demo_crypto demo_order (\<lambda>_. Err []) (\<lambda>_. Err []) (server_new (peers_new 0)) (FromRouter 0 reset_packet)) (CleanTable 0))"
  by (rule supernode_invariant [where rd = "\<lambda>_. Err []" and wr = "\<lambda>_. Err []", OF _ demo_order_ok demo_sha512])
    (intro server_reachable.intros; simp)

text \<open>C6: a message that is refused, with an error in the reply or with an error of the handler, changes
  neither the table, but for the remembered state hash of the sender, nor anything of the peers.\<close>

theorem refused_announcement_ignored:
  assumes "server_ok c s" and "order_ok order" and "handle_announce_impl c order now bs from_subnode s = (r, s')"
    and "r \<noteq> Panic" and "\<And>h. r \<noteq> Ok (h, NoError)"
  shows "same_nodes s s' \<and> srv_peers s' = srv_peers s"
  using assms by (rule refused_ignored)

lemma refused_announcement_ignored_witness:
  "\<exists>s'. handle_announce_impl demo_crypto demo_order 0 plain_packet False (server_new (peers_new 0)) = (Ok (replicate 64 0, UnknownNode), s')
     \<and> same_nodes (server_new (peers_new 0)) s'"
proof -
  obtain r s' where h: "handle_announce_impl demo_crypto demo_order 0 plain_packet False (server_new (peers_new 0)) = (r, s')" by fastforce
  then have "r = Ok (replicate 64 0, UnknownNode)"
    unfolding handle_read [OF demo_read [OF demo_version]] Let_def
    by (simp add: server_new_def demo_verdict handle_accepted_eq demo_flags reply_hash_def node_announcement_hash_def)
  with h refused_announcement_ignored [OF server_new_ok demo_order_ok h] show ?thesis by simp
qed

text \<open>C7: whatever a message does, even when the handler panics, no node leaves the table, no node's
  timestamp goes back, and only the node that the message is from can change.\<close>

theorem node_time_never_goes_back:
  assumes "server_ok c s" and "order_ok order" and "nodes_by_ip s ip = Some n"
  shows "\<exists>n'. nodes_by_ip (snd (handle_announce_impl c order now bs from_subnode s)) ip = Some n' \<and> node_timestamp n \<le> node_timestamp n'
     \<and> ((\<forall>a. read_announcement c bs = Ok (Some a) \<longrightarrow> node_ip a \<noteq> ip) \<longrightarrow> n' = n)"
  using assms by (rule node_moves_forward)

lemma node_time_never_goes_back_witness:
  "\<exists>n n'. nodes_by_ip demo_server demo_ip = Some n
     \<and> nodes_by_ip (snd (handle_announce_impl demo_crypto demo_order 0 plain_packet True demo_server)) demo_ip = Some n'
     \<and> node_timestamp n \<le> node_timestamp n'"
  using demo_server_node node_time_never_goes_back [OF demo_server_ok demo_order_ok] by blast

text \<open>C2: an accepted announcement of a known node, or an accepted reset with version and scheme, is
  stored as the newest one of its node and served to peers, and the reply is the hash over the
  announcements kept. What is in force is unchanged by dropping the others: for every key, the
  newest entity among the announcements kept is the newest among all those not timed out.\<close>

theorem accepted_announcement_stored:
  assumes "server_ok c s" and "order_ok order" and "\<And>b. sha512 c b \<noteq> []" and "read_announcement c bs = Ok (Some a)"
    and "from_subnode \<Longrightarrow> self_node s \<noteq> None" and "verdict now from_subnode (self_node s) (nodes_by_ip s (node_ip a)) a = NoError"
    and "storable (nodes_by_ip s (node_ip a)) a" and "\<not> bad_slot a"
  shows "\<exists>n s'. handle_announce_impl c order now bs from_subnode s = (Ok (announcements_hash (sha512 c) (node_anns n), NoError), s')
    \<and> nodes_by_ip s' (node_ip a) = Some n \<and> hd (node_anns n) = a \<and> state_hash n = Some (announcements_hash (sha512 c) (node_anns n))
    \<and> (\<forall>k. in_force (node_anns n) k = (if is_reset (ann_header a) then in_force [a] k
         else in_force (filter (fresh (ann_time a - AGREED_TIMEOUT)) (a # node_anns (the (nodes_by_ip s (node_ip a))))) k))
    \<and> (\<exists>b. served (srv_peers s') (ann_hash a) = Some b \<and> sha512 c b = sha512 c bs)"
  using assms by (rule accepted_stored)

lemma accepted_announcement_stored_witness:
  "\<exists>n s'. snd (handle_announce_impl demo_crypto demo_order 0 reset_packet False (server_new (peers_new 0))) = s'
     \<and> nodes_by_ip s' demo_ip = Some n \<and> hd (node_anns n) = reset_ann"
proof -
  from accepted_announcement_stored [OF server_new_ok demo_order_ok demo_sha512 demo_read [OF demo_version_scheme] _ demo_accepts(2,1) reset_ann_storable(2)]
  obtain n s' where "handle_announce_impl demo_crypto demo_order 0 reset_packet False (server_new (peers_new 0))
      = (Ok (announcements_hash (sha512 demo_crypto) (node_anns n), NoError), s')"
    "nodes_by_ip s' (node_ip reset_ann) = Some n" "hd (node_anns n) = reset_ann"
    by blast
  then show ?thesis by (simp add: demo_flags)
qed

text \<open>C8: the messages that make the handler panic are exactly those whose encoding scheme makes the
  parser panic and those accepted ones that are a reset without a version or are dated within the
  first twenty minutes of 1970. Each of them can come from a peer.\<close>

theorem handler_panics_iff:
  assumes "server_ok c s" and "order_ok order"
  shows "fst (handle_announce_impl c order now bs from_subnode s) = Panic \<longleftrightarrow>
    read_announcement c bs = Panic
    \<or> (\<exists>a. read_announcement c bs = Ok (Some a) \<and> (from_subnode \<longrightarrow> self_node s \<noteq> None)
         \<and> verdict now from_subnode (self_node s) (nodes_by_ip s (node_ip a)) a = NoError \<and> crashes (nodes_by_ip s (node_ip a)) a)"
  using assms by (rule handler_panics)

lemma handler_panics_iff_witness:
  "fst (handle_announce_impl demo_crypto demo_order 0 (demo_packet 32000008 []) False (server_new (peers_new 0))) = Panic"
proof -
  have e: "parse_entities lower_hex [] = Ok []" using parse_entities_items [of "[]" lower_hex "[]"] by (simp add: parse_entities_def)
  have "crashes (nodes_by_ip (server_new (peers_new 0)) (node_ip (demo_ann 32000008 [] []))) (demo_ann 32000008 [] [])"
    by (simp add: crashes_def demo_flags version_from_announcement_def server_new_def)
  then show ?thesis
    unfolding handler_panics_iff [OF server_new_ok demo_order_ok]
    using demo_read [OF e] demo_verdict by (intro disjI2 exI [of _ "demo_ann 32000008 [] []"]) (simp add: server_new_def)
qed

end
