(* ===== verification/Splice.thy ===== *)
theory Splice
  imports Labels Encoding
begin

text \<open>
  \<^verbatim>\<open>cjdns-core/src/splice.rs\<close> and \<^verbatim>\<open>pathhop.rs\<close>: composition of routing labels. Over the
  bit-path abstraction of \<open>Labels\<close>, splicing is concatenation in the order of travel,
  \<open>routes_through\<close> is the prefix order and \<open>unsplice\<close> drops that prefix. The error that carries a
  label's number as text has the text.
\<close>

datatype splice_error =
    LabelTooLong
  | NotEnoughArguments
  | BadArgument
  | CannotUnsplice
  | CannotFindForm
  | CannotReencode
  | RoutingLabelTryNewFailed string
  | RoutesThroughFailed
  | HighestSetBitIsBroken

datatype 'l path_hop = PathHop
  (label_p: "'l routing_label option")
  (label_n: "'l routing_label option")
  (hop_scheme: encoding_scheme)

section \<open>Splicing\<close>

definition label_highest_set_bit :: "'l::len word routing_label \<Rightarrow> (nat, 'e) result" where
  "label_highest_set_bit label = unwrap_opt (highest_set_bit (bits label))"

fun splice_loop :: "'l::len word \<Rightarrow> 'l word routing_label list \<Rightarrow> ('l word, splice_error) result" where
  "splice_loop result_bits [] = Ok result_bits"
| "splice_loop result_bits (addon # addons) =
     and_then (label_highest_set_bit addon) (\<lambda>addon_bitlen.
     and_then (unwrap_opt (highest_set_bit result_bits)) (\<lambda>result_hsb.
     if result_hsb + addon_bitlen > max_payload_bits TYPE('l) - 1 then Err LabelTooLong
     else and_then (shl_chk (result_bits XOR 1) addon_bitlen) (\<lambda>shifted.
          splice_loop (shifted XOR bits addon) addons)))"

definition label_of_bits :: "'l::len word \<Rightarrow> ('l word routing_label, splice_error) result" where
  "label_of_bits b = ok_or (label_try_new b) (RoutingLabelTryNewFailed (dec_string (unat b)))"

definition splice :: "'l::len word routing_label list \<Rightarrow> ('l word routing_label, splice_error) result" where
  "splice labels =
     (if length labels < 2 then Err NotEnoughArguments
      else and_then (splice_loop (bits (labels ! 0)) (tl labels)) label_of_bits)"

section \<open>Forms and directors of a label\<close>

fun get_encoding_form_from :: "nat \<Rightarrow> encoding_form list \<Rightarrow> 'l::len word routing_label
    \<Rightarrow> (encoding_form \<times> u8, splice_error) result" where
  "get_encoding_form_from i [] label = Err CannotFindForm"
| "get_encoding_form_from i (form # rest) label =
     (if prefix_len form = 0 then Ok (form, word_of_nat i)
      else and_then (assert_that (prefix_len form < 32)) (\<lambda>_.
           and_then (shl_chk (1 :: u32) (unat (prefix_len form))) (\<lambda>s.
           and_then (sub_chk s 1) (\<lambda>mask.
           if bits label AND ucast mask = ucast (prefix_value form) then Ok (form, word_of_nat i)
           else get_encoding_form_from (i + 1) rest label))))"

definition get_encoding_form :: "'l::len word routing_label \<Rightarrow> encoding_scheme
    \<Rightarrow> (encoding_form \<times> u8, splice_error) result" where
  "get_encoding_form label scheme =
     and_then (assert_that (length (forms scheme) < 256)) (\<lambda>_.
     get_encoding_form_from 0 (forms scheme) label)"

definition get_director :: "'l::len word routing_label \<Rightarrow> encoding_form \<Rightarrow> ('l word, 'e) result" where
  "get_director label form =
     and_then (nat_sub_chk (LENGTH('l)) (unat (bit_count form))) (\<lambda>p.
     and_then (nat_sub_chk p (unat (prefix_len form))) (\<lambda>padding.
     and_then (shl_chk (bits label) padding) (\<lambda>b.
     shr_chk b (padding + unat (prefix_len form)))))"

definition director_bit_length :: "'l::len word \<Rightarrow> nat" where
  "director_bit_length dir = (case highest_set_bit dir of None \<Rightarrow> 0 | Some n \<Rightarrow> n) + 1"

definition find_shortest_form :: "'l::len word \<Rightarrow> encoding_scheme \<Rightarrow> (encoding_form, splice_error) result" where
  "find_shortest_form dir scheme =
     (let dir_bits = director_bit_length dir in
      ok_or (min_by_key bit_count (List.filter (\<lambda>form. unat (bit_count form) \<ge> dir_bits) (forms scheme)))
        CannotFindForm)"

section \<open>Re-encoding\<close>

definition is_358_zero_form :: "encoding_form \<Rightarrow> bool" where
  "is_358_zero_form f \<longleftrightarrow> f = forms V358 ! 0"

text \<open>
  The adjustment that \<open>re_encode\<close> makes for the legacy 3-5-8 scheme: form 0 stores the director
  plus one. The code computes the bit count and prefix of the desired form before it replaces
  that form here, so the replacement only decides whether one is added.
\<close>

definition legacy_358_director :: "encoding_scheme \<Rightarrow> encoding_form \<Rightarrow> encoding_form \<Rightarrow> 'l::len word
    \<Rightarrow> ('l word, splice_error) result" where
  "legacy_358_director scheme form desired_form dir =
     (if scheme = V358 then
        let desired_form = (if is_358_zero_form desired_form \<and> dir = 7 then forms V358 ! 1 else desired_form) in
        and_then (if is_358_zero_form form
                  then if dir = 0 then Err CannotReencode else sub_chk dir 1
                  else Ok dir) (\<lambda>dir.
        if is_358_zero_form desired_form then add_chk dir 1 else Ok dir)
      else Ok dir)"

definition re_encode :: "'l::len word routing_label \<Rightarrow> encoding_scheme \<Rightarrow> u8 option
    \<Rightarrow> ('l word routing_label, splice_error) result" where
  "re_encode label scheme desired_form_num =
     and_then (get_encoding_form label scheme) (\<lambda>(form, _).
     and_then (get_director label form) (\<lambda>dir.
     and_then (case desired_form_num of
                 Some num \<Rightarrow>
                   if unat num \<ge> length (forms scheme) then Err BadArgument else Ok (forms scheme ! unat num)
               | None \<Rightarrow> find_shortest_form dir scheme) (\<lambda>desired_form.
     let desired_bit_count = unat (bit_count desired_form);
         desired_prefix_len = unat (prefix_len desired_form);
         desired_prefix = prefix_value desired_form in
     and_then (legacy_358_director scheme form desired_form dir) (\<lambda>dir.
     and_then (shr_chk (bits label) (unat (bit_count form) + unat (prefix_len form))) (\<lambda>result_bits.
     let rest_bitlen = (case highest_set_bit result_bits of None \<Rightarrow> 0 | Some len \<Rightarrow> len + 1);
         used_bits = rest_bitlen + desired_bit_count + desired_prefix_len in
     if used_bits > max_payload_bits TYPE('l) then Err LabelTooLong
     else and_then (shl_chk result_bits desired_bit_count) (\<lambda>b.
          and_then (shl_chk (b OR dir) desired_prefix_len) (\<lambda>b.
          label_of_bits (b OR ucast desired_prefix))))))))"

definition is_one_hop :: "'l::len word routing_label \<Rightarrow> encoding_scheme \<Rightarrow> (bool, splice_error) result" where
  "is_one_hop label scheme =
     and_then (get_encoding_form label scheme) (\<lambda>(label_form, _).
     and_then (size_bits label_form) (\<lambda>form_bits.
     and_then (label_highest_set_bit label) (\<lambda>top.
     Ok (top = unat form_bits))))"

section \<open>Building a label from hops\<close>

fun build_mid_hops :: "'l::len word path_hop list \<Rightarrow> 'l word routing_label list
    \<Rightarrow> ('l word routing_label list, splice_error) result" where
  "build_mid_hops [] ret_path = Ok ret_path"
| "build_mid_hops (hop # hops) ret_path =
     (case (label_p hop, label_n hop) of
        (Some lp, Some ln) \<Rightarrow>
          and_then (get_encoding_form lp (hop_scheme hop)) (\<lambda>(form_label_p, form_idx).
          and_then (get_encoding_form ln (hop_scheme hop)) (\<lambda>(form_label_n, _).
          and_then (size_bits form_label_p) (\<lambda>size_p.
          and_then (size_bits form_label_n) (\<lambda>size_n.
          and_then (if size_p > size_n then re_encode ln (hop_scheme hop) (Some form_idx) else Ok ln) (\<lambda>ln.
          build_mid_hops hops (ret_path @ [ln]))))))
      | _ \<Rightarrow> Err BadArgument)"

definition build_label_impl :: "'l::len word path_hop \<Rightarrow> 'l word path_hop list \<Rightarrow> 'l word path_hop
    \<Rightarrow> ('l word routing_label \<times> 'l word routing_label list, splice_error) result" where
  "build_label_impl first_hop mid_hops last_hop =
     and_then (ok_or (label_n first_hop) BadArgument) (\<lambda>first_hop_label_n.
     and_then (ok_or (label_p last_hop) BadArgument) (\<lambda>_.
     and_then (check (label_p first_hop = None) BadArgument) (\<lambda>_.
     and_then (check (label_n last_hop = None) BadArgument) (\<lambda>_.
     and_then (build_mid_hops mid_hops [first_hop_label_n]) (\<lambda>ret_path.
     and_then (if length ret_path > 1 then splice (rev ret_path) else Ok first_hop_label_n) (\<lambda>ret_label.
     Ok (ret_label, ret_path)))))))"

definition build_label :: "'l::len word path_hop list
    \<Rightarrow> ('l word routing_label \<times> 'l word routing_label list, splice_error) result" where
  "build_label path_hops =
     (if length path_hops < 2 then Err NotEnoughArguments
      else build_label_impl (hd path_hops) (butlast (tl path_hops)) (last path_hops))"

section \<open>Comparing and removing routes\<close>

definition routes_through :: "'l::len word routing_label \<Rightarrow> 'l word routing_label \<Rightarrow> (bool, 'e) result" where
  "routes_through destination mid_path =
     and_then (label_highest_set_bit destination) (\<lambda>dest_highest_set_bit.
     and_then (label_highest_set_bit mid_path) (\<lambda>mid_path_highest_set_bit.
     if dest_highest_set_bit < mid_path_highest_set_bit then Ok False
     else and_then (shl_chk 1 mid_path_highest_set_bit) (\<lambda>s.
          and_then (sub_chk s 1) (\<lambda>mask.
          Ok (bits destination AND mask = bits mid_path AND mask)))))"

definition unsplice :: "'l::len word routing_label \<Rightarrow> 'l word routing_label
    \<Rightarrow> ('l word routing_label, splice_error) result" where
  "unsplice destination mid_path =
     and_then (routes_through destination mid_path) (\<lambda>through.
     if \<not> through then Err RoutesThroughFailed
     else and_then (label_highest_set_bit mid_path) (\<lambda>n.
          and_then (shr_chk (bits destination) n) (\<lambda>b.
          ok_or (label_try_new b) HighestSetBitIsBroken)))"

section \<open>Splicing is concatenation of paths\<close>

lemma label_highest_set_bit_ok [simp]:
  "label_ok l \<Longrightarrow> label_highest_set_bit l = Ok (length (path l))"
  by (simp add: label_highest_set_bit_def label_ok_def highest_set_bit_hsb)

lemma splice_step:
  fixes r a :: "'l::len word"
  assumes "r \<noteq> 0" and "a \<noteq> 0" and "hsb r + hsb a < LENGTH('l)"
  defines "v \<equiv> push_bit (hsb a) (r XOR 1) XOR a"
  shows "path_bits v = path_bits a @ path_bits r" and "hsb v = hsb a + hsb r" and "v \<noteq> 0"
proof -
  have "bit v n \<longleftrightarrow> n = length (path_bits a @ path_bits r)
      \<or> (n < length (path_bits a @ path_bits r) \<and> (path_bits a @ path_bits r) ! n)" for n
  proof (cases "n < hsb a")
    case True
    then show ?thesis
      by (simp add: v_def bit_xor_iff bit_push_bit_iff bit_exp_iff nth_append)
  next
    case False
    then obtain k where k: "n = hsb a + k" using le_Suc_ex not_less by blast
    have a: "bit a n \<longleftrightarrow> k = 0"
      using k bit_hsb [OF assms(2)] not_bit_above_hsb [OF assms(2), of n] by (cases "k = 0") auto
    have "bit v n \<longleftrightarrow> hsb a + k < LENGTH('l) \<and> bit r k"
      using a hsb_less [of a] by (auto simp: v_def k bit_xor_iff bit_push_bit_iff bit_exp_iff possible_bit_def bit_1_iff)
    also have "\<dots> \<longleftrightarrow> bit r k"
      using not_bit_above_hsb [OF assms(1), of k] assms(3) by (cases "k > hsb r") auto
    finally show ?thesis
      using bit_path_bits [OF assms(1), of k] by (simp add: k nth_append)
  qed
  from path_bits_eqI [OF this] show "path_bits v = path_bits a @ path_bits r" "hsb v = hsb a + hsb r" "v \<noteq> 0"
    by simp_all
qed

definition spliced_path :: "'l::len word routing_label list \<Rightarrow> bool list" where
  "spliced_path labels = concat (rev (map path labels))"

lemma splice_loop_path:
  fixes r :: "'l::len word"
  assumes "r \<noteq> 0" and "\<forall>l \<in> set labels. label_ok l" and "4 < LENGTH('l)"
  shows "if hsb r + length (spliced_path labels) \<le> max_payload_bits TYPE('l) - 1 \<or> labels = []
    then \<exists>v. splice_loop r labels = Ok v \<and> v \<noteq> 0 \<and> path_bits v = spliced_path labels @ path_bits r
    else splice_loop r labels = Err LabelTooLong"
  using assms(1,2)
proof (induction labels arbitrary: r)
  case Nil
  then show ?case by (simp add: spliced_path_def)
next
  case (Cons a labels)
  let ?v = "push_bit (hsb (bits a)) (r XOR 1) XOR bits a"
  have a: "bits a \<noteq> 0" using Cons.prems by (simp add: label_ok_def)
  have sp: "spliced_path (a # labels) = spliced_path labels @ path a"
    by (simp add: spliced_path_def)
  show ?case
  proof (cases "hsb r + hsb (bits a) > max_payload_bits TYPE('l) - 1")
    case True
    then have "splice_loop r (a # labels) = Err LabelTooLong"
      using Cons.prems by (simp add: highest_set_bit_hsb)
    with True show ?thesis by (simp add: sp)
  next
    case False
    then have fit: "hsb r + hsb (bits a) < LENGTH('l)"
      using assms(3) by (simp add: max_payload_bits_def)
    note v = splice_step [OF Cons.prems(1) a fit]
    have step: "splice_loop r (a # labels) = splice_loop ?v labels"
      using Cons.prems False hsb_less [of "bits a"] by (simp add: highest_set_bit_hsb)
    show ?thesis
    proof (cases "labels = []")
      case True
      with v False show ?thesis unfolding step by (simp add: sp) (simp add: spliced_path_def)
    next
      case ne: False
      then show ?thesis
        using Cons.IH [OF v(3)] Cons.prems v unfolding step
        by (simp add: sp add_ac split: if_splits)
    qed
  qed
qed

lemma splice_path:
  fixes labels :: "'l::len word routing_label list"
  assumes "\<forall>l \<in> set labels. label_ok l" and "4 < LENGTH('l)" and "2 \<le> length labels"
  shows "if length (spliced_path labels) < max_payload_bits TYPE('l)
    then \<exists>r. splice labels = Ok r \<and> label_ok r \<and> path r = spliced_path labels
    else splice labels = Err LabelTooLong"
proof -
  obtain a ls where l: "labels = a # ls" "ls \<noteq> []"
    using assms(3) by (cases labels) (auto simp: Suc_le_eq)
  have sp: "spliced_path (a # ls) = spliced_path ls @ path a"
    by (simp add: spliced_path_def)
  have lt: "n < max_payload_bits TYPE('l) \<longleftrightarrow> n \<le> max_payload_bits TYPE('l) - 1" for n
    using assms(2) by (auto simp: max_payload_bits_def)
  have "bits a \<noteq> 0" using assms(1) by (simp add: l label_ok_def)
  from splice_loop_path [OF this, of ls] assms(1,2) l(2) show ?thesis
    unfolding l(1)
    by (auto simp: splice_def sp lt label_of_bits_def label_ok_def add.commute Suc_le_eq split: if_splits)
qed

lemma routes_through_prefix:
  assumes "label_ok dest" and "label_ok mid"
  shows "routes_through dest mid = Ok (prefix (path mid) (path dest))"
proof (cases "hsb (bits dest) < hsb (bits mid)")
  case True
  then have "\<not> prefix (path mid) (path dest)"
    by (metis length_path_bits not_less prefix_length_le)
  with True assms show ?thesis by (simp add: routes_through_def)
next
  case False
  let ?n = "hsb (bits mid)"
  have m: "2 ^ ?n - 1 = (mask ?n :: 'a word)" by (simp add: mask_eq_exp_minus_1)
  have one: "1 \<le> (push_bit ?n 1 :: 'a word)"
    using hsb_less [of "bits mid"] by (simp add: push_bit_of_1 word_le_nat_alt unat_exp)
  have "(bits dest AND mask ?n = bits mid AND mask ?n) \<longleftrightarrow> (\<forall>i < ?n. bit (bits dest) i \<longleftrightarrow> bit (bits mid) i)"
    using hsb_less [of "bits mid"]
    by (auto simp: bit_eq_iff bit_and_iff bit_mask_iff) (meson less_trans)+
  also have "\<dots> \<longleftrightarrow> take ?n (path dest) = path mid"
    using False by (auto simp: list_eq_iff_nth_eq)
  also have "\<dots> \<longleftrightarrow> prefix (path mid) (path dest)"
    by (metis append_take_drop_id length_path_bits prefixI prefix_def append_eq_conv_conj)
  finally show ?thesis
    using False assms hsb_less [of "bits mid"] one by (simp add: routes_through_def sub_chk_def m)
qed

lemma path_drop_bit:
  assumes "w \<noteq> 0" and "n \<le> hsb w"
  shows "path_bits (drop_bit n w) = drop n (path_bits w)" and "drop_bit n w \<noteq> 0"
proof -
  have "bit (drop_bit n w) i \<longleftrightarrow> i = length (drop n (path_bits w)) \<or>
     (i < length (drop n (path_bits w)) \<and> drop n (path_bits w) ! i)" for i
    using assms(2) bit_path_bits [OF assms(1), of "n + i"] by (auto simp: bit_drop_bit_eq)
  from path_bits_eqI [OF this] show "path_bits (drop_bit n w) = drop n (path_bits w)" "drop_bit n w \<noteq> 0"
    by simp_all
qed

lemma unsplice_path:
  assumes "label_ok dest" and "label_ok mid"
  shows "if prefix (path mid) (path dest)
    then \<exists>r. unsplice dest mid = Ok r \<and> label_ok r \<and> path dest = path mid @ path r
    else unsplice dest mid = Err RoutesThroughFailed"
proof (cases "prefix (path mid) (path dest)")
  case True
  let ?n = "hsb (bits mid)"
  have n: "?n \<le> hsb (bits dest)"
    using prefix_length_le [OF True] by simp
  have d: "bits dest \<noteq> 0" using assms(1) by (simp add: label_ok_def)
  have "path dest = path mid @ drop ?n (path dest)"
    using True by (metis append_take_drop_id append_eq_conv_conj length_path_bits prefix_def)
  then show ?thesis
    using True assms path_drop_bit [OF d n] hsb_less [of "bits mid"]
    by (simp add: unsplice_def routes_through_prefix) (simp add: label_ok_def del: label_try_new_iff)
next
  case False
  then show ?thesis by (simp add: unsplice_def routes_through_prefix assms)
qed

section \<open>Re-encoding a hop\<close>

text \<open>
  \<open>hop_number\<close> is the interface a director stands for and \<open>hop_director\<close> its inverse: in the
  legacy 3-5-8 scheme the directors of form 0 are one more than the number.
\<close>

definition form_size :: "encoding_form \<Rightarrow> nat" where
  "form_size f = unat (bit_count f) + unat (prefix_len f)"

definition hop_number :: "encoding_scheme \<Rightarrow> encoding_form \<Rightarrow> 'l::len word \<Rightarrow> 'l word" where
  "hop_number s f dir = (if s = V358 \<and> is_358_zero_form f then dir - 1 else dir)"

definition hop_director :: "encoding_scheme \<Rightarrow> encoding_form \<Rightarrow> 'l::len word \<Rightarrow> 'l word" where
  "hop_director s f n = (if s = V358 \<and> is_358_zero_form f then n + 1 else n)"

lemma prepend_field:
  fixes w x :: "'l::len word"
  assumes "w \<noteq> 0" and "unat x < 2 ^ n" and "hsb w + n < LENGTH('l)"
  defines "v \<equiv> push_bit n w OR x"
  shows "path_bits v = nbits n x @ path_bits w" and "hsb v = n + hsb w" and "v \<noteq> 0"
proof -
  have "bit v i \<longleftrightarrow> i = length (nbits n x @ path_bits w)
      \<or> (i < length (nbits n x @ path_bits w) \<and> (nbits n x @ path_bits w) ! i)" for i
  proof (cases "i < n")
    case True
    then show ?thesis by (auto simp: v_def bit_or_iff bit_push_bit_iff nth_append)
  next
    case False
    then obtain k where k: "i = n + k" using le_Suc_ex not_less by blast
    have "bit v i \<longleftrightarrow> n + k < LENGTH('l) \<and> bit w k"
      using not_bit_of_less [OF assms(2), of i] k
      by (auto simp: v_def bit_or_iff bit_push_bit_iff possible_bit_def)
    also have "\<dots> \<longleftrightarrow> bit w k"
      using not_bit_above_hsb [OF assms(1), of k] assms(3) by (cases "k > hsb w") auto
    finally show ?thesis
      using bit_path_bits [OF assms(1), of k] by (simp add: k nth_append)
  qed
  from path_bits_eqI [OF this] show "path_bits v = nbits n x @ path_bits w" "hsb v = n + hsb w" "v \<noteq> 0"
    by simp_all
qed

lemma get_director_eq:
  fixes label :: "'l::len word routing_label"
  assumes "form_ok f" and "form_size f \<le> LENGTH('l)"
  shows "get_director label f = Ok (take_bit (unat (bit_count f)) (drop_bit (unat (prefix_len f)) (bits label)))"
proof -
  let ?bc = "unat (bit_count f)" and ?pl = "unat (prefix_len f)"
  have bc: "1 \<le> ?bc" using assms(1) by (simp add: form_ok_def word_le_nat_alt)
  let ?p = "LENGTH('l) - ?bc - ?pl"
  have "drop_bit (?p + ?pl) (push_bit ?p (bits label)) = take_bit ?bc (drop_bit ?pl (bits label))"
    by (rule bit_word_eqI)
      (use assms(2) in \<open>auto simp: form_size_def bit_drop_bit_eq bit_push_bit_iff bit_take_bit_iff possible_bit_def ac_simps\<close>)
  then show ?thesis
    using assms(2) bc by (simp add: get_director_def form_size_def)
qed

lemma get_encoding_form_in:
  "get_encoding_form label s = Ok (f, i) \<Longrightarrow> f \<in> set (forms s)"
proof -
  have "get_encoding_form_from n fs label = Ok (f, i) \<Longrightarrow> f \<in> set fs" for n fs
    by (induction n fs label rule: get_encoding_form_from.induct) (auto simp: ok_iff split: if_splits)
  then show "get_encoding_form label s = Ok (f, i) \<Longrightarrow> f \<in> set (forms s)"
    by (auto simp: get_encoding_form_def ok_iff)
qed

definition desired :: "encoding_scheme \<Rightarrow> 'l::len word \<Rightarrow> u8 option \<Rightarrow> (encoding_form, splice_error) result" where
  "desired s dir num = (case num of Some num \<Rightarrow>
                   if unat num \<ge> length (forms s) then Err BadArgument else Ok (forms s ! unat num)
               | None \<Rightarrow> find_shortest_form dir s)"

lemma desired_in: "desired s dir num = Ok d \<Longrightarrow> d \<in> set (forms s)"
  by (auto simp: desired_def find_shortest_form_def ok_iff Let_def split: option.splits if_splits
      dest!: min_by_key_Some)

lemma hsb_less_of_unat: "w \<noteq> 0 \<Longrightarrow> unat w < 2 ^ n \<Longrightarrow> hsb w < n"
  using bit_hsb not_bit_of_less by (metis not_le)

lemma re_encode_path:
  fixes label :: "'l::len word routing_label"
  assumes "32 \<le> LENGTH('l)" and "label_ok label" and "\<forall>f \<in> set (forms s). form_ok f"
    and "get_encoding_form label s = Ok (form, i)" and "form_size form \<le> hsb (bits label)"
    and "get_director label form = (Ok dir :: (_, splice_error) result)" and "desired s dir num = Ok d"
    and "\<not> (s = V358 \<and> is_358_zero_form d \<and> dir = 7)" and "\<not> (s = V358 \<and> is_358_zero_form form \<and> dir = 0)"
    and "unat (hop_director s d (hop_number s form dir)) < 2 ^ unat (bit_count d)"
  shows "if hsb (bits label) - form_size form + 1 + form_size d \<le> max_payload_bits TYPE('l)
    then \<exists>r. re_encode label s num = Ok r \<and> label_ok r
      \<and> path r = nbits (unat (prefix_len d)) (prefix_value d)
          @ nbits (unat (bit_count d)) (hop_director s d (hop_number s form dir))
          @ drop (form_size form) (path label)
    else re_encode label s num = Err LabelTooLong"
proof -
  let ?w = "drop_bit (form_size form) (bits label)"
  let ?dir = "hop_director s d (hop_number s form dir)"
  let ?bc = "unat (bit_count d)" and ?pl = "unat (prefix_len d)"
  have w: "path_bits ?w = drop (form_size form) (path label)" "?w \<noteq> 0"
    using path_drop_bit [OF _ assms(5)] assms(2) by (simp_all add: label_ok_def)
  have hw: "hsb ?w = hsb (bits label) - form_size form"
    using arg_cong [OF w(1), of length] by simp
  have fs: "form_size form < LENGTH('l)"
    using assms(5) hsb_less [of "bits label"] by simp
  have d: "form_ok d" using desired_in [OF assms(7)] assms(3) by blast
  have dir': "legacy_358_director s form d dir = Ok ?dir"
  proof -
    have f: "form_ok form" using get_encoding_form_in [OF assms(4)] assms(3) by blast
    have "unat dir < 2 ^ 31"
    proof (rule unat_less_of_bits)
      fix i :: nat
      assume "31 \<le> i"
      then have "unat (bit_count form) \<le> i" using f by (simp add: form_ok_def word_le_nat_alt)
      then show "\<not> bit dir i"
        using assms(6) fs by (auto simp: get_director_eq [OF f] bit_take_bit_iff)
    qed
    then have lt: "unat dir + 1 < 2 ^ LENGTH('l)"
      using power_increasing [OF assms(1), of "2 :: nat"] by simp
    moreover have "unat (dir - 1) + 1 < 2 ^ LENGTH('l)" if "dir \<noteq> 0"
      using lt that by (simp add: unat_minus_one)
    moreover have "1 \<le> dir" if "dir \<noteq> 0"
      using that by (metis not_less word_less_1)
    ultimately show ?thesis
      using assms(8,9) by (auto simp: legacy_358_director_def Let_def hop_director_def hop_number_def sub_chk_def add_chk_def)
  qed
  have step: "re_encode label s num =
     (if hsb ?w + 1 + form_size d > max_payload_bits TYPE('l) then Err LabelTooLong
      else and_then (shl_chk ?w ?bc) (\<lambda>b.
          and_then (shl_chk (b OR ?dir) ?pl) (\<lambda>b.
          label_of_bits (b OR ucast (prefix_value d)))))"
    using assms(4,6,7) fs w(2)
    unfolding re_encode_def
    by (simp add: desired_def [symmetric] Let_def dir' form_size_def highest_set_bit_hsb add.assoc)
  show ?thesis
  proof (cases "hsb (bits label) - form_size form + 1 + form_size d \<le> max_payload_bits TYPE('l)")
    case False
    then show ?thesis using step by (simp add: hw)
  next
    case True
    then have fit: "hsb ?w + ?bc + ?pl < LENGTH('l)"
      unfolding hw by (simp add: form_size_def max_payload_bits_def)
    have pv: "unat (ucast (prefix_value d) :: 'l word) < 2 ^ ?pl"
      using d assms(1) by (simp add: unat_ucast_up form_ok_def)
    have 1: "hsb ?w + ?bc < LENGTH('l)" using fit by simp
    let ?v = "push_bit ?bc ?w OR ?dir"
    note v = prepend_field [OF w(2) assms(10) 1]
    have 2: "hsb ?v + ?pl < LENGTH('l)" using v(2) fit by simp
    note u = prepend_field [OF v(3) pv 2]
    have np: "nbits ?pl (ucast (prefix_value d) :: 'l word) = nbits ?pl (prefix_value d)"
      by (rule nth_equalityI) (use d assms(1) in \<open>auto simp: bit_ucast_iff form_ok_def word_le_nat_alt\<close>)
    from step True fit u show ?thesis
      by (simp add: hw label_of_bits_def np v(1) w(1)) (simp add: label_ok_def)
  qed
qed


lemma get_director_of_path:
  fixes label :: "'l::len word routing_label"
  assumes "form_ok d" and "label_ok label" and "form_size d \<le> LENGTH('l)"
    and "path label = nbits (unat (prefix_len d)) (p :: u32) @ nbits (unat (bit_count d)) dir @ rest"
    and "unat dir < 2 ^ unat (bit_count d)"
  shows "get_director label d = Ok dir"
proof -
  let ?bc = "unat (bit_count d)" and ?pl = "unat (prefix_len d)"
  have len: "hsb (bits label) = ?pl + (?bc + length rest)"
    using arg_cong [OF assms(4), of length] by simp
  have "take_bit ?bc (drop_bit ?pl (bits label)) = dir"
  proof (rule bit_word_eqI)
    fix i
    show "bit (take_bit ?bc (drop_bit ?pl (bits label))) i \<longleftrightarrow> bit dir i"
    proof (cases "i < ?bc")
      case True
      then have "bit (bits label) (?pl + i) = path label ! (?pl + i)"
        using len by simp
      also have "\<dots> = bit dir i"
        using True by (simp add: assms(4) nth_append)
      finally show ?thesis using True by (simp add: bit_take_bit_iff bit_drop_bit_eq)
    next
      case False
      then show ?thesis using not_bit_of_less [OF assms(5)] by (simp add: bit_take_bit_iff)
    qed
  qed
  then show ?thesis by (simp add: get_director_eq [OF assms(1,3)])
qed

lemma mid_hops_ok:
  assumes "build_mid_hops hops acc = Ok ps" and "\<forall>l \<in> set acc. label_ok l"
    and "\<forall>h \<in> set hops. \<forall>l. label_n h = Some l \<longrightarrow> label_ok l"
  shows "(\<forall>l \<in> set ps. label_ok l) \<and> length ps = length acc + length hops \<and> take (length acc) ps = acc"
  using assms
proof (induction hops arbitrary: acc)
  case Nil
  then show ?case by simp
next
  case (Cons h hops)
  from Cons.prems(1) obtain lp ln fp i fn ln' where
    h: "label_p h = Some lp" "label_n h = Some ln"
    and ln': "ln' = ln \<or> re_encode ln (hop_scheme h) (Some i) = Ok ln'"
    and rest: "build_mid_hops hops (acc @ [ln']) = Ok ps"
    by (auto simp: ok_iff split: option.splits if_splits)
  have "label_ok l'" if "label_of_bits b = Ok l'" for b :: "'a word" and l'
    using that by (auto simp: label_of_bits_def ok_iff label_ok_def)
  then have "label_ok ln'" if "re_encode ln (hop_scheme h) (Some i) = Ok ln'"
    using that by (auto simp: re_encode_def ok_iff Let_def split: if_splits)
  then have "label_ok ln'" using ln' Cons.prems(3) h by auto
  with Cons.IH [OF rest] Cons.prems show ?case
    by (auto simp: Suc_le_eq take_Suc_conv_app_nth dest: arg_cong [of _ _ "take (length acc)"])
qed

lemma build_label_path:
  fixes hops :: "'l::len word path_hop list"
  assumes "build_label hops = Ok (l, ps)" 
    and "\<forall>h \<in> set hops. \<forall>l. label_n h = Some l \<longrightarrow> label_ok l" and "4 < LENGTH('l)"
  shows "label_ok l \<and> path l = spliced_path (rev ps) \<and> length ps = length hops - 1
    \<and> label_n (hd hops) = Some (hd ps) \<and> (\<forall>p \<in> set ps. label_ok p)"
proof -
  let ?mid = "butlast (tl hops)"
  from assms(1) obtain f where f: "2 \<le> length hops" "label_n (hd hops) = Some f"
      "build_mid_hops ?mid [f] = Ok ps"
      "(if length ps > 1 then splice (rev ps) else Ok f) = Ok l"
    by (auto simp: build_label_def build_label_impl_def ok_iff not_less split: if_splits)
  have hd: "hd hops \<in> set hops" "set ?mid \<subseteq> set hops"
    using f(1) by (cases hops; auto dest: in_set_butlastD)+
  from mid_hops_ok [OF f(3)] f(2) hd assms(2)
  have ps: "\<forall>p \<in> set ps. label_ok p" "length ps = 1 + length ?mid" "take 1 ps = [f]"
    by (auto simp: subset_iff)
  then have len: "length ps = length hops - 1" using f(1) by simp
  have hdps: "hd ps = f" "ps \<noteq> []" using ps(3) by (cases ps; simp)+
  have "label_ok l \<and> path l = spliced_path (rev ps)"
  proof (cases "length ps > 1")
    case True
    with f(4) splice_path [of "rev ps"] ps(1) assms(3) show ?thesis
      by (auto split: if_splits)
  next
    case False
    then have "ps = [f]" using hdps by (cases ps) auto
    with f(4) ps(1) show ?thesis by (simp add: spliced_path_def)
  qed
  with ps len hdps f(2) show ?thesis by simp
qed


lemma get_encoding_form_nth:
  assumes "get_encoding_form label s = Ok (f, i)"
  shows "unat i < length (forms s) \<and> forms s ! unat i = f"
proof -
  have "get_encoding_form_from n fs label = Ok (f, i) \<Longrightarrow> \<exists>k < length fs. i = word_of_nat (n + k) \<and> fs ! k = f" for n fs
  proof (induction n fs label rule: get_encoding_form_from.induct)
    case (2 n form rest label)
    show ?case
    proof (cases "prefix_len form = 0 \<or> bits label AND ucast (2 ^ unat (prefix_len form) - 1 :: u32) = ucast (prefix_value form)")
      case True
      with 2 have "(form, word_of_nat n) = (f, i) \<or> (\<exists>k < length rest. i = word_of_nat (Suc n + k) \<and> rest ! k = f)"
        by (auto simp: ok_iff split: if_splits)
      then show ?thesis by (auto intro: exI [of _ 0] exI [of _ "Suc _"])
    next
      case False
      with 2 have "(form, word_of_nat n) = (f, i) \<or> (\<exists>k < length rest. i = word_of_nat (Suc n + k) \<and> rest ! k = f)"
        by (auto simp: ok_iff split: if_splits)
      then show ?thesis by (auto intro: exI [of _ 0] exI [of _ "Suc _"])
    qed
  qed simp
  from this [of 0 "forms s"] obtain k where k: "k < length (forms s)" "length (forms s) < 256" "i = word_of_nat k" "forms s ! k = f"
    using assms by (auto simp: get_encoding_form_def ok_iff)
  moreover have "unat (word_of_nat k :: u8) = k" using k(1,2) by (simp add: unat_of_nat)
  ultimately show ?thesis by simp
qed

text \<open>
  The label that a hop in the middle contributes: its label to the next hop, moved to the form of its
  label back where that form is longer. Moved to a form, a label leaves through the same interface and
  goes on as before.
\<close>

definition moved_to_form ::
  "encoding_scheme \<Rightarrow> 'l::len word routing_label \<Rightarrow> encoding_form \<Rightarrow> encoding_form \<Rightarrow> 'l word routing_label \<Rightarrow> bool" where
  "moved_to_form s l f d p \<longleftrightarrow>
     (\<forall>dir. get_director l f = (Ok dir :: (_, splice_error) result) \<and> form_size f \<le> hsb (bits l)
        \<and> \<not> (s = V358 \<and> is_358_zero_form d \<and> dir = 7) \<and> \<not> (s = V358 \<and> is_358_zero_form f \<and> dir = 0)
        \<and> unat (hop_director s d (hop_number s f dir)) < 2 ^ unat (bit_count d)
        \<longrightarrow> path p = nbits (unat (prefix_len d)) (prefix_value d)
              @ nbits (unat (bit_count d)) (hop_director s d (hop_number s f dir)) @ drop (form_size f) (path l))"

definition mid_hop_label :: "'l::len word path_hop \<Rightarrow> 'l word routing_label \<Rightarrow> bool" where
  "mid_hop_label h p \<longleftrightarrow>
     (\<exists>lp ln fp i fn j. label_p h = Some lp \<and> label_n h = Some ln
        \<and> get_encoding_form lp (hop_scheme h) = Ok (fp, i) \<and> get_encoding_form ln (hop_scheme h) = Ok (fn, j)
        \<and> (if form_size fp \<le> form_size fn then p = ln
           else re_encode ln (hop_scheme h) (Some i) = Ok p
             \<and> (32 \<le> LENGTH('l) \<and> (\<forall>f \<in> set (forms (hop_scheme h)). form_ok f)
                  \<longrightarrow> moved_to_form (hop_scheme h) ln fn fp p)))"

lemma re_encode_moved:
  fixes ln :: "'l::len word routing_label"
  assumes "get_encoding_form lp s = Ok (fp, i)" and "get_encoding_form ln s = Ok (fn, j)" and "label_ok ln"
    and "re_encode ln s (Some i) = Ok p" and "32 \<le> LENGTH('l)" and "\<forall>f \<in> set (forms s). form_ok f"
  shows "moved_to_form s ln fn fp p"
proof -
  have d: "desired s dir (Some i) = Ok fp" for dir :: "'l word"
    using get_encoding_form_nth [OF assms(1)] by (simp add: desired_def)
  show ?thesis
    unfolding moved_to_form_def
  proof (intro allI impI)
    fix dir
    assume a: "get_director ln fn = (Ok dir :: (_, splice_error) result) \<and> form_size fn \<le> hsb (bits ln)
        \<and> \<not> (s = V358 \<and> is_358_zero_form fp \<and> dir = 7) \<and> \<not> (s = V358 \<and> is_358_zero_form fn \<and> dir = 0)
        \<and> unat (hop_director s fp (hop_number s fn dir)) < 2 ^ unat (bit_count fp)"
    with re_encode_path [OF assms(5,3,6,2) _ _ d] assms(4)
    show "path p = nbits (unat (prefix_len fp)) (prefix_value fp)
              @ nbits (unat (bit_count fp)) (hop_director s fp (hop_number s fn dir)) @ drop (form_size fn) (path ln)"
      by (fastforce split: if_splits)
  qed
qed

lemma size_bits_ok: "(size_bits f :: (_, 'e) result) = Ok sz \<Longrightarrow> unat sz = form_size f"
  by (auto simp: size_bits_def add_chk_def form_size_def unat_plus_if' split: if_splits)

lemma build_mid_hops_labels:
  assumes "build_mid_hops hops acc = Ok ps" and "\<forall>h \<in> set hops. \<forall>l. label_n h = Some l \<longrightarrow> label_ok l"
  shows "\<exists>qs. ps = acc @ qs \<and> list_all2 mid_hop_label hops qs"
  using assms
proof (induction hops arbitrary: acc)
  case (Cons h hops)
  from Cons.prems(1) obtain lp ln fp i fn j sp sn q where
    h: "label_p h = Some lp" "label_n h = Some ln" "get_encoding_form lp (hop_scheme h) = Ok (fp, i)"
      "get_encoding_form ln (hop_scheme h) = Ok (fn, j)"
    and sz: "(size_bits fp :: (_, splice_error) result) = Ok sp" "(size_bits fn :: (_, splice_error) result) = Ok sn"
    and q: "(if sp > sn then re_encode ln (hop_scheme h) (Some i) else Ok ln) = Ok q"
    and rest: "build_mid_hops hops (acc @ [q]) = Ok ps"
    by (auto simp: ok_iff split: option.splits prod.splits)
  have "sp > sn \<longleftrightarrow> \<not> form_size fp \<le> form_size fn"
    using size_bits_ok [OF sz(1)] size_bits_ok [OF sz(2)] by (auto simp: word_less_nat_alt)
  moreover have "label_ok ln" using Cons.prems(2) h(2) by simp
  ultimately have "mid_hop_label h q"
    using h q re_encode_moved [OF h(3,4)] unfolding mid_hop_label_def by (auto split: if_splits)
  with Cons.IH [OF rest] Cons.prems(2) show ?case by auto
qed simp

lemma build_label_hops:
  assumes "build_label hops = Ok (l, ps)" and "\<forall>h \<in> set hops. \<forall>l. label_n h = Some l \<longrightarrow> label_ok l"
  shows "2 \<le> length hops \<and> label_p (hd hops) = None \<and> label_p (last hops) \<noteq> None \<and> label_n (last hops) = None
    \<and> list_all2 mid_hop_label (butlast (tl hops)) (tl ps)"
proof -
  from assms(1) obtain f where f: "2 \<le> length hops" "build_mid_hops (butlast (tl hops)) [f] = Ok ps"
      "label_p (hd hops) = None" "label_p (last hops) \<noteq> None" "label_n (last hops) = None"
    by (auto simp: build_label_def build_label_impl_def ok_iff not_less split: if_splits)
  have "set (butlast (tl hops)) \<subseteq> set hops" using f(1) by (cases hops; auto dest: in_set_butlastD)
  then have "\<exists>qs. ps = [f] @ qs \<and> list_all2 mid_hop_label (butlast (tl hops)) qs"
    using build_mid_hops_labels [OF f(2)] assms(2) by blast
  then show ?thesis using f by auto
qed

section \<open>Properties\<close>

text \<open>C12: splicing valid labels yields the valid label whose path is the labels' paths one after
  the other, from the last argument to the first, when that fits the payload of the label type,
  and \<open>LabelTooLong\<close> otherwise; with fewer than two labels it is \<open>NotEnoughArguments\<close>. No call
  panics.\<close>

theorem splice_concatenates:
  fixes labels :: "'l::len word routing_label list"
  assumes "\<forall>l \<in> set labels. label_ok l" and "4 < LENGTH('l)"
  shows "if length labels < 2 then splice labels = Err NotEnoughArguments
    else if length (spliced_path labels) < max_payload_bits TYPE('l)
    then \<exists>r. splice labels = Ok r \<and> label_ok r \<and> path r = spliced_path labels
    else splice labels = Err LabelTooLong"
  using splice_path [OF assms] by (auto simp: splice_def)

lemma splice_concatenates_witness:
  "\<exists>r. splice [RoutingLabel 0x15, RoutingLabel (0x13 :: u64)] = Ok r
     \<and> path r = path (RoutingLabel (0x13 :: u64)) @ path (RoutingLabel (0x15 :: u64))"
  using splice_concatenates [of "[RoutingLabel 0x15, RoutingLabel (0x13 :: u64)]"]
  by (auto simp: label_ok_def spliced_path_def max_payload_bits_def hsb_def highest_set_bit_range [of 4])

text \<open>C15: \<open>routes_through\<close> decides whether the path to the middle node is a prefix of the path to
  the destination.\<close>

theorem routes_through_iff_prefix:
  assumes "label_ok dest" and "label_ok mid"
  shows "routes_through dest mid = Ok (prefix (path mid) (path dest))"
  using assms by (rule routes_through_prefix)

lemma routes_through_iff_prefix_witness:
  "routes_through (RoutingLabel (0x153 :: u64)) (RoutingLabel 0x13)
     = Ok (prefix (path (RoutingLabel (0x13 :: u64))) (path (RoutingLabel (0x153 :: u64))))"
  by (rule routes_through_iff_prefix) (simp_all add: label_ok_def)

text \<open>\<open>unsplice\<close> removes the middle path from the front of the destination's path, and when
  it is not a prefix returns \<open>RoutesThroughFailed\<close> (its documentation promises
  \<open>CannotUnsplice\<close>, which no code path returns).\<close>

theorem unsplice_drops_prefix:
  assumes "label_ok dest" and "label_ok mid"
  shows "if prefix (path mid) (path dest)
    then \<exists>r. unsplice dest mid = Ok r \<and> label_ok r \<and> path dest = path mid @ path r
    else unsplice dest mid = Err RoutesThroughFailed"
  using assms by (rule unsplice_path)

text \<open>\<open>unsplice\<close> undoes \<open>splice\<close>: a spliced label routes through its first hop, and removing
  that hop gives the other label back.\<close>

theorem unsplice_splice:
  fixes a b :: "'l::len word routing_label"
  assumes "label_ok a" and "label_ok b" and "4 < LENGTH('l)" and "splice [a, b] = Ok c"
  shows "routes_through c b = (Ok True :: (bool, splice_error) result) \<and> unsplice c b = Ok a"
proof -
  have c: "label_ok c" "path c = path b @ path a"
    using splice_path [of "[a, b]"] assms by (auto simp: spliced_path_def split: if_splits)
  then have "prefix (path b) (path c)" by simp
  moreover from this obtain r where "unsplice c b = Ok r" "label_ok r" "path c = path b @ path r"
    using unsplice_path [OF c(1) assms(2)] by auto
  ultimately show ?thesis
    using c assms by (simp add: routes_through_prefix label_eq_iff)
qed

text \<open>C13: re-encoding replaces the first hop of a label and nothing else: the result is the prefix
  of the desired form, the director that stands for the same interface in that form, and the
  rest of the path as it was; only a result too long for the label type is an error. This holds
  for every scheme of well-formed forms whose desired form can hold the director, the legacy
  3-5-8 scheme included, except where its form 0 is desired for director 7.\<close>

theorem re_encode_keeps_route:
  fixes label :: "'l::len word routing_label"
  assumes "32 \<le> LENGTH('l)" and "label_ok label" and "\<forall>f \<in> set (forms s). form_ok f"
    and "get_encoding_form label s = Ok (form, i)" and "form_size form \<le> hsb (bits label)"
    and "get_director label form = (Ok dir :: (_, splice_error) result)" and "desired s dir num = Ok d"
    and "\<not> (s = V358 \<and> is_358_zero_form d \<and> dir = 7)" and "\<not> (s = V358 \<and> is_358_zero_form form \<and> dir = 0)"
    and "unat (hop_director s d (hop_number s form dir)) < 2 ^ unat (bit_count d)"
  shows "if hsb (bits label) - form_size form + 1 + form_size d \<le> max_payload_bits TYPE('l)
    then \<exists>r. re_encode label s num = Ok r \<and> label_ok r
      \<and> path r = nbits (unat (prefix_len d)) (prefix_value d)
          @ nbits (unat (bit_count d)) (hop_director s d (hop_number s form dir))
          @ drop (form_size form) (path label)
      \<and> get_director r d = (Ok (hop_director s d (hop_number s form dir)) :: (_, splice_error) result)
    else re_encode label s num = Err LabelTooLong"
proof -
  have d: "form_ok d" using desired_in [OF assms(7)] assms(3) by blast
  show ?thesis
  proof (cases "hsb (bits label) - form_size form + 1 + form_size d \<le> max_payload_bits TYPE('l)")
    case True
    then obtain r where r: "re_encode label s num = Ok r" "label_ok r"
        "path r = nbits (unat (prefix_len d)) (prefix_value d)
          @ nbits (unat (bit_count d)) (hop_director s d (hop_number s form dir))
          @ drop (form_size form) (path label)"
      using re_encode_path [OF assms] by auto
    have "form_size d \<le> LENGTH('l)" using True by (simp add: max_payload_bits_def)
    from get_director_of_path [OF d r(2) this r(3) assms(10)] True r show ?thesis by auto
  next
    case False
    with re_encode_path [OF assms] show ?thesis by simp
  qed
qed

lemma re_encode_keeps_route_witness:
  "\<exists>r. re_encode (RoutingLabel (0x33 :: u64)) V48 (Some 1) = Ok r
     \<and> get_director r (mk_form 8 1 0) = (Ok 9 :: (_, splice_error) result)"
proof -
  let ?l = "RoutingLabel (0x33 :: u64)"
  have ne: "V48 \<noteq> V358" by (simp add: V48_def V358_def)
  have "hsb (0x33 :: u64) = 5" by (simp add: hsb_def highest_set_bit_range [of 5])
  moreover have "get_encoding_form ?l V48 = Ok (mk_form 4 1 1, 0)"
    by (simp add: get_encoding_form_def V48_def mk_form_def sub_chk_def)
  moreover have "get_director ?l (mk_form 4 1 1) = (Ok 9 :: (_, splice_error) result)"
    by (simp add: get_director_def mk_form_def)
  moreover have "desired V48 (9 :: u64) (Some 1) = Ok (mk_form 8 1 0)"
    by (simp add: desired_def V48_def)
  moreover have "\<forall>f \<in> set (forms V48). form_ok f"
    by (simp add: V48_def form_ok_def mk_form_def)
  ultimately show ?thesis
    using re_encode_keeps_route [of ?l V48 "mk_form 4 1 1" 0 9 "Some 1" "mk_form 8 1 0"] ne
    by (auto simp: label_ok_def form_size_def mk_form_def hop_director_def hop_number_def max_payload_bits_def)
qed

text \<open>The label of the middle hop has four bits and its label back eight, so it is re-encoded.\<close>

definition demo_hops :: "u64 path_hop list" where
  "demo_hops = [PathHop None (Some (RoutingLabel 0x13)) V48, PathHop (Some (RoutingLabel 0x200)) (Some (RoutingLabel 0x33)) V48,
     PathHop (Some (RoutingLabel 0x15)) None V48]"

lemma demo_forms:
  "get_encoding_form (RoutingLabel (0x200 :: u64)) V48 = Ok (mk_form 8 1 0, 1)"
  "get_encoding_form (RoutingLabel (0x33 :: u64)) V48 = Ok (mk_form 4 1 1, 0)"
  by (simp_all add: get_encoding_form_def V48_def mk_form_def sub_chk_def)

lemma demo_re_encode: "re_encode (RoutingLabel (0x33 :: u64)) V48 (Some 1) = Ok (RoutingLabel 0x212)"
proof -
  have "get_director (RoutingLabel (0x33 :: u64)) (mk_form 4 1 1) = (Ok 9 :: (_, splice_error) result)"
    by (simp add: get_director_def mk_form_def)
  moreover have "legacy_358_director V48 (mk_form 4 1 1) (mk_form 8 1 0) (9 :: u64) = Ok 9"
    by (simp add: legacy_358_director_def V48_def V358_def)
  moreover have "forms V48 ! 1 = mk_form 8 1 0" "length (forms V48) = 2" by (simp_all add: V48_def)
  ultimately show ?thesis
    unfolding re_encode_def demo_forms
    by (simp add: Let_def) (simp add: mk_form_def highest_set_bit_range [of 0] max_payload_bits_def label_of_bits_def)
qed

lemma demo_splice: "splice [RoutingLabel 0x212, RoutingLabel (0x13 :: u64)] = Ok (RoutingLabel 0x2123)"
  by (simp add: splice_def label_highest_set_bit_def highest_set_bit_range [of 9] highest_set_bit_range [of 4]
      max_payload_bits_def label_of_bits_def)

lemma demo_hops_label: "build_label demo_hops = Ok (RoutingLabel 0x2123, [RoutingLabel 0x13, RoutingLabel 0x212])"
proof -
  have "(size_bits (mk_form 8 1 0) :: (_, splice_error) result) = Ok 9" "(size_bits (mk_form 4 1 1) :: (_, splice_error) result) = Ok 5"
    by (simp_all add: size_bits_def add_chk_def mk_form_def)
  then show ?thesis
    by (simp add: build_label_def build_label_impl_def demo_hops_def demo_forms demo_re_encode demo_splice)
qed

text \<open>C14: a label built from hops is the concatenation of the labels of the path it returns, one for each
  hop but the last. The first is the first hop's label. Each hop in between contributes its label to the next
  hop: unchanged if its form is at least as long as the form of the label back, otherwise re-encoded in that
  form, which keeps the interface and the rest of the path. The first hop has no label back and the last
  hop no label on.\<close>

theorem build_label_concatenates:
  fixes hops :: "'l::len word path_hop list"
  assumes "build_label hops = Ok (l, ps)"
    and "\<forall>h \<in> set hops. \<forall>l. label_n h = Some l \<longrightarrow> label_ok l" and "4 < LENGTH('l)"
  shows "label_ok l \<and> path l = concat (map path ps) \<and> 2 \<le> length hops \<and> length ps = length hops - 1
    \<and> label_n (hd hops) = Some (hd ps) \<and> (\<forall>p \<in> set ps. label_ok p)
    \<and> list_all2 mid_hop_label (butlast (tl hops)) (tl ps)
    \<and> label_p (hd hops) = None \<and> label_p (last hops) \<noteq> None \<and> label_n (last hops) = None"
  using build_label_path [OF assms] build_label_hops [OF assms(1,2)] by (simp add: spliced_path_def rev_map [symmetric])

lemma build_label_concatenates_witness:
  "build_label demo_hops = Ok (RoutingLabel 0x2123, [RoutingLabel 0x13, RoutingLabel 0x212])
   \<and> path (RoutingLabel (0x2123 :: u64)) = path (RoutingLabel (0x13 :: u64)) @ path (RoutingLabel (0x212 :: u64))
   \<and> mid_hop_label (demo_hops ! 1) (RoutingLabel 0x212) \<and> \<not> mid_hop_label (demo_hops ! 1) (RoutingLabel 0x33)"
proof -
  have ok: "\<forall>h \<in> set demo_hops. \<forall>l. label_n h = Some l \<longrightarrow> label_ok l" by (simp add: demo_hops_def label_ok_def)
  have "\<not> mid_hop_label (demo_hops ! 1) (RoutingLabel 0x33)"
    by (simp add: mid_hop_label_def demo_hops_def demo_forms demo_re_encode form_size_def) (simp add: mk_form_def)
  with build_label_concatenates [OF demo_hops_label ok] demo_hops_label show ?thesis by (simp add: demo_hops_def)
qed

text \<open>Where form 0 of the legacy scheme is desired for director 7, \<open>re_encode\<close> changes the
  route: \<open>0x1f\<close> leaves through interface 6 (form 0, director 7) and its re-encoding \<open>0x1d\<close>
  through interface 5.\<close>

theorem re_encode_358_changes_route:
  "re_encode (RoutingLabel (0x1f :: u64)) V358 None = Ok (RoutingLabel 0x1d)
   \<and> get_encoding_form (RoutingLabel (0x1f :: u64)) V358 = Ok (mk_form 3 1 1, 0)
   \<and> get_director (RoutingLabel (0x1f :: u64)) (mk_form 3 1 1) = (Ok 7 :: (_, splice_error) result)
   \<and> get_encoding_form (RoutingLabel (0x1d :: u64)) V358 = Ok (mk_form 3 1 1, 0)
   \<and> get_director (RoutingLabel (0x1d :: u64)) (mk_form 3 1 1) = (Ok 6 :: (_, splice_error) result)
   \<and> hop_number V358 (mk_form 3 1 1) 7 = (6 :: u64) \<and> hop_number V358 (mk_form 3 1 1) 6 = (5 :: u64)"
  by (simp add: re_encode_def get_encoding_form_def V358_def mk_form_def sub_chk_def add_chk_def
      legacy_358_director_def is_358_zero_form_def Let_def max_payload_bits_def get_director_def
      find_shortest_form_def director_bit_length_def hop_number_def)
    (simp add: highest_set_bit_range [of 2] highest_set_bit_range [of 0] label_of_bits_def)

end
