(* ===== verification/Route.thy ===== *)
theory Route
  imports Cost Server_Spec Splice
begin

text \<open>
  \<^verbatim>\<open>cjdns-snode/src/server/route.rs\<close>: the graph of the known nodes, the route between two of them
  and its label. Locks are not reentrant and two of them can be held at once: a step that takes a
  lock it holds never returns, and its value is \<open>None\<close>. Errors of the label functions are carried
  as values where the code carries their text.
\<close>

section \<open>Routes\<close>

datatype routing_error =
    NoInput
  | PathIsEmpty ip6 ip6
  | RouteLabelTryNewFailed u16
  | GetEncodingFormFailed splice_error
  | ReEncodeFailed splice_error
  | NoNodeByIp ip6
  | NoInwardLinksByIp string ip6
  | SpliceFailed splice_error nat

record route_hop =
  rh_label :: "u64 routing_label"
  rh_orig_label :: "u32 routing_label"
  rh_scheme :: encoding_scheme
  rh_inverse_form_num :: u8

record route =
  route_label :: "u64 routing_label"
  route_hops :: "route_hop list"
  route_path :: "ip6 list"

type_synonym graph = "(ip6, cost) nodes"

record routing =
  last_rebuild :: nat
  route_cache :: "ip6 \<times> ip6 \<Rightarrow> route option option"
  solver :: "graph option"

definition routing_new :: "nat \<Rightarrow> routing" where
  "routing_new now = \<lparr>last_rebuild = now, route_cache = Map.empty, solver = None\<rparr>"

definition route_identity :: route where
  "route_identity = \<lparr>route_label = self_reference, route_hops = [], route_path = []\<rparr>"

definition REBUILD_INTERVAL :: nat where "REBUILD_INTERVAL = 3 * 10 ^ 9"

section \<open>The graph\<close>

definition total_key :: "f64 \<Rightarrow> int" where
  "total_key b = sint (b XOR drop_bit 1 (signed_drop_bit 63 b))"

fun max_by_total_cmp :: "f64 \<Rightarrow> f64 list \<Rightarrow> f64" where
  "max_by_total_cmp m [] = m"
| "max_by_total_cmp m (v # vs) = max_by_total_cmp (if total_key m \<le> total_key v then v else m) vs"

definition F64_1E_20 :: f64 where "F64_1E_20 = f64_of_ratio 1 (10 ^ 20)"

definition min_cost :: "link \<Rightarrow> link list \<Rightarrow> f64" where
  "min_cost l ls =
     (let max_value = max_by_total_cmp (link_value l) (map link_value ls);
          max_value = (if f64_bits max_value = 0 then F64_1E_20 else max_value)
      in f64_recip max_value)"

fun node_links :: "server \<Rightarrow> ip6 \<Rightarrow> links \<Rightarrow> ip6 list \<Rightarrow> (ip6 \<times> f64) list option" where
  "node_links s nip m [] = Some []"
| "node_links s nip m (pip # pips) =
     (case m pip of
        None \<Rightarrow> node_links s nip m pips
      | Some [] \<Rightarrow> node_links s nip m pips
      | Some (l # ls) \<Rightarrow>
          (case by_ip s pip of
             None \<Rightarrow> node_links s nip m pips
           | Some reverse \<Rightarrow>
               if pip = nip then None
               else if inward_links reverse nip = None then node_links s nip m pips
               else map_option (\<lambda>rest. (pip, min_cost l ls) # rest) (node_links s nip m pips)))"

definition graph_add_node :: "graph \<Rightarrow> ip6 \<Rightarrow> (ip6 \<times> f64) list \<Rightarrow> (graph, unit) result" where
  "graph_add_node d nip l =
     and_then (assert_that (list_all (\<lambda>(_, w). f64_ge_zero w) l))
       (\<lambda>_. add_node cost_zero d nip (map (\<lambda>(pip, w). (pip, cost_of w)) l))"

fun build_nodes :: "key_order \<Rightarrow> server \<Rightarrow> ip6 list \<Rightarrow> graph \<Rightarrow> (graph, unit) result option" where
  "build_nodes order s [] d = Some (Ok d)"
| "build_nodes order s (nip # nips) d =
     (case by_ip s nip of
        None \<Rightarrow> Some Panic
      | Some node \<Rightarrow>
          (case node_links s nip (inward_links node) (order (dom (inward_links node))) of
             None \<Rightarrow> None
           | Some l \<Rightarrow>
               (case graph_add_node d nip l of
                  Ok d' \<Rightarrow> build_nodes order s nips d'
                | Err e \<Rightarrow> Some (Err e)
                | Panic \<Rightarrow> Some Panic)))"

definition build_node_graph :: "key_order \<Rightarrow> server \<Rightarrow> (graph, unit) result option" where
  "build_node_graph order s = build_nodes order s (all_ips order s) Map.empty"

section \<open>The label\<close>

definition first_link :: "node \<Rightarrow> ip6 \<Rightarrow> link option" where
  "first_link n ip = (case inward_links n ip of Some (l # ls) \<Rightarrow> Some l | _ \<Rightarrow> None)"

definition old_hop :: "node \<Rightarrow> node \<Rightarrow> u8 \<Rightarrow> (route_hop \<times> u8, routing_error) result" where
  "old_hop node last_node form_num =
     (case first_link node (node_ipv6 last_node) of
        None \<Rightarrow> Err (NoInwardLinksByIp ''node'' (node_ipv6 last_node))
      | Some link \<Rightarrow>
          and_then (ok_or (label_try_new (ucast (bits (link_label link)))) (RouteLabelTryNewFailed (ucast (bits (link_label link))))) (\<lambda>label.
          and_then (map_err GetEncodingFormFailed (get_encoding_form label (node_scheme last_node))) (\<lambda>(_, cur_form_num).
          and_then (if cur_form_num < form_num then map_err ReEncodeFailed (re_encode label (node_scheme last_node) (Some form_num)) else Ok label) (\<lambda>label.
          Ok (\<lparr>rh_label = label, rh_orig_label = link_label link, rh_scheme = node_scheme last_node, rh_inverse_form_num = form_num\<rparr>,
              link_form link)))))"

definition new_hop :: "node \<Rightarrow> node \<Rightarrow> u8 \<Rightarrow> (route_hop \<times> u8, routing_error) result" where
  "new_hop node last_node form_num =
     (case first_link node (node_ipv6 last_node) of
        None \<Rightarrow> Err (NoInwardLinksByIp ''node'' (node_ipv6 last_node))
      | Some greta \<Rightarrow>
          (case first_link last_node (node_ipv6 node) of
             None \<Rightarrow> Err (NoInwardLinksByIp ''last'' (node_ipv6 node))
           | Some yury \<Rightarrow>
               and_then (ok_or (label_try_new (ucast (link_peer_num yury))) (RouteLabelTryNewFailed (link_peer_num yury))) (\<lambda>label_yg_32.
               and_then (ok_or (label_try_new (ucast (link_peer_num yury))) (RouteLabelTryNewFailed (link_peer_num yury))) (\<lambda>label_yg.
               and_then (ok_or (label_try_new (ucast (link_peer_num greta))) (RouteLabelTryNewFailed (link_peer_num greta))) (\<lambda>label_gy.
               and_then (map_err GetEncodingFormFailed (get_encoding_form label_yg (node_scheme node))) (\<lambda>(_, cur_form_num_yg).
               and_then (map_err GetEncodingFormFailed (get_encoding_form (label_gy :: u64 routing_label) (node_scheme last_node))) (\<lambda>(_, cur_form_num_gy).
               and_then (if cur_form_num_yg < form_num
                         then map_err ReEncodeFailed (re_encode label_yg (node_scheme last_node) (Some form_num)) else Ok label_yg) (\<lambda>label_yg.
               Ok (\<lparr>rh_label = label_yg, rh_orig_label = label_yg_32, rh_scheme = node_scheme last_node, rh_inverse_form_num = form_num\<rparr>,
                   cur_form_num_gy)))))))))"

text \<open>The new version locks the links of both nodes at once.\<close>

definition route_hop_step :: "bool \<Rightarrow> node \<Rightarrow> node \<Rightarrow> u8 \<Rightarrow> (route_hop \<times> u8, routing_error) result option" where
  "route_hop_step use_old node last_node form_num =
     (if use_old then Some (old_hop node last_node form_num)
      else if node_ipv6 node = node_ipv6 last_node \<and> first_link node (node_ipv6 last_node) \<noteq> None then None
      else Some (new_hop node last_node form_num))"

fun route_hops_loop ::
  "bool \<Rightarrow> server \<Rightarrow> ip6 list \<Rightarrow> node option \<Rightarrow> u8 \<Rightarrow> route_hop list \<Rightarrow> (route_hop list, routing_error) result option" where
  "route_hops_loop use_old s [] last_node form_num hops = Some (Ok hops)"
| "route_hops_loop use_old s (nip # nips) last_node form_num hops =
     (case by_ip s nip of
        None \<Rightarrow> Some (Err (NoNodeByIp nip))
      | Some node \<Rightarrow>
          (case last_node of
             None \<Rightarrow> route_hops_loop use_old s nips (Some node) form_num hops
           | Some l \<Rightarrow>
               (case route_hop_step use_old node l form_num of
                  None \<Rightarrow> None
                | Some (Ok (hop, form_num')) \<Rightarrow> route_hops_loop use_old s nips (Some node) form_num' (hops @ [hop])
                | Some (Err e) \<Rightarrow> Some (Err e)
                | Some Panic \<Rightarrow> Some Panic)))"

definition compute_routing_label ::
  "bool \<Rightarrow> server \<Rightarrow> ip6 list \<Rightarrow> (u64 routing_label \<times> route_hop list, routing_error) result option" where
  "compute_routing_label use_old s rev_path =
     map_option (\<lambda>r. and_then r (\<lambda>hops.
       let labels = rev (map rh_label hops @ [self_reference]) in
       map_ok (\<lambda>spliced. (spliced, hops)) (map_err (\<lambda>e. SpliceFailed e (length labels)) (splice labels))))
       (route_hops_loop use_old s rev_path None 0 [])"

section \<open>The route\<close>

definition compute_route :: "bool \<Rightarrow> server \<Rightarrow> graph \<Rightarrow> node \<Rightarrow> node \<Rightarrow> (route, routing_error) result option" where
  "compute_route use_old s d src dst =
     (case reverse_path cost_zero cost_add d (node_ipv6 dst) (node_ipv6 src) of
        None \<Rightarrow> None
      | Some (Ok p) \<Rightarrow>
          if p = [] then Some (Err (PathIsEmpty (node_ipv6 src) (node_ipv6 dst)))
          else map_option (map_ok (\<lambda>(label, hops). \<lparr>route_label = label, route_hops = hops, route_path = p\<rparr>))
                 (compute_routing_label use_old s p)
      | Some _ \<Rightarrow> Some Panic)"

definition rebuild :: "key_order \<Rightarrow> nat \<Rightarrow> server \<Rightarrow> routing \<Rightarrow> (routing, unit) result option" where
  "rebuild order now s r =
     (if last_rebuild r + REBUILD_INTERVAL < now \<or> solver r = None
      then map_option (map_ok (\<lambda>d. \<lparr>last_rebuild = now, route_cache = Map.empty, solver = Some d\<rparr>)) (build_node_graph order s)
      else Some (Ok r))"

definition get_route_impl ::
  "bool \<Rightarrow> key_order \<Rightarrow> nat \<Rightarrow> server \<Rightarrow> node \<Rightarrow> node \<Rightarrow> routing \<Rightarrow> ((route, routing_error) result \<times> routing) option" where
  "get_route_impl use_old order now s src dst r =
     (case rebuild order now s r of
        None \<Rightarrow> None
      | Some (Ok r) \<Rightarrow>
          (let cache_key = (node_ipv6 dst, node_ipv6 src) in
           case route_cache r cache_key of
             Some (Some cached_entry) \<Rightarrow> Some (Ok cached_entry, r)
           | _ \<Rightarrow>
               (case solver r of
                  None \<Rightarrow> Some (Panic, r)
                | Some d \<Rightarrow>
                    map_option (\<lambda>route. (route,
                        case route of
                          Ok rt \<Rightarrow> r\<lparr>route_cache := (route_cache r)(cache_key \<mapsto> Some rt)\<rparr>
                        | Err _ \<Rightarrow> r\<lparr>route_cache := (route_cache r)(cache_key \<mapsto> None)\<rparr>
                        | Panic \<Rightarrow> r))
                      (compute_route use_old s d src dst)))
      | Some _ \<Rightarrow> Some (Panic, r))"

definition get_route ::
  "bool \<Rightarrow> key_order \<Rightarrow> nat \<Rightarrow> server \<Rightarrow> node option \<Rightarrow> node option \<Rightarrow> routing \<Rightarrow> ((route, routing_error) result \<times> routing) option" where
  "get_route use_old order now s src dst r =
     (case (src, dst) of
        (Some src, Some dst) \<Rightarrow>
          if node_eq src dst then Some (Ok route_identity, r) else get_route_impl use_old order now s src dst r
      | _ \<Rightarrow> Some (Err NoInput, r))"

section \<open>The graph is the mutual links\<close>

text \<open>What the graph needs of the table; the invariant of the server gives it.\<close>

definition links_table_ok :: "(ip6 \<Rightarrow> node option) \<Rightarrow> bool" where
  "links_table_ok t \<longleftrightarrow> finite (dom t) \<and> (\<forall>ip n. t ip = Some n \<longrightarrow> node_ipv6 n = ip \<and> links_ok (inward_links n))"

lemma links_table_okD: "links_table_ok t \<Longrightarrow> t ip = Some n \<Longrightarrow> node_ipv6 n = ip \<and> links_ok (inward_links n)"
  by (simp add: links_table_ok_def)

lemma server_links_table: "server_ok c s \<Longrightarrow> links_table_ok (nodes_by_ip s)"
  by (simp add: server_ok_def table_ok_def links_table_ok_def node_ok_def)

definition self_linked :: "server \<Rightarrow> ip6 \<Rightarrow> bool" where
  "self_linked s ip \<longleftrightarrow> (\<exists>n. nodes_by_ip s ip = Some n \<and> inward_links n ip \<noteq> None)"

definition mutual :: "server \<Rightarrow> ip6 \<Rightarrow> ip6 \<Rightarrow> link list \<Rightarrow> bool" where
  "mutual s u v ls \<longleftrightarrow> (\<exists>n n'. nodes_by_ip s u = Some n \<and> inward_links n v = Some ls
     \<and> nodes_by_ip s v = Some n' \<and> inward_links n' u \<noteq> None)"

text \<open>The cost of a link is the reciprocal of the best value among the links to the peer.\<close>

definition best_value :: "link list \<Rightarrow> f64" where
  "best_value ls = Max (link_value ` set ls)"

definition link_cost :: "link list \<Rightarrow> cost" where
  "link_cost ls = cost_of (f64_recip (if best_value ls = 0 then F64_1E_20 else best_value ls))"

lemma total_key_nonneg:
  assumes "unat b \<le> F64_INF"
  shows "total_key b = int (unat b)"
proof -
  have b: "\<not> bit b 63" using assms F64_order(2) by (intro not_bit_of_less [of _ 63]) auto
  have fin: "f64_bits b = unat b" by (rule f64_bits_unat [OF assms])
  show ?thesis
  proof (cases "f64_finite b")
    case True
    then have "into_ord b = (Ok (b XOR drop_bit 1 (signed_drop_bit 63 b)) :: (u64, unit) result)"
      by (simp add: into_ord_def)
    from into_ord_value [OF this] show ?thesis using b fin by (simp add: total_key_def)
  next
    case False
    have "b XOR drop_bit 1 (signed_drop_bit 63 b) = b"
    proof (rule bit_word_eqI)
      fix i assume "i < LENGTH(64)"
      with b show "bit (b XOR drop_bit 1 (signed_drop_bit 63 b)) i = bit b i"
        by (auto simp: bit_xor_iff bit_drop_bit_eq bit_signed_drop_bit_iff min_def dest: bit_imp_le_length)
    qed
    moreover have "sint b = int (unat b)" using b fin sint_split [of b] by simp
    ultimately show ?thesis by (simp add: total_key_def)
  qed
qed

lemma max_by_total_cmp_Max:
  "unat m \<le> F64_INF \<Longrightarrow> \<forall>v \<in> set vs. unat v \<le> F64_INF \<Longrightarrow> max_by_total_cmp m vs = Max (set (m # vs))"
proof (induction vs arbitrary: m)
  case (Cons v vs)
  let ?m = "if total_key m \<le> total_key v then v else m"
  have "total_key m \<le> total_key v \<longleftrightarrow> m \<le> v" using Cons.prems by (simp add: total_key_nonneg word_le_def)
  then have "?m = max m v" by (simp add: max_def)
  then have "max_by_total_cmp m (v # vs) = Max (set (max m v # vs))" using Cons.IH [of ?m] Cons.prems by auto
  also have "\<dots> = Max (set (m # v # vs))" by (cases "vs = []") (simp_all add: Max_insert max.assoc)
  finally show ?case .
qed simp

lemma f64_recip_ok: "unat a \<le> F64_INF \<Longrightarrow> unat (f64_recip a) \<le> F64_INF"
proof -
  assume a: "unat a \<le> F64_INF"
  have one: "unat (f64_of_nat 1) = F64_ONE"
    using f64_of_nat_ge [of 1] f64_of_nat_le [of 1 0] by simp
  then have "f64_bits (f64_of_nat 1) = F64_ONE" using f64_bits_unat F64_order(1) by simp
  then show ?thesis using a F64_order unat_f64 [of F64_INF]
    by (simp add: f64_recip_def f64_div_def f64_is_nan_def f64_is_inf_def f64_bits_unat unat_of_ratio f64_round_INF F64_ONE_def)
qed

lemma link_cost_ok:
  assumes "links_ok m" and "m ip = Some (l # ls)"
  shows "unat (min_cost l ls) \<le> F64_INF" and "cost_of (min_cost l ls) = link_cost (l # ls)"
proof -
  have v: "unat (link_value x) \<le> F64_INF" if "x \<in> set (l # ls)" for x
    using links_okD [OF assms] that value_order(1) by (fastforce simp: link_ok_def)
  then have m: "max_by_total_cmp (link_value l) (map link_value ls) = best_value (l # ls)"
    using max_by_total_cmp_Max [of "link_value l" "map link_value ls"] by (simp add: best_value_def)
  have "best_value (l # ls) \<in> link_value ` set (l # ls)" unfolding best_value_def by (rule Max_in) simp_all
  then have b: "unat (best_value (l # ls)) \<le> F64_INF" using v by auto
  then have z: "f64_bits (best_value (l # ls)) = 0 \<longleftrightarrow> best_value (l # ls) = 0" by (simp add: f64_bits_unat unat_eq_0)
  have e: "unat F64_1E_20 \<le> F64_INF" by (simp add: F64_1E_20_def unat_of_ratio f64_round_INF)
  show "unat (min_cost l ls) \<le> F64_INF" using b e by (simp add: min_cost_def m Let_def f64_recip_ok)
  show "cost_of (min_cost l ls) = link_cost (l # ls)" by (simp add: min_cost_def m Let_def link_cost_def z)
qed

lemma node_links_hangs:
  assumes "links_ok m" and "nodes_by_ip s nip \<noteq> None"
  shows "node_links s nip m pips = None \<longleftrightarrow> nip \<in> set pips \<and> m nip \<noteq> None"
proof (induction pips)
  case (Cons pip pips)
  show ?case
  proof (cases "m pip")
    case (Some ls)
    then obtain l ls' where "ls = l # ls'" using links_okD [OF assms(1)] by (cases ls) auto
    then show ?thesis using Some Cons assms(2) by (auto simp: by_ip_def split: option.split)
  qed (use Cons in auto)
qed simp

lemma node_links_run:
  assumes "links_ok m" and "node_links s nip m pips = Some l"
  shows "list_all (\<lambda>(_, w). f64_ge_zero w) l"
    and "(v, w) \<in> set (map (\<lambda>(pip, w). (pip, cost_of w)) l) \<longleftrightarrow>
      v \<in> set pips \<and> (\<exists>ls n'. m v = Some ls \<and> nodes_by_ip s v = Some n' \<and> inward_links n' nip \<noteq> None \<and> w = link_cost ls)"
proof -
  have "list_all (\<lambda>(_, w). f64_ge_zero w) l \<and> ((v, w) \<in> set (map (\<lambda>(pip, w). (pip, cost_of w)) l) \<longleftrightarrow>
      v \<in> set pips \<and> (\<exists>ls n'. m v = Some ls \<and> nodes_by_ip s v = Some n' \<and> inward_links n' nip \<noteq> None \<and> w = link_cost ls))"
    using assms(2)
  proof (induction pips arbitrary: l)
    case (Cons pip pips)
    show ?case
    proof (cases "m pip")
      case None
      then show ?thesis using Cons by auto
    next
      case (Some ls)
      then obtain x xs where ls: "ls = x # xs" using links_okD [OF assms(1)] by (cases ls) auto
      note cost = link_cost_ok [OF assms(1) Some [unfolded ls]]
      show ?thesis
      proof (cases "nodes_by_ip s pip")
        case None
        then show ?thesis using Cons Some ls by (auto simp: by_ip_def)
      next
        case (Some n')
        show ?thesis
        proof (cases "inward_links n' nip")
          case None
          then show ?thesis using Cons Some \<open>m pip = Some ls\<close> ls by (auto simp: by_ip_def split: if_splits)
        next
          case (Some ls')
          then obtain rest where rest: "node_links s nip m pips = Some rest" "l = (pip, min_cost x xs) # rest"
            using Cons.prems \<open>m pip = Some ls\<close> \<open>nodes_by_ip s pip = Some n'\<close> ls by (auto simp: by_ip_def split: if_splits)
          show ?thesis
            using Cons.IH [OF rest(1)] rest(2) Some \<open>m pip = Some ls\<close> \<open>nodes_by_ip s pip = Some n'\<close> ls cost f64_ge_zeroI [OF cost(1)] by auto
        qed
      qed
    qed
  qed auto
  then show "list_all (\<lambda>(_, w). f64_ge_zero w) l"
    and "(v, w) \<in> set (map (\<lambda>(pip, w). (pip, cost_of w)) l) \<longleftrightarrow>
      v \<in> set pips \<and> (\<exists>ls n'. m v = Some ls \<and> nodes_by_ip s v = Some n' \<and> inward_links n' nip \<noteq> None \<and> w = link_cost ls)"
    by blast+
qed


definition mutual_links :: "server \<Rightarrow> graph \<Rightarrow> bool" where
  "mutual_links s g \<longleftrightarrow> dom g = dom (nodes_by_ip s) \<and> (\<forall>u v w. edge g u v w \<longleftrightarrow> (\<exists>ls. mutual s u v ls \<and> w = link_cost ls))"

lemma build_nodes_hangs:
  assumes "links_table_ok (nodes_by_ip s)" and "order_ok order" and "set ips \<subseteq> dom (nodes_by_ip s)"
  shows "if \<exists>ip \<in> set ips. self_linked s ip then build_nodes order s ips d = None
    else \<exists>g. build_nodes order s ips d = Some (Ok g) \<and> dom g = dom d \<union> set ips
      \<and> (\<forall>u v w. edge g u v w \<longleftrightarrow> (if u \<in> set ips then \<exists>ls. mutual s u v ls \<and> w = link_cost ls else edge d u v w))"
  using assms(3)
proof (induction ips arbitrary: d)
  case (Cons nip nips)
  from Cons.prems obtain n where n: "nodes_by_ip s nip = Some n" by auto
  then have links: "links_ok (inward_links n)" using links_table_okD [OF assms(1)] by simp
  then have ord: "set (order (dom (inward_links n))) = dom (inward_links n)"
    using order_okD [OF assms(2)] links_ok_finite by blast
  let ?l = "node_links s nip (inward_links n) (order (dom (inward_links n)))"
  show ?case
  proof (cases "self_linked s nip")
    case True
    then have "?l = None" using node_links_hangs [OF links, of s nip] n ord by (auto simp: self_linked_def)
    then show ?thesis using True n by (simp add: by_ip_def)
  next
    case False
    then have "?l \<noteq> None" using node_links_hangs [OF links, of s nip] n ord by (auto simp: self_linked_def)
    then obtain l where l: "?l = Some l" by blast
    note run = node_links_run [OF links l]
    let ?d = "d(nip \<mapsto> map (\<lambda>(pip, w). (pip, cost_of w)) l)"
    have zero: "cost_zero \<le> w" for w by transfer simp
    have "graph_add_node d nip l = Ok ?d" using run(1) by (simp add: graph_add_node_def add_node_def list_all_iff zero)
    then have step: "build_nodes order s (nip # nips) d = build_nodes order s nips ?d" using n l by (simp add: by_ip_def)
    have e: "edge ?d u v w \<longleftrightarrow> (if u = nip then \<exists>ls. mutual s u v ls \<and> w = link_cost ls else edge d u v w)" for u v w
      using run(2) [of v w] n ord by (auto simp: edge_def mutual_def)
    show ?thesis
      using Cons.IH [of ?d] Cons.prems False unfolding step by (auto simp: e split: if_splits)
  qed
qed simp

lemma build_graph:
  assumes "links_table_ok (nodes_by_ip s)" and "order_ok order"
  shows "if \<exists>ip. self_linked s ip then build_node_graph order s = None
    else \<exists>g. build_node_graph order s = Some (Ok g) \<and> mutual_links s g"
proof -
  have ips: "set (all_ips order s) = dom (nodes_by_ip s)"
    using assms by (simp add: all_ips_def order_okD links_table_ok_def)
  have self: "(\<exists>ip \<in> dom (nodes_by_ip s). self_linked s ip) \<longleftrightarrow> (\<exists>ip. self_linked s ip)"
    by (auto simp: self_linked_def)
  have none: "edge Map.empty u v w \<longleftrightarrow> False" for u v :: ip6 and w :: cost by (simp add: edge_def)
  have mut: "(if u \<in> dom (nodes_by_ip s) then \<exists>ls. mutual s u v ls \<and> w = link_cost ls else False) \<longleftrightarrow> (\<exists>ls. mutual s u v ls \<and> w = link_cost ls)"
    for u v w by (auto simp: mutual_def)
  show ?thesis
    using build_nodes_hangs [OF assms equalityD1 [OF ips], of Map.empty]
    unfolding ips build_node_graph_def mutual_links_def self none mut dom_empty Un_empty_left .
qed

lemma mutual_links_finite: "links_table_ok (nodes_by_ip s) \<Longrightarrow> mutual_links s g \<Longrightarrow> finite (dom g)"
  by (simp add: mutual_links_def links_table_ok_def)

section \<open>The label of a route\<close>

lemma label_ok_try_new: "label_try_new b = Some l \<Longrightarrow> label_ok l"
  by (auto simp: label_ok_def split: if_splits)

lemma label_ok_bits [simp]: "label_ok (RoutingLabel b) \<longleftrightarrow> b \<noteq> 0"
  by (simp add: label_ok_def)

lemma re_encode_label_ok: "re_encode label sch num = Ok r \<Longrightarrow> label_ok r"
  by (auto simp: re_encode_def ok_iff label_of_bits_def Let_def label_ok_def split: prod.splits if_splits)

lemma hop_step_ok: "route_hop_step use_old n prv f = Some (Ok (h, f')) \<Longrightarrow> label_ok (rh_label h)"
  using re_encode_label_ok label_ok_try_new
  by (auto simp: route_hop_step_def old_hop_def new_hop_def ok_iff split: option.splits if_splits prod.splits)


lemma hop_step_returns: "(\<And>ip. \<not> self_linked s ip) \<Longrightarrow> nodes_by_ip s (node_ipv6 n) = Some n \<Longrightarrow> route_hop_step use_old n prv f \<noteq> None"
  by (auto simp: route_hop_step_def self_linked_def first_link_def split: option.splits list.splits)

lemma route_hops_loop_ok:
  assumes "links_table_ok (nodes_by_ip s)" and "\<And>ip. \<not> self_linked s ip"
  shows "\<exists>res. route_hops_loop use_old s ps prv f hops = Some res
    \<and> (\<forall>hs. res = Ok hs \<longrightarrow> (\<exists>new. hs = hops @ new \<and> (\<forall>h \<in> set new. label_ok (rh_label h))
         \<and> length new = (if prv = None then length ps - 1 else length ps)))"
proof (induction ps arbitrary: prv f hops)
  case (Cons p ps)
  show ?case
  proof (cases "nodes_by_ip s p")
    case None
    then show ?thesis by (simp add: by_ip_def)
  next
    case (Some n)
    then have "node_ipv6 n = p" using links_table_okD [OF assms(1)] by simp
    with Some have n: "nodes_by_ip s (node_ipv6 n) = Some n" by simp
    show ?thesis
    proof (cases prv)
      case None
      then show ?thesis using Some Cons.IH [of "Some n" f hops] by (simp add: by_ip_def)
    next
      case (Some q)
      obtain step where step: "route_hop_step use_old n q f = Some step"
        using hop_step_returns [OF assms(2) n] by blast
      show ?thesis
      proof (cases step)
        case (Ok hf)
        obtain h f' where hf: "hf = (h, f')" by (cases hf)
        obtain res where res: "route_hops_loop use_old s ps (Some n) f' (hops @ [h]) = Some res"
          "\<forall>hs. res = Ok hs \<longrightarrow> (\<exists>new. hs = (hops @ [h]) @ new \<and> (\<forall>h \<in> set new. label_ok (rh_label h)) \<and> length new = length ps)"
          using Cons.IH [of "Some n" f' "hops @ [h]"] by auto
        have "label_ok (rh_label h)" using step Ok hf hop_step_ok by blast
        moreover have "route_hops_loop use_old s (p # ps) prv f hops = Some res"
          using res(1) step Ok hf Some \<open>nodes_by_ip s p = Some n\<close> by (simp add: by_ip_def)
        moreover have "\<exists>new'. hs = hops @ new' \<and> (\<forall>h \<in> set new'. label_ok (rh_label h)) \<and> length new' = length (p # ps)"
          if rs: "res = Ok hs" for hs
        proof -
          obtain new where "hs = (hops @ [h]) @ new" "\<forall>h \<in> set new. label_ok (rh_label h)" "length new = length ps"
            using res(2) rs by blast
          with \<open>label_ok (rh_label h)\<close> show ?thesis by (intro exI [of _ "h # new"]) simp
        qed
        ultimately show ?thesis using Some by simp
      qed (use step Some \<open>nodes_by_ip s p = Some n\<close> in \<open>simp_all add: by_ip_def\<close>)
    qed
  qed
qed simp

text \<open>What a route in the cache or a reply is: a walk of least cost, with a hop for each of its steps,
  and the labels of the hops one after the other as its label.\<close>

definition route_ok :: "graph \<Rightarrow> ip6 \<Rightarrow> ip6 \<Rightarrow> route \<Rightarrow> bool" where
  "route_ok g dst src rt \<longleftrightarrow> hd (route_path rt) = src \<and> last (route_path rt) = dst \<and> src \<noteq> dst
     \<and> shortest cost_zero cost_add g dst (route_path rt) \<and> length (route_hops rt) = length (route_path rt) - 1
     \<and> label_ok (route_label rt) \<and> path (route_label rt) = concat (map (\<lambda>h. path (rh_label h)) (route_hops rt))"

lemma compute_routing_label_ok:
  assumes "links_table_ok (nodes_by_ip s)" and "\<And>ip. \<not> self_linked s ip" and "2 \<le> length ps"
  shows "\<exists>res. compute_routing_label use_old s ps = Some res
    \<and> (\<forall>l hs. res = Ok (l, hs) \<longrightarrow> length hs = length ps - 1 \<and> label_ok l \<and> path l = concat (map (\<lambda>h. path (rh_label h)) hs))"
proof -
  obtain r where r: "route_hops_loop use_old s ps None 0 [] = Some r"
    "\<forall>hs. r = Ok hs \<longrightarrow> (\<forall>h \<in> set hs. label_ok (rh_label h)) \<and> length hs = length ps - 1"
    using route_hops_loop_ok [OF assms(1,2), of use_old ps None 0 "[]"] by auto
  have "length hs = length ps - 1 \<and> label_ok l \<and> path l = concat (map (\<lambda>h. path (rh_label h)) hs)"
    if "r = Ok hs" and "splice (rev (map rh_label hs @ [self_reference])) = Ok l" for hs l
  proof -
    let ?labels = "rev (map rh_label hs @ [self_reference])"
    have hs: "\<forall>h \<in> set hs. label_ok (rh_label h)" "length hs = length ps - 1" using r(2) that(1) by auto
    have "\<forall>x \<in> set ?labels. label_ok x" "2 \<le> length ?labels" using hs assms(3) by auto
    from splice_path [OF this(1) _ this(2)] that(2) have "label_ok l \<and> path l = spliced_path ?labels"
      by (auto split: if_splits)
    then show ?thesis using hs(2) by (simp add: spliced_path_def rev_map comp_def)
  qed
  then show ?thesis using r(1) by (auto simp: compute_routing_label_def ok_iff Let_def)
qed

lemma compute_route_ok:
  assumes "links_table_ok (nodes_by_ip s)" and "\<And>ip. \<not> self_linked s ip" and "finite (dom g)"
  shows "\<exists>res. compute_route use_old s g src dst = Some res \<and> (\<forall>rt. res = Ok rt \<longrightarrow> route_ok g (node_ipv6 dst) (node_ipv6 src) rt)"
proof -
  obtain p where p: "reverse_path cost_zero cost_add g (node_ipv6 dst) (node_ipv6 src) = Some (Ok p)"
    "p = [] \<longleftrightarrow> node_ipv6 src = node_ipv6 dst \<or> \<not> reachable cost_zero cost_add g (node_ipv6 dst) (node_ipv6 src)"
    "p \<noteq> [] \<longrightarrow> hd p = node_ipv6 src \<and> last p = node_ipv6 dst \<and> shortest cost_zero cost_add g (node_ipv6 dst) p"
    using reverse_path_ok [OF costs_ok assms(3)] by blast
  show ?thesis
  proof (cases "p = []")
    case True
    then show ?thesis using p(1) by (simp add: compute_route_def)
  next
    case False
    then have ends: "hd p = node_ipv6 src" "last p = node_ipv6 dst" "node_ipv6 src \<noteq> node_ipv6 dst" using p(2,3) by auto
    have "2 \<le> length p" using False ends by (cases p; cases "tl p") auto
    then obtain res where res: "compute_routing_label use_old s p = Some res"
      "\<forall>l hs. res = Ok (l, hs) \<longrightarrow> length hs = length p - 1 \<and> label_ok l \<and> path l = concat (map (\<lambda>h. path (rh_label h)) hs)"
      using compute_routing_label_ok [OF assms(1,2)] by blast
    then show ?thesis using p(1,3) False ends
      by (cases res) (auto simp: compute_route_def route_ok_def)
  qed
qed

section \<open>The route cache\<close>

definition routing_ok :: "routing \<Rightarrow> bool" where
  "routing_ok r \<longleftrightarrow> (case solver r of
      None \<Rightarrow> route_cache r = Map.empty
    | Some g \<Rightarrow> finite (dom g) \<and> (\<forall>dst src rt. route_cache r (dst, src) = Some (Some rt) \<longrightarrow> route_ok g dst src rt))"

definition rebuild_due :: "nat \<Rightarrow> routing \<Rightarrow> bool" where
  "rebuild_due now r \<longleftrightarrow> last_rebuild r + REBUILD_INTERVAL < now \<or> solver r = None"

lemma get_route_impl_ok:
  assumes "links_table_ok (nodes_by_ip s)" and "order_ok order" and "routing_ok r" and "\<And>ip. \<not> self_linked s ip"
  shows "\<exists>res r' g. get_route_impl use_old order now s src dst r = Some (res, r') \<and> routing_ok r' \<and> solver r' = Some g
    \<and> (if rebuild_due now r then mutual_links s g else solver r = Some g)
    \<and> (\<forall>rt. res = Ok rt \<longrightarrow> route_ok g (node_ipv6 dst) (node_ipv6 src) rt)"
proof -
  have "\<exists>r1 g. rebuild order now s r = Some (Ok r1) \<and> solver r1 = Some g \<and> routing_ok r1
      \<and> (if rebuild_due now r then mutual_links s g else solver r = Some g)"
  proof (cases "rebuild_due now r")
    case True
    obtain g where g: "build_node_graph order s = Some (Ok g)" "mutual_links s g"
      using build_graph [OF assms(1,2)] assms(4) by auto
    then have "rebuild order now s r = Some (Ok \<lparr>last_rebuild = now, route_cache = Map.empty, solver = Some g\<rparr>)"
      using True by (simp add: rebuild_def rebuild_due_def)
    then show ?thesis using g True mutual_links_finite [OF assms(1) g(2)] by (simp add: routing_ok_def)
  next
    case False
    then show ?thesis using assms(3) by (auto simp: rebuild_def rebuild_due_def)
  qed
  then obtain r1 g where r1: "rebuild order now s r = Some (Ok r1)" "solver r1 = Some g" "routing_ok r1"
    "if rebuild_due now r then mutual_links s g else solver r = Some g" by blast
  then have fin: "finite (dom g)" by (simp add: routing_ok_def)
  let ?key = "(node_ipv6 dst, node_ipv6 src)"
  show ?thesis
  proof (cases "\<exists>rt. route_cache r1 ?key = Some (Some rt)")
    case True
    then obtain rt where rt: "route_cache r1 ?key = Some (Some rt)" by blast
    then have "route_ok g (node_ipv6 dst) (node_ipv6 src) rt" using r1(2,3) by (simp add: routing_ok_def)
    then show ?thesis using r1 rt by (intro exI [of _ "Ok rt"] exI [of _ r1] exI [of _ g]) (simp add: get_route_impl_def Let_def)
  next
    case False
    obtain res where res: "compute_route use_old s g src dst = Some res"
      "\<forall>rt. res = Ok rt \<longrightarrow> route_ok g (node_ipv6 dst) (node_ipv6 src) rt"
      using compute_route_ok [OF assms(1,4) fin] by blast
    define r2 where "r2 = (case res of Ok rt \<Rightarrow> r1\<lparr>route_cache := (route_cache r1)(?key \<mapsto> Some rt)\<rparr>
        | Err _ \<Rightarrow> r1\<lparr>route_cache := (route_cache r1)(?key \<mapsto> None)\<rparr> | Panic \<Rightarrow> r1)"
    have "get_route_impl use_old order now s src dst r = Some (res, r2)"
      using r1(1,2) False res(1) by (auto simp: get_route_impl_def Let_def r2_def split: option.split)
    moreover have "routing_ok r2" "solver r2 = Some g"
      using r1(2,3) res(2) by (cases res; simp add: r2_def routing_ok_def)+
    ultimately show ?thesis using r1(4) res(2) by (intro exI [of _ res] exI [of _ r2] exI [of _ g]) simp
  qed
qed


lemma get_route_impl_hangs:
  assumes "links_table_ok (nodes_by_ip s)" and "order_ok order" and "rebuild_due now r" and "self_linked s ip"
  shows "get_route_impl use_old order now s src dst r = None"
proof -
  have "\<exists>ip. self_linked s ip" using assms(4) by blast
  then have "build_node_graph order s = None" using build_graph [OF assms(1,2)] by (simp only: if_True)
  then have "rebuild order now s r = None" using assms(3) by (simp add: rebuild_def rebuild_due_def)
  then show ?thesis by (simp add: get_route_impl_def)
qed

lemma routing_new_ok: "routing_ok (routing_new now)" "rebuild_due now' (routing_new now)"
  by (simp_all add: routing_new_def routing_ok_def rebuild_due_def)

text \<open>A table for examples: nodes with links to given peers.\<close>

definition demo_link :: link where
  "demo_link = new_link reset_ann (sample_peer None) (RoutingLabel 21)"

definition demo_node :: "ip6 \<Rightarrow> ip6 \<Rightarrow> node" where
  "demo_node ip pip = \<lparr>node_type = NodeType_Node, node_version = 18, node_key = replicate 32 0, node_ipv6 = ip, node_scheme = F4,
     inward_links = [pip \<mapsto> [demo_link]], node_timestamp = 0, node_anns = [reset_ann], state_hash = None, reset_msg = Some reset_ann\<rparr>"

definition demo_table :: "(ip6 \<Rightarrow> node option) \<Rightarrow> server" where
  "demo_table t = (server_new (peers_new 0))\<lparr>nodes_by_ip := t\<rparr>"

lemma demo_links_ok: "links_ok [pip \<mapsto> [demo_link]]"
  by (simp add: links_ok_def demo_link_def new_link_ok)

section \<open>Properties\<close>

text \<open>C3: if no node is linked to itself, a route lookup returns, whatever is in the cache. After a
  rebuild the graph has exactly the mutual links, each at the reciprocal of the best value announced
  for it. A route that is returned, from the cache or computed, is a walk of least cost in the
  graph, between the two nodes, with one hop for each of its steps, and its label leads along the
  labels of the hops, one after the other.\<close>

theorem route_is_shortest:
  assumes "links_table_ok (nodes_by_ip s)" and "order_ok order" and "routing_ok r" and "\<And>ip. \<not> self_linked s ip"
  shows "\<exists>res r' g. get_route_impl use_old order now s src dst r = Some (res, r') \<and> routing_ok r' \<and> solver r' = Some g
    \<and> (if rebuild_due now r then mutual_links s g else solver r = Some g)
    \<and> (\<forall>rt. res = Ok rt \<longrightarrow> route_ok g (node_ipv6 dst) (node_ipv6 src) rt)"
  using assms by (rule get_route_impl_ok)

lemma route_is_shortest_witness:
  "\<exists>res r' g w. get_route_impl True demo_order 0 (demo_table [[1] \<mapsto> demo_node [1] [2], [2] \<mapsto> demo_node [2] [1]])
       (demo_node [1] [2]) (demo_node [2] [1]) (routing_new 0) = Some (res, r')
     \<and> solver r' = Some g \<and> edge g [1] [2] w \<and> edge g [2] [1] w"
proof -
  let ?s = "demo_table [[1] \<mapsto> demo_node [1] [2], [2] \<mapsto> demo_node [2] [1]]"
  have t: "links_table_ok (nodes_by_ip ?s)"
    using demo_links_ok by (auto simp: links_table_ok_def demo_table_def demo_node_def)
  have "\<not> self_linked ?s ip" for ip by (simp add: self_linked_def demo_table_def demo_node_def)
  from route_is_shortest [OF t demo_order_ok routing_new_ok(1) this, of True 0 "demo_node [1] [2]" "demo_node [2] [1]" 0]
  obtain res r' g where "get_route_impl True demo_order 0 ?s (demo_node [1] [2]) (demo_node [2] [1]) (routing_new 0) = Some (res, r')"
    "solver r' = Some g" "mutual_links ?s g"
    using routing_new_ok(2) by auto
  moreover have "mutual ?s [1] [2] [demo_link]" "mutual ?s [2] [1] [demo_link]"
    by (simp_all add: mutual_def demo_table_def demo_node_def)
  ultimately show ?thesis by (auto simp: mutual_links_def)
qed

text \<open>C4: a route lookup that has to rebuild the graph returns exactly if no node is linked to itself.
  A node that announces a peer with its own address is: the rebuild then waits for a lock that it
  holds, with the lock of the server state taken, and the supernode stands still.\<close>

theorem route_lookup_hangs_iff:
  assumes "links_table_ok (nodes_by_ip s)" and "order_ok order" and "routing_ok r" and "rebuild_due now r"
  shows "get_route_impl use_old order now s src dst r = None \<longleftrightarrow> (\<exists>ip. self_linked s ip)"
  using get_route_impl_hangs [OF assms(1,2,4)] get_route_impl_ok [OF assms(1-3), of use_old now src dst] by (metis option.distinct(1))

lemma route_lookup_hangs_iff_witness:
  "get_route_impl False demo_order 0 (demo_table [[1] \<mapsto> demo_node [1] [1]]) (demo_node [1] [1]) (demo_node [1] [1]) (routing_new 0) = None"
proof -
  have "links_table_ok (nodes_by_ip (demo_table [[1] \<mapsto> demo_node [1] [1]]))"
    using demo_links_ok by (auto simp: links_table_ok_def demo_table_def demo_node_def)
  moreover have "self_linked (demo_table [[1] \<mapsto> demo_node [1] [1]]) [1]"
    by (simp add: self_linked_def demo_table_def demo_node_def)
  ultimately show ?thesis
    using route_lookup_hangs_iff [OF _ demo_order_ok routing_new_ok] by blast
qed

end
