(* ===== verification/Strconv.thy ===== *)
theory Strconv
  imports Labels Text
begin

text \<open>
  \<^verbatim>\<open>cjdns-core/src/strconv.rs\<close>: routing labels as text, in groups of 16 bits separated by dots.
  The source repeats each conversion for \<open>u32\<close>, \<open>u64\<close> and \<open>u128\<close> with 2, 4 and 8 groups; the
  model is one definition in the width. The regular expressions match a whole string made of
  the right number of groups of four hexadecimal digits.
\<close>

datatype label_error = MalformedRoutingLabelStringValue | ZeroRoutingLabel

section \<open>Formatting\<close>

definition group_count :: "'l::len itself \<Rightarrow> nat" where
  "group_count T = LENGTH('l) div 16"

definition label_groups :: "'l::len word \<Rightarrow> nat list" where
  "label_groups b = map (\<lambda>i. unat (drop_bit (16 * i) b AND 0xFFFF)) (rev [0..<group_count TYPE('l)])"

fun join_dots :: "string list \<Rightarrow> string" where
  "join_dots [] = []"
| "join_dots [g] = g"
| "join_dots (g # gs) = g @ CHR ''.'' # join_dots gs"

definition fmt_lower_hex :: "'l::len word routing_label \<Rightarrow> string" where
  "fmt_lower_hex l = join_dots (map (\<lambda>g. map lower_digit (digits 16 4 g)) (label_groups (bits l)))"

definition fmt_upper_hex :: "'l::len word routing_label \<Rightarrow> string" where
  "fmt_upper_hex l = join_dots (map (\<lambda>g. map upper_digit (digits 16 4 g)) (label_groups (bits l)))"

definition fmt_binary :: "'l::len word routing_label \<Rightarrow> string" where
  "fmt_binary l = join_dots (map (\<lambda>g. map lower_digit (digits 2 16 g)) (label_groups (bits l)))"

definition label_to_string :: "'l::len word routing_label \<Rightarrow> string" where
  "label_to_string l = fmt_lower_hex l"

section \<open>Parsing\<close>

fun capture_groups :: "nat \<Rightarrow> string \<Rightarrow> string list option" where
  "capture_groups 0 s = None"
| "capture_groups (Suc 0) s = (if length s = 4 \<and> list_all is_xdigit s then Some [s] else None)"
| "capture_groups (Suc (Suc n)) s =
     (if 5 \<le> length s \<and> list_all is_xdigit (take 4 s) \<and> s ! 4 = CHR ''.''
      then map_option (Cons (take 4 s)) (capture_groups (Suc n) (drop 5 s)) else None)"

definition capture_val :: "string \<Rightarrow> 'l::len word" where
  "capture_val s = word_of_nat (digits_val 16 (map xdigit_val s))"

fun or_groups :: "string list \<Rightarrow> 'l::len word" where
  "or_groups [] = 0"
| "or_groups (g # gs) = push_bit (16 * length gs) (capture_val g) OR or_groups gs"

definition label_try_from_str :: "string \<Rightarrow> ('l::len word routing_label, label_error) result" where
  "label_try_from_str value =
     (case capture_groups (group_count TYPE('l)) value of
        Some gs \<Rightarrow> ok_or (label_try_new (or_groups gs)) ZeroRoutingLabel
      | None \<Rightarrow> Err MalformedRoutingLabelStringValue)"

section \<open>Groups of a label\<close>

lemma capture_groups_join:
  "gs \<noteq> [] \<Longrightarrow> \<forall>g \<in> set gs. length g = 4 \<and> list_all is_xdigit g \<Longrightarrow>
   capture_groups (length gs) (join_dots gs) = Some gs"
proof (induction gs rule: join_dots.induct)
  case (3 g h gs)
  then show ?case by (simp add: nth_append)
qed auto

lemma capture_groups_Some:
  "capture_groups n s = Some gs \<Longrightarrow>
   s = join_dots gs \<and> length gs = n \<and> gs \<noteq> [] \<and> (\<forall>g \<in> set gs. length g = 4 \<and> list_all is_xdigit g)"
proof (induction n s arbitrary: gs rule: capture_groups.induct)
  case (3 n s)
  from "3.prems" obtain hs where h: "capture_groups (Suc n) (drop 5 s) = Some hs" "gs = take 4 s # hs"
    and s: "5 \<le> length s" "list_all is_xdigit (take 4 s)" "s ! 4 = CHR ''.''"
    by (auto split: if_splits)
  have "s = take 4 s @ s ! 4 # drop 5 s"
    using s(1) id_take_nth_drop [of 4 s] by simp
  moreover from "3.IH" [OF _ h(1)] s have IH: "drop 5 s = join_dots hs \<and> length hs = Suc n \<and> hs \<noteq> []
      \<and> (\<forall>g \<in> set hs. length g = 4 \<and> list_all is_xdigit g)" by simp
  ultimately show ?case using h(2) s by (cases hs) auto
qed (auto split: if_splits)

lemma capture_val_less:
  "length g = 4 \<Longrightarrow> list_all is_xdigit g \<Longrightarrow> digits_val 16 (map xdigit_val g) < 2 ^ 16"
  using digits_val_less [of "map xdigit_val g" 16] by (auto simp: list_all_iff)

lemma bit_or_groups:
  assumes "\<forall>g \<in> set gs. length g = 4 \<and> list_all is_xdigit g" and "16 * length gs \<le> LENGTH('l::len)"
  shows "bit (or_groups gs :: 'l word) i \<longleftrightarrow> i < 16 * length gs
    \<and> bit (digits_val 16 (map xdigit_val (rev gs ! (i div 16)))) (i mod 16)"
  using assms
proof (induction gs)
  case Nil
  then show ?case by simp
next
  case (Cons g gs)
  let ?v = "digits_val 16 (map xdigit_val g)"
  have small: "\<not> bit ?v k" if "16 \<le> k" for k
  proof -
    have "?v < 2 ^ k"
      using capture_val_less [of g] Cons.prems(1) power_increasing [OF that, of "2::nat"] by simp
    then show ?thesis by (simp add: bit_iff_odd)
  qed
  have IH: "bit (or_groups gs :: 'l word) i \<longleftrightarrow> i < 16 * length gs
    \<and> bit (digits_val 16 (map xdigit_val (rev gs ! (i div 16)))) (i mod 16)"
    using Cons by simp
  have g: "bit (push_bit (16 * length gs) (capture_val g :: 'l word)) i \<longleftrightarrow>
      i < LENGTH('l) \<and> 16 * length gs \<le> i \<and> bit ?v (i - 16 * length gs)"
    by (auto simp: capture_val_def bit_push_bit_iff bit_of_nat_iff possible_bit_def)
  show ?case
  proof (cases "i < 16 * length gs")
    case True
    then show ?thesis using IH g by (simp add: bit_or_iff nth_append less_mult_imp_div_less mult.commute)
  next
    case False
    then obtain k where k: "i = 16 * length gs + k" using le_Suc_ex not_less by blast
    show ?thesis
    proof (cases "k < 16")
      case True
      then show ?thesis
        using IH g Cons.prems(2) by (simp add: bit_or_iff k nth_append)
    next
      case False
      then show ?thesis using IH g small [of k] by (simp add: bit_or_iff k)
    qed
  qed
qed

lemma length_label_groups [simp]: "length (label_groups (b :: 'l::len word)) = group_count TYPE('l)"
  by (simp add: label_groups_def)

lemma bit_FFFF: "bit (0xFFFF :: 'a::len word) i \<longleftrightarrow> i < 16 \<and> i < LENGTH('a)"
proof -
  have "(0xFFFF :: 'a word) = mask 16" by (simp add: mask_eq_exp_minus_1)
  then show ?thesis by (simp only: bit_mask_iff possible_bit_def) auto
qed

lemma bit_FFFF_nat: "bit (0xFFFF :: nat) i \<longleftrightarrow> i < 16"
proof -
  have "(0xFFFF :: nat) = mask 16" by (simp add: mask_eq_exp_minus_1)
  then show ?thesis by (simp only: bit_mask_iff possible_bit_def) auto
qed

lemma bit_FFFF_int: "bit (0xFFFF :: int) i \<longleftrightarrow> i < 16"
proof -
  have "(0xFFFF :: int) = mask 16" by (simp add: mask_eq_exp_minus_1)
  then show ?thesis by (simp only: bit_mask_iff possible_bit_def) auto
qed

lemma label_groups_less: "g \<in> set (label_groups b) \<Longrightarrow> g < 2 ^ 16"
proof -
  have "unat (w AND 0xFFFF) < 2 ^ 16" for w :: "'a word"
  proof (rule unat_less_of_bits)
    fix i :: nat
    assume i: "16 \<le> i"
    then show "\<not> bit (w AND 0xFFFF) i" by (simp add: bit_and_iff bit_FFFF bit_FFFF_nat bit_FFFF_int)
  qed
  then show "g \<in> set (label_groups b) \<Longrightarrow> g < 2 ^ 16" by (auto simp: label_groups_def)
qed

lemma bit_label_groups:
  assumes "i < LENGTH('l)" and "16 dvd LENGTH('l)"
  shows "bit (rev (label_groups (b :: 'l::len word)) ! (i div 16)) (i mod 16) \<longleftrightarrow> bit b i"
proof -
  have "i div 16 < group_count TYPE('l)"
    using assms by (auto simp: group_count_def dvd_def)
  then have "rev (label_groups b) ! (i div 16) = unat (drop_bit (16 * (i div 16)) b AND 0xFFFF)"
    by (simp add: label_groups_def rev_map)
  moreover have "i mod 16 < LENGTH('l)" using assms(1) mod_less_eq_dividend [of i 16] by linarith
  ultimately show ?thesis
    by (simp add: bit_unsigned_iff bit_and_iff bit_FFFF bit_FFFF_nat bit_FFFF_int bit_drop_bit_eq)
qed

lemma parse_groups:
  fixes l :: "'l::len word routing_label"
  assumes "label_ok l" and "16 dvd LENGTH('l)"
    and "\<And>d. d < 16 \<Longrightarrow> is_xdigit (c d) \<and> xdigit_val (c d) = d"
  shows "label_try_from_str (join_dots (map (\<lambda>g. map c (digits 16 4 g)) (label_groups (bits l)))) = Ok l"
proof -
  let ?gs = "map (\<lambda>g. map c (digits 16 4 g)) (label_groups (bits l))"
  have pos: "0 < group_count TYPE('l)" using assms(2) len_gt_0 [where 'a = 'l] by (auto simp: group_count_def dvd_def simp del: len_gt_0)
  have d16: "d < 16" if "d \<in> set (digits 16 4 g)" for d g using digits_less [OF _ that] by simp
  have ok: "\<forall>g \<in> set ?gs. length g = 4 \<and> list_all is_xdigit g"
    using assms(3) d16 by (auto simp: list_all_iff)
  have val: "digits_val 16 (map xdigit_val (map c (digits 16 4 g))) = g" if "g \<in> set (label_groups (bits l))" for g
  proof -
    have "map xdigit_val (map c (digits 16 4 g)) = digits 16 4 g"
      using assms(3) d16 by (auto simp: map_idI)
    then show ?thesis using label_groups_less [OF that] by simp
  qed
  have "or_groups ?gs = bits l"
  proof (rule bit_word_eqI)
    fix i
    assume i: "i < LENGTH('l)"
    then have "i div 16 < group_count TYPE('l)" "i < 16 * group_count TYPE('l)"
      using assms(2) by (auto simp: group_count_def dvd_def)
    then show "bit (or_groups ?gs :: 'l word) i \<longleftrightarrow> bit (bits l) i"
      using bit_or_groups [OF ok, where ?'l = 'l, of i] bit_label_groups [OF i assms(2), of "bits l"] assms(2)
        val [of "rev (label_groups (bits l)) ! (i div 16)"]
      by (simp add: rev_map nth_mem [of "i div 16" "rev (label_groups (bits l))", simplified] group_count_def)
  qed
  moreover have "label_groups (bits l) \<noteq> []"
    using pos by (metis length_0_conv length_label_groups less_irrefl)
  ultimately show ?thesis
    using capture_groups_join [of ?gs] ok pos assms(1)
    by (cases l) (simp add: label_try_from_str_def label_ok_def)
qed


lemma groups_of_parse:
  fixes gs :: "string list"
  assumes "\<forall>g \<in> set gs. length g = 4 \<and> list_all is_xdigit g" and "length gs = group_count TYPE('l::len)"
    and "16 dvd LENGTH('l)"
  shows "label_groups (or_groups gs :: 'l word) = map (\<lambda>g. digits_val 16 (map xdigit_val g)) gs"
proof (rule nth_equalityI)
  show "length (label_groups (or_groups gs :: 'l word)) = length (map (\<lambda>g. digits_val 16 (map xdigit_val g)) gs)"
    using assms(2) by simp
  fix k
  assume "k < length (label_groups (or_groups gs :: 'l word))"
  then have k: "k < length gs" "k < group_count TYPE('l)" using assms(2) by simp_all
  define j where "j = length gs - 1 - k"
  have j: "j < length gs" "rev gs ! j = gs ! k" using k(1) by (simp_all add: j_def rev_nth)
  have len: "LENGTH('l) = 16 * length gs" using assms(2,3) by (simp add: group_count_def)
  have "rev [0..<group_count TYPE('l)] ! k = j"
    using k assms(2) by (simp add: rev_nth j_def)
  then have "label_groups (or_groups gs :: 'l word) ! k = unat (drop_bit (16 * j) (or_groups gs :: 'l word) AND 0xFFFF)"
    using k by (simp add: label_groups_def)
  also have "\<dots> = digits_val 16 (map xdigit_val (gs ! k))"
  proof (rule bit_eqI)
    fix n
    have small: "\<not> bit (digits_val 16 (map xdigit_val (gs ! k))) n" if "16 \<le> n"
    proof -
      have "digits_val 16 (map xdigit_val (gs ! k)) < 2 ^ n"
        using capture_val_less [of "gs ! k"] assms(1) k(1) power_increasing [OF that, of "2::nat"] by simp
      then show ?thesis by (simp add: bit_iff_odd)
    qed
    have b: "bit (or_groups gs :: 'l word) (16 * j + n) \<longleftrightarrow> bit (digits_val 16 (map xdigit_val (gs ! k))) n" if "n < 16"
      using bit_or_groups [OF assms(1), where ?'l = 'l, of "16 * j + n"] that j len by simp
    show "bit (unat (drop_bit (16 * j) (or_groups gs :: 'l word) AND 0xFFFF)) n
        \<longleftrightarrow> bit (digits_val 16 (map xdigit_val (gs ! k))) n"
      using small b len j(1) by (cases "n < 16")
        (auto simp: bit_unsigned_iff bit_and_iff bit_FFFF bit_FFFF_nat bit_FFFF_int bit_drop_bit_eq)
  qed
  finally show "label_groups (or_groups gs :: 'l word) ! k = map (\<lambda>g. digits_val 16 (map xdigit_val g)) gs ! k"
    using k(1) by simp
qed

lemma map_join_dots: "f CHR ''.'' = CHR ''.'' \<Longrightarrow> map f (join_dots gs) = join_dots (map (map f) gs)"
  by (induction gs rule: join_dots.induct) auto

section \<open>Properties\<close>

text \<open>The text of a valid label, in lower or in upper case, parses back to the label, for every
  width that is a multiple of 16.\<close>

theorem label_text_roundtrip:
  fixes l :: "'l::len word routing_label"
  assumes "label_ok l" and "16 dvd LENGTH('l)"
  shows "label_try_from_str (label_to_string l) = Ok l \<and> label_try_from_str (fmt_upper_hex l) = Ok l"
  using parse_groups [OF assms, of lower_digit] parse_groups [OF assms, of upper_digit]
  by (simp add: label_to_string_def fmt_lower_hex_def fmt_upper_hex_def)

text \<open>A text that parses is the label's own text up to the case of its digits, and the label is
  not zero.\<close>

theorem label_text_canonical:
  assumes "label_try_from_str s = Ok (l :: 'l::len word routing_label)" and "16 dvd LENGTH('l)"
  shows "label_to_string l = map to_lower_char s \<and> label_ok l"
proof -
  from assms(1) obtain gs where gs: "capture_groups (group_count TYPE('l)) s = Some gs"
      and l: "l = RoutingLabel (or_groups gs)" "bits l \<noteq> 0"
    by (auto simp: label_try_from_str_def ok_iff split: option.splits)
  note c = capture_groups_Some [OF gs]
  have "map (\<lambda>g. map lower_digit (digits 16 4 g)) (label_groups (bits l)) = map (map to_lower_char) gs"
  proof -
    have "map lower_digit (digits 16 4 (digits_val 16 (map xdigit_val g))) = map to_lower_char g" if "g \<in> set gs" for g
    proof -
      have g: "length g = 4" "list_all is_xdigit g" using c that by auto
      have "digits 16 4 (digits_val 16 (map xdigit_val g)) = map xdigit_val g"
        using digits_digits_val [of "map xdigit_val g" 16] g by (auto simp: list_all_iff)
      then show ?thesis using g by (auto simp: list_all_iff lower_digit_xdigit_val)
    qed
    then show ?thesis
      using groups_of_parse [of gs, where ?'l = 'l] c assms(2) l(1) by simp
  qed
  then show ?thesis
    using c l(2) map_join_dots [of to_lower_char gs]
    by (simp add: label_to_string_def fmt_lower_hex_def label_ok_def) (simp add: to_lower_char_def)
qed

end
