(* ===== verification/Addr.thy ===== *)
theory Addr
  imports Strconv Keys
begin

text \<open>
  Names of nodes (\<^verbatim>\<open>cjdns-core/src/addr.rs\<close>): the protocol version, the label of the path to the
  node and its public key, as in \<open>v19.0000.0000.0000.0863.<52 characters>.k\<close>. The base 32 code of
  keys is a parameter, as in the theory of keys.
\<close>

record address =
  addr_version :: u16
  addr_label :: "u64 routing_label"
  addr_pubkey :: public_key

datatype address_error =
    NameDoesNotMatch
  | VersionDoesNotParse
  | LabelDoesNotParse label_error
  | KeyDoesNotParse key_creation_error

section \<open>Text\<close>

definition address_to_string :: "(bytes \<Rightarrow> string) \<Rightarrow> address \<Rightarrow> string" where
  "address_to_string base32_encode a =
     CHR ''v'' # dec_string (unat (addr_version a)) @ CHR ''.'' # label_to_string (addr_label a)
       @ CHR ''.'' # public_key_to_string base32_encode (addr_pubkey a)"

text \<open>
  The groups that \<open>NODE_NAME_RE\<close> captures. The expression is anchored at the start only, so anything
  may follow the key. The digits of the version end at the dot that must follow them.
\<close>

definition node_name_captures :: "string \<Rightarrow> (string \<times> string \<times> string) option" where
  "node_name_captures name =
     (case name of
        [] \<Rightarrow> None
      | v # name \<Rightarrow>
          let version = takeWhile is_dec_digit name;
              r1 = drop (length version) name;
              r2 = drop 20 r1 in
          if v = CHR ''v'' \<and> version \<noteq> [] \<and> take 1 r1 = ''.'' \<and> capture_groups 4 (take 19 (drop 1 r1)) \<noteq> None
             \<and> take 1 r2 = ''.'' \<and> key_re_at (drop 1 r2)
          then Some (version, take 19 (drop 1 r1), take 54 (drop 1 r2))
          else None)"

text \<open>\<open>str::parse::<u16>\<close> on a string of digits.\<close>

definition parse_u16 :: "string \<Rightarrow> u16 option" where
  "parse_u16 s = (let n = digits_val 10 (map xdigit_val s) in if n < 2 ^ 16 then Some (word_of_nat n) else None)"

definition address_try_from_str :: "(string \<Rightarrow> bytes option) \<Rightarrow> string \<Rightarrow> (address, address_error) result" where
  "address_try_from_str base32_decode name =
     (case node_name_captures name of
        None \<Rightarrow> Err NameDoesNotMatch
      | Some (version, label, pubkey) \<Rightarrow>
          and_then (ok_or (parse_u16 version) VersionDoesNotParse) (\<lambda>version.
          and_then (map_err LabelDoesNotParse (label_try_from_str label)) (\<lambda>label.
          and_then (map_err KeyDoesNotParse (public_key_try_from_str base32_decode pubkey)) (\<lambda>pubkey.
          Ok \<lparr>addr_version = version, addr_label = label, addr_pubkey = pubkey\<rparr>))))"

section \<open>Decimal numbers\<close>

lemma dec_digit_facts:
  assumes "d < 10"
  shows "is_dec_digit (dec_digit d)" and "xdigit_val (dec_digit d) = d"
  using assms by (auto simp: dec_digit_def is_dec_digit_def xdigit_val_def)

lemma dec_string_facts:
  "dec_string n \<noteq> [] \<and> list_all is_dec_digit (dec_string n) \<and> digits_val 10 (map xdigit_val (dec_string n)) = n"
proof (induction n rule: dec_string.induct)
  case (1 n)
  show ?case
  proof (cases "n < 10")
    case True
    then show ?thesis
      by (subst (1 2 3) dec_string.simps) (simp add: dec_digit_facts digits_val_def)
  next
    case False
    then show ?thesis
      using 1 [OF False]
      by (subst (1 2 3) dec_string.simps) (auto simp: dec_digit_facts digits_val_snoc)
  qed
qed

lemma parse_u16_dec_string: "parse_u16 (dec_string (unat (v :: u16))) = Some v"
  using dec_string_facts [of "unat v"] unsigned_less [of v, where ?'a = nat] by (simp add: parse_u16_def)

section \<open>Names of addresses\<close>

text \<open>What is used of the base 32 code: it can be undone, and the code of a key is 52 characters.\<close>

definition base32_ok :: "(bytes \<Rightarrow> string) \<Rightarrow> (string \<Rightarrow> bytes option) \<Rightarrow> bool" where
  "base32_ok enc dec \<longleftrightarrow>
     (\<forall>k. length k = 32 \<longrightarrow> length (enc k) = 52 \<and> list_all is_key_char (enc k) \<and> dec (enc k) = Some k)"

lemma key_re_here: "key_re_at s \<Longrightarrow> public_key_re s"
  by (cases s) (auto simp: key_re_at_def)

lemma key_text:
  assumes "base32_ok enc dec" and "length k = 32"
  shows "key_re_at (public_key_to_string enc k @ rest)" and "length (public_key_to_string enc k) = 54"
    and "public_key_try_from_str dec (public_key_to_string enc k) = Ok k"
proof -
  from assms have e: "length (enc k) = 52" "list_all is_key_char (enc k)" "dec (enc k) = Some k"
    by (auto simp: base32_ok_def)
  then show "length (public_key_to_string enc k) = 54" by (simp add: public_key_to_string_def)
  have key: "key_re_at (public_key_to_string enc k @ rest)" for rest
    using e by (simp add: key_re_at_def public_key_to_string_def)
  then show "key_re_at (public_key_to_string enc k @ rest)" .
  from key [of "[]"] have "public_key_re (public_key_to_string enc k)" by (simp add: key_re_here)
  then show "public_key_try_from_str dec (public_key_to_string enc k) = Ok k"
    using e assms(2) by (simp add: public_key_try_from_str_def public_key_to_string_def vec_to_array_def)
qed

lemma length_join_dots:
  "gs \<noteq> [] \<Longrightarrow> \<forall>g \<in> set gs. length g = 4 \<Longrightarrow> length (join_dots gs) + 1 = 5 * length gs"
  by (induction gs rule: join_dots.induct) auto

lemma label_text:
  assumes "label_ok (l :: u64 routing_label)"
  shows "length (label_to_string l) = 19" and "capture_groups 4 (label_to_string l) \<noteq> None"
    and "label_try_from_str (label_to_string l) = Ok l"
proof -
  show ok: "label_try_from_str (label_to_string l) = Ok l"
    using parse_groups [OF assms, of lower_digit] by (simp add: label_to_string_def fmt_lower_hex_def)
  then obtain gs where gs: "capture_groups (group_count TYPE(64)) (label_to_string l) = Some gs"
    by (auto simp: label_try_from_str_def split: option.splits)
  then show "capture_groups 4 (label_to_string l) \<noteq> None" by (simp add: group_count_def)
  show "length (label_to_string l) = 19"
    using capture_groups_Some [OF gs] length_join_dots [of gs] by (auto simp: group_count_def)
qed

lemma dot_no_digit: "\<not> is_dec_digit CHR ''.''"
  by (simp add: is_dec_digit_def)

lemma captures_of_name:
  assumes "list_all is_dec_digit ver" and "ver \<noteq> []" and "length lab = 19" and "capture_groups 4 lab \<noteq> None"
    and "key_re_at (key @ rest)" and "length key = 54"
  shows "node_name_captures (CHR ''v'' # ver @ CHR ''.'' # lab @ CHR ''.'' # key @ rest) = Some (ver, lab, key)"
proof -
  have "takeWhile is_dec_digit (ver @ CHR ''.'' # s) = ver" for s
    using assms(1) dot_no_digit by (simp add: takeWhile_append list_all_iff)
  then show ?thesis
    using assms(2-6) by (simp add: node_name_captures_def Let_def)
qed

section \<open>Properties\<close>

text \<open>The name of a node parses back to its version, label and key, whatever follows the name.\<close>

theorem address_roundtrip:
  assumes "base32_ok enc dec" and "length (addr_pubkey a) = 32" and "label_ok (addr_label a)"
  shows "address_try_from_str dec (address_to_string enc a @ rest) = Ok a"
  using captures_of_name [of "dec_string (unat (addr_version a))" "label_to_string (addr_label a)"
      "public_key_to_string enc (addr_pubkey a)" rest]
    dec_string_facts [of "unat (addr_version a)"] label_text [OF assms(3)] key_text [OF assms(1,2)]
  by (simp add: address_try_from_str_def address_to_string_def parse_u16_dec_string)

text \<open>A code of keys for the example: the key as a number, in base 32 with digits and letters.\<close>

definition demo_encode :: "bytes \<Rightarrow> string" where
  "demo_encode k = map lower_digit (digits 32 52 (digits_val 256 (map unat k)))"

definition demo_decode :: "string \<Rightarrow> bytes option" where
  "demo_decode s = Some (map word_of_nat (digits 256 32 (digits_val 32 (map xdigit_val s))))"

lemma lower_digit_32:
  assumes "d < 32"
  shows "is_key_char (lower_digit d)" and "xdigit_val (lower_digit d) = d"
  using assms by (auto simp: is_key_char_def is_dec_digit_def lower_digit_def xdigit_val_def)

lemma demo_base32: "base32_ok demo_encode demo_decode"
  unfolding base32_ok_def
proof (intro allI impI conjI)
  fix k :: bytes
  assume k: "length k = 32"
  let ?n = "digits_val 256 (map unat k)"
  have d: "\<forall>d \<in> set (digits 32 52 ?n). d < 32" by (auto dest: digits_less [rotated])
  show "length (demo_encode k) = 52" by (simp add: demo_encode_def)
  show "list_all is_key_char (demo_encode k)"
    using d by (auto simp: demo_encode_def list_all_iff lower_digit_32)
  have bytes: "\<forall>b \<in> set (map unat k). b < 256"
    using unsigned_less [where ?'b = 8 and ?'a = nat] by auto
  have "?n < 256 ^ 32" using digits_val_less [OF bytes] k by simp
  also have "(256 :: nat) ^ 32 \<le> 32 ^ 52" by simp
  finally have n: "?n mod 32 ^ 52 = ?n" by simp
  have "map xdigit_val (demo_encode k) = digits 32 52 ?n"
    using d by (simp add: demo_encode_def map_idI lower_digit_32)
  moreover have "digits 256 32 ?n = map unat k"
    using digits_digits_val [OF bytes] k by simp
  ultimately show "demo_decode (demo_encode k) = Some k"
    using n by (simp add: demo_decode_def o_def map_idI)
qed

definition demo_address :: address where
  "demo_address = \<lparr>addr_version = 19, addr_label = RoutingLabel 0x863, addr_pubkey = replicate 32 7\<rparr>"

end
