(* ===== verification/Service.thy ===== *)
theory Service
  imports Seeder_Inv Sniff Route Json Addr
begin

text \<open>
  \<^verbatim>\<open>cjdns-snode/src/server/service.rs\<close>: the messages of the local node. Route queries, announcements,
  questions for the state hash and posted credentials arrive as bencoded dictionaries, one datagram
  each, and are answered the same way. This is where the node table, the routes and the seeder meet,
  so the state is all three.

  What the code takes from outside is in two records: \<open>service_env\<close> holds what is fixed while the
  supernode runs and \<open>clock\<close> what the clocks show while one message is handled. A lookup that never
  returns makes the value \<open>None\<close>. An early return leaves the state as it was written by then.
\<close>

section \<open>State and surroundings\<close>

record supernode =
  sn_server :: server
  sn_routing :: routing
  sn_seeder :: seeder

record 's service_env =
  env_crypto :: "'s crypto"
  env_order :: key_order
  env_old_route :: bool
  env_pick :: "nat \<Rightarrow> nat"
  env_seeder :: seeder_config
  env_base32_decode :: "string \<Rightarrow> bytes option"
  env_seeder_error :: "seeder_error \<Rightarrow> bytes"

record clock =
  clk_system :: system_time
  clk_announce :: system_time
  clk_instant :: nat
  clk_sec :: nat

datatype service_error =
    SqExpected | NegativeVersion | TxidRequired | SelfNodeNotSet
  | SrcExpected | TarExpected | BadSrc key_creation_error | BadTar key_creation_error
  | AnnExpected | AnnounceFailed handler_error | PcExpected
  | SocketFailed | AnswerFailed send_error

text \<open>\<open>r.ok().flatten()\<close>\<close>

fun ok_flatten :: "('a option, 'e) result \<Rightarrow> 'a option" where
  "ok_flatten (Ok x) = x"
| "ok_flatten (Err e) = None"
| "ok_flatten Panic = None"

definition entry_bytes :: "(bytes \<times> object) list \<Rightarrow> string \<Rightarrow> 'e \<Rightarrow> (bytes, 'e) result" where
  "entry_bytes d k e = ok_or (ok_flatten (try_get_bstr dict_try_get_obj d (str_bytes k))) e"

definition put :: "string \<Rightarrow> object \<Rightarrow> (bytes \<times> object) list \<Rightarrow> (bytes \<times> object) list" where
  "put k v d = dict_insert (str_bytes k) v d"

text \<open>\<open>make_timestamp\<close>: a time before the epoch is a panic.\<close>

definition make_timestamp :: "system_time \<Rightarrow> (u64, 'e) result" where
  "make_timestamp t = (if t < 0 then Panic else Ok (word_of_int (t div 1000000)))"

definition set_current_node :: "ip6 option \<Rightarrow> supernode \<Rightarrow> supernode" where
  "set_current_node from_ip sn = sn\<lparr>sn_server := (sn_server sn)\<lparr>current_node := from_ip\<rparr>\<rparr>"

section \<open>Route queries\<close>

definition query_addresses :: "(bytes \<times> object) list \<Rightarrow> (ip6 \<times> ip6, service_error) result" where
  "query_addresses d =
     and_then (entry_bytes d ''src'' SrcExpected) (\<lambda>src.
     and_then (entry_bytes d ''tar'' TarExpected) (\<lambda>tar.
     and_then (map_err BadSrc (ip6_try_from_bytes src)) (\<lambda>src_ip.
     and_then (map_err BadTar (ip6_try_from_bytes tar)) (\<lambda>tar_ip.
     Ok (src_ip, tar_ip)))))"

text \<open>
  The label of the newest link from the source to the target, as the target announces it, and
  whether the source announces a peer with that number back.
\<close>

definition newest_link :: "link list \<Rightarrow> link option" where
  "newest_link links =
     (case links of
        [] \<Rightarrow> None
      | l # ls \<Rightarrow> Some (fold (\<lambda>nl rl. if create_time rl > create_time nl then rl else nl) ls l))"

definition peering_label :: "node option \<Rightarrow> ip6 \<Rightarrow> u64 routing_label option" where
  "peering_label tar src_ip =
     (case tar of
        None \<Rightarrow> None
      | Some node \<Rightarrow>
          (case inward_links node src_ip of
             None \<Rightarrow> None
           | Some links \<Rightarrow>
               (case newest_link links of
                  None \<Rightarrow> None
                | Some newest \<Rightarrow> label_try_new (ucast (bits (link_label newest))))))"

definition peering_confirmed :: "node option \<Rightarrow> ip6 \<Rightarrow> u64 routing_label option \<Rightarrow> bool" where
  "peering_confirmed src tar_ip lab =
     (case (src, lab) of
        (Some node, Some lab) \<Rightarrow>
          (case inward_links node tar_ip of
             Some links \<Rightarrow> list_ex (\<lambda>l. (ucast (link_peer_num l) :: u64) = bits lab) links
           | None \<Rightarrow> False)
      | _ \<Rightarrow> False)"

definition answered_label :: "route \<Rightarrow> u64 routing_label option \<Rightarrow> bool \<Rightarrow> u64 routing_label" where
  "answered_label rt lab confirmed =
     (case lab of
        Some lab \<Rightarrow>
          if lab = route_label rt \<and> confirmed then route_label rt
          else if confirmed then lab
          else route_label rt
      | None \<Rightarrow> route_label rt)"

definition route_reply ::
  "(route, routing_error) result \<Rightarrow> node option \<Rightarrow> node option \<Rightarrow> ip6 \<Rightarrow> ip6 \<Rightarrow> (bytes \<times> object) list \<Rightarrow> (bytes \<times> object) list" where
  "route_reply rt src tar src_ip tar_ip res =
     (let lab = peering_label tar src_ip;
          confirmed = peering_confirmed src tar_ip lab in
      case (rt, tar) of
        (Ok rt, Some tar) \<Rightarrow>
          put ''np'' (Object_Bytes [1, ucast (node_version tar)])
            (put ''n'' (Object_Bytes (node_key tar @ to_be_bytes (bits (answered_label rt lab confirmed)))) res)
      | _ \<Rightarrow> res)"

type_synonym 'a outcome = "(('a, service_error) result \<times> supernode) option"

definition handle_gr ::
  "'s service_env \<Rightarrow> clock \<Rightarrow> (bytes \<times> object) list \<Rightarrow> (bytes \<times> object) list \<Rightarrow> supernode
     \<Rightarrow> (bytes \<times> object) list outcome" where
  "handle_gr env clk d res sn =
     (case query_addresses d of
        Err e \<Rightarrow> Some (Err e, sn)
      | Panic \<Rightarrow> Some (Panic, sn)
      | Ok (src_ip, tar_ip) \<Rightarrow>
          (let src = by_ip (sn_server sn) src_ip; tar = by_ip (sn_server sn) tar_ip in
           case get_route (env_old_route env) (env_order env) (clk_instant clk) (sn_server sn) src tar (sn_routing sn) of
             None \<Rightarrow> None
           | Some (rt, r) \<Rightarrow>
               Some (if rt = Panic then Panic else Ok (route_reply rt src tar src_ip tar_ip res), sn\<lparr>sn_routing := r\<rparr>)))"

section \<open>The other queries\<close>

definition handle_ann ::
  "'s service_env \<Rightarrow> clock \<Rightarrow> (bytes \<times> object) list \<Rightarrow> (bytes \<times> object) list \<Rightarrow> supernode
     \<Rightarrow> ((bytes \<times> object) list, service_error) result \<times> supernode" where
  "handle_ann env clk d res sn =
     (case entry_bytes d ''ann'' AnnExpected of
        Err e \<Rightarrow> (Err e, sn)
      | Panic \<Rightarrow> (Panic, sn)
      | Ok ann \<Rightarrow>
          (case handle_announce_impl (env_crypto env) (env_order env) (clk_announce clk) ann True (sn_server sn) of (r, s) \<Rightarrow>
             (map_err AnnounceFailed (map_ok (\<lambda>(state_hash, reply_err).
                put ''error'' (Object_Bytes (str_bytes (reply_error_text reply_err)))
                  (put ''stateHash'' (Object_Bytes state_hash) res)) r),
              sn\<lparr>sn_server := s\<rparr>)))"

definition handle_pn :: "ip6 \<Rightarrow> (bytes \<times> object) list \<Rightarrow> server \<Rightarrow> (bytes \<times> object) list" where
  "handle_pn from_ip res s =
     (let res = put ''stateHash'' (Object_Bytes (replicate 64 0)) res in
      case by_ip s from_ip of
        None \<Rightarrow> res
      | Some node \<Rightarrow>
          (case state_hash node of
             Some h \<Rightarrow> put ''stateHash'' (Object_Bytes h) res
           | None \<Rightarrow> res))"

text \<open>\<open>String::truncate\<close> panics inside a character.\<close>

definition str_truncate :: "nat \<Rightarrow> bytes \<Rightarrow> (bytes, 'e) result" where
  "str_truncate n s =
     (if length s \<le> n then Ok s
      else if utf8_cont (s ! n) then Panic else Ok (take n s))"

definition handle_pc ::
  "'s service_env \<Rightarrow> clock \<Rightarrow> ip6 \<Rightarrow> (bytes \<times> object) list \<Rightarrow> (bytes \<times> object) list \<Rightarrow> supernode
     \<Rightarrow> ((bytes \<times> object) list, service_error) result \<times> supernode" where
  "handle_pc env clk from_ip d res sn =
     (case entry_bytes d ''pc'' PcExpected of
        Err e \<Rightarrow> (Err e, sn)
      | Panic \<Rightarrow> (Panic, sn)
      | Ok pc \<Rightarrow>
          (case post_credentials (sha512 (env_crypto env)) (env_pick env) (env_seeder env) (peer_info (sn_server sn))
               (clk_sec clk) from_ip pc (sn_seeder sn) of (r, m) \<Rightarrow>
             (case r of
                Ok reply \<Rightarrow> Ok (put ''pr'' (Object_Bytes reply) res)
              | Err e \<Rightarrow> map_ok (\<lambda>es. put ''err'' (Object_Bytes es) res) (str_truncate 128 (env_seeder_error env e))
              | Panic \<Rightarrow> Panic,
              sn\<lparr>sn_seeder := m\<rparr>)))"

definition handle_query ::
  "'s service_env \<Rightarrow> clock \<Rightarrow> bytes \<Rightarrow> ip6 \<Rightarrow> (bytes \<times> object) list \<Rightarrow> (bytes \<times> object) list \<Rightarrow> supernode
     \<Rightarrow> (bytes \<times> object) list option outcome" where
  "handle_query env clk sq from_ip d res sn =
     (if sq = str_bytes ''gr'' then map_option (\<lambda>(r, sn). (map_ok Some r, sn)) (handle_gr env clk d res sn)
      else if sq = str_bytes ''ann'' then (case handle_ann env clk d res sn of (r, sn) \<Rightarrow> Some (map_ok Some r, sn))
      else if sq = str_bytes ''pn'' then Some (Ok (Some (handle_pn from_ip res (sn_server sn))), sn)
      else if sq = str_bytes ''pc'' then (case handle_pc env clk from_ip d res sn of (r, sn) \<Rightarrow> Some (map_ok Some r, sn))
      else Some (Ok None, sn))"

section \<open>Messages\<close>

text \<open>The protocol version of the sender; a version in the message is cut to 32 bits.\<close>

definition sender_version :: "route_header \<Rightarrow> (bytes \<times> object) list \<Rightarrow> (u32 option, service_error) result" where
  "sender_version h d =
     (if rh_version h > 0 then Ok (Some (rh_version h))
      else (case ok_flatten (try_get_int dict_try_get_obj d (str_bytes ''p'')) of
              Some p \<Rightarrow> if p < 0 then Err NegativeVersion else Ok (Some (word_of_int p))
            | None \<Rightarrow> Ok None))"

definition reply_base :: "bytes \<Rightarrow> node \<Rightarrow> u64 \<Rightarrow> (bytes \<times> object) list" where
  "reply_base txid me t =
     put ''recvTime'' (Object_Integer (sint t))
       (put ''p'' (Object_Integer (uint (node_version me))) (put ''txid'' (Object_Bytes txid) []))"

text \<open>From the moment the sender is known.\<close>

definition answer_query ::
  "'s service_env \<Rightarrow> clock \<Rightarrow> bytes \<Rightarrow> u32 \<Rightarrow> ip6 \<Rightarrow> bytes \<Rightarrow> (bytes \<times> object) list \<Rightarrow> supernode
     \<Rightarrow> ((bytes \<times> object) list \<times> u32) option outcome" where
  "answer_query env clk sq version from_ip txid d sn =
     (let sn = set_current_node (Some from_ip) sn in
      case self_node (sn_server sn) of
        None \<Rightarrow> Some (Err SelfNodeNotSet, sn)
      | Some me \<Rightarrow>
          (case make_timestamp (clk_system clk) of
             Ok t \<Rightarrow>
               (case handle_query env clk sq from_ip d (reply_base txid me t) sn of
                  None \<Rightarrow> None
                | Some (Ok res, sn) \<Rightarrow> Some (Ok (map_option (\<lambda>res. (res, version)) res), set_current_node None sn)
                | Some (Err e, sn) \<Rightarrow> Some (Err e, sn)
                | Some (Panic, sn) \<Rightarrow> Some (Panic, sn))
           | Err e \<Rightarrow> Some (Err e, sn)
           | Panic \<Rightarrow> Some (Panic, sn)))"

definition on_subnode_message_impl ::
  "'s service_env \<Rightarrow> clock \<Rightarrow> route_header \<Rightarrow> (bytes \<times> object) list \<Rightarrow> supernode
     \<Rightarrow> ((bytes \<times> object) list \<times> u32) option outcome" where
  "on_subnode_message_impl env clk h d sn =
     (if \<not> get_has dict_try_get_obj d (str_bytes ''sq'') then Some (Ok None, sn)
      else case ok_or (ok_flatten (try_get_str dict_try_get_obj d (str_bytes ''sq''))) SqExpected of
        Err e \<Rightarrow> Some (Err e, sn)
      | Panic \<Rightarrow> Some (Panic, sn)
      | Ok sq \<Rightarrow>
          (case sender_version h d of
             Err e \<Rightarrow> Some (Err e, sn)
           | Panic \<Rightarrow> Some (Panic, sn)
           | Ok None \<Rightarrow> Some (Ok None, sn)
           | Ok (Some version) \<Rightarrow>
               (case (rh_public_key h, rh_ip6 h) of
                  (Some _, Some from_ip) \<Rightarrow>
                    (case entry_bytes d ''txid'' TxidRequired of
                       Err e \<Rightarrow> Some (Err e, sn)
                     | Panic \<Rightarrow> Some (Panic, sn)
                     | Ok txid \<Rightarrow> answer_query env clk sq version from_ip txid d sn)
                | _ \<Rightarrow> Some (Ok None, sn))))"

definition on_subnode_message ::
  "'s service_env \<Rightarrow> clock \<Rightarrow> sniff_message \<Rightarrow> supernode \<Rightarrow> sniff_message option outcome" where
  "on_subnode_message env clk msg sn =
     (case sm_content msg of
        Content_Benc d \<Rightarrow>
          (let h = sm_route_header msg in
           map_option (\<lambda>(r, sn). (map_ok (map_option (\<lambda>(res, ver).
               \<lparr>sm_route_header = h\<lparr>rh_switch_header := (rh_switch_header h)\<lparr>label_shift := 0\<rparr>, rh_version := ver\<rparr>,
                sm_content_type = sm_content_type msg, sm_content = Content_Benc res, sm_raw_bytes = None\<rparr>)) r, sn))
             (on_subnode_message_impl env clk h d sn))
      | _ \<Rightarrow> Some (Ok None, sn))"

text \<open>
  One round of \<open>handle_subnode_messages\<close>: a datagram that cannot be read is skipped, any other error
  ends the service. \<open>send_to\<close> is the socket.
\<close>

definition serve_datagram ::
  "'s service_env \<Rightarrow> clock \<Rightarrow> (bytes \<Rightarrow> nat option) \<Rightarrow> bytes option \<Rightarrow> supernode \<Rightarrow> unit outcome" where
  "serve_datagram env clk send_to datagram sn =
     (let sha = sha512 (env_crypto env) in
      case sniff_receive sha datagram of
        Ok msg \<Rightarrow>
          map_option (\<lambda>(r, sn). (and_then r (\<lambda>ret.
              case ret of Some ret \<Rightarrow> map_err AnswerFailed (sniff_send sha send_to ret) | None \<Rightarrow> Ok ()), sn))
            (on_subnode_message env clk msg sn)
      | Err RecvSocketError \<Rightarrow> Some (Err SocketFailed, sn)
      | Err (RecvParseError e data) \<Rightarrow> Some (Ok (), sn)
      | Panic \<Rightarrow> Some (Panic, sn))"

fun serve_datagrams ::
  "'s service_env \<Rightarrow> (clock \<times> (bytes \<Rightarrow> nat option) \<times> bytes option) list \<Rightarrow> supernode \<Rightarrow> unit outcome" where
  "serve_datagrams env [] sn = Some (Ok (), sn)"
| "serve_datagrams env ((clk, send_to, datagram) # ds) sn =
     (case serve_datagram env clk send_to datagram sn of
        None \<Rightarrow> None
      | Some (Ok _, sn) \<Rightarrow> serve_datagrams env ds sn
      | Some r \<Rightarrow> Some r)"

section \<open>The node of the supernode itself\<close>

text \<open>
  What \<open>Core_nodeInfo\<close> returns: the name of the node and its encoding scheme. The prefix of a form
  is hexadecimal text; \<open>u32::from_str_radix\<close> takes a plus sign.
\<close>

datatype start_error =
    BadEntry obj_error | MalformedName address_error | BadNodeKey key_creation_error
  | BadPrefix | BadForm form_validation_error | BadScheme scheme_validation_error | NoHandlers

record enc_form =
  ef_prefix_len :: u8
  ef_prefix :: bytes
  ef_bit_count :: u8

definition enc_form_try_from :: "(bytes \<times> object) list \<Rightarrow> (enc_form, start_error) result" where
  "enc_form_try_from d =
     and_then (map_err BadEntry (get_as as_u8 dict_try_get_obj d (str_bytes ''prefixLen''))) (\<lambda>prefix_len.
     and_then (map_err BadEntry (get_str dict_try_get_obj d (str_bytes ''prefix''))) (\<lambda>prefix.
     and_then (map_err BadEntry (get_as as_u8 dict_try_get_obj d (str_bytes ''bitCount''))) (\<lambda>bit_count.
     Ok \<lparr>ef_prefix_len = word_of_int prefix_len, ef_prefix = prefix, ef_bit_count = word_of_int bit_count\<rparr>)))"

fun enc_forms_try_from :: "object list \<Rightarrow> (enc_form list, start_error) result" where
  "enc_forms_try_from [] = Ok []"
| "enc_forms_try_from (v # vs) =
     and_then (map_err BadEntry (as_dict v)) (\<lambda>d.
     and_then (enc_form_try_from d) (\<lambda>form.
     map_ok (Cons form) (enc_forms_try_from vs)))"

record node_info =
  ni_my_addr :: bytes
  ni_encoding_scheme :: "enc_form list"

definition node_info_try_from :: "(bytes \<times> object) list \<Rightarrow> (node_info, start_error) result" where
  "node_info_try_from d =
     and_then (map_err BadEntry (get_str dict_try_get_obj d (str_bytes ''myAddr''))) (\<lambda>my_addr.
     and_then (map_err BadEntry (get_list dict_try_get_obj d (str_bytes ''encodingScheme''))) (\<lambda>l.
     and_then (enc_forms_try_from l) (\<lambda>enc_forms.
     Ok \<lparr>ni_my_addr = my_addr, ni_encoding_scheme = enc_forms\<rparr>)))"

fun hex_digits :: "bytes \<Rightarrow> nat list option" where
  "hex_digits [] = Some []"
| "hex_digits (b # bs) = (case hex_val b of None \<Rightarrow> None | Some v \<Rightarrow> map_option (Cons v) (hex_digits bs))"

definition u32_from_hex :: "bytes \<Rightarrow> u32 option" where
  "u32_from_hex s =
     (let ds = (if take 1 s = [43] then tl s else s) in
      if ds = [] then None
      else case hex_digits ds of
        None \<Rightarrow> None
      | Some vs \<Rightarrow> if digits_val 16 vs < 2 ^ 32 then Some (word_of_nat (digits_val 16 vs)) else None)"

definition form_try_from :: "enc_form \<Rightarrow> (encoding_form, start_error) result" where
  "form_try_from form =
     and_then (ok_or (u32_from_hex (ef_prefix form)) BadPrefix) (\<lambda>prefix.
     map_err BadForm (form_try_new (ef_bit_count form) (ef_prefix_len form) prefix))"

fun forms_try_from :: "enc_form list \<Rightarrow> (encoding_form list, start_error) result" where
  "forms_try_from [] = Ok []"
| "forms_try_from (f # fs) = and_then (form_try_from f) (\<lambda>form. map_ok (Cons form) (forms_try_from fs))"

definition try_parse_encoding_scheme :: "enc_form list \<Rightarrow> (encoding_scheme, start_error) result" where
  "try_parse_encoding_scheme enc_forms =
     and_then (forms_try_from enc_forms) (\<lambda>fs. map_err BadScheme (scheme_try_new fs))"

text \<open>\<open>do_service\<close> up to the first message: the node becomes the \<open>self_node\<close> of the server.\<close>

definition set_self_node ::
  "'s service_env \<Rightarrow> (bytes \<times> object) list \<Rightarrow> supernode \<Rightarrow> (unit, start_error) result \<times> supernode" where
  "set_self_node env ret sn =
     (let new = and_then (node_info_try_from ret) (\<lambda>info.
        and_then (map_err MalformedName (address_try_from_str (env_base32_decode env) (map (char_of \<circ> unat) (ni_my_addr info)))) (\<lambda>address.
        and_then (map_err BadNodeKey (ip6_try_from_key (sha512 (env_crypto env)) (addr_pubkey address))) (\<lambda>ipv6.
        and_then (try_parse_encoding_scheme (ni_encoding_scheme info)) (\<lambda>scheme.
        unwrap (new_node (sn_server sn) (addr_version address) (addr_pubkey address) (Some scheme)
          (mktime 0xFFFFFFFFFFFFFFFF) ipv6 None)))))
      in case new of
        Ok me \<Rightarrow> (Ok (), sn\<lparr>sn_server := (sn_server sn)\<lparr>self_node := Some me\<rparr>\<rparr>)
      | Err e \<Rightarrow> (Err e, sn)
      | Panic \<Rightarrow> (Panic, sn))"

text \<open>The connection counts as lost when the node lists no handlers any more.\<close>

definition check_handlers :: "(bytes \<times> object) list \<Rightarrow> (unit, start_error) result" where
  "check_handlers ret =
     and_then (map_err BadEntry (get_list dict_try_get_obj ret (str_bytes ''handlers''))) (\<lambda>l.
     check (l \<noteq> []) NoHandlers)"

end
