(* ===== verification/Service_Spec.thy ===== *)
theory Service_Spec
  imports Service
begin

text \<open>
  The supernode as one state machine: its invariant over table, route cache and seeder, and what a
  route query is answered with.
\<close>

section \<open>Routes that are returned\<close>

text \<open>
  The theory of routes proves that a lookup returns when no node is linked to itself. Here it is
  enough that what is returned is right, whatever the table holds.
\<close>

lemma route_hops_loop_some:
  "route_hops_loop use_old s ps prv f hops = Some (Ok hs) \<Longrightarrow>
   \<exists>new. hs = hops @ new \<and> (\<forall>h \<in> set new. label_ok (rh_label h))
     \<and> length new = (if prv = None then length ps - 1 else length ps)"
proof (induction ps arbitrary: prv f hops)
  case (Cons p ps)
  then obtain n where n: "by_ip s p = Some n" by (cases "by_ip s p") auto
  show ?case
  proof (cases prv)
    case None
    then show ?thesis using Cons.prems Cons.IH [of "Some n" f hops] n by simp
  next
    case (Some q)
    with Cons.prems n obtain h f' where h: "route_hop_step use_old n q f = Some (Ok (h, f'))"
      and rest: "route_hops_loop use_old s ps (Some n) f' (hops @ [h]) = Some (Ok hs)"
      by (auto split: option.splits result.splits)
    from Cons.IH [OF rest] obtain new where "hs = hops @ h # new" "\<forall>h \<in> set new. label_ok (rh_label h)" "length new = length ps"
      by auto
    with hop_step_ok [OF h] Some show ?thesis by (intro exI [of _ "h # new"]) simp
  qed
qed simp

lemma compute_routing_label_some:
  assumes "compute_routing_label use_old s ps = Some (Ok (l, hs))" and "2 \<le> length ps"
  shows "length hs = length ps - 1 \<and> label_ok l \<and> path l = concat (map (\<lambda>h. path (rh_label h)) hs)"
proof -
  let ?labels = "\<lambda>hs. rev (map rh_label hs @ [self_reference])"
  from assms(1) have loop: "route_hops_loop use_old s ps None 0 [] = Some (Ok hs)" and sp: "splice (?labels hs) = Ok l"
    by (auto simp: compute_routing_label_def ok_iff Let_def)
  from route_hops_loop_some [OF loop] have hs: "\<forall>h \<in> set hs. label_ok (rh_label h)" "length hs = length ps - 1" by auto
  then have "\<forall>x \<in> set (?labels hs). label_ok x" "2 \<le> length (?labels hs)" using assms(2) by auto
  from splice_path [OF this(1) _ this(2)] sp have "label_ok l \<and> path l = spliced_path (?labels hs)"
    by (auto split: if_splits)
  then show ?thesis using hs(2) by (simp add: spliced_path_def rev_map comp_def)
qed

lemma compute_route_some:
  assumes "finite (dom g)" and "compute_route use_old s g src dst = Some (Ok rt)"
  shows "route_ok g (node_ipv6 dst) (node_ipv6 src) rt"
proof -
  obtain p where p: "reverse_path cost_zero cost_add g (node_ipv6 dst) (node_ipv6 src) = Some (Ok p)"
    "p = [] \<longleftrightarrow> node_ipv6 src = node_ipv6 dst \<or> \<not> reachable cost_zero cost_add g (node_ipv6 dst) (node_ipv6 src)"
    "p \<noteq> [] \<longrightarrow> hd p = node_ipv6 src \<and> last p = node_ipv6 dst \<and> shortest cost_zero cost_add g (node_ipv6 dst) p"
    using reverse_path_ok [OF costs_ok assms(1)] by blast
  with assms(2) have "p \<noteq> []" by (auto simp: compute_route_def)
  then have ends: "hd p = node_ipv6 src" "last p = node_ipv6 dst" "node_ipv6 src \<noteq> node_ipv6 dst"
    and short: "shortest cost_zero cost_add g (node_ipv6 dst) p" using p(2,3) by auto
  have len: "2 \<le> length p" using \<open>p \<noteq> []\<close> ends by (cases p; cases "tl p") auto
  from assms(2) p(1) \<open>p \<noteq> []\<close> obtain l hs where c: "compute_routing_label use_old s p = Some (Ok (l, hs))"
    and rt: "rt = \<lparr>route_label = l, route_hops = hs, route_path = p\<rparr>"
    by (auto simp: compute_route_def map_ok_ok_iff)
  show ?thesis using compute_routing_label_some [OF c len] ends short rt by (simp add: route_ok_def)
qed

lemma rebuild_some:
  assumes "links_table_ok (nodes_by_ip s)" and "order_ok order" and "routing_ok r" and "rebuild order now s r = Some (Ok r')"
  shows "routing_ok r' \<and> solver r' \<noteq> None"
proof (cases "rebuild_due now r")
  case True
  with assms(4) obtain g where g: "build_node_graph order s = Some (Ok g)"
    and r': "r' = \<lparr>last_rebuild = now, route_cache = Map.empty, solver = Some g\<rparr>"
    by (auto simp: rebuild_def rebuild_due_def map_ok_ok_iff)
  from g build_graph [OF assms(1,2)] have "mutual_links s g" by (auto split: if_splits)
  then show ?thesis using mutual_links_finite [OF assms(1)] r' by (simp add: routing_ok_def)
next
  case False
  then show ?thesis using assms(3,4) by (auto simp: rebuild_def rebuild_due_def)
qed

lemma get_route_impl_some:
  assumes "links_table_ok (nodes_by_ip s)" and "order_ok order" and "routing_ok r"
    and "get_route_impl use_old order now s src dst r = Some (res, r')"
  shows "routing_ok r' \<and> (\<forall>rt. res = Ok rt \<longrightarrow> (\<exists>g. solver r' = Some g \<and> route_ok g (node_ipv6 dst) (node_ipv6 src) rt))"
proof (cases "rebuild order now s r")
  case None
  then show ?thesis using assms(4) by (simp add: get_route_impl_def)
next
  case (Some q)
  show ?thesis
  proof (cases q)
    case (Ok r1)
    with Some rebuild_some [OF assms(1-3)] obtain g where r1: "routing_ok r1" "solver r1 = Some g" by auto
    then have fin: "finite (dom g)" by (simp add: routing_ok_def)
    let ?key = "(node_ipv6 dst, node_ipv6 src)"
    show ?thesis
    proof (cases "\<exists>rt. route_cache r1 ?key = Some (Some rt)")
      case True
      then show ?thesis using assms(4) Some Ok r1 by (auto simp: get_route_impl_def Let_def routing_ok_def)
    next
      case False
      with assms(4) Some Ok r1(2) have res: "compute_route use_old s g src dst = Some res"
        and r': "r' = (case res of Ok rt \<Rightarrow> r1\<lparr>route_cache := (route_cache r1)(?key \<mapsto> Some rt)\<rparr>
          | Err _ \<Rightarrow> r1\<lparr>route_cache := (route_cache r1)(?key \<mapsto> None)\<rparr> | Panic \<Rightarrow> r1)"
        by (auto simp: get_route_impl_def Let_def split: option.splits)
      show ?thesis using compute_route_some [OF fin, of use_old s src dst] res r' r1 by (cases res) (auto simp: routing_ok_def)
    qed
  qed (use Some assms in \<open>simp_all add: get_route_impl_def\<close>)
qed

text \<open>A lookup between two nodes of the table: the trivial route, or a walk of least cost.\<close>

definition route_found :: "routing \<Rightarrow> node \<Rightarrow> node \<Rightarrow> route \<Rightarrow> bool" where
  "route_found r src dst rt \<longleftrightarrow>
     (node_eq src dst \<and> rt = route_identity) \<or> (\<exists>g. solver r = Some g \<and> route_ok g (node_ipv6 dst) (node_ipv6 src) rt)"

lemma get_route_some:
  assumes "links_table_ok (nodes_by_ip s)" and "order_ok order" and "routing_ok r"
    and "get_route use_old order now s src dst r = Some (res, r')"
  shows "routing_ok r'"
    and "res = Ok rt \<Longrightarrow> \<exists>a b. src = Some a \<and> dst = Some b \<and> route_found r' a b rt"
  using assms get_route_impl_some [OF assms(1-3), of use_old now _ _ res r']
  by (auto simp: get_route_def route_found_def split: option.splits if_splits)

section \<open>The invariant\<close>

definition supernode_ok :: "'s crypto \<Rightarrow> supernode \<Rightarrow> bool" where
  "supernode_ok c sn \<longleftrightarrow> server_ok c (sn_server sn) \<and> routing_ok (sn_routing sn) \<and> seeder_ok (sha512 c) (sn_seeder sn)"

definition env_ok :: "'s service_env \<Rightarrow> bool" where
  "env_ok env \<longleftrightarrow> order_ok (env_order env) \<and> (\<forall>b. sha512 (env_crypto env) b \<noteq> [])
     \<and> (\<forall>n. 2 \<le> n \<longrightarrow> 1 \<le> env_pick env n \<and> env_pick env n < n)"

lemma server_ok_same:
  "nodes_by_ip s' = nodes_by_ip s \<Longrightarrow> srv_peers s' = srv_peers s \<Longrightarrow> server_ok c s' = server_ok c s"
  by (simp add: server_ok_def)

lemma supernode_ok_set_current [simp]: "supernode_ok c (set_current_node from_ip sn) = supernode_ok c sn"
  using server_ok_same [of "(sn_server sn)\<lparr>current_node := from_ip\<rparr>" "sn_server sn" c]
  by (simp add: supernode_ok_def set_current_node_def)

lemma handle_gr_ok:
  assumes "env_ok env" and "supernode_ok (env_crypto env) sn" and "handle_gr env clk d res sn = Some (r, sn')"
  shows "supernode_ok (env_crypto env) sn'"
proof (cases "query_addresses d")
  case (Ok p)
  obtain src_ip tar_ip where p: "p = (src_ip, tar_ip)" by (cases p)
  with Ok assms(3) obtain rt r' where
    g: "get_route (env_old_route env) (env_order env) (clk_instant clk) (sn_server sn)
          (by_ip (sn_server sn) src_ip) (by_ip (sn_server sn) tar_ip) (sn_routing sn) = Some (rt, r')"
    and sn': "sn' = sn\<lparr>sn_routing := r'\<rparr>"
    by (auto simp: handle_gr_def Let_def split: option.splits)
  have "routing_ok r'"
    using get_route_some(1) [OF _ _ _ g] assms(1,2) server_links_table by (auto simp: supernode_ok_def env_ok_def)
  then show ?thesis using assms(2) sn' by (simp add: supernode_ok_def)
qed (use assms in \<open>simp_all add: handle_gr_def\<close>)

lemma handle_ann_ok:
  assumes "env_ok env" and "supernode_ok (env_crypto env) sn" and "handle_ann env clk d res sn = (r, sn')"
  shows "supernode_ok (env_crypto env) sn'"
  using assms handle_announce_ok [of "env_crypto env" "sn_server sn" "env_order env" "clk_announce clk" _ True]
  by (auto simp: handle_ann_def supernode_ok_def env_ok_def split: result.splits prod.splits) (metis snd_conv)

lemma handle_pc_ok:
  assumes "env_ok env" and "supernode_ok (env_crypto env) sn" and "handle_pc env clk from_ip d res sn = (r, sn')"
  shows "supernode_ok (env_crypto env) sn'"
proof (cases "entry_bytes d ''pc'' PcExpected")
  case (Ok pc)
  obtain q m where q: "post_credentials (sha512 (env_crypto env)) (env_pick env) (env_seeder env) (peer_info (sn_server sn))
      (clk_sec clk) from_ip pc (sn_seeder sn) = (q, m)" by (cases "post_credentials (sha512 (env_crypto env)) (env_pick env)
      (env_seeder env) (peer_info (sn_server sn)) (clk_sec clk) from_ip pc (sn_seeder sn)")
  have "seeder_ok (sha512 (env_crypto env)) m"
    using post_credentials_ok [OF _ _ q] assms(1,2) by (auto simp: supernode_ok_def env_ok_def)
  moreover have "sn' = sn\<lparr>sn_seeder := m\<rparr>" using assms(3) Ok q by (simp add: handle_pc_def)
  ultimately show ?thesis using assms(2) by (simp add: supernode_ok_def)
qed (use assms in \<open>simp_all add: handle_pc_def\<close>)

lemma handle_query_ok:
  assumes "env_ok env" and "supernode_ok (env_crypto env) sn" and "handle_query env clk sq from_ip d res sn = Some (r, sn')"
  shows "supernode_ok (env_crypto env) sn'"
  using assms handle_gr_ok [OF assms(1,2), of clk d res] handle_ann_ok [OF assms(1,2), of clk d res]
    handle_pc_ok [OF assms(1,2), of clk from_ip d res]
  by (auto simp: handle_query_def split: if_splits prod.splits)

lemma answer_query_ok:
  assumes "env_ok env" and "supernode_ok (env_crypto env) sn" and "answer_query env clk sq version from_ip txid d sn = Some (r, sn')"
  shows "supernode_ok (env_crypto env) sn'"
proof -
  have s: "supernode_ok (env_crypto env) (set_current_node (Some from_ip) sn)" using assms(2) by simp
  show ?thesis
    using assms(3) s handle_query_ok [OF assms(1) s, of clk sq from_ip d]
    by (auto simp: answer_query_def Let_def split: option.splits result.splits)
qed

lemma on_subnode_message_ok:
  assumes "env_ok env" and "supernode_ok (env_crypto env) sn" and "on_subnode_message env clk msg sn = Some (r, sn')"
  shows "supernode_ok (env_crypto env) sn'"
  using assms(2,3) answer_query_ok [OF assms(1,2)]
  by (auto simp: on_subnode_message_def on_subnode_message_impl_def Let_def
      split: sniff_content.splits if_splits result.splits option.splits)

lemma serve_datagram_ok:
  assumes "env_ok env" and "supernode_ok (env_crypto env) sn" and "serve_datagram env clk send_to datagram sn = Some (r, sn')"
  shows "supernode_ok (env_crypto env) sn'"
  using assms(2,3) on_subnode_message_ok [OF assms(1,2)]
  by (auto simp: serve_datagram_def Let_def split: result.splits receive_error.splits)

lemma set_self_node_ok: "supernode_ok c sn \<Longrightarrow> supernode_ok c (snd (set_self_node env ret sn))"
  using server_ok_same [of "(sn_server sn)\<lparr>self_node := n\<rparr>" "sn_server sn" c for n]
  by (auto simp: set_self_node_def Let_def supernode_ok_def split: result.split)

text \<open>
  What happens to a supernode: a datagram of the local node, the start of the service, an event of the
  server (gossip, cleaning of the table, connections), the result of a tester, and a route lookup of
  the web server.
\<close>

inductive supernode_reachable ::
  "'s service_env \<Rightarrow> (bytes \<Rightarrow> (msgpack, string) result) \<Rightarrow> (msgpack \<Rightarrow> (bytes, string) result) \<Rightarrow> (string \<Rightarrow> bytes option)
     \<Rightarrow> supernode \<Rightarrow> bool"
  for env rd wr hex_decode where
  boot: "supernode_reachable env rd wr hex_decode
      \<lparr>sn_server = server_new (peers_new seed), sn_routing = routing_new now, sn_seeder = seeder_new\<rparr>"
| datagram: "supernode_reachable env rd wr hex_decode sn \<Longrightarrow> serve_datagram env clk send_to datagram sn = Some (r, sn')
      \<Longrightarrow> supernode_reachable env rd wr hex_decode sn'"
| service: "supernode_reachable env rd wr hex_decode sn \<Longrightarrow> supernode_reachable env rd wr hex_decode (snd (set_self_node env ret sn))"
| event: "supernode_reachable env rd wr hex_decode sn \<Longrightarrow> server_event_ok (sn_server sn) e
      \<Longrightarrow> supernode_reachable env rd wr hex_decode (sn\<lparr>sn_server := server_step (env_crypto env) (env_order env) rd wr (sn_server sn) e\<rparr>)"
| tests: "supernode_reachable env rd wr hex_decode sn
      \<Longrightarrow> supernode_reachable env rd wr hex_decode
            (sn\<lparr>sn_seeder := snd (testres hex_decode (env_seeder env) now_s passwd nodes (sn_seeder sn))\<rparr>)"
| lookup: "supernode_reachable env rd wr hex_decode sn
      \<Longrightarrow> get_route (env_old_route env) (env_order env) now (sn_server sn) src dst (sn_routing sn) = Some (res, r)
      \<Longrightarrow> supernode_reachable env rd wr hex_decode (sn\<lparr>sn_routing := r\<rparr>)"

lemma seeder_new_ok: "seeder_ok sha seeder_new"
  by (simp add: seeder_ok_def seeder_new_def)

lemma supernode_reachable_ok:
  "supernode_reachable env rd wr hex_decode sn \<Longrightarrow> env_ok env \<Longrightarrow> supernode_ok (env_crypto env) sn"
proof (induction rule: supernode_reachable.induct)
  case (boot seed now)
  then show ?case by (simp add: supernode_ok_def server_new_ok routing_new_ok seeder_new_ok)
next
  case (datagram sn clk send_to datagram r sn')
  then show ?case using serve_datagram_ok by blast
next
  case (event sn e)
  then show ?case by (simp add: supernode_ok_def env_ok_def server_step_ok)
next
  case (tests sn now_s passwd nodes)
  then show ?case by (simp add: supernode_ok_def testres_def record_tests_ok)
next
  case (lookup sn now src dst res r)
  then show ?case
    using get_route_some(1) [OF _ _ _ lookup.hyps(2)] server_links_table by (auto simp: supernode_ok_def env_ok_def)
qed (simp add: set_self_node_ok)

section \<open>Answers to route queries\<close>

text \<open>The table is all that a route lookup reads of the server.\<close>

lemma get_route_table:
  assumes "nodes_by_ip s = nodes_by_ip s'"
  shows "get_route use_old order now s src dst r = get_route use_old order now s' src dst r"
proof -
  have tab: "by_ip s nip = by_ip s' nip" "all_ips order s = all_ips order s'" for nip
    using assms by (simp_all add: by_ip_def all_ips_def)
  have hops: "route_hops_loop use_old s nips l form_num hops = route_hops_loop use_old s' nips l form_num hops" for nips l form_num hops
    by (induction nips arbitrary: l form_num hops) (auto simp: tab split: option.split result.split)
  have links: "node_links s nip m pips = node_links s' nip m pips" for nip m pips
    by (induction pips) (auto simp: tab split: option.split list.split)
  have nodes: "build_nodes order s nips d = build_nodes order s' nips d" for nips d
    by (induction nips arbitrary: d) (auto simp: tab links split: option.split result.split)
  have "compute_routing_label use_old s p = compute_routing_label use_old s' p" for p
    by (simp only: compute_routing_label_def hops)
  then have route: "compute_route use_old s d src dst = compute_route use_old s' d src dst" for d src dst
    by (simp only: compute_route_def)
  have "rebuild order now s r = rebuild order now s' r"
    by (simp only: rebuild_def build_node_graph_def nodes tab)
  then have "get_route_impl use_old order now s src dst r = get_route_impl use_old order now s' src dst r" for src dst
    by (simp only: get_route_impl_def route)
  then show ?thesis by (simp only: get_route_def)
qed

text \<open>The newest of some links, of several as new the last.\<close>

definition newest :: "link list \<Rightarrow> link" where
  "newest links = last (filter (\<lambda>k. \<forall>j \<in> set links. create_time j \<le> create_time k) links)"

lemma newest_append:
  assumes "newest ls \<in> set ls" and "\<forall>j \<in> set ls. create_time j \<le> create_time (newest ls)"
  shows "newest (ls @ [k]) = (if create_time (newest ls) > create_time k then newest ls else k)"
proof (cases "create_time (newest ls) > create_time k")
  case True
  have eq: "(\<forall>j \<in> set (ls @ [k]). create_time j \<le> create_time e) \<longleftrightarrow> (\<forall>j \<in> set ls. create_time j \<le> create_time e)" for e
    using assms(1) True by (auto intro: order_trans less_imp_le)
  have neg: "(\<forall>j \<in> set ls. create_time j \<le> create_time k) = False" using assms(1) True by (auto simp: not_le)
  have "newest (ls @ [k]) = newest ls" unfolding newest_def by (simp only: eq neg filter_append filter.simps if_False append_Nil2)
  then show ?thesis using True by simp
next
  case False
  then have "\<forall>j \<in> set (ls @ [k]). create_time j \<le> create_time k"
    using assms(2) by (auto simp: not_less intro: order_trans)
  then show ?thesis using False unfolding newest_def by (simp add: filter_append)
qed

lemma newest_max:
  assumes "ls \<noteq> []"
  shows "newest ls \<in> set ls" and "\<forall>j \<in> set ls. create_time j \<le> create_time (newest ls)"
proof -
  have "newest ls \<in> set ls \<and> (\<forall>j \<in> set ls. create_time j \<le> create_time (newest ls))"
    using assms
  proof (induction ls rule: rev_induct)
    case (snoc k ls)
    show ?case
    proof (cases "ls = []")
      case True
      then show ?thesis by (simp add: newest_def)
    next
      case False
      with snoc.IH have IH: "newest ls \<in> set ls" "\<forall>j \<in> set ls. create_time j \<le> create_time (newest ls)" by auto
      then show ?thesis by (auto simp: newest_append [OF IH] not_less intro: order_trans less_imp_le)
    qed
  qed simp
  then show "newest ls \<in> set ls" "\<forall>j \<in> set ls. create_time j \<le> create_time (newest ls)" by blast+
qed

lemma newest_link_eq: "newest_link links = (if links = [] then None else Some (newest links))"
proof -
  have "fold (\<lambda>nl rl. if create_time rl > create_time nl then rl else nl) ls l = newest (l # ls)" for l ls
  proof (induction ls rule: rev_induct)
    case (snoc k ks)
    then show ?case using newest_append [OF newest_max, of "l # ks" k] by simp
  qed (simp add: newest_def)
  then show ?thesis by (simp add: newest_link_def split: list.split)
qed

text \<open>The label of the newest link that the target announces to the source, provided that the source announces a
  peer of that number back.\<close>

definition confirmed_label :: "node \<Rightarrow> ip6 \<Rightarrow> node \<Rightarrow> ip6 \<Rightarrow> u64 routing_label option" where
  "confirmed_label src src_ip tar tar_ip =
     (case (inward_links tar src_ip, inward_links src tar_ip) of
        (Some links, Some backlinks) \<Rightarrow>
          (let b = ucast (bits (link_label (newest links))) :: u64 in
           if links \<noteq> [] \<and> b \<noteq> 0 \<and> b \<in> (\<lambda>k. ucast (link_peer_num k)) ` set backlinks then Some (RoutingLabel b) else None)
      | _ \<Rightarrow> None)"

lemma answered_label_eq:
  "answered_label rt (peering_label (Some tar) src_ip) (peering_confirmed (Some src) tar_ip (peering_label (Some tar) src_ip))
     = (case confirmed_label src src_ip tar tar_ip of Some l \<Rightarrow> l | None \<Rightarrow> route_label rt)"
  by (auto simp: answered_label_def confirmed_label_def peering_label_def peering_confirmed_def newest_link_eq label_try_new_def
      list_ex_iff Let_def image_iff split: option.split)

text \<open>Entries of a dictionary that is being filled.\<close>

lemma put_get:
  assumes "bt_ok d"
  shows "bt_ok (put k v d)" and "bt_get k' (put k v d) = (if k' = str_bytes k then Some v else bt_get k' d)"
  using assms by (simp_all add: put_def dict_insert_def)

lemma reply_base_facts:
  "bt_ok (reply_base txid me t)" "bt_get (str_bytes ''txid'') (reply_base txid me t) = Some (Object_Bytes txid)"
  "bt_get (str_bytes ''n'') (reply_base txid me t) = None" "bt_get (str_bytes ''np'') (reply_base txid me t) = None"
  by (simp_all add: reply_base_def put_get)

text \<open>
  What a client reads in the answer: no node if no route was found, otherwise the key of the target with
  the label of the direct link that both announce, or that of the route if there is none, and the version
  of the target.
\<close>

definition names_target :: "server \<Rightarrow> ip6 \<Rightarrow> ip6 \<Rightarrow> route \<Rightarrow> (bytes \<times> object) list \<Rightarrow> bool" where
  "names_target s src_ip tar_ip rt res \<longleftrightarrow>
     (\<exists>src tar. nodes_by_ip s src_ip = Some src \<and> nodes_by_ip s tar_ip = Some tar
        \<and> bt_get (str_bytes ''n'') res = Some (Object_Bytes (node_key tar @ to_be_bytes (bits
              (case confirmed_label src src_ip tar tar_ip of Some l \<Rightarrow> l | None \<Rightarrow> route_label rt))))
        \<and> bt_get (str_bytes ''np'') res = Some (Object_Bytes [1, ucast (node_version tar)]))"

definition names_nobody :: "(bytes \<times> object) list \<Rightarrow> bool" where
  "names_nobody res \<longleftrightarrow> bt_get (str_bytes ''n'') res = None \<and> bt_get (str_bytes ''np'') res = None"

definition reply_names :: "server \<Rightarrow> routing \<Rightarrow> ip6 \<Rightarrow> ip6 \<Rightarrow> (route, routing_error) result \<Rightarrow> (bytes \<times> object) list \<Rightarrow> bool" where
  "reply_names s r src_ip tar_ip rt res \<longleftrightarrow>
     (case rt of
        Ok route \<Rightarrow> names_target s src_ip tar_ip route res
          \<and> (\<exists>src tar. nodes_by_ip s src_ip = Some src \<and> nodes_by_ip s tar_ip = Some tar \<and> route_found r src tar route)
      | Err _ \<Rightarrow> names_nobody res
      | Panic \<Rightarrow> False)"

lemma route_reply_facts:
  assumes "\<And>x. rt = Ok x \<Longrightarrow> \<exists>a b. nodes_by_ip s src_ip = Some a \<and> nodes_by_ip s tar_ip = Some b \<and> route_found r a b x"
    and "bt_ok res" and "names_nobody res" and "rt \<noteq> Panic"
  shows "bt_get (str_bytes ''txid'') (route_reply rt (by_ip s src_ip) (by_ip s tar_ip) src_ip tar_ip res) = bt_get (str_bytes ''txid'') res"
    and "reply_names s r src_ip tar_ip rt (route_reply rt (by_ip s src_ip) (by_ip s tar_ip) src_ip tar_ip res)"
proof -
  let ?reply = "route_reply rt (by_ip s src_ip) (by_ip s tar_ip) src_ip tar_ip res"
  show "bt_get (str_bytes ''txid'') ?reply = bt_get (str_bytes ''txid'') res"
    using assms(2) by (simp add: route_reply_def Let_def put_get split: result.split option.split)
  show "reply_names s r src_ip tar_ip rt ?reply"
  proof (cases rt)
    case (Ok x)
    with assms(1) obtain a b where n: "nodes_by_ip s src_ip = Some a" "nodes_by_ip s tar_ip = Some b" "route_found r a b x" by blast
    have "bt_get (str_bytes ''n'') ?reply = Some (Object_Bytes (node_key b @ to_be_bytes (bits
            (case confirmed_label a src_ip b tar_ip of Some l \<Rightarrow> l | None \<Rightarrow> route_label x))))"
      "bt_get (str_bytes ''np'') ?reply = Some (Object_Bytes [1, ucast (node_version b)])"
      using Ok n assms(2) by (simp_all add: route_reply_def Let_def by_ip_def put_get answered_label_eq)
    then have "names_target s src_ip tar_ip x ?reply" using n unfolding names_target_def by blast
    then show ?thesis using Ok n by (auto simp: reply_names_def)
  qed (use assms(3,4) in \<open>simp_all add: route_reply_def Let_def reply_names_def\<close>)
qed

lemma answer_query_gr:
  assumes "env_ok env" and "supernode_ok (env_crypto env) sn"
    and "answer_query env clk (str_bytes ''gr'') version from_ip txid d sn = Some (Ok (Some (res, ver)), sn')"
  shows "\<exists>src_ip tar_ip rt. query_addresses d = Ok (src_ip, tar_ip) \<and> ver = version
    \<and> bt_get (str_bytes ''txid'') res = Some (Object_Bytes txid)
    \<and> get_route (env_old_route env) (env_order env) (clk_instant clk) (sn_server sn) (nodes_by_ip (sn_server sn) src_ip)
         (nodes_by_ip (sn_server sn) tar_ip) (sn_routing sn) = Some (rt, sn_routing sn')
    \<and> reply_names (sn_server sn) (sn_routing sn') src_ip tar_ip rt res"
proof -
  let ?sn = "set_current_node (Some from_ip) sn"
  from assms(3) obtain me t sn1 where me: "self_node (sn_server ?sn) = Some me"
    and h: "handle_gr env clk d (reply_base txid me t) ?sn = Some (Ok res, sn1)" and sn': "sn' = set_current_node None sn1" "ver = version"
    by (auto simp: answer_query_def handle_query_def Let_def map_ok_ok_iff split: option.splits result.splits)
  let ?s = "sn_server ?sn"
  from h obtain src_ip tar_ip rt r where q: "query_addresses d = Ok (src_ip, tar_ip)"
    and g: "get_route (env_old_route env) (env_order env) (clk_instant clk) ?s (by_ip ?s src_ip) (by_ip ?s tar_ip) (sn_routing ?sn) = Some (rt, r)"
    and res: "rt \<noteq> Panic" "res = route_reply rt (by_ip ?s src_ip) (by_ip ?s tar_ip) src_ip tar_ip (reply_base txid me t)"
    and sn1: "sn1 = ?sn\<lparr>sn_routing := r\<rparr>"
    by (auto simp: handle_gr_def Let_def split: result.splits option.splits if_splits)
  have tab: "nodes_by_ip ?s = nodes_by_ip (sn_server sn)" "sn_routing ?sn = sn_routing sn" "sn_routing sn' = r"
    using sn'(1) sn1 by (simp_all add: set_current_node_def)
  have ok: "supernode_ok (env_crypto env) ?sn" using assms(2) by simp
  have "\<exists>a b. nodes_by_ip ?s src_ip = Some a \<and> nodes_by_ip ?s tar_ip = Some b \<and> route_found r a b x" if "rt = Ok x" for x
    using get_route_some(2) [OF _ _ _ g that] ok assms(1) server_links_table by (auto simp: supernode_ok_def env_ok_def by_ip_def)
  from route_reply_facts [of rt ?s src_ip tar_ip r, OF this reply_base_facts(1) [of txid me t] _ res(1)] reply_base_facts [of txid me t]
  have "bt_get (str_bytes ''txid'') res = Some (Object_Bytes txid)" "reply_names ?s r src_ip tar_ip rt res"
    using res(2) by (auto simp: names_nobody_def)
  moreover have "reply_names ?s r src_ip tar_ip rt res = reply_names (sn_server sn) (sn_routing sn') src_ip tar_ip rt res"
    unfolding reply_names_def names_target_def tab ..
  ultimately show ?thesis
    using q sn'(2) g unfolding get_route_table [OF tab(1)] by (simp add: by_ip_def tab)
qed

text \<open>The query of a node for a route to itself.\<close>

definition demo_env :: "unit service_env" where
  "demo_env = \<lparr>env_crypto = demo_crypto, env_order = demo_order, env_old_route = False, env_pick = (\<lambda>_. 1),
     env_seeder = demo_cfg, env_base32_decode = demo_decode, env_seeder_error = (\<lambda>_. [])\<rparr>"

definition demo_query :: "(bytes \<times> object) list" where
  "demo_query = put ''sq'' (Object_Bytes (str_bytes ''gr'')) (put ''txid'' (Object_Bytes [1, 2])
     (put ''src'' (Object_Bytes Server_Spec.demo_ip) (put ''tar'' (Object_Bytes Server_Spec.demo_ip) [])))"

definition demo_route_query :: sniff_message where
  "demo_route_query = \<lparr>sm_route_header = demo_route_header\<lparr>rh_public_key := Some (replicate 32 7)\<rparr>,
     sm_content_type = Cjdht, sm_content = Content_Benc demo_query, sm_raw_bytes = None\<rparr>"

lemma demo_env_ok: "env_ok demo_env"
  using demo_order_ok demo_sha512 by (auto simp: env_ok_def demo_env_def)

lemma demo_query_entries:
  "bt_get (str_bytes ''sq'') demo_query = Some (Object_Bytes (str_bytes ''gr''))" "bt_get (str_bytes ''txid'') demo_query = Some (Object_Bytes [1, 2])"
  "bt_get (str_bytes ''src'') demo_query = Some (Object_Bytes Server_Spec.demo_ip)" "bt_get (str_bytes ''tar'') demo_query = Some (Object_Bytes Server_Spec.demo_ip)"
  by (simp_all add: demo_query_def put_get)

lemma demo_query_sq: "try_get_str dict_try_get_obj demo_query (str_bytes ''sq'') = Ok (Some (str_bytes ''gr''))"
proof -
  have "valid_utf8 (str_bytes ''gr'')" by (simp add: str_bytes_def)
  then show ?thesis by (simp add: try_get_str_def try_get_bstr_def try_get_def dict_try_get_obj_def demo_query_entries bstr_as_str_def)
qed

lemma demo_query_txid: "try_get_bstr dict_try_get_obj demo_query (str_bytes ''txid'') = Ok (Some [1, 2])"
  by (simp add: try_get_bstr_def try_get_def dict_try_get_obj_def demo_query_entries)

lemma demo_query_addresses: "query_addresses demo_query = Ok (Server_Spec.demo_ip, Server_Spec.demo_ip)"
  by (simp add: query_addresses_def entry_bytes_def try_get_bstr_def try_get_def dict_try_get_obj_def demo_query_entries
      ip6_try_from_bytes_def Server_Spec.demo_ip_def IP6_FIRST_BYTE_def)

text \<open>A supernode that knows this node, linked to itself by given links.\<close>

definition linked_node :: "links \<Rightarrow> node" where
  "linked_node m = (the (nodes_by_ip demo_server Server_Spec.demo_ip))\<lparr>inward_links := m\<rparr>"

definition linked_supernode :: "links \<Rightarrow> supernode" where
  "linked_supernode m = \<lparr>sn_server = demo_server\<lparr>self_node := Some (demo_node [1] [2]),
       nodes_by_ip := (nodes_by_ip demo_server)(Server_Spec.demo_ip \<mapsto> linked_node m)\<rparr>,
     sn_routing = routing_new 0, sn_seeder = seeder_new\<rparr>"

definition numbered_link :: "u32 \<Rightarrow> u16 \<Rightarrow> u64 \<Rightarrow> link" where
  "numbered_link lab num t = (new_link reset_ann (sample_peer None) (RoutingLabel lab))\<lparr>link_peer_num := num, create_time := t\<rparr>"

definition self_links :: "u32 \<Rightarrow> links" where
  "self_links lab = [Server_Spec.demo_ip \<mapsto> [numbered_link 19 3 1, numbered_link lab 21 2]]"

lemma linked_supernode_ok:
  assumes "links_ok m"
  shows "supernode_ok demo_crypto (linked_supernode m)"
proof -
  obtain n where n: "nodes_by_ip demo_server Server_Spec.demo_ip = Some n" using demo_server_node by blast
  have "node_ok demo_crypto Server_Spec.demo_ip (n\<lparr>inward_links := m\<rparr>)"
    using node_ok_frame(1) [OF table_okD [OF server_okD(1) [OF demo_server_ok] n] assms] .
  from server_ok_same_known [OF demo_server_ok n this]
  have "server_ok demo_crypto (demo_server\<lparr>nodes_by_ip := (nodes_by_ip demo_server)(Server_Spec.demo_ip \<mapsto> linked_node m)\<rparr>)"
    by (simp add: linked_node_def n)
  then show ?thesis
    by (simp add: supernode_ok_def server_ok_def linked_supernode_def routing_new_ok seeder_new_ok)
qed

lemma self_links_ok: "lab \<noteq> 0 \<Longrightarrow> links_ok (self_links lab)"
  by (simp add: links_ok_def self_links_def numbered_link_def new_link_def link_ok_def label_ok_def f64_zero_def)

definition demo_clock :: clock where
  "demo_clock = \<lparr>clk_system = 0, clk_announce = 0, clk_instant = 0, clk_sec = 0\<rparr>"

lemma linked_answer: "\<exists>ret sn'. on_subnode_message demo_env demo_clock demo_route_query (linked_supernode m) = Some (Ok (Some ret), sn')"
proof -
  have "get_has dict_try_get_obj demo_query (str_bytes ''sq'')"
    by (simp add: get_has_def dict_try_get_obj_def demo_query_entries)
  then show ?thesis
    by (simp add: on_subnode_message_def on_subnode_message_impl_def demo_route_query_def demo_query_sq demo_query_txid
        sender_version_def demo_route_header_def entry_bytes_def answer_query_def Let_def set_current_node_def linked_supernode_def
        make_timestamp_def handle_query_def handle_gr_def demo_query_addresses by_ip_def get_route_def node_eq_def demo_clock_def)
qed

lemma linked_get_route:
  "get_route u order now (sn_server (linked_supernode m)) (nodes_by_ip (sn_server (linked_supernode m)) Server_Spec.demo_ip)
     (nodes_by_ip (sn_server (linked_supernode m)) Server_Spec.demo_ip) r = Some (Ok route_identity, r)"
  by (simp add: linked_supernode_def get_route_def node_eq_def)

lemma linked_label:
  "confirmed_label (linked_node (self_links lab)) Server_Spec.demo_ip (linked_node (self_links lab)) Server_Spec.demo_ip
     = (if lab = 3 \<or> lab = 21 then Some (RoutingLabel (ucast lab)) else None)"
proof -
  have "newest [numbered_link 19 3 1, numbered_link lab 21 2] = numbered_link lab 21 2"
    by (simp add: newest_def numbered_link_def)
  moreover have "(ucast lab :: u64) = 3 \<longleftrightarrow> lab = 3" "(ucast lab :: u64) = 21 \<longleftrightarrow> lab = 21"
    by (simp_all add: word_unat_eq_iff unat_ucast_up)
  ultimately show ?thesis
    by (simp add: confirmed_label_def linked_node_def self_links_def) (simp add: numbered_link_def new_link_def)
qed

section \<open>Properties\<close>

text \<open>C32: every reachable state of the whole supernode satisfies its invariant: whatever the local node
  sends, whatever is gossiped, tested or looked up, the node table, the route cache and the seeder stay
  valid, also when the handling of a message fails or panics.\<close>

theorem service_invariant:
  assumes "supernode_reachable env rd wr hex_decode sn" and "env_ok env"
  shows "supernode_ok (env_crypto env) sn"
  using assms by (rule supernode_reachable_ok)

lemma service_invariant_witness:
  "supernode_ok demo_crypto \<lparr>sn_server = server_step demo_crypto demo_order (\<lambda>_. Err []) (\<lambda>_. Err []) (server_new (peers_new 0)) (CleanTable 0),
     sn_routing = routing_new 0, sn_seeder = seeder_new\<rparr>"
proof -
  let ?boot = "\<lparr>sn_server = server_new (peers_new 0), sn_routing = routing_new 0, sn_seeder = seeder_new\<rparr>"
  have "supernode_reachable demo_env (\<lambda>_. Err []) (\<lambda>_. Err []) (\<lambda>_. None)
      (?boot\<lparr>sn_server := server_step demo_crypto demo_order (\<lambda>_. Err []) (\<lambda>_. Err []) (sn_server ?boot) (CleanTable 0)\<rparr>)"
    using supernode_reachable.event [OF supernode_reachable.boot, where e = "CleanTable 0" and env = demo_env] by (simp add: demo_env_def)
  from service_invariant [OF this demo_env_ok] show ?thesis by (simp add: demo_env_def)
qed

text \<open>C5: an answered route query names its transaction and has the label shift of the header cleared. The
  route is looked up between the two addresses of the query. If there is none, the answer names no node.
  Otherwise it has the key and version of the target and one label: that of the newest link the target
  announces to the source, if the source announces a peer of that number back, and only if not, that of the
  route, which is a cheapest one in the graph.\<close>

theorem route_query_reply:
  assumes "env_ok env" and "supernode_ok (env_crypto env) sn" and "sm_content msg = Content_Benc d"
    and "try_get_str dict_try_get_obj d (str_bytes ''sq'') = Ok (Some (str_bytes ''gr''))"
    and "on_subnode_message env clk msg sn = Some (Ok (Some ret), sn')"
  shows "\<exists>res txid src_ip tar_ip rt. sm_content ret = Content_Benc res
    \<and> label_shift (rh_switch_header (sm_route_header ret)) = 0
    \<and> try_get_bstr dict_try_get_obj d (str_bytes ''txid'') = Ok (Some txid) \<and> bt_get (str_bytes ''txid'') res = Some (Object_Bytes txid)
    \<and> query_addresses d = Ok (src_ip, tar_ip)
    \<and> get_route (env_old_route env) (env_order env) (clk_instant clk) (sn_server sn) (nodes_by_ip (sn_server sn) src_ip)
         (nodes_by_ip (sn_server sn) tar_ip) (sn_routing sn) = Some (rt, sn_routing sn')
    \<and> reply_names (sn_server sn) (sn_routing sn') src_ip tar_ip rt res"
proof -
  from assms(3,5) obtain res ver where impl: "on_subnode_message_impl env clk (sm_route_header msg) d sn = Some (Ok (Some (res, ver)), sn')"
    and ret: "sm_content ret = Content_Benc res" "label_shift (rh_switch_header (sm_route_header ret)) = 0"
    by (auto simp: on_subnode_message_def Let_def map_ok_ok_iff eq_commute [of "Some ret"])
  from impl assms(4) obtain version from_ip txid where txid: "entry_bytes d ''txid'' TxidRequired = Ok txid"
    and a: "answer_query env clk (str_bytes ''gr'') version from_ip txid d sn = Some (Ok (Some (res, ver)), sn')"
    by (auto simp: on_subnode_message_impl_def split: if_splits result.splits option.splits)
  have "try_get_bstr dict_try_get_obj d (str_bytes ''txid'') = Ok (Some txid)"
    using txid by (cases "try_get_bstr dict_try_get_obj d (str_bytes ''txid'')") (auto simp: entry_bytes_def ok_iff)
  then show ?thesis using answer_query_gr [OF assms(1,2) a] ret by blast
qed

text \<open>The newest link has label 21, and there is a link back with that number; in the second case it has
  label 23, which no link back has.\<close>

lemma route_query_reply_witness:
  "(\<exists>ret sn' res. on_subnode_message demo_env demo_clock demo_route_query (linked_supernode (self_links 21)) = Some (Ok (Some ret), sn')
      \<and> sm_content ret = Content_Benc res \<and> bt_get (str_bytes ''txid'') res = Some (Object_Bytes [1, 2])
      \<and> bt_get (str_bytes ''n'') res = Some (Object_Bytes (node_key (linked_node (self_links 21)) @ to_be_bytes (21 :: u64)))
      \<and> bt_get (str_bytes ''np'') res = Some (Object_Bytes [1, ucast (node_version (linked_node (self_links 21)))]))
   \<and> (\<exists>ret sn' res. on_subnode_message demo_env demo_clock demo_route_query (linked_supernode (self_links 23)) = Some (Ok (Some ret), sn')
      \<and> sm_content ret = Content_Benc res
      \<and> bt_get (str_bytes ''n'') res = Some (Object_Bytes (node_key (linked_node (self_links 23)) @ to_be_bytes (1 :: u64))))"
proof -
  have "\<exists>ret sn' res. on_subnode_message demo_env demo_clock demo_route_query (linked_supernode (self_links lab)) = Some (Ok (Some ret), sn')
      \<and> sm_content ret = Content_Benc res \<and> bt_get (str_bytes ''txid'') res = Some (Object_Bytes [1, 2])
      \<and> bt_get (str_bytes ''n'') res = Some (Object_Bytes (node_key (linked_node (self_links lab))
            @ to_be_bytes (if lab = 3 \<or> lab = 21 then ucast lab else 1 :: u64)))
      \<and> bt_get (str_bytes ''np'') res = Some (Object_Bytes [1, ucast (node_version (linked_node (self_links lab)))])"
    if "lab \<noteq> 0" for lab
  proof -
    obtain ret sn' where r: "on_subnode_message demo_env demo_clock demo_route_query (linked_supernode (self_links lab)) = Some (Ok (Some ret), sn')"
      using linked_answer by blast
    have c: "sm_content demo_route_query = Content_Benc demo_query" by (simp add: demo_route_query_def)
    have ok: "supernode_ok (env_crypto demo_env) (linked_supernode (self_links lab))"
      using linked_supernode_ok [OF self_links_ok [OF \<open>lab \<noteq> 0\<close>]] by (simp add: demo_env_def)
    have node: "nodes_by_ip (sn_server (linked_supernode (self_links lab))) Server_Spec.demo_ip = Some (linked_node (self_links lab))"
      by (simp add: linked_supernode_def)
    from route_query_reply [OF demo_env_ok ok c demo_query_sq r]
    obtain res where res: "sm_content ret = Content_Benc res" "bt_get (str_bytes ''txid'') res = Some (Object_Bytes [1, 2])"
      "reply_names (sn_server (linked_supernode (self_links lab))) (sn_routing sn') Server_Spec.demo_ip Server_Spec.demo_ip (Ok route_identity) res"
      by (auto simp: demo_query_txid demo_query_addresses linked_get_route)
    from res(3) have "bt_get (str_bytes ''n'') res = Some (Object_Bytes (node_key (linked_node (self_links lab))
            @ to_be_bytes (if lab = 3 \<or> lab = 21 then ucast lab else 1 :: u64)))"
      "bt_get (str_bytes ''np'') res = Some (Object_Bytes [1, ucast (node_version (linked_node (self_links lab)))])"
      by (auto simp: reply_names_def names_target_def node linked_label route_identity_def self_reference_def)
    with r res(1,2) show ?thesis by blast
  qed
  from this [of 21] this [of 23] show ?thesis by auto
qed

end
