(* ===== verification/Admin_Dispatch.thy ===== *)
theory Admin_Dispatch
  imports Bencode State Benc_Spec
begin

text \<open>
  The dispatch task of an admin connection (\<^verbatim>\<open>cjdns-admin/src/conn/dispatch.rs\<close>): it hands each message
  of the node to the caller that waits for it. A call registers its transaction id with a slot for
  the response; a response may open a stream, whose later messages carry its id.

  A slot is a oneshot channel and a stream a bounded queue; both are numbered, and the state has what
  was put in and whether the caller still holds the other end. Callers that give up or read from a
  stream are inputs of the task's run, like messages and requests.
\<close>

section \<open>State\<close>

type_synonym dict = "(bytes \<times> object) list"

datatype admin_error =
    Protocol
  | RemoteError bytes
  | RepeatingTx bytes
  | RecipientClosed
  | StreamFailed
  | UnknownStream
  | UnknownTxid

record response =
  resp_message :: dict
  resp_stream :: "nat option"

datatype slot = Waiting | Dropped | Answered "(response, admin_error) result"

record stream =
  st_queue :: "dict list"
  st_receiver :: bool

record dispatch =
  requests :: "bytes \<Rightarrow> nat option"
  streams :: "bytes \<Rightarrow> nat option"
  slots :: "nat \<Rightarrow> slot"
  stream_store :: "nat \<Rightarrow> stream"
  next_slot :: nat
  next_stream :: nat

definition STREAM_QUEUE_BOUND :: nat where "STREAM_QUEUE_BOUND = 0x100"
definition STATE_CLEANUP_PERIOD :: nat where "STATE_CLEANUP_PERIOD = 0x100"
definition BENCODE_MAX_RECURSION :: nat where "BENCODE_MAX_RECURSION = 0x20"

definition dispatch_new :: dispatch where
  "dispatch_new = \<lparr>requests = Map.empty, streams = Map.empty, slots = (\<lambda>_. Waiting),
     stream_store = (\<lambda>_. \<lparr>st_queue = [], st_receiver = True\<rparr>), next_slot = 0, next_stream = 0\<rparr>"

section \<open>Messages\<close>

definition admin_decode_message :: "bytes \<Rightarrow> (dict, admin_error) result" where
  "admin_decode_message msg =
     and_then (map_err (\<lambda>_. Protocol) (benc_parse BENCODE_MAX_RECURSION True msg)) (\<lambda>(obj, _).
     map_err (\<lambda>_. Protocol) (as_dict obj))"

definition to_ascii_lower :: "u8 \<Rightarrow> u8" where
  "to_ascii_lower b = (if 65 \<le> b \<and> b \<le> 90 then b + 32 else b)"

definition eq_ignore_ascii_case :: "bytes \<Rightarrow> bytes \<Rightarrow> bool" where
  "eq_ignore_ascii_case a b \<longleftrightarrow> map to_ascii_lower a = map to_ascii_lower b"

record message_metadata =
  md_txid :: bytes
  md_error :: "bytes option"
  md_stream_id :: "bytes option"

definition metadata_read_from :: "dict \<Rightarrow> (message_metadata, admin_error) result" where
  "metadata_read_from src =
     and_then (map_err (\<lambda>_. Protocol) (try_get_str dict_try_get_obj src (str_bytes ''txid''))) (\<lambda>txid.
     and_then (ok_or txid Protocol) (\<lambda>txid.
     and_then (case try_get_str dict_try_get_obj src (str_bytes ''error'') of
         Ok (Some emsg) \<Rightarrow> Ok (if emsg = [] \<or> eq_ignore_ascii_case emsg (str_bytes ''none'') then None else Some emsg)
       | Ok None \<Rightarrow> Ok None
       | Err _ \<Rightarrow> Ok (Some (str_bytes ''unrecognized error''))
       | Panic \<Rightarrow> Panic) (\<lambda>error.
     and_then (case try_get_str dict_try_get_obj src (str_bytes ''streamId'') of
         Ok sid \<Rightarrow> Ok sid
       | Err _ \<Rightarrow> Ok None
       | Panic \<Rightarrow> Panic) (\<lambda>stream_id.
     Ok \<lparr>md_txid = txid, md_error = error, md_stream_id = stream_id\<rparr>))))"

section \<open>Dispatch\<close>

text \<open>\<open>oneshot::Sender::send\<close>: the response is lost when the receiver is gone, and a stream with it.\<close>

definition slot_send :: "nat \<Rightarrow> (response, admin_error) result \<Rightarrow> dispatch \<Rightarrow> bool \<times> dispatch" where
  "slot_send k r s =
     (if slots s k = Waiting then (True, s\<lparr>slots := (slots s)(k := Answered r)\<rparr>)
      else (False,
        case r of
          Ok resp \<Rightarrow>
            (case resp_stream resp of
               Some c \<Rightarrow> s\<lparr>stream_store := (stream_store s)(c := (stream_store s c)\<lparr>st_receiver := False\<rparr>)\<rparr>
             | None \<Rightarrow> s)
        | _ \<Rightarrow> s))"

text \<open>\<open>mpsc::channel\<close>, stored under the id of the stream; a stream of the same id loses its sender.\<close>

definition open_stream :: "bytes \<Rightarrow> dispatch \<Rightarrow> nat \<times> dispatch" where
  "open_stream sid s =
     (next_stream s,
      s\<lparr>streams := (streams s)(sid \<mapsto> next_stream s),
        stream_store := (stream_store s)(next_stream s := \<lparr>st_queue = [], st_receiver = True\<rparr>),
        next_stream := next_stream s + 1\<rparr>)"

definition answer_request :: "nat \<Rightarrow> message_metadata \<Rightarrow> dict \<Rightarrow> dispatch \<Rightarrow> (unit, admin_error) result \<times> dispatch" where
  "answer_request k meta message s =
     (case (case md_error meta of
          Some emsg \<Rightarrow> (Err (RemoteError emsg), s)
        | None \<Rightarrow>
            (case md_stream_id meta of
               Some sid \<Rightarrow> (case open_stream sid s of (c, s) \<Rightarrow> (Ok \<lparr>resp_message = message, resp_stream = Some c\<rparr>, s))
             | None \<Rightarrow> (Ok \<lparr>resp_message = message, resp_stream = None\<rparr>, s))) of
        (r, s) \<Rightarrow>
          (case slot_send k r s of (sent, s) \<Rightarrow> (if sent then Ok () else Err RecipientClosed, s)))"

definition stream_message :: "bytes \<Rightarrow> nat \<Rightarrow> dict \<Rightarrow> dispatch \<Rightarrow> (unit, admin_error) result \<times> dispatch" where
  "stream_message sid c message s =
     (let st = stream_store s c in
      if st_receiver st \<and> length (st_queue st) < STREAM_QUEUE_BOUND
      then (Ok (), s\<lparr>stream_store := (stream_store s)(c := st\<lparr>st_queue := st_queue st @ [message]\<rparr>)\<rparr>)
      else (Err StreamFailed, s\<lparr>streams := (streams s)(sid := None)\<rparr>))"

definition dispatch_message :: "bytes \<Rightarrow> dispatch \<Rightarrow> (unit, admin_error) result \<times> dispatch" where
  "dispatch_message msg s =
     (case admin_decode_message msg of
        Err e \<Rightarrow> (Err e, s)
      | Panic \<Rightarrow> (Panic, s)
      | Ok message \<Rightarrow>
          (case metadata_read_from message of
             Err e \<Rightarrow> (Err e, s)
           | Panic \<Rightarrow> (Panic, s)
           | Ok meta \<Rightarrow>
               (case requests s (md_txid meta) of
                  Some k \<Rightarrow> answer_request k meta message (s\<lparr>requests := (requests s)(md_txid meta := None)\<rparr>)
                | None \<Rightarrow>
                    (case md_stream_id meta of
                       Some sid \<Rightarrow>
                         (case streams s sid of
                            Some c \<Rightarrow> stream_message sid c message s
                          | None \<Rightarrow> (Err UnknownStream, s))
                     | None \<Rightarrow> (Err UnknownTxid, s)))))"

definition handle_request :: "bytes \<Rightarrow> nat \<Rightarrow> dispatch \<Rightarrow> dispatch" where
  "handle_request txid k s =
     (case requests s txid of
        Some _ \<Rightarrow> snd (slot_send k (Err (RepeatingTx txid)) s)
      | None \<Rightarrow> s\<lparr>requests := (requests s)(txid \<mapsto> k)\<rparr>)"

definition is_closed_slot :: "slot \<Rightarrow> bool" where
  "is_closed_slot sl \<longleftrightarrow> sl = Dropped"

definition cleanup :: "dispatch \<Rightarrow> dispatch" where
  "cleanup s =
     s\<lparr>requests := (\<lambda>t. case requests s t of Some k \<Rightarrow> if is_closed_slot (slots s k) then None else Some k | None \<Rightarrow> None),
       streams := (\<lambda>i. case streams s i of Some c \<Rightarrow> if st_receiver (stream_store s c) then Some c else None | None \<Rightarrow> None)\<rparr>"

section \<open>The task\<close>

datatype dispatch_input =
    Received bytes
  | RemoteClosed
  | NetworkFailed
  | Requested bytes
  | QueueClosed
  | CallerGone nat
  | StreamTaken nat
  | StreamGone nat

datatype dispatch_status = Pending | Completed | NetworkAborted | Panicked

record dispatch_task =
  dt_state :: dispatch
  dt_count :: nat
  dt_status :: dispatch_status

text \<open>The end of one iteration of the loop: every 256th cleans the tables.\<close>

definition count_iteration :: "dispatch_task \<Rightarrow> dispatch_task" where
  "count_iteration t =
     (let n = dt_count t + 1 in
      t\<lparr>dt_count := n, dt_state := (if n mod STATE_CLEANUP_PERIOD = 0 then cleanup (dt_state t) else dt_state t)\<rparr>)"

text \<open>A request comes with a fresh slot: \<open>register_request\<close> makes the channel.\<close>

definition new_slot :: "dispatch \<Rightarrow> nat \<times> dispatch" where
  "new_slot s = (next_slot s, s\<lparr>slots := (slots s)(next_slot s := Waiting), next_slot := next_slot s + 1\<rparr>)"

text \<open>
  The caller drops the receiver of its slot while it waits, reads a message of a stream, or drops the
  receiver of a stream.
\<close>

definition caller_gone :: "nat \<Rightarrow> dispatch \<Rightarrow> dispatch" where
  "caller_gone k s = (if slots s k = Waiting then s\<lparr>slots := (slots s)(k := Dropped)\<rparr> else s)"

definition stream_taken :: "nat \<Rightarrow> dispatch \<Rightarrow> dispatch" where
  "stream_taken c s = s\<lparr>stream_store := (stream_store s)(c := (stream_store s c)\<lparr>st_queue := tl (st_queue (stream_store s c))\<rparr>)\<rparr>"

definition stream_gone :: "nat \<Rightarrow> dispatch \<Rightarrow> dispatch" where
  "stream_gone c s = s\<lparr>stream_store := (stream_store s)(c := (stream_store s c)\<lparr>st_receiver := False\<rparr>)\<rparr>"

fun dispatch_step :: "dispatch_task \<Rightarrow> dispatch_input \<Rightarrow> dispatch_task" where
  "dispatch_step t (Received msg) =
     (if dt_status t \<noteq> Pending then t
      else case dispatch_message msg (dt_state t) of
        (Panic, s) \<Rightarrow> t\<lparr>dt_state := s, dt_status := Panicked\<rparr>
      | (_, s) \<Rightarrow> count_iteration (t\<lparr>dt_state := s\<rparr>))"
| "dispatch_step t RemoteClosed = (if dt_status t \<noteq> Pending then t else t\<lparr>dt_status := Completed\<rparr>)"
| "dispatch_step t NetworkFailed = (if dt_status t \<noteq> Pending then t else t\<lparr>dt_status := NetworkAborted\<rparr>)"
| "dispatch_step t (Requested txid) =
     (if dt_status t \<noteq> Pending then t
      else case new_slot (dt_state t) of (k, s) \<Rightarrow> count_iteration (t\<lparr>dt_state := handle_request txid k s\<rparr>))"
| "dispatch_step t QueueClosed = (if dt_status t \<noteq> Pending then t else t\<lparr>dt_status := Completed\<rparr>)"
| "dispatch_step t (CallerGone k) = t\<lparr>dt_state := caller_gone k (dt_state t)\<rparr>"
| "dispatch_step t (StreamTaken c) = t\<lparr>dt_state := stream_taken c (dt_state t)\<rparr>"
| "dispatch_step t (StreamGone c) = t\<lparr>dt_state := stream_gone c (dt_state t)\<rparr>"

definition do_dispatch :: "dispatch_input list \<Rightarrow> dispatch_task" where
  "do_dispatch ins = foldl dispatch_step \<lparr>dt_state = dispatch_new, dt_count = 0, dt_status = Pending\<rparr> ins"

section \<open>Invariant\<close>

text \<open>
  Registered slots are distinct and not yet answered, streams have distinct queues, no queue is longer
  than its bound, and only slots that were handed out are answered.
\<close>

definition dispatch_ok :: "dispatch \<Rightarrow> bool" where
  "dispatch_ok s \<longleftrightarrow>
     (\<forall>t k. requests s t = Some k \<longrightarrow> k < next_slot s \<and> (\<forall>r. slots s k \<noteq> Answered r))
     \<and> (\<forall>t t' k. requests s t = Some k \<longrightarrow> requests s t' = Some k \<longrightarrow> t = t')
     \<and> (\<forall>i c. streams s i = Some c \<longrightarrow> c < next_stream s)
     \<and> (\<forall>i i' c. streams s i = Some c \<longrightarrow> streams s i' = Some c \<longrightarrow> i = i')
     \<and> (\<forall>c. length (st_queue (stream_store s c)) \<le> STREAM_QUEUE_BOUND)
     \<and> (\<forall>k r. slots s k = Answered r \<longrightarrow> k < next_slot s)"

lemma dispatch_okD:
  assumes "dispatch_ok s"
  shows "requests s t = Some k \<Longrightarrow> k < next_slot s" and "requests s t = Some k \<Longrightarrow> slots s k \<noteq> Answered r"
    and "requests s t = Some k \<Longrightarrow> requests s t' = Some k \<Longrightarrow> t = t'"
    and "streams s i = Some c \<Longrightarrow> c < next_stream s" and "streams s i = Some c \<Longrightarrow> streams s i' = Some c \<Longrightarrow> i = i'"
    and "length (st_queue (stream_store s c)) \<le> STREAM_QUEUE_BOUND" and "slots s k = Answered r \<Longrightarrow> k < next_slot s"
  using assms unfolding dispatch_ok_def by blast+

lemma dispatch_okI:
  assumes "\<And>t k. requests s t = Some k \<Longrightarrow> k < next_slot s \<and> (\<forall>r. slots s k \<noteq> Answered r)"
    and "\<And>t t' k. requests s t = Some k \<Longrightarrow> requests s t' = Some k \<Longrightarrow> t = t'"
    and "\<And>i c. streams s i = Some c \<Longrightarrow> c < next_stream s"
    and "\<And>i i' c. streams s i = Some c \<Longrightarrow> streams s i' = Some c \<Longrightarrow> i = i'"
    and "\<And>c. length (st_queue (stream_store s c)) \<le> STREAM_QUEUE_BOUND"
    and "\<And>k r. slots s k = Answered r \<Longrightarrow> k < next_slot s"
  shows "dispatch_ok s"
  using assms unfolding dispatch_ok_def by blast

lemma dispatch_new_ok: "dispatch_ok dispatch_new"
  by (simp add: dispatch_ok_def dispatch_new_def)

lemma slot_send_ok:
  assumes "dispatch_ok s" and "\<And>t. requests s t \<noteq> Some k" and "k < next_slot s"
  shows "dispatch_ok (snd (slot_send k r s))"
  using assms by (auto simp: dispatch_ok_def slot_send_def split: result.split option.split)

lemma open_stream_ok:
  assumes "dispatch_ok s"
  shows "dispatch_ok (snd (open_stream sid s))"
proof (rule dispatch_okI)
  let ?s = "snd (open_stream sid s)"
  have streams: "streams ?s = (streams s)(sid \<mapsto> next_stream s)" "next_stream ?s = Suc (next_stream s)"
    and same: "requests ?s = requests s" "slots ?s = slots s" "next_slot ?s = next_slot s"
    by (simp_all add: open_stream_def)
  have fresh: "streams s i \<noteq> Some (next_stream s)" for i using dispatch_okD(4) [OF assms, of i "next_stream s"] by auto
  show "i = i'" if "streams ?s i = Some c" and "streams ?s i' = Some c" for i i' c
    using that dispatch_okD(5) [OF assms, of i c i'] fresh unfolding streams by (simp split: if_splits)
  show "c < next_stream ?s" if "streams ?s i = Some c" for i c
    using that dispatch_okD(4) [OF assms, of i c] unfolding streams by (simp split: if_splits)
  show "length (st_queue (stream_store ?s c)) \<le> STREAM_QUEUE_BOUND" for c
    using dispatch_okD(6) [OF assms, of c] by (simp add: open_stream_def)
qed (use dispatch_okD(1-3,7) [OF assms] in \<open>simp_all add: open_stream_def\<close>)

lemma stream_message_ok: "dispatch_ok s \<Longrightarrow> dispatch_ok (snd (stream_message sid c message s))"
  by (auto simp: stream_message_def dispatch_ok_def Let_def)

lemma answer_request_ok:
  assumes "dispatch_ok s" and "\<And>t. requests s t \<noteq> Some k" and "k < next_slot s"
  shows "dispatch_ok (snd (answer_request k meta message s))"
proof -
  have "requests (snd (open_stream sid s)) = requests s" "next_slot (snd (open_stream sid s)) = next_slot s" for sid
    by (simp_all add: open_stream_def)
  then have "dispatch_ok (snd (slot_send k r (snd (open_stream sid s))))" for r sid
    using slot_send_ok [OF open_stream_ok [OF assms(1)]] assms(2,3) by simp
  then show ?thesis
    using slot_send_ok [OF assms] by (auto simp: answer_request_def split: option.split prod.split) (metis snd_conv)+
qed

lemma dispatch_message_ok:
  assumes "dispatch_ok s"
  shows "dispatch_ok (snd (dispatch_message msg s))"
proof -
  have "dispatch_ok (snd (answer_request k meta message (s\<lparr>requests := (requests s)(t := None)\<rparr>)))"
    if k: "requests s t = Some k" for k t meta message
  proof (rule answer_request_ok)
    show "dispatch_ok (s\<lparr>requests := (requests s)(t := None)\<rparr>)" using assms by (auto simp: dispatch_ok_def)
    show "requests (s\<lparr>requests := (requests s)(t := None)\<rparr>) t' \<noteq> Some k" for t'
      using dispatch_okD(3) [OF assms k, of t'] by auto
    show "k < next_slot (s\<lparr>requests := (requests s)(t := None)\<rparr>)" using dispatch_okD(1) [OF assms k] by simp
  qed
  then show ?thesis
    using assms stream_message_ok by (simp add: dispatch_message_def split: result.split option.split)
qed

lemma cleanup_ok: "dispatch_ok s \<Longrightarrow> dispatch_ok (cleanup s)"
  by (auto simp: cleanup_def dispatch_ok_def split: option.splits if_splits)

lemma request_ok:
  assumes "dispatch_ok s" and "new_slot s = (k, s')"
  shows "dispatch_ok (handle_request txid k s')"
proof -
  have s': "s' = s\<lparr>slots := (slots s)(k := Waiting), next_slot := Suc k\<rparr>" "k = next_slot s"
    using assms(2) by (auto simp: new_slot_def)
  have fresh: "requests s t \<noteq> Some k" for t using dispatch_okD(1) [OF assms(1), of t k] s'(2) by auto
  have ok: "dispatch_ok s'"
    using assms(1) unfolding s'(1) by (auto simp: dispatch_ok_def s'(2) intro: less_SucI)
  show ?thesis
  proof (cases "requests s' txid")
    case None
    then show ?thesis using ok fresh s' by (auto simp: handle_request_def dispatch_ok_def)
  next
    case (Some j)
    then show ?thesis using slot_send_ok [OF ok, of k] fresh s' by (simp add: handle_request_def)
  qed
qed

lemma count_iteration_ok: "dispatch_ok (dt_state t) \<Longrightarrow> dispatch_ok (dt_state (count_iteration t))"
  by (simp add: count_iteration_def Let_def cleanup_ok)

lemma caller_ok:
  assumes "dispatch_ok s"
  shows "dispatch_ok (caller_gone k s)" and "dispatch_ok (stream_taken c s)" and "dispatch_ok (stream_gone c s)"
proof -
  show "dispatch_ok (caller_gone k s)" "dispatch_ok (stream_gone c s)"
    using assms by (auto simp: caller_gone_def stream_gone_def dispatch_ok_def)
  have "length (tl (st_queue (stream_store s c))) \<le> STREAM_QUEUE_BOUND"
    using dispatch_okD(6) [OF assms, of c] by simp
  then show "dispatch_ok (stream_taken c s)" using assms by (simp add: stream_taken_def dispatch_ok_def)
qed

lemma dispatch_step_ok: "dispatch_ok (dt_state t) \<Longrightarrow> dispatch_ok (dt_state (dispatch_step t i))"
proof (cases i)
  case (Received msg)
  assume ok: "dispatch_ok (dt_state t)"
  obtain r s where r: "dispatch_message msg (dt_state t) = (r, s)" by (cases "dispatch_message msg (dt_state t)")
  then have "dispatch_ok s" using dispatch_message_ok [OF ok, of msg] by simp
  then show ?thesis using ok r Received by (cases r) (simp_all add: count_iteration_ok)
next
  case (Requested txid)
  assume ok: "dispatch_ok (dt_state t)"
  obtain k s where k: "new_slot (dt_state t) = (k, s)" by (cases "new_slot (dt_state t)")
  show ?thesis using ok k request_ok [OF ok k] Requested by (simp add: count_iteration_ok)
qed (simp_all add: caller_ok)

lemma do_dispatch_ok: "dispatch_ok (dt_state (do_dispatch ins))"
proof (induction ins rule: rev_induct)
  case Nil
  then show ?case by (simp add: do_dispatch_def dispatch_new_ok)
next
  case (snoc i ins)
  then show ?case using dispatch_step_ok by (simp add: do_dispatch_def)
qed

section \<open>What a caller gets\<close>

text \<open>An answered slot is never touched again.\<close>

lemma dispatch_message_keeps:
  assumes "dispatch_ok s" and "slots s k = Answered r"
  shows "slots (snd (dispatch_message msg s)) k = Answered r"
proof -
  have send: "slots (snd (slot_send j q t)) k = Answered r" if "slots t k = Answered r" for j q t
    using that by (auto simp: slot_send_def split: result.split option.split)
  have "slots (snd (answer_request j meta message t)) k = Answered r" if t: "slots t k = Answered r" for j meta message t
  proof -
    have "slots (snd (open_stream sid t)) k = Answered r" for sid using t by (simp add: open_stream_def)
    then show ?thesis
      using send t by (simp add: answer_request_def case_prod_beta split: option.split)
  qed
  then show ?thesis
    using assms(2) by (simp add: dispatch_message_def stream_message_def Let_def split: result.split option.split)
qed

lemma dispatch_step_keeps:
  assumes "dispatch_ok (dt_state t)" and "slots (dt_state t) k = Answered r"
  shows "slots (dt_state (dispatch_step t i)) k = Answered r"
proof -
  have count: "slots (dt_state (count_iteration u)) = slots (dt_state u)" for u
    by (simp add: count_iteration_def Let_def cleanup_def)
  show ?thesis
  proof (cases i)
    case (Received msg)
    obtain q s where q: "dispatch_message msg (dt_state t) = (q, s)" by (cases "dispatch_message msg (dt_state t)")
    then have "slots s k = Answered r" using dispatch_message_keeps [OF assms, of msg] by simp
    then show ?thesis using assms q Received by (cases q) (simp_all add: count)
  next
    case (Requested txid)
    have "k \<noteq> next_slot (dt_state t)" using dispatch_okD(7) [OF assms] by simp
    then show ?thesis
      using assms Requested by (simp add: new_slot_def count handle_request_def slot_send_def split: option.split)
  qed (use assms in \<open>auto simp: caller_gone_def stream_taken_def stream_gone_def\<close>)
qed

lemma answered_once:
  assumes "slots (dt_state (do_dispatch ins)) k = Answered r"
  shows "slots (dt_state (do_dispatch (ins @ later))) k = Answered r"
proof (induction later rule: rev_induct)
  case Nil
  then show ?case using assms by simp
next
  case (snoc i later)
  have "do_dispatch (ins @ later @ [i]) = dispatch_step (do_dispatch (ins @ later)) i" by (simp add: do_dispatch_def)
  then show ?case using dispatch_step_keeps [OF do_dispatch_ok snoc] by simp
qed

text \<open>The response a message stands for; \<open>c\<close> is the stream it opens.\<close>

definition response_of :: "message_metadata \<Rightarrow> dict \<Rightarrow> nat \<Rightarrow> (response, admin_error) result" where
  "response_of meta message c =
     (case md_error meta of
        Some emsg \<Rightarrow> Err (RemoteError emsg)
      | None \<Rightarrow> Ok \<lparr>resp_message = message, resp_stream = map_option (\<lambda>_. c) (md_stream_id meta)\<rparr>)"

lemma response_routed:
  assumes "dispatch_ok s" and "admin_decode_message msg = Ok message" and "metadata_read_from message = Ok meta"
    and "requests s (md_txid meta) = Some k" and "slots s k = Waiting"
    and "dispatch_message msg s = (res, s')"
  shows "res = Ok () \<and> slots s' = (slots s)(k := Answered (response_of meta message (next_stream s)))
    \<and> requests s' = (requests s)(md_txid meta := None)
    \<and> streams s' = (if md_error meta = None then (case md_stream_id meta of Some sid \<Rightarrow> (streams s)(sid \<mapsto> next_stream s) | None \<Rightarrow> streams s)
         else streams s)"
  using assms(2-6)
  by (auto simp: dispatch_message_def answer_request_def response_of_def slot_send_def open_stream_def split: option.splits)

lemma stream_delivers:
  assumes "admin_decode_message msg = Ok message" and "metadata_read_from message = Ok meta"
    and "requests s (md_txid meta) = None" and "md_stream_id meta = Some sid" and "streams s sid = Some c"
  shows "dispatch_message msg s = stream_message sid c message s"
  using assms by (simp add: dispatch_message_def)

section \<open>Properties\<close>

text \<open>C33: whatever has happened in a run of the dispatch task, a message whose transaction id is registered
  and whose caller waits is delivered: it answers the slot of that call and no other, as an error if it
  says so and otherwise with the message and the stream it opens; the id is free again, no other call
  loses its registration, and the answer stands for the rest of the run.\<close>

theorem admin_response_routed:
  assumes "t = do_dispatch ins" and "dt_status t = Pending"
    and "admin_decode_message msg = Ok message" and "metadata_read_from message = Ok meta"
    and "requests (dt_state t) (md_txid meta) = Some k" and "slots (dt_state t) k = Waiting"
  shows "\<exists>t'. t' = dispatch_step t (Received msg) \<and> dt_status t' = Pending
    \<and> slots (dt_state t') = (slots (dt_state t))(k := Answered (response_of meta message (next_stream (dt_state t))))
    \<and> requests (dt_state t') (md_txid meta) = None
    \<and> (\<forall>x j. x \<noteq> md_txid meta \<and> requests (dt_state t) x = Some j \<and> slots (dt_state t) j = Waiting \<longrightarrow> requests (dt_state t') x = Some j)
    \<and> (\<forall>later. slots (dt_state (do_dispatch (ins @ Received msg # later))) k = Answered (response_of meta message (next_stream (dt_state t))))"
proof -
  obtain res s' where d: "dispatch_message msg (dt_state t) = (res, s')" by (cases "dispatch_message msg (dt_state t)")
  have ok: "dispatch_ok (dt_state t)" unfolding assms(1) by (rule do_dispatch_ok)
  let ?r = "response_of meta message (next_stream (dt_state t))"
  note routed = response_routed [OF ok assms(3-6) d]
  let ?t = "dispatch_step t (Received msg)"
  have t': "?t = count_iteration (t\<lparr>dt_state := s'\<rparr>)" using d routed assms(2) by simp
  have slots: "slots (dt_state ?t) = (slots (dt_state t))(k := Answered ?r)"
    unfolding t' using routed by (simp add: count_iteration_def Let_def cleanup_def)
  have "do_dispatch (ins @ [Received msg]) = ?t" by (simp add: do_dispatch_def assms(1))
  then have "slots (dt_state (do_dispatch (ins @ Received msg # later))) k = Answered ?r" for later
    using answered_once [of "ins @ [Received msg]" k ?r later] slots by simp
  moreover have "requests (dt_state ?t) x = Some j"
    if "x \<noteq> md_txid meta" "requests (dt_state t) x = Some j" "slots (dt_state t) j = Waiting" for x j
    using that routed dispatch_okD(3) [OF ok, of x j "md_txid meta"] assms(5)
    unfolding t' by (auto simp: count_iteration_def Let_def cleanup_def is_closed_slot_def)
  moreover have "requests (dt_state ?t) (md_txid meta) = None" "dt_status ?t = Pending"
    unfolding t' using routed assms(2) by (simp_all add: count_iteration_def Let_def cleanup_def)
  ultimately show ?thesis using slots by blast
qed

lemma demo_admin_message:
  "admin_decode_message [100, 52, 58, 116, 120, 105, 100, 49, 58, 53, 101] = Ok [(str_bytes ''txid'', Object_Bytes [53])]"
  by (simp add: admin_decode_message_def BENCODE_MAX_RECURSION_def str_bytes_def benc_run cong: and_then_weak)

lemma demo_admin_metadata:
  "metadata_read_from [(str_bytes ''txid'', Object_Bytes [53])] = Ok \<lparr>md_txid = [53], md_error = None, md_stream_id = None\<rparr>"
  by (simp add: metadata_read_from_def try_get_str_def try_get_bstr_def try_get_def dict_try_get_obj_def bstr_as_str_def str_bytes_def)

lemma admin_response_routed_witness:
  "slots (dt_state (do_dispatch [Requested [53], Received [100, 52, 58, 116, 120, 105, 100, 49, 58, 53, 101], CallerGone 0])) 0
     = Answered (Ok \<lparr>resp_message = [(str_bytes ''txid'', Object_Bytes [53])], resp_stream = None\<rparr>)"
proof -
  let ?t = "do_dispatch [Requested [53]]"
  have t: "dt_status ?t = Pending" "requests (dt_state ?t) [53] = Some 0" "slots (dt_state ?t) 0 = Waiting" "next_stream (dt_state ?t) = 0"
    by (simp_all add: do_dispatch_def new_slot_def count_iteration_def handle_request_def dispatch_new_def STATE_CLEANUP_PERIOD_def)
  have "slots (dt_state (do_dispatch ([Requested [53]] @ Received [100, 52, 58, 116, 120, 105, 100, 49, 58, 53, 101] # [CallerGone 0]))) 0
      = Answered (response_of \<lparr>md_txid = [53], md_error = None, md_stream_id = None\<rparr> [(str_bytes ''txid'', Object_Bytes [53])] 0)"
    using admin_response_routed [OF refl t(1) demo_admin_message demo_admin_metadata] t by (metis message_metadata.select_convs(1))
  then show ?thesis by (simp add: response_of_def)
qed

end
