(* ===== verification/Admin_Client.thy ===== *)
theory Admin_Client
  imports Admin_Dispatch "HOL-Library.Multiset" "HOL-Library.Product_Lexorder"
begin

text \<open>
  The client side of an admin connection: its options (\<^verbatim>\<open>cjdns-admin/src/config.rs\<close>), the list of the
  node's functions (\<^verbatim>\<open>func_list.rs\<close>), transaction ids (\<^verbatim>\<open>txid.rs\<close>) and calls with and without
  authentication (\<^verbatim>\<open>conn/mod.rs\<close>). What comes back for a message that is sent, or that nothing came in
  time, is the parameter \<open>exchange\<close>; the dispatch task decides it in the theory before. Strings are
  their bytes; SHA-256 and hexadecimal text are parameters.
\<close>

section \<open>Options\<close>

datatype endpoint_type = Endpoint_Udp | Endpoint_Pipe

record admin_opts =
  opt_typ :: "endpoint_type option"
  opt_addr :: "bytes option"
  opt_port :: "u16 option"
  opt_path :: "bytes option"
  opt_password :: "bytes option"
  opt_config_file_path :: "bytes option"
  opt_anon :: bool

datatype endpoint = Udp bytes u16 | Pipe bytes

record connection_options =
  co_endpoint :: endpoint
  co_password :: bytes
  co_used_config_file :: "bytes option"

definition opts_default :: admin_opts where
  "opts_default = \<lparr>opt_typ = None, opt_addr = None, opt_port = None, opt_path = None, opt_password = None,
     opt_config_file_path = None, opt_anon = False\<rparr>"

definition DEFAULT_PORT :: u16 where "DEFAULT_PORT = 11234"

definition build_connection_options :: "admin_opts \<Rightarrow> bytes option \<Rightarrow> connection_options" where
  "build_connection_options o' conf_file =
     \<lparr>co_endpoint =
        (case opt_typ o' of
           Some Endpoint_Pipe \<Rightarrow> Pipe (case opt_path o' of Some p \<Rightarrow> p | None \<Rightarrow> str_bytes ''cjdroute.sock'')
         | _ \<Rightarrow> Udp (case opt_addr o' of Some a \<Rightarrow> a | None \<Rightarrow> str_bytes ''127.0.0.1'')
                  (case opt_port o' of Some p \<Rightarrow> p | None \<Rightarrow> DEFAULT_PORT)),
      co_password = (case opt_password o' of Some p \<Rightarrow> p | None \<Rightarrow> if opt_anon o' then [] else str_bytes ''NONE''),
      co_used_config_file = conf_file\<rparr>"

datatype 'a config_file = FileMissing | FileUnreadable | FileMalformed | FileParsed 'a

datatype options_error = ConfigFileRead | BadConfigFile

definition config_file_location :: "bytes option \<Rightarrow> (bytes \<Rightarrow> bytes) \<Rightarrow> admin_opts \<Rightarrow> bytes option" where
  "config_file_location home_dir join o' =
     (case opt_config_file_path o' of
        Some f \<Rightarrow> Some f
      | None \<Rightarrow> map_option (\<lambda>_. join (str_bytes ''.cjdnsadmin'')) home_dir)"

definition is_configured :: "admin_opts \<Rightarrow> bool" where
  "is_configured o' \<longleftrightarrow>
     (opt_typ o' \<noteq> None \<or> opt_addr o' \<noteq> None \<or> opt_port o' \<noteq> None \<or> opt_path o' \<noteq> None \<or> opt_password o' \<noteq> None)
     \<and> opt_config_file_path o' = None"

text \<open>\<open>read\<close> is what there is at a path; the file, if there is one, takes the place of the options.\<close>

definition into_connection_options ::
  "bytes option \<Rightarrow> (bytes \<Rightarrow> bytes) \<Rightarrow> (bytes \<Rightarrow> admin_opts config_file) \<Rightarrow> admin_opts \<Rightarrow> (connection_options, options_error) result" where
  "into_connection_options home_dir join read o' =
     (if is_configured o' then Ok (build_connection_options o' None)
      else case config_file_location home_dir join o' of
        None \<Rightarrow> Ok (build_connection_options o' None)
      | Some f \<Rightarrow>
          (case read f of
             FileParsed config \<Rightarrow> Ok (build_connection_options config (Some f))
           | FileMissing \<Rightarrow> Ok (build_connection_options o' None)
           | FileUnreadable \<Rightarrow> Err ConfigFileRead
           | FileMalformed \<Rightarrow> Err BadConfigFile))"

section \<open>Functions of the node\<close>

datatype arg_type = ArgInt | ArgString | ArgList | ArgDict

record func_arg =
  arg_name :: bytes
  arg_required :: bool
  arg_typ :: arg_type

record func =
  func_name :: bytes
  func_args :: "func_arg list"

datatype func_error = NameNotUtf8 | FuncObject obj_error | MissingArgType | MissingArgRequired | UnknownArgType

definition arg_type_try_from :: "bytes \<Rightarrow> (arg_type, func_error) result" where
  "arg_type_try_from s =
     (if s = str_bytes ''Int'' then Ok ArgInt
      else if s = str_bytes ''String'' then Ok ArgString
      else if s = str_bytes ''List'' then Ok ArgList
      else if s = str_bytes ''Dict'' then Ok ArgDict
      else Err UnknownArgType)"

definition string_from_utf8 :: "bytes \<Rightarrow> (bytes, func_error) result" where
  "string_from_utf8 b = (if valid_utf8 b then Ok b else Err NameNotUtf8)"

definition parse_arg :: "bytes \<Rightarrow> object \<Rightarrow> (func_arg, func_error) result" where
  "parse_arg name descr =
     and_then (string_from_utf8 name) (\<lambda>name.
     and_then (map_err FuncObject (as_dict descr)) (\<lambda>desc.
     and_then (map_err FuncObject (try_get_str dict_try_get_obj desc (str_bytes ''type''))) (\<lambda>t.
     and_then (ok_or t MissingArgType) (\<lambda>t.
     and_then (arg_type_try_from t) (\<lambda>typ.
     and_then (map_err FuncObject (try_get_int dict_try_get_obj desc (str_bytes ''required''))) (\<lambda>r.
     and_then (ok_or r MissingArgRequired) (\<lambda>r.
     Ok \<lparr>arg_name = name, arg_required = (r \<noteq> 0), arg_typ = typ\<rparr>)))))))"

fun parse_args :: "dict \<Rightarrow> (func_arg list, func_error) result" where
  "parse_args [] = Ok []"
| "parse_args ((name, descr) # args) =
     and_then (parse_arg name descr) (\<lambda>arg. map_ok (Cons arg) (parse_args args))"

text \<open>Required arguments first, each group by name; the sort is stable.\<close>

definition parse_fn :: "bytes \<Rightarrow> object \<Rightarrow> (func, func_error) result" where
  "parse_fn name descr =
     and_then (map_err FuncObject (as_dict descr)) (\<lambda>d.
     and_then (parse_args d) (\<lambda>args.
     Ok \<lparr>func_name = name, func_args = sort_key (\<lambda>a. (\<not> arg_required a, arg_name a)) args\<rparr>))"

fun push_funcs :: "dict \<Rightarrow> func list \<Rightarrow> (func list, func_error) result" where
  "push_funcs [] l = Ok l"
| "push_funcs ((name, descr) # fns) l =
     and_then (string_from_utf8 name) (\<lambda>name.
     and_then (parse_fn name descr) (\<lambda>f. push_funcs fns (l @ [f])))"

definition add_funcs :: "dict \<Rightarrow> func list \<Rightarrow> (func list, func_error) result" where
  "add_funcs fns l = map_ok (sort_key func_name) (push_funcs fns l)"

definition find_func :: "bytes \<Rightarrow> func list \<Rightarrow> func option" where
  "find_func name l = find (\<lambda>f. func_name f = name) l"

section \<open>Calls\<close>

datatype call_error =
    CallFailed admin_error
  | TimeOut
  | CookieBad
  | NoAvailableFunctions
  | BadFuncs func_error
  | ConnectError connection_options
  | AuthError connection_options

text \<open>The next id, and the counter after it; it wraps.\<close>

definition next_txid :: "u64 \<Rightarrow> bytes \<times> u64" where
  "next_txid counter = (dec_bytes (unat counter), counter + 1)"

type_synonym exchange = "bytes \<Rightarrow> bytes \<Rightarrow> (dict, call_error) result"

definition send_request :: "exchange \<Rightarrow> dict \<Rightarrow> bytes \<Rightarrow> (dict, call_error) result" where
  "send_request exchange req txid = exchange txid (benc_serialize [] (Object_Dict req) 0)"

definition call_message :: "bytes \<Rightarrow> bytes \<Rightarrow> dict \<Rightarrow> dict" where
  "call_message txid fn args =
     dict_insert (str_bytes ''args'') (Object_Dict args)
       (dict_insert (str_bytes ''q'') (Object_Bytes fn) (dict_insert (str_bytes ''txid'') (Object_Bytes txid) []))"

definition call_func_no_auth :: "exchange \<Rightarrow> bytes \<Rightarrow> dict \<Rightarrow> u64 \<Rightarrow> (dict, call_error) result \<times> u64" where
  "call_func_no_auth exchange fn args counter =
     (case next_txid counter of (txid, counter) \<Rightarrow>
        (send_request exchange (call_message txid fn args) txid, counter))"

definition auth_message :: "bytes \<Rightarrow> bytes \<Rightarrow> dict \<Rightarrow> bytes \<Rightarrow> bytes \<Rightarrow> dict" where
  "auth_message txid fn args cookie hash =
     dict_insert (str_bytes ''hash'') (Object_Bytes hash) (dict_insert (str_bytes ''cookie'') (Object_Bytes cookie)
       (dict_insert (str_bytes ''args'') (Object_Dict args) (dict_insert (str_bytes ''aq'') (Object_Bytes fn)
         (dict_insert (str_bytes ''q'') (Object_Bytes (str_bytes ''auth'')) (dict_insert (str_bytes ''txid'') (Object_Bytes txid) [])))))"

definition signed_message :: "(bytes \<Rightarrow> bytes) \<Rightarrow> (bytes \<Rightarrow> bytes) \<Rightarrow> bytes \<Rightarrow> bytes \<Rightarrow> bytes \<Rightarrow> dict \<Rightarrow> bytes \<Rightarrow> dict" where
  "signed_message sha256 hex password txid fn args cookie =
     (let req = auth_message txid fn args cookie (hex (sha256 (password @ cookie)))
      in dict_insert (str_bytes ''hash'') (Object_Bytes (hex (sha256 (benc_serialize [] (Object_Dict req) 0)))) req)"

definition call_func_auth ::
  "(bytes \<Rightarrow> bytes) \<Rightarrow> (bytes \<Rightarrow> bytes) \<Rightarrow> exchange \<Rightarrow> bytes \<Rightarrow> bytes \<Rightarrow> dict \<Rightarrow> u64 \<Rightarrow> (dict, call_error) result \<times> u64" where
  "call_func_auth sha256 hex exchange password fn args counter =
     (case call_func_no_auth exchange (str_bytes ''cookie'') [] counter of (resp, counter) \<Rightarrow>
        (case and_then resp (\<lambda>message. and_then (map_err (\<lambda>_. CookieBad) (try_get_str dict_try_get_obj message (str_bytes ''cookie'')))
             (\<lambda>c. ok_or c CookieBad)) of
           Err e \<Rightarrow> (Err e, counter)
         | Panic \<Rightarrow> (Panic, counter)
         | Ok cookie \<Rightarrow>
             (case next_txid counter of (txid, counter) \<Rightarrow>
                (send_request exchange (signed_message sha256 hex password txid fn args cookie) txid, counter))))"

definition call_func ::
  "(bytes \<Rightarrow> bytes) \<Rightarrow> (bytes \<Rightarrow> bytes) \<Rightarrow> exchange \<Rightarrow> bytes \<Rightarrow> bytes \<Rightarrow> dict \<Rightarrow> bool \<Rightarrow> u64 \<Rightarrow> (dict, call_error) result \<times> u64" where
  "call_func sha256 hex exchange password fn args disable_auth counter =
     (if disable_auth \<or> password = [] then call_func_no_auth exchange fn args counter
      else call_func_auth sha256 hex exchange password fn args counter)"

definition probe_connection ::
  "(bytes \<Rightarrow> bytes) \<Rightarrow> (bytes \<Rightarrow> bytes) \<Rightarrow> exchange \<Rightarrow> connection_options \<Rightarrow> u64 \<Rightarrow> (unit, call_error) result \<times> u64" where
  "probe_connection sha256 hex exchange o' counter =
     (case call_func sha256 hex exchange (co_password o') (str_bytes ''ping'') [] True counter of
        (Err _, counter) \<Rightarrow> (Err (ConnectError o'), counter)
      | (Panic, counter) \<Rightarrow> (Panic, counter)
      | (Ok _, counter) \<Rightarrow>
          if co_password o' = [] then (Ok (), counter)
          else (case call_func sha256 hex exchange (co_password o') (str_bytes ''AuthorizedPasswords_list'') [] False counter of
                  (r, counter) \<Rightarrow> (map_ok (\<lambda>_. ()) (map_err (\<lambda>_. AuthError o') r), counter)))"

text \<open>
  The functions are asked for page by page until an empty page; a node that never sends one keeps the
  caller busy.
\<close>

partial_function (option) load_from_page ::
  "(bytes \<Rightarrow> bytes) \<Rightarrow> (bytes \<Rightarrow> bytes) \<Rightarrow> exchange \<Rightarrow> bytes \<Rightarrow> nat \<Rightarrow> func list \<Rightarrow> u64 \<Rightarrow> ((func list, call_error) result \<times> u64) option" where
  [code]: "load_from_page sha256 hex exchange password i res counter =
     (case call_func sha256 hex exchange password (str_bytes ''Admin_availableFunctions'')
          (dict_insert (str_bytes ''page'') (Object_Integer (int i)) []) False counter of
        (ret, counter) \<Rightarrow>
          (case and_then ret (\<lambda>message. map_err (\<lambda>_. NoAvailableFunctions) (get_dict dict_try_get_obj message (str_bytes ''availableFunctions''))) of
             Err e \<Rightarrow> Some (Err e, counter)
           | Panic \<Rightarrow> Some (Panic, counter)
           | Ok funcs \<Rightarrow>
               if funcs = [] then Some (Ok res, counter)
               else (case add_funcs funcs res of
                       Ok res \<Rightarrow> load_from_page sha256 hex exchange password (i + 1) res counter
                     | Err e \<Rightarrow> Some (Err (BadFuncs e), counter)
                     | Panic \<Rightarrow> Some (Panic, counter))))"

definition connection_new ::
  "(bytes \<Rightarrow> bytes) \<Rightarrow> (bytes \<Rightarrow> bytes) \<Rightarrow> exchange \<Rightarrow> connection_options \<Rightarrow> u64 \<Rightarrow> ((func list, call_error) result \<times> u64) option" where
  "connection_new sha256 hex exchange o' counter =
     (case probe_connection sha256 hex exchange o' counter of
        (Ok _, counter) \<Rightarrow> load_from_page sha256 hex exchange (co_password o') 0 [] counter
      | (Err e, counter) \<Rightarrow> Some (Err e, counter)
      | (Panic, counter) \<Rightarrow> Some (Panic, counter))"

section \<open>Lists of functions\<close>

lemma parse_args_names:
  "parse_args d = Ok args \<Longrightarrow> map arg_name args = map fst d"
  by (induction d arbitrary: args rule: parse_args.induct)
    (auto simp: ok_iff parse_arg_def string_from_utf8_def split: if_splits)

lemma push_funcs_names:
  "push_funcs fns l = Ok l' \<Longrightarrow> map func_name l' = map func_name l @ map fst fns"
  by (induction fns l arbitrary: l' rule: push_funcs.induct)
    (auto simp: ok_iff parse_fn_def string_from_utf8_def split: if_splits)

text \<open>The list is sorted by name after each page, holds what it held and the functions of the page, and
  every function has its required arguments first, each group by name.\<close>

definition args_in_order :: "func \<Rightarrow> bool" where
  "args_in_order f \<longleftrightarrow> sorted (map (\<lambda>a. (\<not> arg_required a, arg_name a)) (func_args f))"

lemma push_funcs_args:
  "push_funcs fns l = Ok l' \<Longrightarrow> \<forall>f \<in> set l. args_in_order f \<Longrightarrow> \<forall>f \<in> set l'. args_in_order f"
proof (induction fns l arbitrary: l' rule: push_funcs.induct)
  case (2 name descr fns l)
  then obtain f where f: "parse_fn name descr = Ok f" and l': "push_funcs fns (l @ [f]) = Ok l'"
    by (auto simp: ok_iff string_from_utf8_def split: if_splits)
  from f have "args_in_order f" by (auto simp: parse_fn_def ok_iff args_in_order_def)
  then show ?case using 2 l' by (auto simp: ok_iff string_from_utf8_def f split: if_splits)
qed simp

lemma add_funcs_ok:
  assumes "add_funcs fns l = Ok l'" and "\<forall>f \<in> set l. args_in_order f"
  shows "sorted (map func_name l') \<and> mset (map func_name l') = mset (map func_name l) + mset (map fst fns)
    \<and> (\<forall>f \<in> set l'. args_in_order f)"
proof -
  from assms(1) obtain m where m: "push_funcs fns l = Ok m" "l' = sort_key func_name m" by (auto simp: add_funcs_def ok_iff)
  have "mset (map func_name l') = mset (map func_name m)" using m(2) by simp
  then show ?thesis using m push_funcs_names [OF m(1)] push_funcs_args [OF m(1) assms(2)] by simp
qed

lemma load_returns:
  assumes "\<And>i c. N \<le> i \<Longrightarrow> \<exists>r. fst (call_func sha256 hex exchange password (str_bytes ''Admin_availableFunctions'')
      (dict_insert (str_bytes ''page'') (Object_Integer (int i)) []) False c) = r
      \<and> (\<forall>m. r = Ok m \<longrightarrow> get_dict dict_try_get_obj m (str_bytes ''availableFunctions'') = Ok [])"
  shows "\<exists>r. load_from_page sha256 hex exchange password i res counter = Some r"
proof (induction "N - i" arbitrary: i res counter)
  case 0
  then have "N \<le> i" by simp
  from assms [OF this, of counter] show ?case
    by (subst load_from_page.simps) (auto simp: and_then_ok_iff split: prod.split result.split)
next
  case (Suc n)
  then have "n = N - (i + 1)" by simp
  from Suc.hyps(1) [OF this] show ?case
    by (subst load_from_page.simps) (auto split: prod.split result.split)
qed

section \<open>Options and authentication\<close>

text \<open>A call for an anonymous connection is ignored when there is a configuration file and no other
  option is set.\<close>

lemma anon_lost:
  assumes "config_file_location home_dir join o' = Some f" and "read f = FileParsed config" and "\<not> is_configured o'"
  shows "into_connection_options home_dir join read (o'\<lparr>opt_anon := True\<rparr>) = Ok (build_connection_options config (Some f))"
  using assms by (auto simp: into_connection_options_def is_configured_def config_file_location_def split: option.splits)

lemma dict_entries:
  "bt_ok d \<Longrightarrow> bt_ok (dict_insert k v d)" "bt_ok d \<Longrightarrow> bt_get k' (dict_insert k v d) = (if k' = k then Some v else bt_get k' d)"
  by (simp_all add: dict_insert_def)

lemma signed_message_entries:
  assumes "d = signed_message sha256 hex password txid fn args cookie"
  shows "bt_get (str_bytes ''txid'') d = Some (Object_Bytes txid)" and "bt_get (str_bytes ''aq'') d = Some (Object_Bytes fn)"
    and "bt_get (str_bytes ''args'') d = Some (Object_Dict args)" and "bt_get (str_bytes ''cookie'') d = Some (Object_Bytes cookie)"
    and "bt_get (str_bytes ''q'') d = Some (Object_Bytes (str_bytes ''auth''))"
  unfolding assms by (simp_all add: signed_message_def auth_message_def Let_def dict_entries)

lemma signed_message_hash:
  assumes "d = signed_message sha256 hex password txid fn args cookie"
  shows "bt_get (str_bytes ''hash'') d = Some (Object_Bytes (hex (sha256 (benc_serialize []
      (Object_Dict (dict_insert (str_bytes ''hash'') (Object_Bytes (hex (sha256 (password @ cookie)))) d)) 0))))"
  unfolding assms by (simp add: signed_message_def auth_message_def Let_def dict_insert_def)

text \<open>An authenticated call can be checked by a node that knows the password and gave out the cookie:
  the message reads back with the function, its arguments, the transaction id and the cookie, and its
  hash is the hash of the same message with the hash of password and cookie in its place.\<close>

theorem admin_auth_message:
  assumes "representable (Object_Dict (signed_message sha256 hex password txid fn args cookie))"
    and "obj_depth (Object_Dict (signed_message sha256 hex password txid fn args cookie)) \<le> 33"
  shows "\<exists>d. benc_parse 32 False (benc_serialize [] (Object_Dict (signed_message sha256 hex password txid fn args cookie)) 0) = Ok (Object_Dict d, [])
    \<and> bt_get (str_bytes ''txid'') d = Some (Object_Bytes txid) \<and> bt_get (str_bytes ''aq'') d = Some (Object_Bytes fn)
    \<and> bt_get (str_bytes ''args'') d = Some (Object_Dict args) \<and> bt_get (str_bytes ''cookie'') d = Some (Object_Bytes cookie)
    \<and> bt_get (str_bytes ''hash'') d = Some (Object_Bytes (hex (sha256 (benc_serialize []
        (Object_Dict (dict_insert (str_bytes ''hash'') (Object_Bytes (hex (sha256 (password @ cookie)))) d)) 0))))"
proof -
  have "benc_parse 32 False (benc_serialize [] (Object_Dict (signed_message sha256 hex password txid fn args cookie)) 0)
      = Ok (Object_Dict (signed_message sha256 hex password txid fn args cookie), [])"
    using aligned_reads_back [OF assms(1), of 32 0 False "[]"] assms(2) by simp
  then show ?thesis
    using signed_message_entries [of "signed_message sha256 hex password txid fn args cookie", OF refl]
      signed_message_hash [of "signed_message sha256 hex password txid fn args cookie", OF refl] by blast
qed

end
