(* ===== verification/Ethrpc.thy ===== *)
theory Ethrpc
  imports Benc_Object
begin

text \<open>
  Access to the chain (\<^verbatim>\<open>cjdns-eth-rpc\<close>): calls that are tried on several RPC servers
  (\<^verbatim>\<open>ethrpc.rs\<close>, \<^verbatim>\<open>ethwalletrpc.rs\<close>, \<^verbatim>\<open>rpcinstance.rs\<close>, \<^verbatim>\<open>error.rs\<close>), and the check by which an event
  that several web sockets deliver is handled once.

  The call itself, the providers and the errors of the alloy crate are parameters: what an attempt
  brings is part of its environment, and so are the random draws and what other tasks do to the flags
  of the servers in the meantime. Time stamps are seconds.
\<close>

section \<open>Events from several sockets\<close>

record txn_entry =
  tx_time :: nat
  tx_id :: bytes
  tx_url :: bytes

text \<open>Old entries leave at the front.\<close>

fun drop_old :: "nat \<Rightarrow> txn_entry list \<Rightarrow> txn_entry list" where
  "drop_old cutoff [] = []"
| "drop_old cutoff (f # dq) = (if tx_time f > cutoff then f # dq else drop_old cutoff dq)"

definition TXN_MEMORY :: nat where "TXN_MEMORY = 600"

text \<open>Whether the event is to be handled, and who is told of the transaction.\<close>

definition notify_check ::
  "nat \<Rightarrow> bytes \<Rightarrow> bytes \<Rightarrow> txn_entry list \<Rightarrow> (bool, 'e) result \<times> bytes list \<times> txn_entry list" where
  "notify_check now txid ws_url dq =
     (if dq \<noteq> [] \<and> now < TXN_MEMORY then (Panic, [], dq)
      else let dq = drop_old (now - TXN_MEMORY) dq in
        case find (\<lambda>f. tx_id f = txid) dq of
          Some f \<Rightarrow> (Ok (tx_url f = ws_url), [], dq)
        | None \<Rightarrow> (Ok True, [txid], dq @ [\<lparr>tx_time = now, tx_id = txid, tx_url = ws_url\<rparr>]))"

text \<open>
  One turn of \<open>handle_events\<close>: an item of the stream is the end, an error, or an event with the hash of its
  transaction, if it has one. The events handed on are collected; the first part of the result says
  whether the loop goes on.
\<close>

datatype 'x stream_item = StreamEnd | StreamError | StreamEvent 'x "bytes option"

fun handle_event ::
  "nat \<Rightarrow> bytes \<Rightarrow> 'x stream_item \<Rightarrow> 'x list \<times> txn_entry list \<Rightarrow> (bool, 'e) result \<times> 'x list \<times> txn_entry list" where
  "handle_event now url StreamEnd (handled, dq) = (Ok False, handled, dq)"
| "handle_event now url StreamError (handled, dq) = (Ok True, handled, dq)"
| "handle_event now url (StreamEvent x None) (handled, dq) = (Ok True, handled, dq)"
| "handle_event now url (StreamEvent x (Some txid)) (handled, dq) =
     (case notify_check now txid url dq of
        (Ok True, _, dq) \<Rightarrow> (Ok True, handled @ [x], dq)
      | (Ok False, _, dq) \<Rightarrow> (Ok True, handled, dq)
      | (Err e, _, dq) \<Rightarrow> (Err e, handled, dq)
      | (Panic, _, dq) \<Rightarrow> (Panic, handled, dq))"

text \<open>The web socket of a url is made anew if the one at hand is older than the caller wants.\<close>

definition get_provider :: "'p option \<Rightarrow> nat \<Rightarrow> 'p \<times> nat \<Rightarrow> ('p \<times> nat) option \<times> ('p \<times> nat)" where
  "get_provider created min_num m =
     (if snd m \<ge> min_num then (Some m, m)
      else case created of Some p \<Rightarrow> (Some (p, min_num), (p, min_num)) | None \<Rightarrow> (None, m))"

section \<open>Errors of a call\<close>

datatype transport_kind =
    MissingBatchResponse | BackendGone | PubsubUnavailable | HttpError | CustomTransport | UnknownTransport

datatype transport_error =
    UnsupportedFeature | ErrorResp bool bytes | NullResp | LocalUsageError | SerError | DeserError | Transport transport_kind

datatype call_failure = ContractTransport transport_error | OtherFailure

datatype rpc_error = OurFault transport_error | TriesExhausted | NotTransport | BadUrl | NoRpcs

text \<open>An error of the server's own is worth another try; \<open>ErrorResp\<close> carries whether the crate says so.\<close>

fun worth_retry :: "transport_error \<Rightarrow> bool" where
  "worth_retry UnsupportedFeature = False"
| "worth_retry (ErrorResp retry message) = (retry \<or> sublist (str_bytes ''nonce too low'') message)"
| "worth_retry NullResp = True"
| "worth_retry LocalUsageError = False"
| "worth_retry SerError = False"
| "worth_retry DeserError = True"
| "worth_retry (Transport MissingBatchResponse) = True"
| "worth_retry (Transport BackendGone) = False"
| "worth_retry (Transport PubsubUnavailable) = False"
| "worth_retry (Transport HttpError) = True"
| "worth_retry (Transport CustomTransport) = True"
| "worth_retry (Transport UnknownTransport) = True"

definition handle_transport_error :: "transport_error \<Rightarrow> nat \<Rightarrow> nat \<Rightarrow> (unit, rpc_error) result" where
  "handle_transport_error t i rpc_max_tries =
     (if \<not> worth_retry t then Err (OurFault t)
      else if i > rpc_max_tries then Err TriesExhausted
      else Ok ())"

section \<open>Choosing a server\<close>

text \<open>The servers are numbered; \<open>dead\<close> are their flags.\<close>

definition of_type :: "bool \<Rightarrow> bool list \<Rightarrow> nat list" where
  "of_type try_dead dead = filter (\<lambda>j. dead ! j = try_dead) [0 ..< length dead]"

definition set_dead :: "nat \<Rightarrow> bool list \<Rightarrow> bool list" where
  "set_dead j dead = dead[j := True]"

definition set_alive :: "nat \<Rightarrow> bool list \<Rightarrow> bool list" where
  "set_alive j dead = dead[j := False]"

text \<open>The flags are read twice: for the count (\<open>dead\<close>) and for the selection (\<open>dead'\<close>).\<close>

definition rpc_of_type ::
  "bytes list \<Rightarrow> (bytes \<Rightarrow> bool) \<Rightarrow> (nat \<Rightarrow> nat) \<Rightarrow> bool \<Rightarrow> bool list \<Rightarrow> bool list \<Rightarrow> (nat option, rpc_error) result" where
  "rpc_of_type urls url_ok pick try_dead dead dead' =
     (let count = length (of_type try_dead dead) in
      if count < 1 then Ok None
      else and_then (index_chk (of_type try_dead dead') (pick count)) (\<lambda>out.
        if url_ok (urls ! out) then Ok (Some out) else Err BadUrl))"

text \<open>What happens around one attempt.\<close>

datatype 'y outcome = Answer 'y | Failure call_failure | TimedOut

record 'y attempt =
  at_try_dead :: bool
  at_pick :: "nat \<Rightarrow> nat"
  at_between :: "bool list \<Rightarrow> bool list"
  at_between' :: "bool list \<Rightarrow> bool list"
  at_outcome :: "nat \<Rightarrow> 'y outcome"
  at_others :: "bool list \<Rightarrow> bool list"

definition choose_rpc :: "bytes list \<Rightarrow> (bytes \<Rightarrow> bool) \<Rightarrow> 'y attempt \<Rightarrow> bool list \<Rightarrow> (nat, rpc_error) result" where
  "choose_rpc urls url_ok a dead =
     and_then (rpc_of_type urls url_ok (at_pick a) (at_try_dead a) dead (at_between a dead)) (\<lambda>out.
       case out of
         Some j \<Rightarrow> Ok j
       | None \<Rightarrow>
           (let dead = at_between a dead in
            and_then (rpc_of_type urls url_ok (at_pick a) (\<not> at_try_dead a) dead (at_between' a dead)) (\<lambda>out.
            ok_or out NoRpcs)))"

section \<open>Trying\<close>

text \<open>
  One turn of the loop of \<open>read_eth\<close> and \<open>do_eth\<close>: the result, or None to try again, the flags, and the
  servers that were asked. Other tasks change flags while the call is under way (\<open>at_others\<close>).
\<close>

definition attempt_once ::
  "bytes list \<Rightarrow> (bytes \<Rightarrow> bool) \<Rightarrow> nat \<Rightarrow> nat \<Rightarrow> 'y attempt \<Rightarrow> bool list
     \<Rightarrow> ('y, rpc_error) result option \<times> bool list \<times> nat list" where
  "attempt_once urls url_ok rpc_max_tries i a dead =
     (case choose_rpc urls url_ok a dead of
        Err e \<Rightarrow> (Some (Err e), dead, [])
      | Panic \<Rightarrow> (Some Panic, dead, [])
      | Ok j \<Rightarrow>
          (let dead = at_others a dead in
           case at_outcome a j of
             Answer y \<Rightarrow> (Some (Ok y), set_alive j dead, [j])
           | Failure OtherFailure \<Rightarrow> (Some (Err NotTransport), dead, [j])
           | Failure (ContractTransport t) \<Rightarrow>
               (case handle_transport_error t i rpc_max_tries of
                  Ok _ \<Rightarrow> (None, set_dead j dead, [j])
                | Err e \<Rightarrow> (Some (Err e), dead, [j])
                | Panic \<Rightarrow> (Some Panic, dead, [j]))
           | TimedOut \<Rightarrow> (if i > rpc_max_tries then Some (Err TriesExhausted) else None, dead, [j])))"

lemma attempt_once_asked: "length (snd (snd (attempt_once urls url_ok m i a dead))) \<le> 1"
  by (auto simp: attempt_once_def Let_def split: result.splits outcome.splits call_failure.splits)

lemma attempt_once_cases:
  "attempt_once urls url_ok m i a dead = (None, dead', asked) \<Longrightarrow> i \<le> m \<and> length asked = 1"
  "attempt_once urls url_ok m i a dead = (Some (Err TriesExhausted), dead', asked) \<Longrightarrow> m < i \<and> length asked = 1"
proof -
  have no: "choose_rpc urls url_ok a dead \<noteq> Err TriesExhausted"
    by (auto simp: choose_rpc_def rpc_of_type_def Let_def and_then_err_iff index_chk_def ok_or_def split: option.splits if_splits)
  show "attempt_once urls url_ok m i a dead = (None, dead', asked) \<Longrightarrow> i \<le> m \<and> length asked = 1"
    by (auto simp: attempt_once_def handle_transport_error_def Let_def
        split: result.splits outcome.splits call_failure.splits if_splits)
  show "attempt_once urls url_ok m i a dead = (Some (Err TriesExhausted), dead', asked) \<Longrightarrow> m < i \<and> length asked = 1"
    using no by (auto simp: attempt_once_def handle_transport_error_def Let_def
        split: result.splits outcome.splits call_failure.splits if_splits)
qed

function try_eth ::
  "bytes list \<Rightarrow> (bytes \<Rightarrow> bool) \<Rightarrow> nat \<Rightarrow> (nat \<Rightarrow> 'y attempt) \<Rightarrow> nat \<Rightarrow> bool list
     \<Rightarrow> ('y, rpc_error) result \<times> bool list \<times> nat list" where
  "try_eth urls url_ok rpc_max_tries env i dead =
     (case attempt_once urls url_ok rpc_max_tries (i + 1) (env (i + 1)) dead of
        (Some r, dead, asked) \<Rightarrow> (r, dead, asked)
      | (None, dead, asked) \<Rightarrow>
          (case try_eth urls url_ok rpc_max_tries env (i + 1) dead of (r, dead, asked') \<Rightarrow> (r, dead, asked @ asked')))"
  by pat_completeness auto

termination
proof (relation "measure (\<lambda>(urls, url_ok, m, env, i, dead). Suc m - i)", goal_cases)
  case (2 urls url_ok m env i dead r p dead' asked)
  then have "attempt_once urls url_ok m (i + 1) (env (i + 1)) dead = (None, dead', asked)" by simp
  from attempt_once_cases(1) [OF this] show ?case by auto
qed simp

declare try_eth.simps [simp del]

definition read_eth ::
  "bytes list \<Rightarrow> (bytes \<Rightarrow> bool) \<Rightarrow> nat \<Rightarrow> (nat \<Rightarrow> 'y attempt) \<Rightarrow> bool list \<Rightarrow> ('y, rpc_error) result \<times> bool list \<times> nat list" where
  "read_eth urls url_ok rpc_max_tries env dead = try_eth urls url_ok rpc_max_tries env 0 dead"

section \<open>Lemmas on the choice\<close>

lemma of_type_iff: "j \<in> set (of_type b dead) \<longleftrightarrow> j < length dead \<and> dead ! j = b"
  by (auto simp: of_type_def)

text \<open>If nobody changes a flag between the two readings, the selection succeeds.\<close>

lemma choose_rpc_quiet:
  assumes pick: "\<And>n. 0 < n \<Longrightarrow> at_pick a n < n" and quiet: "at_between a dead = dead" "at_between' a dead = dead"
    and "dead \<noteq> []" and "\<And>u. url_ok u"
  shows "\<exists>j. choose_rpc urls url_ok a dead = Ok j \<and> j < length dead"
proof -
  have one: "\<exists>j. rpc_of_type urls url_ok (at_pick a) b dead dead = Ok (Some j) \<and> j < length dead" if "of_type b dead \<noteq> []" for b
  proof -
    have "at_pick a (length (of_type b dead)) < length (of_type b dead)" using pick that by simp
    then show ?thesis using that assms(5) nth_mem [of "at_pick a (length (of_type b dead))" "of_type b dead"]
      by (auto simp: rpc_of_type_def Let_def of_type_iff Suc_le_eq)
  qed
  have none: "rpc_of_type urls url_ok (at_pick a) b dead dead = Ok None" if "of_type b dead = []" for b
    using that by (simp add: rpc_of_type_def)
  have "0 \<in> set (of_type (dead ! 0) dead)" using assms(4) by (simp add: of_type_iff)
  then have "of_type (at_try_dead a) dead \<noteq> [] \<or> of_type (\<not> at_try_dead a) dead \<noteq> []"
    by (cases "dead ! 0"; cases "at_try_dead a") auto
  then show ?thesis
    using one [of "at_try_dead a"] one [of "\<not> at_try_dead a"] none [of "at_try_dead a"]
    by (cases "of_type (at_try_dead a) dead = []") (auto simp: choose_rpc_def quiet Let_def)
qed

text \<open>If another task marks a server in between, the selection can crash.\<close>

theorem choose_rpc_race:
  "choose_rpc [u, v] (\<lambda>_. True) \<lparr>at_try_dead = False, at_pick = (\<lambda>n. n - 1), at_between = set_dead 0, at_between' = (\<lambda>d. d),
     at_outcome = f, at_others = g\<rparr> [False, False] = Panic"
  by (simp add: choose_rpc_def rpc_of_type_def of_type_def set_dead_def index_chk_def Let_def upt_rec numeral_2_eq_2)

lemma try_eth_tries:
  "length (snd (snd (try_eth urls url_ok m env i dead))) \<le> max 1 (Suc m - i)
   \<and> (fst (try_eth urls url_ok m env i dead) = Err TriesExhausted
        \<longrightarrow> length (snd (snd (try_eth urls url_ok m env i dead))) = max 1 (Suc m - i))"
proof (induction urls url_ok m env i dead rule: try_eth.induct)
  case (1 urls url_ok m env i dead)
  obtain r dead' asked where a: "attempt_once urls url_ok m (i + 1) (env (i + 1)) dead = (r, dead', asked)" by (metis prod_cases3)
  show ?case
  proof (cases r)
    case None
    from attempt_once_cases(1) [OF a [unfolded None]] 1 [OF a [symmetric] None refl] a None show ?thesis
      by (subst (1 2 3) try_eth.simps) (auto split: prod.splits)
  next
    case (Some res)
    have "length asked \<le> 1" using attempt_once_asked [of urls url_ok m "i + 1" "env (i + 1)" dead] a by simp
    moreover have "m < i + 1 \<and> length asked = 1" if "res = Err TriesExhausted"
      using attempt_once_cases(2) a Some that by blast
    ultimately show ?thesis using a Some by (subst (1 2 3) try_eth.simps) auto
  qed
qed

section \<open>Lemmas on the event check\<close>

definition txns_ok :: "nat \<Rightarrow> txn_entry list \<Rightarrow> bool" where
  "txns_ok now dq \<longleftrightarrow> distinct (map tx_id dq) \<and> sorted (map tx_time dq) \<and> (\<forall>f \<in> set dq. tx_time f \<le> now)"

lemma drop_old_set: "sorted (map tx_time dq) \<Longrightarrow> set (drop_old c dq) = {f \<in> set dq. c < tx_time f}"
  by (induction c dq rule: drop_old.induct) auto

lemma drop_old_suffix: "suffix (drop_old c dq) dq"
  by (induction c dq rule: drop_old.induct) (auto intro: suffix_ConsI)

lemma txns_ok_suffix: "txns_ok now dq \<Longrightarrow> suffix dq' dq \<Longrightarrow> now \<le> now' \<Longrightarrow> txns_ok now' dq'"
  by (auto simp: txns_ok_def suffix_def sorted_append intro: order.trans)

lemma notify_check_ok:
  assumes "txns_ok now dq" and "now \<le> now'" and "notify_check now' x url dq = (r, told, dq')"
  shows "txns_ok now' dq'"
proof -
  have "txns_ok now' (drop_old (now' - TXN_MEMORY) dq)"
    using txns_ok_suffix [OF assms(1) drop_old_suffix assms(2)] .
  then show ?thesis using assms txns_ok_suffix [OF assms(1) suffix_order.refl assms(2)]
    by (auto simp: notify_check_def Let_def txns_ok_def sorted_append find_None_iff split: if_splits option.splits)
qed

text \<open>An entry decides until it is old.\<close>

lemma notify_check_known:
  assumes "txns_ok now dq" and "now \<le> now'" and "f \<in> set dq" and "now' < tx_time f + TXN_MEMORY" and "TXN_MEMORY \<le> now'"
  shows "\<exists>r told dq'. notify_check now' x url dq = (Ok r, told, dq') \<and> (tx_id f = x \<longrightarrow> r = (tx_url f = url)) \<and> f \<in> set dq'"
proof -
  let ?dq = "drop_old (now' - TXN_MEMORY) dq"
  have f: "f \<in> set ?dq" using assms by (auto simp: drop_old_set txns_ok_def)
  have d: "distinct (map tx_id ?dq)"
    using txns_ok_suffix [OF assms(1) drop_old_suffix assms(2)] by (simp add: txns_ok_def)
  show ?thesis
  proof (cases "find (\<lambda>g. tx_id g = x) ?dq")
    case None
    then have "tx_id f \<noteq> x" using f by (auto simp: find_None_iff)
    then show ?thesis using None f assms by (auto simp: notify_check_def)
  next
    case (Some g)
    then have g: "g \<in> set ?dq" "tx_id g = x" by (auto simp: find_Some_iff)
    then have "tx_id f = x \<Longrightarrow> g = f" using f d by (auto simp: distinct_map dest: inj_onD)
    then show ?thesis using Some f assms by (auto simp: notify_check_def)
  qed
qed

text \<open>A sequence of checks, each with its time, transaction and socket: their results.\<close>

fun checks :: "(nat \<times> bytes \<times> bytes) list \<Rightarrow> txn_entry list \<Rightarrow> (bool, unit) result list" where
  "checks [] dq = []"
| "checks ((now, x, url) # cs) dq =
     (case notify_check now x url dq of (r, _, dq') \<Rightarrow> r # checks cs dq')"

lemma checks_known:
  assumes "txns_ok now dq" and "f \<in> set dq" and "TXN_MEMORY \<le> now" and "sorted (now # map fst cs)"
    and "\<forall>(t, _) \<in> set cs. t < tx_time f + TXN_MEMORY" and "k < length cs" and "cs ! k = (t, tx_id f, url)"
  shows "checks cs dq ! k = Ok (tx_url f = url)"
  using assms
proof (induction cs arbitrary: now dq k)
  case Nil
  then show ?case by simp
next
  case (Cons c cs)
  obtain t' x url' where c: "c = (t', x, url')" by (metis prod_cases3)
  have t': "now \<le> t'" "t' < tx_time f + TXN_MEMORY" "TXN_MEMORY \<le> t'" using Cons.prems c by auto
  obtain r told dq' where n: "notify_check t' x url' dq = (Ok r :: (bool, unit) result, told, dq')"
      "tx_id f = x \<longrightarrow> r = (tx_url f = url')" "f \<in> set dq'"
    using notify_check_known [OF Cons.prems(1) t'(1) Cons.prems(2) t'(2,3)] by blast
  show ?case
  proof (cases k)
    case 0
    then show ?thesis using Cons.prems c n by simp
  next
    case (Suc k')
    have "txns_ok t' dq'" using notify_check_ok [OF Cons.prems(1) t'(1) n(1)] .
    then have "checks cs dq' ! k' = Ok (tx_url f = url)"
      using Cons.prems c Suc t' n(3) by (intro Cons.IH [of t']) auto
    then show ?thesis using n(1) c Suc by (simp split: prod.splits)
  qed
qed

section \<open>Properties\<close>

text \<open>A call of the chain asks at most one server more than the configured number of tries, whatever the
  servers answer and other tasks do to their flags; and it reports that the tries are used up only after
  exactly that many.\<close>

theorem read_eth_tries:
  "case read_eth urls url_ok m env dead of (r, dead', asked) \<Rightarrow>
     length asked \<le> Suc m \<and> (r = Err TriesExhausted \<longrightarrow> length asked = Suc m)"
  using try_eth_tries [of urls url_ok m env 0 dead] by (auto simp: read_eth_def split: prod.splits)

text \<open>C38: For ten minutes after a transaction is first seen on one web socket, its events are handled from that
  socket and from no other, however the checks of other transactions and sockets interleave.\<close>

theorem one_socket_per_transaction:
  assumes "txns_ok now dq" and "TXN_MEMORY \<le> now" and "\<forall>g \<in> set (drop_old (now - TXN_MEMORY) dq). tx_id g \<noteq> x"
    and "sorted (now # map fst cs)" and "\<forall>(t, _) \<in> set cs. t < now + TXN_MEMORY"
    and "k < length cs" and "cs ! k = (t, x, url')"
  shows "checks ((now, x, url) # cs) dq ! 0 = Ok True \<and> checks ((now, x, url) # cs) dq ! Suc k = Ok (url' = url)"
proof -
  let ?f = "\<lparr>tx_time = now, tx_id = x, tx_url = url\<rparr>"
  have "find (\<lambda>f. tx_id f = x) (drop_old (now - TXN_MEMORY) dq) = None" using assms(3) by (simp add: find_None_iff)
  then have n: "notify_check now x url dq = (Ok True :: (bool, unit) result, [x], drop_old (now - TXN_MEMORY) dq @ [?f])"
    using assms(2) by (simp add: notify_check_def)
  have "txns_ok now (drop_old (now - TXN_MEMORY) dq @ [?f])" using notify_check_ok [OF assms(1) le_refl n] .
  from checks_known [OF this _ assms(2,4), of ?f k t url'] assms n show ?thesis by auto
qed

theorem one_socket_per_transaction_witness:
  "checks [(1000, [1], [10]), (1001, [2], [11]), (1500, [1], [11]), (1599, [1], [10])] [] ! 2 = Ok False"
  using one_socket_per_transaction [of 1000 "[]" "[1]" "[(1001, [2], [11]), (1500, [1], [11]), (1599, [1], [10])]" 1 1500 "[11]" "[10]"]
  by (simp add: txns_ok_def TXN_MEMORY_def numeral_2_eq_2 del: checks.simps)

end
