(* ===== verification/Peering_Line.thy ===== *)
theory Peering_Line
  imports Slices Benc_Object Seeder Addr
begin

text \<open>
  Peering credentials as text: the lines that \<^verbatim>\<open>cjdns-bytes/src/dnsseed.rs\<close> makes of them, the entries in
  which the supernode hands them out (\<^verbatim>\<open>cjdns-snode-wire/src/lib.rs\<close>, \<^verbatim>\<open>cjdns-snode/src/seeder/mod.rs\<close>), and
  their reading by the name server (\<^verbatim>\<open>cjdns-nameserver/src/seeder.rs\<close>). The codecs of the base 64, base 32
  and hex crates and the text of socket addresses are the fields of \<open>text_codecs\<close>.
\<close>

record text_codecs =
  sock_show :: "socket_addr \<Rightarrow> string"
  sock_parse :: "string \<Rightarrow> socket_addr option"
  base64_enc :: "bytes \<Rightarrow> string"
  base64_dec :: "string \<Rightarrow> bytes option"
  base32_enc :: "bytes \<Rightarrow> string"
  base32_dec :: "string \<Rightarrow> bytes option"
  hex_enc :: "bytes \<Rightarrow> string"

section \<open>Lines\<close>

record peering_line =
  pl_address :: string
  pl_public_key :: string
  pl_login :: string
  pl_password :: string
  pl_version :: u32

record authorized_password =
  ap_password :: string
  ap_user :: string

definition mk_pass :: "text_codecs \<Rightarrow> cjdns_peer \<Rightarrow> string" where
  "mk_pass c p = ''AP_PASS: '' @ base64_enc c (peer_password p)"

definition mk_login :: "cjdns_peer \<Rightarrow> string" where
  "mk_login p = ''AP_LOGIN: '' @ dec_string (unat (peer_login p))"

definition peering_line_of :: "text_codecs \<Rightarrow> cjdns_peer \<Rightarrow> peering_line" where
  "peering_line_of c p =
     \<lparr>pl_address = sock_show c (peer_address p),
      pl_public_key = public_key_to_string (base32_enc c) (peer_pubkey p),
      pl_login = mk_login p, pl_password = mk_pass c p, pl_version = peer_version p\<rparr>"

definition authorized_password_of :: "text_codecs \<Rightarrow> cjdns_peer \<Rightarrow> authorized_password" where
  "authorized_password_of c p = \<lparr>ap_password = mk_pass c p, ap_user = mk_login p\<rparr>"

section \<open>Entries of a listing\<close>

record list_peer =
  lp_last_check_sec :: nat
  lp_last_report_sec :: nat
  lp_ring :: u32
  lp_check_error :: "string option"
  lp_peer :: peering_line
  lp_id :: string

text \<open>Text that is made of bytes; a char is one byte of its UTF-8 form.\<close>

definition bytes_str :: "bytes \<Rightarrow> string" where
  "bytes_str b = map (\<lambda>c. char_of (unat c)) b"

definition peer_id_to_string :: "text_codecs \<Rightarrow> bytes \<Rightarrow> string" where
  "peer_id_to_string c i = (if valid_utf8 i then bytes_str i else ''hex('' @ hex_enc c i @ '')'')"

definition list_peer_from :: "text_codecs \<Rightarrow> seeder_peer \<Rightarrow> list_peer" where
  "list_peer_from c x =
     \<lparr>lp_last_check_sec = sp_last_check x, lp_last_report_sec = sp_last_report x, lp_ring = sp_ring x,
      lp_check_error = sp_check_error x, lp_peer = peering_line_of c (sp_creds x),
      lp_id = peer_id_to_string c (sp_peer_id x)\<rparr>"

section \<open>Reading an entry\<close>

datatype list_peer_error = BadSocketAddr | BadPublicKey key_creation_error | BadLogin | BadPassword

text \<open>\<open>u16::from_str\<close>.\<close>

definition u16_from_str :: "string \<Rightarrow> u16 option" where
  "u16_from_str s =
     (let ds = (case s of CHR ''+'' # r \<Rightarrow> r | _ \<Rightarrow> s)
      in if ds = [] \<or> \<not> list_all is_dec_digit ds then None else parse_u16 ds)"

definition parse_list_peer :: "text_codecs \<Rightarrow> list_peer \<Rightarrow> (cjdns_peer, list_peer_error) result" where
  "parse_list_peer c p =
     and_then (ok_or (sock_parse c (pl_address (lp_peer p))) BadSocketAddr) (\<lambda>address.
     and_then (map_err BadPublicKey (public_key_try_from_str (base32_dec c) (pl_public_key (lp_peer p)))) (\<lambda>pubkey.
     and_then (ok_or (strip_prefix ''AP_LOGIN: '' (pl_login (lp_peer p))) BadLogin) (\<lambda>index_str.
     and_then (ok_or (u16_from_str index_str) BadLogin) (\<lambda>login.
     and_then (ok_or (strip_prefix ''AP_PASS: '' (pl_password (lp_peer p))) BadPassword) (\<lambda>pass.
     and_then (ok_or (base64_dec c pass) BadPassword) (\<lambda>pass.
     and_then (check (length pass = 8) BadPassword) (\<lambda>_.
     Ok \<lparr>peer_address = address, peer_pubkey = pubkey, peer_login = login, peer_password = pass,
         peer_version = pl_version (lp_peer p)\<rparr>)))))))"

section \<open>Lemmas\<close>

lemma u16_from_dec_string: "u16_from_str (dec_string (unat (v :: u16))) = Some v"
proof -
  have d: "dec_string (unat v) \<noteq> []" "list_all is_dec_digit (dec_string (unat v))"
    using dec_string_facts by blast+
  then obtain x r where x: "dec_string (unat v) = x # r" "is_dec_digit x" by (cases "dec_string (unat v)") auto
  have "x \<noteq> CHR ''+''"
  proof
    assume "x = CHR ''+''"
    with x(2) show False by (simp add: is_dec_digit_def)
  qed
  then have "(case dec_string (unat v) of CHR ''+'' # r \<Rightarrow> r | _ \<Rightarrow> dec_string (unat v)) = dec_string (unat v)"
    unfolding x(1) by (auto split: char.splits bool.splits)
  then show ?thesis using d by (simp add: u16_from_str_def parse_u16_dec_string)
qed

lemma strip_prefix_append [simp]: "strip_prefix p (p @ r) = Some r"
  by (simp add: strip_prefix_Some_iff)

text \<open>What is used of the codecs for one set of credentials.\<close>

definition codecs_ok :: "text_codecs \<Rightarrow> cjdns_peer \<Rightarrow> bool" where
  "codecs_ok c p \<longleftrightarrow> base32_ok (base32_enc c) (base32_dec c)
     \<and> base64_dec c (base64_enc c (peer_password p)) = Some (peer_password p)
     \<and> sock_parse c (sock_show c (peer_address p)) = Some (peer_address p)"

lemma parse_list_peer_from:
  assumes "codecs_ok c (sp_creds x)" and "length (peer_pubkey (sp_creds x)) = 32" and "length (peer_password (sp_creds x)) = 8"
  shows "parse_list_peer c (list_peer_from c x) = Ok (sp_creds x)"
  using assms key_text(3) [of "base32_enc c" "base32_dec c" "peer_pubkey (sp_creds x)"]
  by (simp add: parse_list_peer_def list_peer_from_def peering_line_of_def mk_login_def mk_pass_def codecs_ok_def
      u16_from_dec_string check_def del: append.simps)

end
