(* ===== verification/Pns_Record.thy ===== *)
theory Pns_Record
  imports Slices Tlv Benc_Object
begin

text \<open>
  DNS records as a PKT domain stores them (\<^verbatim>\<open>cjdns-pns/src/record.rs\<close>): the packing of records into
  TLV items and the textual form in which a user enters them.

  Names, records and their wire format belong to the hickory crate. Its operations that the code
  calls are the fields of \<open>dns\<close>; a name, a record, a record type and the data of the kinds of record
  that the code does not look into are type parameters. The data is an enum whose constructors the
  code matches on. Strings are their UTF-8 bytes.
\<close>

section \<open>Operations of the DNS crate\<close>

datatype ('n, 'o) rdata =
    ANAME 'n | CNAME 'n | NS 'n | MX u16 'n | PTR 'n | SRV u16 u16 u16 'n | SVCB u16 'n "bytes list" | OtherData 'o

record ('n, 't, 'o, 'r) dns =
  name_from_utf8 :: "bytes \<Rightarrow> 'n option"
  name_from_str :: "bytes \<Rightarrow> 'n option"
  name_to_string :: "'n \<Rightarrow> bytes"
  append_name :: "'n \<Rightarrow> 'n \<Rightarrow> 'n option"
  append_domain :: "'n \<Rightarrow> 'n \<Rightarrow> 'n option"
  name_labels :: "'n \<Rightarrow> bytes list"
  rr_from_rdata :: "'n \<Rightarrow> u32 \<Rightarrow> ('n, 'o) rdata \<Rightarrow> 'r"
  rr_name :: "'r \<Rightarrow> 'n"
  rr_set_name :: "'r \<Rightarrow> 'n \<Rightarrow> 'r"
  rr_type :: "'r \<Rightarrow> 't"
  rr_ttl :: "'r \<Rightarrow> u32"
  rr_data :: "'r \<Rightarrow> ('n, 'o) rdata option"
  rr_set_data :: "'r \<Rightarrow> ('n, 'o) rdata option \<Rightarrow> 'r"
  rr_to_bytes :: "'r \<Rightarrow> bytes option"
  rr_from_bytes :: "bytes \<Rightarrow> 'r option"
  type_from_str :: "bytes \<Rightarrow> 't option"
  type_to_string :: "'t \<Rightarrow> bytes"
  type_is_any :: "'t \<Rightarrow> bool"
  type_CNAME :: 't
  type_NS :: 't
  type_MX :: 't
  data_txt :: "bytes list \<Rightarrow> ('n, 'o) rdata"
  data_from_str :: "'t \<Rightarrow> bytes \<Rightarrow> ('n, 'o) rdata option"
  data_to_string :: "('n, 'o) rdata \<Rightarrow> bytes"

datatype record_error = RecordTlv tlv_error | BadRecordBytes | BadRecordName | BadRecordType | BadRecordValue | NoRData

section \<open>Records in a domain\<close>

definition RECORD :: u8 where "RECORD = 5"
definition LONG_RECORD :: u8 where "LONG_RECORD = 6"
definition LONG_RECORD_END :: u8 where "LONG_RECORD_END = 7"

lemmas record_tags = RECORD_def LONG_RECORD_def LONG_RECORD_END_def

fun decode_items ::
  "('n, 't, 'o, 'r) dns \<Rightarrow> (u8 \<times> bytes) list \<Rightarrow> bytes \<Rightarrow> 'r list \<Rightarrow> ('r list, record_error) result" where
  "decode_items ops [] long_rec out = Ok out"
| "decode_items ops ((t, elem) # recs) long_rec out =
     (if t = LONG_RECORD_END then
        and_then (ok_or (rr_from_bytes ops long_rec) BadRecordBytes) (\<lambda>r. decode_items ops recs [] (out @ [r]))
      else if t = LONG_RECORD then decode_items ops recs (long_rec @ elem) out
      else if t = RECORD then
        and_then (ok_or (rr_from_bytes ops elem) BadRecordBytes) (\<lambda>r. decode_items ops recs long_rec (out @ [r]))
      else decode_items ops recs long_rec out)"

definition decode_records :: "('n, 't, 'o, 'r) dns \<Rightarrow> bytes \<Rightarrow> ('r list, record_error) result" where
  "decode_records ops bytes =
     and_then (map_err RecordTlv (parse_tlv bytes)) (\<lambda>recs. decode_items ops recs [] [])"

definition record_items :: "bytes \<Rightarrow> (u8 \<times> bytes) list" where
  "record_items bytes =
     (if length bytes > 253 then map (Pair LONG_RECORD) (chunks 253 bytes) @ [(LONG_RECORD_END, [])]
      else [(RECORD, bytes)])"

fun encode_items :: "('n, 't, 'o, 'r) dns \<Rightarrow> 'r list \<Rightarrow> ((u8 \<times> bytes) list, record_error) result" where
  "encode_items ops [] = Ok []"
| "encode_items ops (r # records) =
     and_then (ok_or (rr_to_bytes ops r) BadRecordBytes) (\<lambda>bytes.
     map_ok ((@) (record_items bytes)) (encode_items ops records))"

definition encode_records :: "('n, 't, 'o, 'r) dns \<Rightarrow> 'r list \<Rightarrow> (bytes, record_error) result" where
  "encode_records ops records = and_then (encode_items ops records) encode_tlv"

section \<open>Records as text\<close>

record json_record =
  jr_rtype :: bytes
  jr_name :: bytes
  jr_value :: bytes
  jr_ttl_sec :: u32

text \<open>The data of a record: TXT values are cut into strings, a mail server without a preference gets 10.\<close>

definition parse_rdata :: "('n, 't, 'o, 'r) dns \<Rightarrow> bytes \<Rightarrow> bytes \<Rightarrow> (('n, 'o) rdata, record_error) result" where
  "parse_rdata ops rtype value =
     (if rtype = str_bytes ''TXT'' then Ok (data_txt ops (chunks 255 value))
      else and_then (ok_or (type_from_str ops rtype) BadRecordType) (\<lambda>rt.
        if rt = type_MX ops \<and> of_char CHR '' '' \<notin> set value
        then ok_or (data_from_str ops rt (str_bytes ''10 '' @ value)) BadRecordValue
        else ok_or (data_from_str ops rt value) BadRecordValue))"

definition parse_record_str ::
  "('n, 't, 'o, 'r) dns \<Rightarrow> bytes \<Rightarrow> bytes \<Rightarrow> bytes \<Rightarrow> u32 \<Rightarrow> ('r, record_error) result" where
  "parse_record_str ops rtype name value ttl_sec =
     and_then (ok_or (name_from_str ops (if name = str_bytes ''@'' then [] else name)) BadRecordName) (\<lambda>name.
     and_then (parse_rdata ops rtype value) (\<lambda>out.
     Ok (rr_from_rdata ops name ttl_sec out)))"

definition record_try_from :: "('n, 't, 'o, 'r) dns \<Rightarrow> json_record \<Rightarrow> ('r, record_error) result" where
  "record_try_from ops jr = parse_record_str ops (jr_rtype jr) (jr_name jr) (jr_value jr) (jr_ttl_sec jr)"

definition json_record_try_from :: "('n, 't, 'o, 'r) dns \<Rightarrow> 'r \<Rightarrow> (json_record, record_error) result" where
  "json_record_try_from ops r =
     (let name = name_to_string ops (rr_name ops r);
          name = (if name = [] then str_bytes ''@'' else name)
      in and_then (ok_or (rr_data ops r) NoRData) (\<lambda>data.
         Ok \<lparr>jr_rtype = type_to_string ops (rr_type ops r), jr_name = name,
             jr_value = data_to_string ops data, jr_ttl_sec = rr_ttl ops r\<rparr>))"

section \<open>Lemmas\<close>

lemma decode_items_not_Panic [simp]: "decode_items ops items long_rec out \<noteq> Panic"
  by (induction ops items long_rec out rule: decode_items.induct) (auto simp: and_then_panic_iff)

lemma parse_tlv_not_Panic [simp]: "parse_tlv bytes \<noteq> Panic"
proof -
  have "parse_tlv_loop bytes c out \<noteq> Panic" for c out
    by (induction bytes c out rule: parse_tlv_loop.induct) (subst parse_tlv_loop.simps, simp add: Let_def)
  then show ?thesis by (simp add: parse_tlv_def)
qed

lemma decode_records_not_Panic: "decode_records ops bytes \<noteq> Panic"
  by (simp add: decode_records_def panic_iff)

lemma decode_items_long:
  "decode_items ops (map (Pair LONG_RECORD) cs @ items) long_rec out = decode_items ops items (long_rec @ concat cs) out"
  by (induction cs arbitrary: long_rec) (simp_all add: record_tags)

lemma decode_record_items:
  assumes "rr_from_bytes ops bytes = Some r"
  shows "decode_items ops (record_items bytes @ items) [] out = decode_items ops items [] (out @ [r])"
  using assms by (simp add: record_items_def decode_items_long concat_chunks) (simp add: record_tags)

lemma record_items_fit: "tlv_fits (record_items bytes)"
  by (auto simp: record_items_def dest: length_chunks_le)

text \<open>A record that the wire format brings back.\<close>

definition rr_codec :: "('n, 't, 'o, 'r) dns \<Rightarrow> 'r \<Rightarrow> bool" where
  "rr_codec ops r \<longleftrightarrow> (case rr_to_bytes ops r of None \<Rightarrow> False | Some bytes \<Rightarrow> rr_from_bytes ops bytes = Some r)"

lemma rr_codecE:
  assumes "rr_codec ops r"
  obtains bytes where "rr_to_bytes ops r = Some bytes" "rr_from_bytes ops bytes = Some r"
  using assms by (auto simp: rr_codec_def split: option.splits)

lemma encode_items_ok:
  assumes "\<forall>r \<in> set rs. rr_codec ops r"
  shows "\<exists>items. encode_items ops rs = Ok items \<and> tlv_fits items \<and> (\<forall>out. decode_items ops items [] out = Ok (out @ rs))"
  using assms
proof (induction rs)
  case Nil
  then show ?case by simp
next
  case (Cons r rs)
  then obtain items where items: "encode_items ops rs = Ok items" "tlv_fits items"
    "\<And>out. decode_items ops items [] out = Ok (out @ rs)" by auto
  from Cons.prems obtain bytes where bytes: "rr_to_bytes ops r = Some bytes" "rr_from_bytes ops bytes = Some r"
    by (auto elim: rr_codecE)
  then show ?case
    using items record_items_fit [of bytes]
    by (auto simp: decode_record_items intro!: exI [of _ "record_items bytes @ items"])
qed

section \<open>Properties\<close>

text \<open>C37: Records that the wire format of the DNS crate brings back are packed into TLV items, whatever their
  length: encoding does not fail, and decoding gives the records in their order. A single byte left
  over at the end of the field does no harm.\<close>

theorem records_roundtrip:
  assumes "\<forall>r \<in> set rs. rr_codec ops r"
  shows "\<exists>bytes. encode_records ops rs = Ok bytes \<and> decode_records ops bytes = Ok rs \<and> decode_records ops (bytes @ [b]) = Ok rs"
proof -
  obtain items where items: "encode_items ops rs = Ok items" "tlv_fits items" "decode_items ops items [] [] = Ok rs"
    using encode_items_ok [OF assms] by auto
  have "encode_records ops rs = Ok (tlv_bytes items)"
    using items by (simp add: encode_records_def encode_tlv_fits)
  then show ?thesis
    using items parse_tlv_bytes [of items "[]"] parse_tlv_bytes [of items "[b]"]
    by (simp add: decode_records_def)
qed

text \<open>An instance: a record is its bytes, which are its own wire format.\<close>

definition demo_dns :: "(bytes, bytes, bytes, bytes) dns" where
  "demo_dns = \<lparr>name_from_utf8 = Some, name_from_str = Some, name_to_string = (\<lambda>n. n),
     append_name = (\<lambda>a b. Some (if a = [] then b else a @ [46] @ b)), append_domain = (\<lambda>a b. Some (a @ [46] @ b @ [46])),
     name_labels = split_on 46, rr_from_rdata = (\<lambda>n ttl d. n), rr_name = (\<lambda>r. r), rr_set_name = (\<lambda>r n. n),
     rr_type = (\<lambda>r. [65]), rr_ttl = (\<lambda>r. 300), rr_data = (\<lambda>r. None), rr_set_data = (\<lambda>r d. r),
     rr_to_bytes = Some, rr_from_bytes = Some, type_from_str = Some, type_to_string = (\<lambda>t. t),
     type_is_any = (\<lambda>t. t = [42]), type_CNAME = [67], type_NS = [78], type_MX = [77],
     data_txt = (\<lambda>cs. OtherData (concat cs)), data_from_str = (\<lambda>t v. Some (OtherData v)), data_to_string = (\<lambda>d. [])\<rparr>"

theorem records_roundtrip_witness:
  "\<exists>bytes. encode_records demo_dns [replicate 600 7, [1, 2]] = Ok bytes
     \<and> decode_records demo_dns bytes = Ok [replicate 600 7, [1, 2]]
     \<and> decode_records demo_dns (bytes @ [0]) = Ok [replicate 600 7, [1, 2]]"
  by (rule records_roundtrip) (simp add: rr_codec_def demo_dns_def)

end
