(* ===== verification/Pns.thy ===== *)
theory Pns
  imports Pns_Record
begin

text \<open>
  PKT domain names (\<^verbatim>\<open>cjdns-pns/src/lib.rs\<close>): the cache of the domains that a contract on a chain holds,
  the events that change it, and the answers to DNS queries. What a call of the contract returns is a
  parameter or part of a step; \<open>now\<close> is \<open>now_sec()\<close>.
\<close>

abbreviation dot :: u8 where "dot \<equiv> 46"

section \<open>Text from bytes\<close>

text \<open>
  \<open>String::from_utf8_lossy\<close>: each maximal start of a character that is not completed, and each byte that
  starts none, becomes U+FFFD. \<open>utf8_chunk\<close> is the number of bytes of the next character or of what
  is replaced, and whether it is a character.
\<close>

definition utf8_second :: "u8 \<Rightarrow> u8 \<Rightarrow> bool" where
  "utf8_second a b =
     (if a = 0xE0 then 0xA0 \<le> b \<and> b \<le> 0xBF else if a = 0xED then 0x80 \<le> b \<and> b \<le> 0x9F
      else if a = 0xF0 then 0x90 \<le> b \<and> b \<le> 0xBF else if a = 0xF4 then 0x80 \<le> b \<and> b \<le> 0x8F
      else utf8_cont b)"

definition utf8_width :: "u8 \<Rightarrow> nat" where
  "utf8_width a =
     (if a \<le> 0x7F then 1 else if 0xC2 \<le> a \<and> a \<le> 0xDF then 2 else if 0xE0 \<le> a \<and> a \<le> 0xEF then 3
      else if 0xF0 \<le> a \<and> a \<le> 0xF4 then 4 else 0)"

fun utf8_tail :: "nat \<Rightarrow> bytes \<Rightarrow> nat \<times> bool" where
  "utf8_tail 0 r = (0, True)"
| "utf8_tail (Suc n) [] = (0, False)"
| "utf8_tail (Suc n) (b # r) = (if utf8_cont b then (case utf8_tail n r of (k, ok) \<Rightarrow> (Suc k, ok)) else (0, False))"

fun utf8_chunk :: "bytes \<Rightarrow> nat \<times> bool" where
  "utf8_chunk [] = (0, True)"
| "utf8_chunk (a # r) =
     (if utf8_width a = 0 then (1, False)
      else if utf8_width a = 1 then (1, True)
      else case r of
        [] \<Rightarrow> (1, False)
      | b # r' \<Rightarrow>
          if utf8_second a b then (case utf8_tail (utf8_width a - 2) r' of (k, ok) \<Rightarrow> (2 + k, ok)) else (1, False))"

definition replacement_char :: bytes where
  "replacement_char = [0xEF, 0xBF, 0xBD]"

lemma utf8_chunk_pos: "0 < fst (utf8_chunk (a # r))"
  by (auto split: list.splits prod.splits)

function utf8_lossy :: "bytes \<Rightarrow> bytes" where
  "utf8_lossy [] = []"
| "utf8_lossy (a # r) =
     (case utf8_chunk (a # r) of (n, ok) \<Rightarrow>
        (if ok then take n (a # r) else replacement_char) @ utf8_lossy (drop n (a # r)))"
  by pat_completeness auto

termination
proof (relation "measure length", goal_cases)
  case (2 a r n ok)
  then have "0 < n" using utf8_chunk_pos [of a r] by (metis fst_conv)
  then show ?case by simp
qed simp

declare utf8_lossy.simps(2) [simp del]


lemma utf8_chunk_step: "n = fst (utf8_chunk (a # r)) \<Longrightarrow> ok = snd (utf8_chunk (a # r)) \<Longrightarrow>
  utf8_lossy (a # r) = (if ok then take n (a # r) else replacement_char) @ utf8_lossy (drop n (a # r))"
  by (simp add: utf8_lossy.simps case_prod_beta)

lemma utf8_second_2: "0xC2 \<le> a \<Longrightarrow> a \<le> 0xDF \<Longrightarrow> utf8_second a b = utf8_cont b"
  by (auto simp: utf8_second_def)

lemma utf8_second_3: "0xE0 \<le> a \<Longrightarrow> a \<le> 0xEF \<Longrightarrow> utf8_second a b =
  (if a = 0xE0 then 0xA0 \<le> b \<and> b \<le> 0xBF else if a = 0xED then 0x80 \<le> b \<and> b \<le> 0x9F else utf8_cont b)"
  by (auto simp: utf8_second_def)

lemma utf8_second_4: "0xF0 \<le> a \<Longrightarrow> a \<le> 0xF4 \<Longrightarrow> utf8_second a b =
  (if a = 0xF0 then 0x90 \<le> b \<and> b \<le> 0xBF else if a = 0xF4 then 0x80 \<le> b \<and> b \<le> 0x8F else utf8_cont b)"
  by (auto simp: utf8_second_def)

lemma utf8_chunk_valid:
  assumes "valid_utf8 (a # r)"
  shows "\<exists>n. utf8_chunk (a # r) = (n, True) \<and> valid_utf8 (drop n (a # r))"
proof -
  consider (1) "a \<le> 0x7F" | (2) "\<not> a \<le> 0x7F" "0xC2 \<le> a" "a \<le> 0xDF" | (3) "\<not> a \<le> 0x7F" "\<not> (0xC2 \<le> a \<and> a \<le> 0xDF)" "0xE0 \<le> a" "a \<le> 0xEF"
    | (4) "\<not> a \<le> 0x7F" "\<not> (0xC2 \<le> a \<and> a \<le> 0xDF)" "\<not> (0xE0 \<le> a \<and> a \<le> 0xEF)" "0xF0 \<le> a" "a \<le> 0xF4"
    using assms by (simp only: valid_utf8.simps split: if_splits) blast+
  then show ?thesis
  proof cases
    case 1
    then show ?thesis using assms by (simp add: utf8_width_def)
  next
    case 2
    then have "utf8_width a = 2" by (simp add: utf8_width_def)
    then show ?thesis using 2 assms by (cases r) (simp_all add: utf8_second_2)
  next
    case 3
    then have w: "utf8_width a = 3" by (simp only: utf8_width_def if_False if_True) simp
    obtain b c r1 where r: "r = b # c # r1" using 3 assms by (simp only: valid_utf8.simps if_False if_True) (auto split: list.splits)
    then have "utf8_second a b \<and> utf8_cont c \<and> valid_utf8 r1"
      using 3 assms by (simp only: valid_utf8.simps if_False if_True utf8_second_3) simp
    then show ?thesis using w r by (simp add: numeral_eq_Suc)
  next
    case 4
    then have w: "utf8_width a = 4" by (simp only: utf8_width_def if_False if_True) simp
    obtain b c d r1 where r: "r = b # c # d # r1"
      using 4 assms by (simp only: valid_utf8.simps if_False if_True) (auto split: list.splits)
    then have "utf8_second a b \<and> utf8_cont c \<and> utf8_cont d \<and> valid_utf8 r1"
      using 4 assms by (simp only: valid_utf8.simps if_False if_True utf8_second_4) simp
    then show ?thesis using w r by (simp add: numeral_eq_Suc)
  qed
qed

lemma utf8_lossy_valid: "valid_utf8 b \<Longrightarrow> utf8_lossy b = b"
proof (induction "length b" arbitrary: b rule: less_induct)
  case less
  show ?case
  proof (cases b)
    case Nil
    then show ?thesis by simp
  next
    case (Cons a r)
    then obtain n where n: "utf8_chunk (a # r) = (n, True)" "valid_utf8 (drop n (a # r))"
      using utf8_chunk_valid less.prems by blast
    then have "0 < n" using utf8_chunk_pos [of a r] by simp
    then have "utf8_lossy (drop n (a # r)) = drop n (a # r)"
      using less.hyps n(2) Cons by simp
    then show ?thesis using n Cons by (simp add: utf8_chunk_step)
  qed
qed

section \<open>Domains\<close>

text \<open>A domain as the contract gives it.\<close>

record ipns_domain =
  ip_owner :: u64
  ip_name :: bytes
  ip_records :: bytes
  ip_subdomains :: u8
  ip_blacklisted :: bool

record 'r domain =
  dm_id :: u64
  dm_d :: ipns_domain
  dm_records :: "bytes \<rightharpoonup> 'r list"
  dm_name :: bytes

fun push_records ::
  "('n, 't, 'o, 'r) dns \<Rightarrow> 'n \<Rightarrow> 'r list \<Rightarrow> (bytes \<rightharpoonup> 'r list) \<Rightarrow> (bytes \<rightharpoonup> 'r list)" where
  "push_records ops name [] out_recs = out_recs"
| "push_records ops name (r # recs) out_recs =
     (case append_name ops (rr_name ops r) name of
        None \<Rightarrow> push_records ops name recs out_recs
      | Some n \<Rightarrow>
          (let ns = name_to_string ops n;
               old = (case out_recs ns of None \<Rightarrow> [] | Some rs \<Rightarrow> rs)
           in push_records ops name recs (out_recs(ns \<mapsto> old @ [rr_set_name ops r n]))))"

text \<open>The records by their full names; none if the records or the name do not decode.\<close>

definition decoded_records :: "('n, 't, 'o, 'r) dns \<Rightarrow> bytes \<Rightarrow> bytes \<Rightarrow> (bytes \<rightharpoonup> 'r list)" where
  "decoded_records ops name records =
     (case decode_records ops records of
        Ok recs \<Rightarrow>
          (case name_from_utf8 ops name of
             Some name \<Rightarrow> push_records ops name recs Map.empty
           | None \<Rightarrow> Map.empty)
      | _ \<Rightarrow> Map.empty)"

definition update_records :: "('n, 't, 'o, 'r) dns \<Rightarrow> 'r domain \<Rightarrow> 'r domain" where
  "update_records ops dm =
     (let name = utf8_lossy (ip_name (dm_d dm))
      in dm\<lparr>dm_name := name, dm_records := decoded_records ops name (ip_records (dm_d dm))\<rparr>)"

definition domain_new :: "('n, 't, 'o, 'r) dns \<Rightarrow> u64 \<Rightarrow> ipns_domain \<Rightarrow> 'r domain" where
  "domain_new ops i d = update_records ops \<lparr>dm_id = i, dm_d = d, dm_records = Map.empty, dm_name = []\<rparr>"

definition is_subdomain :: "'r domain \<Rightarrow> bool" where
  "is_subdomain dm \<longleftrightarrow> ip_subdomains (dm_d dm) = 0xff"

definition owner_lockup :: "'r domain \<Rightarrow> u64 option" where
  "owner_lockup dm = (if is_subdomain dm then None else Some (ip_owner (dm_d dm)))"

type_synonym 'r domain_map = "u64 \<rightharpoonup> 'r domain"

section \<open>The cache\<close>

text \<open>
  The state under the lock. A reload announces itself (\<open>Updating\<close>), fetches the domains without the
  lock and writes its result.
\<close>

datatype 'r domains = Domains "'r domain_map" | Updating | Errored

record prereg =
  pr_lockup_id :: u64
  pr_namehash :: bytes
  pr_timestamp :: u64

record 'r pns =
  pn_domains :: "'r domains"
  pn_preregs :: "u64 \<rightharpoonup> prereg"

definition pns_new :: "'r pns" where
  "pns_new = \<lparr>pn_domains = Errored, pn_preregs = Map.empty\<rparr>"

definition PREREG_LIFETIME_SECONDS :: u64 where
  "PREREG_LIFETIME_SECONDS = 60 * 60 * 24"

datatype pns_error =
    EmptyName | OneLabel | NotPkt | StripFailed | BadPktName | AppendFailed | UnknownDomain | UnknownParent | RpcFailed

text \<open>One turn of the loop of \<open>with_domains\<close>: wait, reload, or the result with the domains afterwards.\<close>

datatype ('a, 'r) turn = Wait | Reload | Done "('a, pns_error) result \<times> 'r domain_map"

definition with_domains ::
  "('r domain_map \<Rightarrow> ('a, pns_error) result \<times> 'r domain_map) \<Rightarrow> 'r domains \<Rightarrow> ('a, 'r) turn" where
  "with_domains f ds = (case ds of Updating \<Rightarrow> Wait | Domains u \<Rightarrow> Done (f u) | Errored \<Rightarrow> Reload)"

section \<open>Loading\<close>

definition UNITS_PER_REQ :: nat where "UNITS_PER_REQ = 16"

text \<open>The answer to one request, put together with the ids that were asked for.\<close>

fun insert_owned :: "('n, 't, 'o, 'r) dns \<Rightarrow> (ipns_domain \<times> u64) list \<Rightarrow> 'r domain_map \<Rightarrow> 'r domain_map" where
  "insert_owned ops [] out = out"
| "insert_owned ops ((d, i) # ds) out =
     insert_owned ops ds (if 0 < ip_owner d then out(i \<mapsto> domain_new ops i d) else out)"

fun load_chunks ::
  "('n, 't, 'o, 'r) dns \<Rightarrow> (u64 list \<Rightarrow> ipns_domain list option) \<Rightarrow> u64 list list \<Rightarrow> 'r domain_map
     \<Rightarrow> ('r domain_map, pns_error) result" where
  "load_chunks ops get_domains [] out = Ok out"
| "load_chunks ops get_domains (v # chks) out =
     (case get_domains v of
        None \<Rightarrow> Err RpcFailed
      | Some ds \<Rightarrow> load_chunks ops get_domains chks (insert_owned ops (zip ds v) out))"

definition get_all_domains ::
  "('n, 't, 'o, 'r) dns \<Rightarrow> u64 option \<Rightarrow> (u64 list \<Rightarrow> ipns_domain list option) \<Rightarrow> ('r domain_map, pns_error) result" where
  "get_all_domains ops next_id get_domains =
     (case next_id of
        None \<Rightarrow> Err RpcFailed
      | Some nid \<Rightarrow> load_chunks ops get_domains (chunks UNITS_PER_REQ (map word_of_nat [0 ..< unat nid])) Map.empty)"

text \<open>The two locked sections of \<open>update_all_domains\<close>.\<close>

definition begin_update :: "'r pns \<Rightarrow> 'r pns" where
  "begin_update m = m\<lparr>pn_domains := Updating\<rparr>"

definition end_update :: "('r domain_map, pns_error) result \<Rightarrow> 'r pns \<Rightarrow> 'r pns" where
  "end_update r m = m\<lparr>pn_domains := (case r of Ok u \<Rightarrow> Domains u | _ \<Rightarrow> Errored)\<rparr>"

section \<open>Preregistrations\<close>

definition prereg_old :: "u64 \<Rightarrow> prereg \<Rightarrow> (bool, 'e) result" where
  "prereg_old now p = map_ok (\<lambda>t. t < now) (add_chk (pr_timestamp p) PREREG_LIFETIME_SECONDS)"

text \<open>\<open>order\<close> is the order in which the hash map lists the ids.\<close>

fun old_preregs :: "u64 \<Rightarrow> (u64 \<rightharpoonup> prereg) \<Rightarrow> u64 list \<Rightarrow> (u64 list, 'e) result" where
  "old_preregs now ps [] = Ok []"
| "old_preregs now ps (i # is) =
     (case ps i of
        None \<Rightarrow> old_preregs now ps is
      | Some p \<Rightarrow> and_then (prereg_old now p) (\<lambda>old. map_ok (\<lambda>rest. if old then i # rest else rest) (old_preregs now ps is)))"

definition expire_old_preregs ::
  "(u64 set \<Rightarrow> u64 list) \<Rightarrow> u64 \<Rightarrow> 'r pns \<Rightarrow> (unit, pns_error) result \<times> 'r pns" where
  "expire_old_preregs order now m =
     (case old_preregs now (pn_preregs m) (order (dom (pn_preregs m))) of
        Ok to_remove \<Rightarrow> (Ok (), m\<lparr>pn_preregs := pn_preregs m |` (- set to_remove)\<rparr>)
      | Err e \<Rightarrow> (Err e, m)
      | Panic \<Rightarrow> (Panic, m))"

definition add_prereg ::
  "(u64 set \<Rightarrow> u64 list) \<Rightarrow> u64 \<Rightarrow> u64 \<Rightarrow> bytes \<Rightarrow> 'r pns \<Rightarrow> (unit, pns_error) result \<times> 'r pns" where
  "add_prereg order now lockup_id namehash m =
     (case expire_old_preregs order now m of
        (Ok _, m) \<Rightarrow>
          (Ok (), m\<lparr>pn_preregs := (pn_preregs m)(lockup_id \<mapsto>
             \<lparr>pr_lockup_id = lockup_id, pr_namehash = namehash, pr_timestamp = now\<rparr>)\<rparr>)
      | r \<Rightarrow> r)"

definition rm_prereg ::
  "(u64 set \<Rightarrow> u64 list) \<Rightarrow> u64 \<Rightarrow> u64 \<Rightarrow> 'r pns \<Rightarrow> (unit, pns_error) result \<times> 'r pns" where
  "rm_prereg order now lockup_id m =
     (case expire_old_preregs order now m of
        (Ok _, m) \<Rightarrow> (Ok (), m\<lparr>pn_preregs := (pn_preregs m)(lockup_id := None)\<rparr>)
      | r \<Rightarrow> r)"

text \<open>\<open>x\<close> is the time stamp the contract returns.\<close>

definition prereg_exists :: "u64 option \<Rightarrow> u64 \<Rightarrow> (bool, pns_error) result" where
  "prereg_exists x now =
     and_then (ok_or x RpcFailed) (\<lambda>t.
       if 0 < t then and_then (add_chk now 60) (\<lambda>n. map_ok (\<lambda>e. n < e) (add_chk t PREREG_LIFETIME_SECONDS))
       else Ok False)"

section \<open>Events of the contract\<close>

datatype event =
    Register u64 u64 bytes bytes
  | UpdateRecords u64 bytes
  | Takeover u64 u64 bytes
  | CreateSubdomain u64 u64 bytes bytes
  | Destroy u64
  | Blacklist u64 bool

type_synonym 'r on_domains = "'r domain_map \<Rightarrow> (unit, pns_error) result \<times> 'r domain_map"

definition on_register :: "('n, 't, 'o, 'r) dns \<Rightarrow> u64 \<Rightarrow> u64 \<Rightarrow> bytes \<Rightarrow> bytes \<Rightarrow> 'r on_domains" where
  "on_register ops i lockup_id name recs units =
     (Ok (), units(i \<mapsto> domain_new ops i
        \<lparr>ip_owner = lockup_id, ip_name = name, ip_records = recs, ip_subdomains = 0, ip_blacklisted = False\<rparr>))"

definition on_update_records :: "('n, 't, 'o, 'r) dns \<Rightarrow> u64 \<Rightarrow> bytes \<Rightarrow> 'r on_domains" where
  "on_update_records ops i recs units =
     (case units i of
        None \<Rightarrow> (Err UnknownDomain, units)
      | Some dm \<Rightarrow> (Ok (), units(i \<mapsto> update_records ops (dm\<lparr>dm_d := (dm_d dm)\<lparr>ip_records := recs\<rparr>\<rparr>))))"

definition on_takeover :: "u64 \<Rightarrow> u64 \<Rightarrow> bytes \<Rightarrow> 'r on_domains" where
  "on_takeover i new_lockup recs units =
     (case units i of
        None \<Rightarrow> (Err UnknownDomain, units)
      | Some dm \<Rightarrow> (Ok (), units(i \<mapsto> dm\<lparr>dm_d := (dm_d dm)\<lparr>ip_owner := new_lockup, ip_records := recs\<rparr>\<rparr>)))"

definition on_create_subdomain :: "('n, 't, 'o, 'r) dns \<Rightarrow> u64 \<Rightarrow> u64 \<Rightarrow> bytes \<Rightarrow> bytes \<Rightarrow> 'r on_domains" where
  "on_create_subdomain ops i parent name recs units =
     (case units parent of
        None \<Rightarrow> (Err UnknownParent, units)
      | Some pd \<Rightarrow>
          (let sub = domain_new ops i \<lparr>ip_owner = parent, ip_name = name, ip_records = recs, ip_subdomains = 0xff,
                                         ip_blacklisted = ip_blacklisted (dm_d pd)\<rparr>
           in case add_chk (ip_subdomains (dm_d pd)) 1 of
                Ok n \<Rightarrow> (Ok (), units(parent \<mapsto> pd\<lparr>dm_d := (dm_d pd)\<lparr>ip_subdomains := n\<rparr>\<rparr>, i \<mapsto> sub))
              | Err e \<Rightarrow> (Err e, units)
              | Panic \<Rightarrow> (Panic, units)))"

definition on_destroy :: "u64 \<Rightarrow> 'r on_domains" where
  "on_destroy i units =
     (case units i of
        None \<Rightarrow> (Err UnknownDomain, units)
      | Some dm \<Rightarrow>
          (let units = units(i := None) in
           if is_subdomain dm then
             (case units (ip_owner (dm_d dm)) of
                None \<Rightarrow> (Err UnknownParent, units)
              | Some pd \<Rightarrow>
                  (case sub_chk (ip_subdomains (dm_d pd)) 1 of
                     Ok n \<Rightarrow> (Ok (), units(ip_owner (dm_d dm) \<mapsto> pd\<lparr>dm_d := (dm_d pd)\<lparr>ip_subdomains := n\<rparr>\<rparr>))
                   | Err e \<Rightarrow> (Err e, units)
                   | Panic \<Rightarrow> (Panic, units)))
           else (Ok (), units)))"

definition on_blacklist :: "u64 \<Rightarrow> bool \<Rightarrow> 'r on_domains" where
  "on_blacklist i b units =
     (case units i of
        None \<Rightarrow> (Err UnknownDomain, units)
      | Some dm \<Rightarrow> (Ok (), units(i \<mapsto> dm\<lparr>dm_d := (dm_d dm)\<lparr>ip_blacklisted := b\<rparr>\<rparr>)))"

fun on_event :: "('n, 't, 'o, 'r) dns \<Rightarrow> event \<Rightarrow> 'r on_domains" where
  "on_event ops (Register i lockup_id name recs) = on_register ops i lockup_id name recs"
| "on_event ops (UpdateRecords i recs) = on_update_records ops i recs"
| "on_event ops (Takeover i new_lockup recs) = on_takeover i new_lockup recs"
| "on_event ops (CreateSubdomain i parent name recs) = on_create_subdomain ops i parent name recs"
| "on_event ops (Destroy i) = on_destroy i"
| "on_event ops (Blacklist i b) = on_blacklist i b"

section \<open>Names\<close>

definition SPECIAL_DOMAINS :: "bytes list" where
  "SPECIAL_DOMAINS = map str_bytes
     [''www'', ''status'', ''m'', ''h'', ''docs'', ''explorer'', ''forum'', ''admin'', ''support'', ''api'', ''cdn'',
      ''staging'', ''dev'', ''blog'', ''ftp'', ''mail'', ''autodiscover'', ''_domainkey'', ''_dmarc'']"

definition is_ascii_lowercase :: "u8 \<Rightarrow> bool" where
  "is_ascii_lowercase c \<longleftrightarrow> 97 \<le> c \<and> c \<le> 122"

definition is_ascii_digit :: "u8 \<Rightarrow> bool" where
  "is_ascii_digit c \<longleftrightarrow> 48 \<le> c \<and> c \<le> 57"

definition label_char :: "u8 \<Rightarrow> bool" where
  "label_char c \<longleftrightarrow> is_ascii_lowercase c \<or> is_ascii_digit c"

definition hyphen :: u8 where "hyphen = 45"

definition is_valid_domain_label :: "bytes \<Rightarrow> bool" where
  "is_valid_domain_label label =
     (if length label < 1 \<or> length label > 63 then False
      else if \<not> label_char (hd label) \<or> \<not> label_char (last label) then False
      else if \<not> list_all (\<lambda>c. label_char c \<or> c = hyphen) label then False
      else if sublist [hyphen, hyphen] label then False
      else True)"

definition parse_tld :: "bytes \<Rightarrow> (bytes \<times> bytes option, pns_error) result" where
  "parse_tld n =
     (case rev (split_on dot n) of
        [] \<Rightarrow> Err EmptyName
      | [tld] \<Rightarrow> Err OneLabel
      | tld # pkt # _ \<Rightarrow>
          if pkt \<noteq> str_bytes ''pkt'' then Err NotPkt
          else case strip_suffix (str_bytes ''pkt.'' @ tld) n of
            None \<Rightarrow> Err StripFailed
          | Some sub \<Rightarrow>
              if sub = [] then Ok (sub, Some tld)
              else case strip_suffix [dot] sub of
                None \<Rightarrow> Err StripFailed
              | Some sub \<Rightarrow> Ok (sub, Some tld))"

definition parse_name :: "bytes \<Rightarrow> (bytes \<times> bytes option, pns_error) result" where
  "parse_name name =
     (let name = (case strip_suffix [dot] name of Some n \<Rightarrow> n | None \<Rightarrow> name) in
      case strip_suffix (str_bytes ''.pkt'') name of
        Some n \<Rightarrow> Ok (n, None)
      | None \<Rightarrow> parse_tld name)"

definition domain_available ::
  "(u64 set \<Rightarrow> u64 list) \<Rightarrow> bytes \<Rightarrow> 'r domain_map \<Rightarrow> bool" where
  "domain_available order name doms =
     (if name \<in> set SPECIAL_DOMAINS then False
      else find (\<lambda>i. map_option dm_name (doms i) = Some name) (order (dom doms)) = None)"

definition domain_records :: "u64 \<Rightarrow> 'r domain_map \<Rightarrow> (bytes \<rightharpoonup> 'r list) option" where
  "domain_records i doms = map_option dm_records (doms i)"

section \<open>Answers\<close>

record 'r answers =
  an_records :: "'r list"
  an_nameservers :: "'r list"

definition fix_pkt_names1 :: "('n, 't, 'o, 'r) dns \<Rightarrow> 'n \<Rightarrow> 'n \<Rightarrow> 'n \<Rightarrow> ('n option, pns_error) result" where
  "fix_pkt_names1 ops n pkt tld =
     (let lst = (case rev (name_labels ops n) of [] \<Rightarrow> None | l # _ \<Rightarrow> Some l);
          fst = (case name_labels ops pkt of [] \<Rightarrow> None | l # _ \<Rightarrow> Some l)
      in if lst = fst then map_ok Some (ok_or (append_domain ops n tld) AppendFailed) else Ok None)"

text \<open>The name inside the data, and the data with another one.\<close>

fun data_target :: "('n, 'o) rdata \<Rightarrow> 'n option" where
  "data_target (ANAME n) = Some n"
| "data_target (CNAME n) = Some n"
| "data_target (NS n) = Some n"
| "data_target (MX pref n) = Some n"
| "data_target (PTR n) = Some n"
| "data_target (SRV prio weight port n) = Some n"
| "data_target (SVCB prio n params) = Some n"
| "data_target (OtherData x) = None"

fun with_target :: "('n, 'o) rdata \<Rightarrow> 'n \<Rightarrow> ('n, 'o) rdata" where
  "with_target (ANAME _) n = ANAME n"
| "with_target (CNAME _) n = CNAME n"
| "with_target (NS _) n = NS n"
| "with_target (MX pref _) n = MX pref n"
| "with_target (PTR _) n = PTR n"
| "with_target (SRV prio weight port _) n = SRV prio weight port n"
| "with_target (SVCB prio _ params) n = SVCB prio n params"
| "with_target (OtherData x) n = OtherData x"

definition fix_target :: "('n, 't, 'o, 'r) dns \<Rightarrow> 'n \<Rightarrow> 'n \<Rightarrow> 'r \<Rightarrow> ('r, pns_error) result" where
  "fix_target ops pkt tld rec =
     (case rr_data ops rec of
        None \<Rightarrow> Ok rec
      | Some data \<Rightarrow>
          (case data_target data of
             None \<Rightarrow> Ok rec
           | Some n \<Rightarrow>
               and_then (fix_pkt_names1 ops n pkt tld) (\<lambda>n'.
               Ok (case n' of None \<Rightarrow> rec | Some n' \<Rightarrow> rr_set_data ops rec (Some (with_target data n'))))))"

fun fix_pkt_names0 :: "('n, 't, 'o, 'r) dns \<Rightarrow> 'n \<Rightarrow> 'n option \<Rightarrow> 'r list \<Rightarrow> ('r list, pns_error) result" where
  "fix_pkt_names0 ops pkt tld [] = Ok []"
| "fix_pkt_names0 ops pkt tld (rec # recs) =
     and_then (ok_or (append_domain ops (rr_name ops rec) pkt) AppendFailed) (\<lambda>name.
       case tld of
         None \<Rightarrow> Ok (rr_set_name ops rec name # recs)
       | Some t \<Rightarrow>
           and_then (ok_or (append_domain ops name t) AppendFailed) (\<lambda>name.
           and_then (fix_target ops pkt t (rr_set_name ops rec name)) (\<lambda>rec.
           map_ok (Cons rec) (fix_pkt_names0 ops pkt tld recs))))"

definition fix_pkt_names :: "('n, 't, 'o, 'r) dns \<Rightarrow> bytes option \<Rightarrow> 'r answers \<Rightarrow> ('r answers, pns_error) result" where
  "fix_pkt_names ops tld out =
     and_then (ok_or (name_from_utf8 ops (str_bytes ''pkt'')) BadPktName) (\<lambda>pkt.
     and_then (case tld of None \<Rightarrow> Ok None | Some t \<Rightarrow> map_ok Some (ok_or (name_from_utf8 ops t) BadPktName)) (\<lambda>tld.
     and_then (fix_pkt_names0 ops pkt tld (an_records out)) (\<lambda>recs.
     and_then (fix_pkt_names0 ops pkt tld (an_nameservers out)) (\<lambda>ns.
     Ok \<lparr>an_records = recs, an_nameservers = ns\<rparr>))))"

text \<open>Whether the domain is asked for: the name ends with that of the domain, at a label.\<close>

definition domain_matches :: "bytes \<Rightarrow> bytes \<Rightarrow> bool" where
  "domain_matches sub name =
     (case strip_suffix name sub of
        None \<Rightarrow> False
      | Some ssub \<Rightarrow> \<not> (ssub \<noteq> [] \<and> \<not> suffix [dot] ssub))"

definition direct_records :: "('n, 't, 'o, 'r) dns \<Rightarrow> (bytes \<rightharpoonup> 'r list) \<Rightarrow> bytes \<Rightarrow> 't \<Rightarrow> 'r list" where
  "direct_records ops records sub t =
     (case records sub of
        None \<Rightarrow> []
      | Some recs \<Rightarrow>
          (let out = filter (\<lambda>r. rr_type ops r = t \<or> type_is_any ops t) recs
           in if out = [] then filter (\<lambda>r. rr_type ops r = type_CNAME ops) recs else out))"

function ns_records :: "('n, 't, 'o, 'r) dns \<Rightarrow> (bytes \<rightharpoonup> 'r list) \<Rightarrow> bytes \<Rightarrow> 'r list" where
  "ns_records ops records ssub =
     (case records ssub of None \<Rightarrow> [] | Some recs \<Rightarrow> filter (\<lambda>r. rr_type ops r = type_NS ops) recs)
       @ (case after_first dot ssub of None \<Rightarrow> [] | Some rest \<Rightarrow> ns_records ops records rest)"
  by pat_completeness auto

termination
  by (relation "measure (\<lambda>(ops, records, ssub). length ssub)") (auto dest: after_first_shorter)

declare ns_records.simps [simp del]

definition domain_answers :: "('n, 't, 'o, 'r) dns \<Rightarrow> (bytes \<rightharpoonup> 'r list) \<Rightarrow> bytes \<Rightarrow> 't \<Rightarrow> 'r answers" where
  "domain_answers ops records sub t =
     \<lparr>an_records = direct_records ops records sub t, an_nameservers = ns_records ops records sub\<rparr>"

text \<open>The first domain that matches, in the order of the hash map, gives the answer.\<close>

fun answer_from ::
  "('n, 't, 'o, 'r) dns \<Rightarrow> bytes \<Rightarrow> bytes option \<Rightarrow> 't \<Rightarrow> 'r domain_map \<Rightarrow> u64 list \<Rightarrow> ('r answers option, pns_error) result" where
  "answer_from ops sub tld t doms [] = Ok None"
| "answer_from ops sub tld t doms (i # is) =
     (case doms i of
        None \<Rightarrow> answer_from ops sub tld t doms is
      | Some dm \<Rightarrow>
          if domain_matches sub (dm_name dm)
          then map_ok Some (fix_pkt_names ops tld (domain_answers ops (dm_records dm) sub t))
          else answer_from ops sub tld t doms is)"

definition get_records ::
  "('n, 't, 'o, 'r) dns \<Rightarrow> (u64 set \<Rightarrow> u64 list) \<Rightarrow> bytes \<Rightarrow> 't \<Rightarrow> 'r domain_map \<Rightarrow> ('r answers option, pns_error) result" where
  "get_records ops order sname t doms =
     (case parse_name sname of
        Ok (sub, tld) \<Rightarrow> answer_from ops sub tld t doms (order (dom doms))
      | _ \<Rightarrow> Ok None)"

section \<open>Lemmas on names\<close>

definition without_dot :: "bytes \<Rightarrow> bytes" where
  "without_dot name = (case strip_suffix [dot] name of Some n \<Rightarrow> n | None \<Rightarrow> name)"

lemma without_dot_simps [simp]: "without_dot (n @ [dot]) = n" "\<not> suffix [dot] n \<Longrightarrow> without_dot n = n"
  by (simp_all add: without_dot_def strip_suffix_def)

text \<open>What the branch for names under another top level domain accepts.\<close>

definition under_tld :: "bytes \<Rightarrow> bytes \<Rightarrow> bytes \<Rightarrow> bool" where
  "under_tld n sub t \<longleftrightarrow>
     dot \<notin> set t \<and> (n = sub @ str_bytes ''.pkt.'' @ t \<or> sub = [] \<and> n = str_bytes ''pkt.'' @ t)"

lemma parse_name_eq: "parse_name name =
  (case strip_suffix (str_bytes ''.pkt'') (without_dot name) of
     Some n \<Rightarrow> Ok (n, None) | None \<Rightarrow> parse_tld (without_dot name))"
  unfolding parse_name_def without_dot_def Let_def by (rule refl)

lemma pkt_bytes:
  "str_bytes ''.pkt.'' = dot # str_bytes ''pkt'' @ [dot]" "str_bytes ''pkt.'' = str_bytes ''pkt'' @ [dot]"
  "dot \<notin> set (str_bytes ''pkt'')"
  by (simp_all add: str_bytes_def)

lemma parse_tld_Ok:
  assumes "parse_tld n = Ok (sub, tld)"
  shows "\<exists>t. tld = Some t \<and> under_tld n sub t"
proof -
  obtain t ps where r: "rev (split_on dot n) = t # str_bytes ''pkt'' # ps"
    using assms by (auto simp: parse_tld_def split: list.splits if_splits)
  from split_on_last_two [OF r] have t: "dot \<notin> set t" by simp
  from split_on_last_two [OF r] consider "n = str_bytes ''pkt.'' @ t" | pre where "n = (pre @ [dot]) @ str_bytes ''pkt.'' @ t"
    by (auto simp: pkt_bytes)
  then show ?thesis
  proof cases
    case 1
    then have "strip_suffix (str_bytes ''pkt.'' @ t) n = Some []" by (simp add: strip_suffix_Some_iff)
    then show ?thesis using assms r t 1 by (auto simp: parse_tld_def under_tld_def)
  next
    case (2 pre)
    then have "strip_suffix (str_bytes ''pkt.'' @ t) n = Some (pre @ [dot])" by (simp only: strip_suffix_append)
    then show ?thesis using assms r t 2 by (auto simp: parse_tld_def under_tld_def pkt_bytes)
  qed
qed

lemma parse_tld_under:
  assumes "under_tld n sub t"
  shows "parse_tld n = Ok (sub, Some t)"
proof -
  have t: "dot \<notin> set t" using assms by (simp add: under_tld_def)
  from assms consider "n = (sub @ [dot]) @ str_bytes ''pkt.'' @ t" | "sub = []" "n = str_bytes ''pkt.'' @ t"
    by (auto simp: under_tld_def pkt_bytes)
  then show ?thesis
  proof cases
    case 1
    then have s: "strip_suffix (str_bytes ''pkt.'' @ t) n = Some (sub @ [dot])" by (simp only: strip_suffix_append)
    have "n = (sub @ dot # str_bytes ''pkt'') @ dot # t" using 1 by (simp add: pkt_bytes)
    then have "rev (split_on dot n) = t # str_bytes ''pkt'' # rev (split_on dot sub)"
      using t pkt_bytes(3) by (simp add: split_on_last del: append_assoc append_Cons)
    then show ?thesis using s by (simp add: parse_tld_def)
  next
    case 2
    then have s: "strip_suffix (str_bytes ''pkt.'' @ t) n = Some []" by (simp add: strip_suffix_Some_iff)
    have "rev (split_on dot n) = [t, str_bytes ''pkt'']"
      using 2 t pkt_bytes split_on_last [of dot t "str_bytes ''pkt''"] by (simp add: split_on_no_sep)
    then show ?thesis using s 2 by (simp add: parse_tld_def)
  qed
qed

section \<open>Properties of names\<close>

text \<open>A query name is taken apart at its end, after one dot at the end has been dropped. A name that ends
  with .pkt is the rest in front of it; any other name is accepted exactly if its last label is a top
  level domain that follows the label pkt, and what is in front of them is the name, which may be empty.\<close>

theorem parse_name_spec:
  "parse_name name = Ok (sub, tld) \<longleftrightarrow>
     (case tld of
        None \<Rightarrow> without_dot name = sub @ str_bytes ''.pkt''
      | Some t \<Rightarrow> \<not> suffix (str_bytes ''.pkt'') (without_dot name) \<and> under_tld (without_dot name) sub t)"
proof (cases "strip_suffix (str_bytes ''.pkt'') (without_dot name)")
  case None
  then have "\<not> suffix (str_bytes ''.pkt'') (without_dot name)" by (simp add: strip_suffix_def split: if_splits)
  moreover have "parse_name name = parse_tld (without_dot name)" using None by (simp add: parse_name_eq)
  ultimately show ?thesis
    using parse_tld_Ok [of "without_dot name" sub tld] parse_tld_under [of "without_dot name" sub]
    by (auto simp: suffix_def split: option.splits)
next
  case (Some n)
  then show ?thesis by (auto simp: parse_name_eq strip_suffix_Some_iff suffix_def split: option.splits)
qed

end
