(* ===== verification/Pns_Spec.thy ===== *)
theory Pns_Spec
  imports Pns
begin

text \<open>
  The runs of the domain cache and what it answers. A step is one section under the lock: an event on
  the domains, a failed handler that marks the cache, a caller that finds it unusable, the start and
  the end of a reload, a preregistration. The calls of the contract happen between steps.
\<close>

section \<open>Runs\<close>

text \<open>
  Beside the cache: how many callers have found it unusable and are about to reload it, how many reloads
  are under way, and how many handlers have failed and not yet marked the cache.
\<close>

record 'r cache_run =
  cr_pns :: "'r pns"
  cr_seen :: nat
  cr_loading :: nat
  cr_failed :: nat

datatype action = Event event | Loaded | Internal

abbreviation set_domains :: "'r domains \<Rightarrow> 'r cache_run \<Rightarrow> 'r cache_run" where
  "set_domains ds s \<equiv> s\<lparr>cr_pns := (cr_pns s)\<lparr>pn_domains := ds\<rparr>\<rparr>"

inductive cache_step ::
  "('n, 't, 'o, 'r) dns \<Rightarrow> (u64 set \<Rightarrow> u64 list) \<Rightarrow> 'r cache_run \<Rightarrow> action \<Rightarrow> 'r cache_run \<Rightarrow> bool"
  for ops :: "('n, 't, 'o, 'r) dns" and order :: "u64 set \<Rightarrow> u64 list" where
  event: "with_domains (on_event ops e) (pn_domains (cr_pns s)) = Done (Ok (), u) \<Longrightarrow>
    cache_step ops order s (Event e) (set_domains (Domains u) s)"
| event_failed: "with_domains (on_event ops e) (pn_domains (cr_pns s)) = Done (Err err, u) \<Longrightarrow>
    cache_step ops order s Internal ((set_domains (Domains u) s)\<lparr>cr_failed := Suc (cr_failed s)\<rparr>)"
| event_panicked: "with_domains (on_event ops e) (pn_domains (cr_pns s)) = Done (Panic, u) \<Longrightarrow>
    cache_step ops order s Internal (set_domains (Domains u) s)"
| mark: "cr_failed s = Suc k \<Longrightarrow> cache_step ops order s Internal ((set_domains Errored s)\<lparr>cr_failed := k\<rparr>)"
| seen: "with_domains (f :: 'r on_domains) (pn_domains (cr_pns s)) = Reload \<Longrightarrow>
    cache_step ops order s Internal (s\<lparr>cr_seen := Suc (cr_seen s)\<rparr>)"
| start: "cr_seen s = Suc k \<Longrightarrow>
    cache_step ops order s Internal
      (s\<lparr>cr_pns := begin_update (cr_pns s), cr_seen := k, cr_loading := Suc (cr_loading s)\<rparr>)"
| finish: "cr_loading s = Suc k \<Longrightarrow> get_all_domains ops next_id get_domains = Ok u \<Longrightarrow>
    cache_step ops order s Loaded (s\<lparr>cr_pns := end_update (Ok u) (cr_pns s), cr_loading := k\<rparr>)"
| finish_failed: "cr_loading s = Suc k \<Longrightarrow> get_all_domains ops next_id get_domains = Err err \<Longrightarrow> failed \<in> {0, 1} \<Longrightarrow>
    cache_step ops order s Internal
      (s\<lparr>cr_pns := end_update (Err err) (cr_pns s), cr_loading := k, cr_failed := cr_failed s + failed\<rparr>)"
| prereg: "cache_step ops order s Internal (s\<lparr>cr_pns := snd (add_prereg order now lockup_id namehash (cr_pns s))\<rparr>)"
| rm_prereg: "cache_step ops order s Internal (s\<lparr>cr_pns := snd (rm_prereg order now lockup_id (cr_pns s))\<rparr>)"

inductive cache_reachable ::
  "('n, 't, 'o, 'r) dns \<Rightarrow> (u64 set \<Rightarrow> u64 list) \<Rightarrow> action list \<Rightarrow> 'r cache_run \<Rightarrow> bool"
  for ops :: "('n, 't, 'o, 'r) dns" and order :: "u64 set \<Rightarrow> u64 list" where
  init: "cache_reachable ops order [] \<lparr>cr_pns = pns_new, cr_seen = 1, cr_loading = 0, cr_failed = 0\<rparr>"
| step: "cache_reachable ops order tr s \<Longrightarrow> cache_step ops order s a s' \<Longrightarrow> cache_reachable ops order (tr @ [a]) s'"

section \<open>The decoded view\<close>

text \<open>
  The name and the records of a cached domain are decoded from what the contract holds. The ids of the
  domains whose records need not be those of the contract, because the last event was a takeover.
\<close>

fun stale_after :: "action \<Rightarrow> u64 set \<Rightarrow> u64 set" where
  "stale_after (Event (Register i _ _ _)) S = S - {i}"
| "stale_after (Event (UpdateRecords i _)) S = S - {i}"
| "stale_after (Event (Takeover i _ _)) S = insert i S"
| "stale_after (Event (CreateSubdomain i _ _ _)) S = S - {i}"
| "stale_after (Event (Destroy i)) S = S"
| "stale_after (Event (Blacklist i _)) S = S"
| "stale_after Loaded S = {}"
| "stale_after Internal S = S"

definition stale :: "action list \<Rightarrow> u64 set" where
  "stale tr = fold stale_after tr {}"

lemma stale_simps [simp]: "stale [] = {}" "stale (tr @ [a]) = stale_after a (stale tr)"
  by (simp_all add: stale_def)

text \<open>The domain as it would be decoded now.\<close>

definition decoded :: "('n, 't, 'o, 'r) dns \<Rightarrow> 'r domain \<Rightarrow> 'r domain" where
  "decoded ops dm = domain_new ops (dm_id dm) (dm_d dm)"

definition domain_ok :: "('n, 't, 'o, 'r) dns \<Rightarrow> bool \<Rightarrow> u64 \<Rightarrow> 'r domain \<Rightarrow> bool" where
  "domain_ok ops st i dm \<longleftrightarrow>
     dm_id dm = i \<and> dm_name dm = dm_name (decoded ops dm) \<and> (\<not> st \<longrightarrow> dm = decoded ops dm)"

definition view_ok :: "('n, 't, 'o, 'r) dns \<Rightarrow> u64 set \<Rightarrow> 'r domain_map \<Rightarrow> bool" where
  "view_ok ops S u \<longleftrightarrow> (\<forall>i dm. u i = Some dm \<longrightarrow> domain_ok ops (i \<in> S) i dm)"

named_theorems domain_ok \<open>domains made or changed by the operations are as decoded\<close>

lemma update_records_eq: "update_records ops dm = domain_new ops (dm_id dm) (dm_d dm)"
  by (cases dm) (simp add: domain_new_def update_records_def Let_def)

lemma domain_new_ok [domain_ok]: "domain_ok ops st i (domain_new ops i d)"
  by (simp add: domain_ok_def decoded_def domain_new_def update_records_def Let_def)

lemma update_records_ok [domain_ok]: "dm_id dm = i \<Longrightarrow> domain_ok ops st i (update_records ops dm)"
  using domain_new_ok by (auto simp: update_records_eq)

lemma dm_name_new [simp]: "dm_name (domain_new ops i d) = utf8_lossy (ip_name d)"
  by (simp add: domain_new_def update_records_def Let_def)

lemma takeover_ok [domain_ok]:
  "domain_ok ops st i dm \<Longrightarrow> domain_ok ops True i (dm\<lparr>dm_d := (dm_d dm)\<lparr>ip_owner := l, ip_records := r\<rparr>\<rparr>)"
  by (simp add: domain_ok_def decoded_def)

text \<open>Name and records do not depend on the other fields of the contract's data.\<close>

lemma other_fields_ok:
  assumes "domain_ok ops st i dm" and "ip_name d = ip_name (dm_d dm)" and "ip_records d = ip_records (dm_d dm)"
  shows "domain_ok ops st i (dm\<lparr>dm_d := d\<rparr>)"
  using assms by (cases dm) (auto simp: domain_ok_def decoded_def domain_new_def update_records_def Let_def)

lemma view_okD: "view_ok ops S u \<Longrightarrow> u i = Some dm \<Longrightarrow> domain_ok ops (i \<in> S) i dm"
  by (simp add: view_ok_def)

lemma view_ok_weaken: "view_ok ops S u \<Longrightarrow> S \<subseteq> T \<Longrightarrow> view_ok ops T u"
  by (fastforce simp: view_ok_def domain_ok_def)

lemma view_ok_upd: "view_ok ops S u \<Longrightarrow> domain_ok ops (i \<in> T) i dm \<Longrightarrow> S - {i} \<subseteq> T \<Longrightarrow> view_ok ops T (u(i \<mapsto> dm))"
  by (fastforce simp: view_ok_def domain_ok_def)

lemma view_ok_upd_new: "view_ok ops S u \<Longrightarrow> view_ok ops (S - {i}) (u(i \<mapsto> domain_new ops i d))"
  by (rule view_ok_upd) (auto intro: domain_new_ok)

lemma view_ok_del: "view_ok ops S u \<Longrightarrow> view_ok ops S (u(i := None))"
  by (simp add: view_ok_def)

lemma on_event_view_ok:
  assumes u: "view_ok ops S u" and r: "on_event ops e u = (r, u')"
  shows "view_ok ops (if r = Ok () then stale_after (Event e) S else S) u'"
proof (cases e)
  case (Register i l n recs)
  then show ?thesis using assms by (auto simp: on_register_def intro!: view_ok_upd domain_new_ok)
next
  case (UpdateRecords i recs)
  then show ?thesis using assms
    by (auto simp: on_update_records_def domain_ok_def dest: view_okD split: option.splits
        intro!: view_ok_upd [OF u] update_records_ok)
next
  case (Takeover i l recs)
  then show ?thesis using assms
    by (auto simp: on_takeover_def split: option.splits intro!: view_ok_upd [OF u] dest: view_okD [THEN takeover_ok])
next
  case (CreateSubdomain i p n recs)
  show ?thesis
  proof (cases "u p")
    case None
    then show ?thesis using assms CreateSubdomain by (auto simp: on_create_subdomain_def)
  next
    case (Some pd)
    have "view_ok ops S (u(p \<mapsto> pd\<lparr>dm_d := (dm_d pd)\<lparr>ip_subdomains := k\<rparr>\<rparr>))" for k
      using view_okD [OF u Some] by (intro view_ok_upd [OF u] other_fields_ok) auto
    then show ?thesis using assms CreateSubdomain Some
      by (auto simp: on_create_subdomain_def Let_def simp del: fun_upd_apply split: result.splits intro!: view_ok_upd_new)
  qed
next
  case (Destroy i)
  have d: "view_ok ops S (u(i := None))" using u by (rule view_ok_del)
  have "view_ok ops S ((u(i := None))(p \<mapsto> pd\<lparr>dm_d := (dm_d pd)\<lparr>ip_subdomains := k\<rparr>\<rparr>))" if "(u(i := None)) p = Some pd" for p pd k
    using view_okD [OF d that] by (intro view_ok_upd [OF d] other_fields_ok) auto
  then show ?thesis using assms Destroy d
    by (auto simp: on_destroy_def Let_def simp del: fun_upd_apply split: result.splits option.splits if_splits)
next
  case (Blacklist i b)
  then show ?thesis using assms
    by (auto simp: on_blacklist_def split: option.splits intro!: view_ok_upd [OF u] other_fields_ok dest: view_okD)
qed

lemma insert_owned_view_ok: "view_ok ops {} out \<Longrightarrow> view_ok ops {} (insert_owned ops ds out)"
proof (induction ops ds out rule: insert_owned.induct)
  case (2 ops d i ds out)
  then show ?case using view_ok_upd_new [of ops "{}" out i d] by simp
qed simp

lemma load_chunks_view_ok: "load_chunks ops get cs out = Ok u \<Longrightarrow> view_ok ops {} out \<Longrightarrow> view_ok ops {} u"
  by (induction ops get cs out rule: load_chunks.induct) (auto split: option.splits dest: insert_owned_view_ok)

lemma get_all_domains_view_ok: "get_all_domains ops next_id get = Ok u \<Longrightarrow> view_ok ops {} u"
  by (auto simp: get_all_domains_def view_ok_def [of _ _ Map.empty] split: option.splits intro: load_chunks_view_ok)

lemma prereg_domains [simp]:
  "pn_domains (snd (add_prereg order now l h m)) = pn_domains m"
  "pn_domains (snd (Pns.rm_prereg order now l m)) = pn_domains m"
  by (auto simp: add_prereg_def Pns.rm_prereg_def expire_old_preregs_def split: result.splits)

lemma with_domains_Done: "with_domains f ds = Done x \<longleftrightarrow> (\<exists>u. ds = Domains u \<and> f u = x)"
  by (auto simp: with_domains_def split: domains.splits)

lemma cache_step_view_ok:
  assumes "cache_step ops order s a s'"
    and "\<And>u. pn_domains (cr_pns s) = Domains u \<Longrightarrow> view_ok ops S u"
    and "pn_domains (cr_pns s') = Domains u'"
  shows "view_ok ops (stale_after a S) u'"
  using assms
proof (induction rule: cache_step.induct)
  case (event e s u)
  then show ?case using on_event_view_ok [of ops S _ e "Ok ()" u] by (auto simp: with_domains_Done)
next
  case (event_failed e s err u)
  then show ?case using on_event_view_ok [of ops S _ e "Err err" u] by (auto simp: with_domains_Done)
next
  case (event_panicked e s u)
  then show ?case using on_event_view_ok [of ops S _ e Panic u] by (auto simp: with_domains_Done)
qed (auto simp: begin_update_def end_update_def dest: get_all_domains_view_ok)

lemma cache_reachable_view_ok:
  "cache_reachable ops order tr s \<Longrightarrow> pn_domains (cr_pns s) = Domains u \<Longrightarrow> view_ok ops (stale tr) u"
proof (induction arbitrary: u rule: cache_reachable.induct)
  case init
  then show ?case by (simp add: pns_new_def)
next
  case (step tr s a s')
  then show ?case using cache_step_view_ok [of ops order s a s' "stale tr" u] by simp
qed

section \<open>What a load brings\<close>

lemma insert_owned_spec:
  "insert_owned ops (zip (map chain v) v) out i =
     (if i \<in> set v \<and> 0 < ip_owner (chain i) then Some (domain_new ops i (chain i)) else out i)"
  by (induction v arbitrary: out) auto

lemma load_chunks_spec:
  assumes "\<And>v. get_domains v = Some (map chain v)"
  shows "load_chunks ops get_domains cs out =
     Ok (\<lambda>i. if i \<in> set (concat cs) \<and> 0 < ip_owner (chain i) then Some (domain_new ops i (chain i)) else out i)"
proof (induction cs arbitrary: out)
  case Nil
  show ?case by simp
next
  case (Cons v cs)
  have "load_chunks ops get_domains (v # cs) out
      = load_chunks ops get_domains cs (insert_owned ops (zip (map chain v) v) out)"
    using assms [of v] by simp
  then show ?case
    using Cons [of "insert_owned ops (zip (map chain v) v) out"] by (simp del: load_chunks.simps) (auto simp: insert_owned_spec)
qed

lemma ids_below: "set (map word_of_nat [0 ..< unat nid]) = {i :: u64. i < nid}"
proof
  show "set (map word_of_nat [0 ..< unat nid]) \<subseteq> {i. i < nid}"
    by (auto simp: word_less_nat_alt unat_of_nat intro: le_less_trans [OF mod_less_eq_dividend])
  show "{i. i < nid} \<subseteq> set (map word_of_nat [0 ..< unat nid])"
  proof
    fix i assume "i \<in> {i. i < nid}"
    then have "unat i \<in> {0 ..< unat nid}" by (simp add: word_less_nat_alt)
    moreover have "i = word_of_nat (unat i)" by simp
    ultimately show "i \<in> set (map word_of_nat [0 ..< unat nid])" by (metis image_eqI set_map set_upt)
  qed
qed

text \<open>If the contract answers each request with the domains asked for, a load makes the cache of exactly the
  ids below the next one whose domain has an owner, each decoded.\<close>

theorem load_is_complete:
  assumes "\<And>v. get_domains v = Some (map chain v)"
  shows "\<exists>u. get_all_domains ops (Some nid) get_domains = Ok u
     \<and> (\<forall>i. u i = (if i < nid \<and> 0 < ip_owner (chain i) then Some (domain_new ops i (chain i)) else None))"
  using load_chunks_spec [of get_domains chain ops "chunks UNITS_PER_REQ (map word_of_nat [0 ..< unat nid])" Map.empty] assms
  by (simp add: get_all_domains_def concat_chunks UNITS_PER_REQ_def ids_below del: set_map)

section \<open>Answers\<close>

text \<open>The order of a hash map lists every key once.\<close>

definition ids_ok :: "(u64 set \<Rightarrow> u64 list) \<Rightarrow> bool" where
  "ids_ok order \<longleftrightarrow> (\<forall>S. finite S \<longrightarrow> set (order S) = S \<and> distinct (order S))"

lemma ids_okD: "ids_ok order \<Longrightarrow> finite S \<Longrightarrow> set (order S) = S"
  by (simp add: ids_ok_def)

lemma domain_matches_iff: "domain_matches sub name \<longleftrightarrow> sub = name \<or> suffix (dot # name) sub"
proof -
  have "domain_matches sub name \<longleftrightarrow> (\<exists>s. sub = s @ name \<and> (s = [] \<or> suffix [dot] s))"
    by (auto simp: domain_matches_def strip_suffix_Some_iff strip_suffix_None_iff split: option.splits)
  also have "\<dots> \<longleftrightarrow> sub = name \<or> suffix (dot # name) sub"
    by (auto simp: suffix_def)
  finally show ?thesis .
qed

lemma answer_from_None:
  "answer_from ops sub tld t doms is = Ok None \<longleftrightarrow> (\<forall>i \<in> set is. \<forall>dm. doms i = Some dm \<longrightarrow> \<not> domain_matches sub (dm_name dm))"
  by (induction ops sub tld t doms "is" rule: answer_from.induct) (auto simp: map_ok_ok_iff split: option.splits)

lemma answer_from_Some:
  "answer_from ops sub tld t doms is = Ok (Some out) \<Longrightarrow>
   \<exists>i \<in> set is. \<exists>dm. doms i = Some dm \<and> domain_matches sub (dm_name dm)
     \<and> fix_pkt_names ops tld (domain_answers ops (dm_records dm) sub t) = Ok out"
  by (induction ops sub tld t doms "is" rule: answer_from.induct) (auto simp: map_ok_ok_iff split: option.splits if_splits)

lemma ns_records_of_suffix:
  "r \<in> set (ns_records ops records sub) \<Longrightarrow>
   \<exists>s recs. (s = sub \<or> suffix (dot # s) sub) \<and> records s = Some recs \<and> r \<in> set recs \<and> rr_type ops r = type_NS ops"
proof (induction ops records sub rule: ns_records.induct)
  case (1 ops records sub)
  show ?case
  proof (cases "\<exists>recs. records sub = Some recs \<and> r \<in> set recs \<and> rr_type ops r = type_NS ops")
    case True
    then show ?thesis by blast
  next
    case False
    then have "\<exists>rest. after_first dot sub = Some rest \<and> r \<in> set (ns_records ops records rest)"
      using "1.prems" unfolding ns_records.simps [of ops records sub]
      by (cases "after_first dot sub"; cases "records sub") auto
    then obtain rest where rest: "after_first dot sub = Some rest" "r \<in> set (ns_records ops records rest)" by blast
    from rest(1) have "suffix (dot # rest) sub" by (auto simp: after_first_Some_iff suffix_def)
    then have "s = rest \<or> suffix (dot # s) rest \<Longrightarrow> suffix (dot # s) sub" for s
      by (metis suffix_ConsI suffix_order.trans)
    then show ?thesis using "1.IH" [OF rest] by blast
  qed
qed

section \<open>Properties\<close>

text \<open>C34: In every run of the domain cache, whatever events, failures and reloads come in whatever order, a
  domain that is cached has its own id and the name decoded from the contract's data; and its records are
  those that the data decodes to, unless the last event that wrote them was a takeover.\<close>

theorem cache_is_decoded:
  assumes "cache_reachable ops order tr s" and "pn_domains (cr_pns s) = Domains u" and "u i = Some dm"
  shows "dm_id dm = i \<and> dm_name dm = utf8_lossy (ip_name (dm_d dm))
     \<and> (i \<notin> stale tr \<longrightarrow> dm_records dm = decoded_records ops (dm_name dm) (ip_records (dm_d dm)))"
proof -
  have ok: "domain_ok ops (i \<in> stale tr) i dm"
    using view_okD [OF cache_reachable_view_ok [OF assms(1,2)] assms(3)] .
  have r: "dm_records (domain_new ops j d) = decoded_records ops (utf8_lossy (ip_name d)) (ip_records d)" for j d
    by (simp add: domain_new_def update_records_def Let_def)
  have "dm_records dm = dm_records (decoded ops dm)" if "i \<notin> stale tr" using ok that by (simp add: domain_ok_def)
  then show ?thesis using ok by (simp add: domain_ok_def decoded_def r)
qed

text \<open>C35: A takeover changes the owner and the stored bytes but no answer: queries for any name and type, and
  the records listed for a domain, are what they were before, although the domain now has other records.\<close>

theorem takeover_changes_no_answer:
  assumes "on_takeover i new_lockup recs u = (Ok (), u')"
  shows "get_records ops order name t u' = get_records ops order name t u
     \<and> domain_records j u' = domain_records j u
     \<and> map_option (\<lambda>dm. ip_records (dm_d dm)) (u' i) = Some recs"
proof -
  from assms obtain dm where dm: "u i = Some dm"
    and u': "u' = u(i \<mapsto> dm\<lparr>dm_d := (dm_d dm)\<lparr>ip_owner := new_lockup, ip_records := recs\<rparr>\<rparr>)"
    by (auto simp: on_takeover_def split: option.splits)
  have "answer_from ops sub tld t u' is = answer_from ops sub tld t u is" for sub tld "is"
    by (induction "is") (auto simp: u' dm split: option.splits)
  moreover have "dom u' = dom u" using dm u' by auto
  ultimately have "get_records ops order name t u' = get_records ops order name t u"
    by (cases "parse_name name") (auto simp: get_records_def)
  then show ?thesis using dm u' by (simp add: domain_records_def)
qed


section \<open>Preregistrations\<close>

lemma old_preregs_spec:
  assumes "\<forall>i \<in> set is. \<forall>p. ps i = Some p \<longrightarrow> unat (pr_timestamp p) + unat PREREG_LIFETIME_SECONDS < 2 ^ 64"
  shows "\<exists>old. old_preregs now ps is = (Ok old :: (u64 list, 'e) result)
     \<and> set old = {i \<in> set is. \<exists>p. ps i = Some p \<and> pr_timestamp p + PREREG_LIFETIME_SECONDS < now}"
  using assms
proof (induction "is")
  case Nil
  then show ?case by simp
next
  case (Cons i "is")
  then obtain old where "old_preregs now ps is = (Ok old :: (u64 list, 'e) result)"
    "set old = {i \<in> set is. \<exists>p. ps i = Some p \<and> pr_timestamp p + PREREG_LIFETIME_SECONDS < now}" by auto
  then show ?case using Cons.prems by (cases "ps i") (auto simp: prereg_old_def add_chk_def)
qed

text \<open>A preregistration is recorded with the time of its event, and the ones that have outlived the contract's
  limit are gone; the others stay.\<close>

theorem add_prereg_spec:
  assumes "ids_ok order" and "finite (dom (pn_preregs m))"
    and "\<forall>i p. pn_preregs m i = Some p \<longrightarrow> unat (pr_timestamp p) + unat PREREG_LIFETIME_SECONDS < 2 ^ 64"
  shows "\<exists>m'. add_prereg order now lockup_id namehash m = (Ok (), m') \<and> pn_domains m' = pn_domains m
     \<and> (\<forall>i. pn_preregs m' i =
          (if i = lockup_id then Some \<lparr>pr_lockup_id = i, pr_namehash = namehash, pr_timestamp = now\<rparr>
           else case pn_preregs m i of
             None \<Rightarrow> None
           | Some p \<Rightarrow> if pr_timestamp p + PREREG_LIFETIME_SECONDS < now then None else Some p))"
proof -
  obtain old where old: "old_preregs now (pn_preregs m) (order (dom (pn_preregs m))) = (Ok old :: (u64 list, pns_error) result)"
    "set old = {i \<in> set (order (dom (pn_preregs m))). \<exists>p. pn_preregs m i = Some p \<and> pr_timestamp p + PREREG_LIFETIME_SECONDS < now}"
    using old_preregs_spec [of "order (dom (pn_preregs m))" "pn_preregs m" now] assms(3) by blast
  then show ?thesis
    using ids_okD [OF assms(1,2)]
    by (auto simp: add_prereg_def expire_old_preregs_def restrict_map_def split: option.splits)
qed

section \<open>What can go wrong\<close>

text \<open>The count of subdomains is one byte, and its last value marks a subdomain: the 255th subdomain makes a
  subdomain of its parent, which then has no owner, and the next event crashes the handler.\<close>

theorem subdomain_count_wraps:
  assumes "u p = Some pd" and "i \<noteq> p"
  shows "ip_subdomains (dm_d pd) = 0xfe \<longrightarrow>
      (\<exists>u' pd'. on_create_subdomain ops i p n recs u = (Ok (), u') \<and> u' p = Some pd' \<and> owner_lockup pd' = None)"
    and "ip_subdomains (dm_d pd) = 0xff \<longrightarrow> on_create_subdomain ops i p n recs u = (Panic, u)"
  using assms by (auto simp: on_create_subdomain_def add_chk_def owner_lockup_def is_subdomain_def)

text \<open>Without a top level domain only the first record gets its full name.\<close>

theorem only_first_name_fixed:
  "fix_pkt_names0 ops pkt None (r # rs) = Ok out \<Longrightarrow> \<exists>name. out = rr_set_name ops r name # rs"
  by (auto simp: ok_iff)

text \<open>Two callers that find the cache unusable both reload it, and the second result replaces the first
  together with the events that came between.\<close>

definition after_register :: "bytes cache_run" where
  "after_register =
     \<lparr>cr_pns = \<lparr>pn_domains = Domains (snd (on_register demo_dns 5 7 [97, 98] [] Map.empty)), pn_preregs = Map.empty\<rparr>,
      cr_seen = 0, cr_loading = 1, cr_failed = 0\<rparr>"

lemma load_nothing: "get_all_domains demo_dns (Some 0) (\<lambda>v. None) = Ok Map.empty"
  by (simp add: get_all_domains_def)

lemma after_register_reachable:
  "cache_reachable demo_dns order [Internal, Internal, Internal, Loaded, Event (Register 5 7 [97, 98] [])] after_register"
proof -
  let ?run = "\<lambda>ds n l. \<lparr>cr_pns = \<lparr>pn_domains = ds, pn_preregs = Map.empty\<rparr>, cr_seen = n, cr_loading = l, cr_failed = 0\<rparr>"
  have 0: "cache_reachable demo_dns order [] (?run Errored 1 0)"
    using cache_reachable.init [of demo_dns order] by (simp add: pns_new_def)
  have "cache_step demo_dns order (?run Errored 1 0) Internal (?run Errored 2 0)"
    using cache_step.seen [of "on_event demo_dns (Destroy 0)" "?run Errored 1 0"] by (simp add: with_domains_def numeral_2_eq_2)
  from cache_reachable.step [OF 0 this] have 1: "cache_reachable demo_dns order [Internal] (?run Errored 2 0)" by simp
  have "cache_step demo_dns order (?run Errored 2 0) Internal (?run Updating 1 1)"
    using cache_step.start [of "?run Errored 2 0" 1] by (simp add: begin_update_def)
  from cache_reachable.step [OF 1 this] have 2: "cache_reachable demo_dns order [Internal, Internal] (?run Updating 1 1)" by simp
  have "cache_step demo_dns order (?run Updating 1 1) Internal (?run Updating 0 2)"
    using cache_step.start [of "?run Updating 1 1" 0] by (simp add: begin_update_def numeral_2_eq_2)
  from cache_reachable.step [OF 2 this]
  have 3: "cache_reachable demo_dns order [Internal, Internal, Internal] (?run Updating 0 2)" by simp
  have "cache_step demo_dns order (?run Updating 0 2) Loaded (?run (Domains Map.empty) 0 1)"
    using cache_step.finish [OF _ load_nothing, of "?run Updating 0 2" 1] by (simp add: end_update_def)
  from cache_reachable.step [OF 3 this]
  have 4: "cache_reachable demo_dns order [Internal, Internal, Internal, Loaded] (?run (Domains Map.empty) 0 1)" by simp
  have "cache_step demo_dns order (?run (Domains Map.empty) 0 1) (Event (Register 5 7 [97, 98] [])) after_register"
    using cache_step.event [of demo_dns "Register 5 7 [97, 98] []" "?run (Domains Map.empty) 0 1"]
    by (simp add: with_domains_def on_register_def after_register_def)
  from cache_reachable.step [OF 4 this] show ?thesis by simp
qed

theorem reload_loses_registration:
  "\<exists>tr s. cache_reachable demo_dns order (tr @ [Event (Register 5 7 [97, 98] []), Loaded]) s
     \<and> pn_domains (cr_pns s) = Domains Map.empty"
proof -
  have "cache_step demo_dns order after_register Loaded
      (after_register\<lparr>cr_pns := end_update (Ok Map.empty) (cr_pns after_register), cr_loading := 0\<rparr>)"
    by (rule cache_step.finish [OF _ load_nothing]) (simp add: after_register_def)
  from cache_reachable.step [OF after_register_reachable this]
  have "cache_reachable demo_dns order ([Internal, Internal, Internal, Loaded] @ [Event (Register 5 7 [97, 98] []), Loaded])
      (after_register\<lparr>cr_pns := end_update (Ok Map.empty) (cr_pns after_register), cr_loading := 0\<rparr>)" by simp
  then show ?thesis by (intro exI conjI) (assumption, simp add: end_update_def)
qed

section \<open>Witnesses\<close>

definition demo_domains :: "bytes domain_map" where
  "demo_domains = [1 \<mapsto> domain_new demo_dns 1 \<lparr>ip_owner = 7, ip_name = [98], ip_records = [], ip_subdomains = 1, ip_blacklisted = False\<rparr>,
                   2 \<mapsto> domain_new demo_dns 2 \<lparr>ip_owner = 1, ip_name = [97, 46, 98], ip_records = [5, 2], ip_subdomains = 0xff,
                                                ip_blacklisted = False\<rparr>]"

lemma utf8_lossy_ascii: "\<forall>c \<in> set b. c \<le> 0x7F \<Longrightarrow> utf8_lossy b = b"
  by (rule utf8_lossy_valid) (induction b, simp_all)

lemma demo_names [simp]: "utf8_lossy [97, 98] = [97, 98]" "utf8_lossy [98] = [98]" "utf8_lossy [97, 46, 98] = [97, 46, 98]"
  by (simp_all add: utf8_lossy_ascii)

definition demo_ids :: "u64 set \<Rightarrow> u64 list" where
  "demo_ids S = (if finite S then sorted_list_of_set S else [])"

lemma demo_ids_ok: "ids_ok demo_ids"
  by (simp add: ids_ok_def demo_ids_def)

theorem cache_is_decoded_witness:
  "dm_name (domain_new demo_dns 5 \<lparr>ip_owner = 7, ip_name = [97, 98], ip_records = [], ip_subdomains = 0, ip_blacklisted = False\<rparr>)
     = utf8_lossy [97, 98]"
  using cache_is_decoded [OF after_register_reachable, of _ 5]
  by (simp add: after_register_def on_register_def)

theorem takeover_changes_no_answer_witness:
  "get_records demo_dns demo_ids (str_bytes ''b.pkt'') [65] (snd (on_takeover 1 9 [5, 2] demo_domains))
     = get_records demo_dns demo_ids (str_bytes ''b.pkt'') [65] demo_domains"
proof -
  have "on_takeover 1 9 [5, 2] demo_domains = (Ok (), snd (on_takeover 1 9 [5, 2] demo_domains))"
    by (simp add: on_takeover_def demo_domains_def)
  then show ?thesis by (rule takeover_changes_no_answer [THEN conjunct1])
qed


text \<open>The answer for a name with a domain of its own and a domain above it depends on which of the two the hash
  map lists first.\<close>

theorem answer_depends_on_order:
  "get_records demo_dns (\<lambda>_. [1, 2]) (str_bytes ''a.b.pkt'') [65] demo_domains \<noteq>
   get_records demo_dns (\<lambda>_. [2, 1]) (str_bytes ''a.b.pkt'') [65] demo_domains"
  by code_simp

end
