(* ===== verification/Nameserver.thy ===== *)
theory Nameserver
  imports Peering_Line Pns_Spec
begin

text \<open>
  The name server (\<^verbatim>\<open>cjdns-nameserver\<close>): the seed record with peers for new nodes (\<^verbatim>\<open>seeder.rs\<close>), the
  answers to DNS queries and the command line tools around them (\<^verbatim>\<open>main.rs\<close>). Names and records of the
  hickory crate are parameters as in theory Pns_Record, with the operations that only this program uses.
\<close>

section \<open>Peers for the seed record\<close>

record seeder_mut =
  sm_peers :: "list_peer list"
  sm_last_update :: nat

datatype seed_error = PeersTooOld | SeedRecord dns_error | HttpFailed | BadHttpStatus | BadJson | EmptyList

text \<open>\<open>choose\<close> on the list: the index drawn, if there is one to draw.\<close>

definition choose_peer :: "(nat \<Rightarrow> nat) \<Rightarrow> 'a list \<Rightarrow> 'a option" where
  "choose_peer draw xs = (if xs = [] then None else Some (xs ! draw (length xs)))"

fun decode_chosen :: "text_codecs \<Rightarrow> list_peer list \<Rightarrow> (nat \<Rightarrow> nat) list \<Rightarrow> cjdns_peer list" where
  "decode_chosen c peers [] = []"
| "decode_chosen c peers (draw # draws) =
     (case choose_peer draw peers of
        None \<Rightarrow> decode_chosen c peers draws
      | Some p \<Rightarrow>
          (case parse_list_peer c p of
             Ok peer \<Rightarrow> peer # decode_chosen c peers draws
           | _ \<Rightarrow> decode_chosen c peers draws))"

text \<open>\<open>draws i\<close> is draw \<open>i\<close> of the loop, which makes three. The clock may have been set back, which the subtraction does not survive.\<close>

definition get_seed_txt ::
  "text_codecs \<Rightarrow> bytes option \<Rightarrow> nat \<Rightarrow> (nat \<Rightarrow> nat \<Rightarrow> nat) \<Rightarrow> seeder_mut \<Rightarrow> (string, seed_error) result" where
  "get_seed_txt c snode_key now draws m =
     and_then (nat_sub_chk now (sm_last_update m)) (\<lambda>age.
     if age > 300 then Err PeersTooOld
     else map_err SeedRecord (txt_encode (base64_enc c)
       \<lparr>txt_peers = decode_chosen c (sm_peers m) (map draws [0, 1, 2]), snode_pubkey = snode_key, txt_peer_id = None, unknown_records = []\<rparr>))"

text \<open>The answer of the supernode: none, or a status and the entries if the body parses.\<close>

definition update_peers ::
  "(bool \<times> list_peer list option) option \<Rightarrow> nat \<Rightarrow> seeder_mut \<Rightarrow> (unit, seed_error) result \<times> seeder_mut" where
  "update_peers res now m =
     (case res of
        None \<Rightarrow> (Err HttpFailed, m)
      | Some (success, body) \<Rightarrow>
          if \<not> success then (Err BadHttpStatus, m)
          else case body of
            None \<Rightarrow> (Err BadJson, m)
          | Some peers \<Rightarrow>
              if peers = [] then (Err EmptyList, m)
              else (Ok (), \<lparr>sm_peers = peers, sm_last_update = now\<rparr>))"

section \<open>Queries\<close>

record ('n, 't, 'o, 'r) dns_server = "('n, 't, 'o, 'r) dns" +
  name_parse :: "bytes \<Rightarrow> 'n option"
  name_to_ascii :: "'n \<Rightarrow> bytes"
  name_num_labels :: "'n \<Rightarrow> nat"
  type_A :: 't
  type_AAAA :: 't
  type_TXT :: 't
  type_SOA :: 't
  rr_set_type :: "'r \<Rightarrow> 't \<Rightarrow> 'r"
  data_A :: "bytes \<Rightarrow> ('n, 'o) rdata"
  data_AAAA :: "bytes \<Rightarrow> ('n, 'o) rdata"
  data_TXT :: "string list \<Rightarrow> ('n, 'o) rdata"
  data_SOA :: "'n \<Rightarrow> 'n \<Rightarrow> u32 \<Rightarrow> u32 \<Rightarrow> u32 \<Rightarrow> u32 \<Rightarrow> u32 \<Rightarrow> ('n, 'o) rdata"

record nameserver_config =
  nc_public_ipv4 :: bytes
  nc_public_ipv6 :: "bytes option"
  nc_my_name :: bytes
  nc_nameservers :: "(bytes \<times> bytes) list"
  nc_special_ns_prefix :: "bytes \<rightharpoonup> bytes"
  nc_seeder :: "(string option) option"

record ('n, 'r) req_handler =
  rh_my_ipv4 :: 'r
  rh_my_ipv6 :: "'r option"
  rh_nameservers :: "('n \<times> bytes) list"
  rh_prefix :: "bytes \<rightharpoonup> bytes"
  rh_seeder :: "bytes option option"

datatype new_error = BadMyName | BadNameserverName | BadNameserverIp | BadSnodeKey key_creation_error

fun parse_nameservers ::
  "('n, 't, 'o, 'r) dns_server \<Rightarrow> (bytes \<Rightarrow> bytes option) \<Rightarrow> (bytes \<times> bytes) list \<Rightarrow> (('n \<times> bytes) list, new_error) result" where
  "parse_nameservers ops ip4_parse [] = Ok []"
| "parse_nameservers ops ip4_parse ((ns, ns_ipv4) # rest) =
     and_then (ok_or (name_parse ops ns) BadNameserverName) (\<lambda>n.
     and_then (ok_or (ip4_parse ns_ipv4) BadNameserverIp) (\<lambda>ip.
     map_ok (Cons (n, ip)) (parse_nameservers ops ip4_parse rest)))"

text \<open>The key of the supernode that the seeder announces.\<close>

definition seeder_key :: "text_codecs \<Rightarrow> string option \<Rightarrow> (bytes option, new_error) result" where
  "seeder_key c key =
     (case key of
        None \<Rightarrow> Ok None
      | Some k \<Rightarrow> map_ok Some (map_err BadSnodeKey (public_key_try_from_str (base32_dec c) k)))"

definition req_handler_new ::
  "text_codecs \<Rightarrow> ('n, 't, 'o, 'r) dns_server \<Rightarrow> (bytes \<Rightarrow> bytes option) \<Rightarrow> nameserver_config \<Rightarrow> (('n, 'r) req_handler, new_error) result" where
  "req_handler_new c ops ip4_parse config =
     and_then (case nc_seeder config of None \<Rightarrow> Ok None | Some cfg \<Rightarrow> map_ok Some (seeder_key c cfg)) (\<lambda>seeder.
     and_then (ok_or (name_parse ops (nc_my_name config)) BadMyName) (\<lambda>name.
     and_then (parse_nameservers ops ip4_parse (nc_nameservers config)) (\<lambda>nameservers.
     let my_ipv4 = rr_from_rdata ops name 500 (data_A ops (nc_public_ipv4 config));
         my_ipv6 = map_option (\<lambda>ip. rr_set_type ops (rr_from_rdata ops name 500 (data_AAAA ops ip)) (type_AAAA ops))
                     (nc_public_ipv6 config)
     in Ok \<lparr>rh_my_ipv4 = my_ipv4, rh_my_ipv6 = my_ipv6, rh_nameservers = nameservers,
            rh_prefix = nc_special_ns_prefix config, rh_seeder = seeder\<rparr>)))"

datatype response_code = NoError | ServFail | NXDomain

datatype 'r dns_response =
    Code response_code
  | Records (rs_answers: "'r list") (rs_name_servers: "'r list") (rs_soa: "'r list") (rs_glue: "'r list")

record ('n, 't) query =
  q_name :: 'n
  q_type :: 't

definition own_address_reply :: "('n, 't, 'o, 'r) dns_server \<Rightarrow> ('n, 'r) req_handler \<Rightarrow> ('n, 't) query \<Rightarrow> 'r dns_response" where
  "own_address_reply ops h q =
     (let recs = (if q_type q = type_A ops then [rh_my_ipv4 h] else (case rh_my_ipv6 h of Some r \<Rightarrow> [r] | None \<Rightarrow> []))
      in Records (map (\<lambda>r. rr_set_name ops r (q_name q)) recs) [] [] [])"

definition seed_strings :: "string \<Rightarrow> string list" where
  "seed_strings seed = (if length seed \<le> 255 then [seed] else [take 255 seed, drop 255 seed])"

definition seed_reply :: "('n, 't, 'o, 'r) dns_server \<Rightarrow> ('n, 't) query \<Rightarrow> (string, 'e) result \<Rightarrow> ('r dns_response, 'f) result" where
  "seed_reply ops q seed =
     (case seed of
        Ok seed \<Rightarrow> Ok (Records [rr_from_rdata ops (q_name q) 300 (data_TXT ops (seed_strings seed))] [] [] [])
      | Err _ \<Rightarrow> Ok (Code ServFail)
      | Panic \<Rightarrow> Panic)"

definition soa_reply :: "('n, 't, 'o, 'r) dns_server \<Rightarrow> ('n, 't) query \<Rightarrow> ('r dns_response, 'e) result" where
  "soa_reply ops q =
     and_then (unwrap_opt (name_parse ops (str_bytes ''domains.blockchain.project.pkt.''))) (\<lambda>contact.
     Ok (Records [] []
       [rr_from_rdata ops (q_name q) 600 (data_SOA ops (q_name q) contact 2024120300 3600 7200 604800 300)] []))"

definition prefixed :: "('n, 't, 'o, 'r) dns_server \<Rightarrow> bytes option \<Rightarrow> 'n \<Rightarrow> 'n" where
  "prefixed ops pfx n =
     (case pfx of
        None \<Rightarrow> n
      | Some p \<Rightarrow>
          (case name_from_str ops p of
             None \<Rightarrow> n
           | Some local \<Rightarrow> (case append_name ops local n of None \<Rightarrow> n | Some pn \<Rightarrow> pn)))"

definition ns_reply :: "('n, 't, 'o, 'r) dns_server \<Rightarrow> ('n, 'r) req_handler \<Rightarrow> ('n, 't) query \<Rightarrow> bytes \<Rightarrow> 'r dns_response" where
  "ns_reply ops h q name =
     (let names = map (\<lambda>(n, ip). (prefixed ops (rh_prefix h name) n, ip)) (rh_nameservers h)
      in Records (map (\<lambda>(n, ip). rr_from_rdata ops (q_name q) 600 (NS n)) names) [] []
           (map (\<lambda>(n, ip). rr_from_rdata ops n 600 (data_A ops ip)) names))"

definition pns_reply :: "('r answers option, pns_error) result \<Rightarrow> ('r dns_response, 'e) result" where
  "pns_reply res =
     (case res of
        Err _ \<Rightarrow> Ok (Code ServFail)
      | Panic \<Rightarrow> Panic
      | Ok None \<Rightarrow> Ok (Code NXDomain)
      | Ok (Some recs) \<Rightarrow>
          Ok (Records (an_records recs) (if an_records recs = [] then an_nameservers recs else []) [] []))"

text \<open>\<open>seed\<close> is what \<open>get_seed_txt\<close> gives now, \<open>pns\<close> what \<open>get_records\<close> of the domain cache gives.\<close>

definition handle_request ::
  "('n, 't, 'o, 'r) dns_server \<Rightarrow> ('n, 'r) req_handler \<Rightarrow> (string, 'e) result \<Rightarrow> (bytes \<Rightarrow> 't \<Rightarrow> ('r answers option, pns_error) result)
     \<Rightarrow> ('n, 't) query \<Rightarrow> ('r dns_response, 'f) result" where
  "handle_request ops h seed pns q =
     (let name = name_to_string ops (q_name q);
          own = suffix (name_to_ascii ops (rr_name ops (rh_my_ipv4 h))) name
      in if own \<and> (q_type q = type_A ops \<or> q_type q = type_AAAA ops) then Ok (own_address_reply ops h q)
         else if own \<and> prefix (str_bytes ''seed.'') name \<and> q_type q = type_TXT ops \<and> rh_seeder h \<noteq> None then seed_reply ops q seed
         else if own then Ok (Code NoError)
         else if name_num_labels ops (q_name q) = 2 \<and> prefix (str_bytes ''pkt.'') name then
           if q_type q = type_SOA ops then soa_reply ops q
           else if q_type q = type_NS ops then Ok (ns_reply ops h q name)
           else Ok (Code NoError)
         else pns_reply (pns name (q_type q)))"

section \<open>Tools\<close>

datatype tool_error = HexError | TooShort | BadPeer dns_error | NotFourParts | RecordError record_error | TxtError dns_error | BadSnode key_creation_error

text \<open>\<open>txtrec\<close>: the seed record of a supernode and peers that \<open>generate\<close> printed in hex.\<close>

fun decode_peers :: "(string \<Rightarrow> bytes option) \<Rightarrow> string list \<Rightarrow> (cjdns_peer list, tool_error) result" where
  "decode_peers hex_dec [] = Ok []"
| "decode_peers hex_dec (ps # rest) =
     and_then (ok_or (hex_dec ps) HexError) (\<lambda>tlv.
     and_then (check (2 \<le> length tlv) TooShort) (\<lambda>_.
     and_then (map_err BadPeer (fst (peer_decode (tlv ! 0) slice_read (drop 2 tlv)))) (\<lambda>p.
     map_ok (Cons p) (decode_peers hex_dec rest))))"

definition txtrec :: "text_codecs \<Rightarrow> (string \<Rightarrow> bytes option) \<Rightarrow> string \<Rightarrow> string list \<Rightarrow> (string, tool_error) result" where
  "txtrec c hex_dec snode peers =
     and_then (map_err BadSnode (public_key_try_from_str (base32_dec c) snode)) (\<lambda>key.
     and_then (decode_peers hex_dec peers) (\<lambda>decoded.
     map_err TxtError (txt_encode (base64_enc c)
       \<lparr>txt_peers = decoded, snode_pubkey = Some key, txt_peer_id = None, unknown_records = []\<rparr>)))"

text \<open>\<open>record\<close>: records given as type:name:ttl:value. A time to live that is not a number stops the program.\<close>

definition record_arg :: "(bytes \<Rightarrow> u32 option) \<Rightarrow> bytes \<Rightarrow> (json_record, tool_error) result" where
  "record_arg u32_parse rec =
     (let parts = split_on 58 rec in
      if length parts \<noteq> 4 then Err NotFourParts
      else and_then (unwrap_opt (u32_parse (parts ! 2))) (\<lambda>ttl.
        Ok \<lparr>jr_rtype = parts ! 0, jr_name = parts ! 1, jr_value = parts ! 3, jr_ttl_sec = ttl\<rparr>))"

fun record_args ::
  "('n, 't, 'o, 'r) dns_server \<Rightarrow> (bytes \<Rightarrow> u32 option) \<Rightarrow> bytes list \<Rightarrow> ('r list, tool_error) result" where
  "record_args ops u32_parse [] = Ok []"
| "record_args ops u32_parse (rec # recs) =
     and_then (record_arg u32_parse rec) (\<lambda>r.
     and_then (map_err RecordError (record_try_from (dns.truncate ops) r)) (\<lambda>r.
     map_ok (Cons r) (record_args ops u32_parse recs)))"

definition record_tool :: "('n, 't, 'o, 'r) dns_server \<Rightarrow> (bytes \<Rightarrow> u32 option) \<Rightarrow> bytes list \<Rightarrow> (bytes, tool_error) result" where
  "record_tool ops u32_parse recs =
     and_then (record_args ops u32_parse recs) (\<lambda>rv. map_err RecordError (encode_records (dns.truncate ops) rv))"

section \<open>Lemmas\<close>

lemma vec_to_array_length: "vec_to_array n b = Ok k \<Longrightarrow> length k = n"
  by (auto simp: vec_to_array_def split: if_splits)

lemma parse_list_peer_ok:
  assumes "parse_list_peer c e = Ok p" and "\<And>t a. sock_parse c t = Some a \<Longrightarrow> addr_ok a"
  shows "Dnsseed.peer_ok p"
  using assms by (auto simp: parse_list_peer_def Dnsseed.peer_ok_def public_key_try_from_str_def ok_iff
      dest: vec_to_array_length split: if_splits)

lemma decode_chosen_subset:
  assumes "\<And>d n. d \<in> set draws \<Longrightarrow> 0 < n \<Longrightarrow> d n < n"
  shows "p \<in> set (decode_chosen c peers draws) \<Longrightarrow> \<exists>e \<in> set peers. parse_list_peer c e = Ok p"
  using assms
proof (induction draws)
  case Nil
  then show ?case by simp
next
  case (Cons d draws)
  have "peers \<noteq> [] \<Longrightarrow> peers ! d (length peers) \<in> set peers" using Cons.prems(2) [of d "length peers"] by simp
  then show ?case using Cons by (cases "peers = []") (auto simp: choose_peer_def split: result.splits)
qed

lemma decode_chosen_supernode:
  assumes "\<And>d n. d \<in> set draws \<Longrightarrow> 0 < n \<Longrightarrow> d n < n" and "sps \<noteq> []"
    and "\<And>sp. sp \<in> set sps \<Longrightarrow> codecs_ok c (sp_creds sp) \<and> Dnsseed.peer_ok (sp_creds sp)"
  shows "length (decode_chosen c (map (list_peer_from c) sps) draws) = length draws
    \<and> set (decode_chosen c (map (list_peer_from c) sps) draws) \<subseteq> sp_creds ` set sps"
  using assms(1)
proof (induction draws)
  case Nil
  then show ?case by simp
next
  case (Cons d draws)
  let ?sp = "sps ! d (length sps)"
  have d: "d (length sps) < length sps" using Cons.prems [of d "length sps"] assms(2) by simp
  then have "parse_list_peer c (list_peer_from c ?sp) = Ok (sp_creds ?sp)"
    using assms(3) [of ?sp] by (intro parse_list_peer_from) (auto simp: Dnsseed.peer_ok_def)
  then show ?case using Cons d assms(2) by (auto simp: choose_peer_def)
qed

lemma get_records_None:
  assumes "ids_ok order" and "finite (dom doms)"
  shows "get_records ops order name t doms = Ok None \<longleftrightarrow>
    (\<forall>sub tld i dm. parse_name name = Ok (sub, tld) \<and> doms i = Some dm
       \<longrightarrow> \<not> (sub = dm_name dm \<or> suffix (dot # dm_name dm) sub))"
proof (cases "parse_name name")
  case (Ok p)
  have "(\<forall>i \<in> dom doms. \<forall>dm. doms i = Some dm \<longrightarrow> P dm) \<longleftrightarrow> (\<forall>i dm. doms i = Some dm \<longrightarrow> P dm)" for P by blast
  then show ?thesis
    using Ok ids_okD [OF assms] by (cases p) (simp add: get_records_def answer_from_None domain_matches_iff)
qed (simp_all add: get_records_def)

section \<open>Properties\<close>

text \<open>C39: From the supernode to the seed record: if the name server has the supernode's listing and it is at most
  five minutes old, the text it serves decodes to a record with the supernode's key and three sets of
  credentials, one for each draw, each of them credentials that some peer posted, unchanged. An older listing is
  an error, and a clock that was set back stops the request.\<close>

theorem seed_text_from_supernode:
  assumes "sm_peers m = map (list_peer_from c) sps" and "sps \<noteq> []"
    and "\<And>sp. sp \<in> set sps \<Longrightarrow> codecs_ok c (sp_creds sp) \<and> Dnsseed.peer_ok (sp_creds sp)"
    and "\<And>bs. base64_dec c (base64_enc c bs) = Some bs" and "length key = 32"
    and "\<And>i n. i < 3 \<Longrightarrow> 0 < n \<Longrightarrow> draws i n < n"
  shows "if now < sm_last_update m then get_seed_txt c (Some key) now draws m = Panic
     else if now > sm_last_update m + 300 then get_seed_txt c (Some key) now draws m = Err PeersTooOld
     else \<exists>text rec. get_seed_txt c (Some key) now draws m = Ok text \<and> txt_decode (base64_dec c) text = Ok rec
       \<and> snode_pubkey rec = Some key \<and> length (txt_peers rec) = 3 \<and> set (txt_peers rec) \<subseteq> sp_creds ` set sps"
proof -
  let ?draws = "map draws [0, 1, 2]"
  let ?rec = "\<lparr>txt_peers = decode_chosen c (sm_peers m) ?draws, snode_pubkey = Some key, txt_peer_id = None, unknown_records = []\<rparr>"
  have "d n < n" if "d \<in> set ?draws" "0 < n" for d n using that assms(6) by auto
  then have d: "length (decode_chosen c (sm_peers m) ?draws) = length ?draws
      \<and> set (decode_chosen c (sm_peers m) ?draws) \<subseteq> sp_creds ` set sps"
    using decode_chosen_supernode [of ?draws sps c] assms(2,3) unfolding assms(1) by blast
  then have "txt_ok ?rec" using assms(3,5) by (auto simp: txt_ok_def)
  then obtain out where "txt_encode (base64_enc c) ?rec = Ok out" "txt_decode (base64_dec c) out = Ok ?rec"
    using txt_record_roundtrip [of ?rec "base64_dec c" "base64_enc c"] assms(4) by auto
  then show ?thesis using d by (auto simp: get_seed_txt_def nat_sub_chk_def)
qed

text \<open>A query for a name that is neither the server's own nor the top of the zone gets its answer from the
  domains: no such domain is reported exactly if no domain is the name or ends it at a label, and name
  servers are given only where there is no direct answer.\<close>

theorem domain_query_reply:
  assumes "ids_ok order" and "finite (dom doms)"
    and "name = name_to_string ops (q_name q)"
    and "\<not> suffix (name_to_ascii ops (rr_name ops (rh_my_ipv4 h))) name"
    and "\<not> (name_num_labels ops (q_name q) = 2 \<and> prefix (str_bytes ''pkt.'') name)"
    and reply: "reply = handle_request ops h seed (\<lambda>name t. get_records (dns.truncate ops) order name t doms) q"
  shows "(reply = Ok (Code NXDomain) \<longleftrightarrow>
      (\<forall>sub tld i dm. parse_name name = Ok (sub, tld) \<and> doms i = Some dm
         \<longrightarrow> \<not> (sub = dm_name dm \<or> suffix (dot # dm_name dm) sub)))
   \<and> (reply = Ok (Records answers ns soa glue) \<longrightarrow> soa = [] \<and> glue = [] \<and> (ns = [] \<or> answers = []))"
proof -
  have r: "reply = pns_reply (get_records (dns.truncate ops) order name (q_type q) doms)"
    using assms(3-5) by (auto simp: reply handle_request_def Let_def)
  have "reply = Ok (Code NXDomain) \<longleftrightarrow> get_records (dns.truncate ops) order name (q_type q) doms = Ok None"
    unfolding r by (auto simp: pns_reply_def split: result.splits option.splits)
  then show ?thesis
    using get_records_None [OF assms(1,2), where ops = "dns.truncate ops" and name = name and t = "q_type q"] unfolding r
    by (auto simp: pns_reply_def split: result.splits option.splits if_splits)
qed

text \<open>The tool for records takes its argument apart at every colon, so an IPv6 address is refused.\<close>

theorem record_tool_refuses_ipv6:
  "record_arg u32_parse (str_bytes ''AAAA:example.com:300:2001:db8::1'') = Err NotFourParts"
proof -
  have "length (split_on 58 (str_bytes ''AAAA:example.com:300:2001:db8::1'')) \<noteq> 4" by code_simp
  then show ?thesis by (simp add: record_arg_def)
qed

section \<open>Witnesses\<close>

definition demo_posted :: cjdns_peer where
  "demo_posted = \<lparr>peer_address = V4 [10, 0, 0, 1] 11234, peer_pubkey = replicate 32 7, peer_login = 3,
     peer_password = replicate 8 9, peer_version = 21\<rparr>"

definition demo_text_codecs :: text_codecs where
  "demo_text_codecs = \<lparr>sock_show = (\<lambda>_. ''10.0.0.1:11234''), sock_parse = (\<lambda>_. Some (V4 [10, 0, 0, 1] 11234)),
     base64_enc = map (\<lambda>b. char_of (unat b)), base64_dec = (\<lambda>s. Some (map (\<lambda>c. word_of_nat (of_char c)) s)),
     base32_enc = demo_encode, base32_dec = demo_decode, hex_enc = (\<lambda>_. [])\<rparr>"

definition demo_listed :: seeder_peer where
  "demo_listed = \<lparr>sp_ip = [], sp_peer_id = [80], sp_creds = demo_posted, sp_ring = 0, sp_check_error = None,
     sp_private = False, sp_last_check = 1, sp_last_report = 1\<rparr>"

lemma demo_base64: "base64_dec demo_text_codecs (base64_enc demo_text_codecs bs) = Some bs"
proof -
  have "unat b mod 256 = unat b" for b :: u8
    using unsigned_less [of b, where ?'a = nat] by simp
  then show ?thesis by (simp add: demo_text_codecs_def o_def map_idI)
qed

lemma demo_codecs: "codecs_ok demo_text_codecs demo_posted"
  using demo_base64 demo_base32 by (simp add: codecs_ok_def demo_posted_def) (simp add: demo_text_codecs_def)

theorem seed_text_from_supernode_witness:
  "\<exists>seed rec. get_seed_txt demo_text_codecs (Some (replicate 32 1)) 1100 (\<lambda>i n. min i (n - 1))
       \<lparr>sm_peers = [list_peer_from demo_text_codecs demo_listed], sm_last_update = 1000\<rparr> = Ok seed
     \<and> txt_decode (base64_dec demo_text_codecs) seed = Ok rec \<and> length (txt_peers rec) = 3 \<and> set (txt_peers rec) \<subseteq> {demo_posted}"
proof -
  have "codecs_ok demo_text_codecs (sp_creds sp) \<and> Dnsseed.peer_ok (sp_creds sp)" if "sp \<in> set [demo_listed]" for sp
    using that demo_codecs by (simp add: demo_listed_def Dnsseed.peer_ok_def) (simp add: demo_posted_def addr_ok_def)
  moreover have "min i (n - 1) < n" if "0 < n" for i n :: nat using that by auto
  ultimately show ?thesis
    using seed_text_from_supernode [of "\<lparr>sm_peers = [list_peer_from demo_text_codecs demo_listed], sm_last_update = 1000\<rparr>"
        demo_text_codecs "[demo_listed]" "replicate 32 1" "\<lambda>i n. min i (n - 1)" 1100] demo_base64
    by (auto simp: demo_listed_def)
qed

definition demo_name_server :: "(bytes, bytes, bytes, bytes) dns_server" where
  "demo_name_server = dns.extend demo_dns
     (dns_server.fields Some (\<lambda>n. n) (\<lambda>n. length (split_on dot n)) [65] [66] [84] [83] (\<lambda>r t. r) OtherData OtherData
       (\<lambda>_. OtherData []) (\<lambda>n m _ _ _ _ _. OtherData []))"

theorem domain_query_reply_witness:
  "handle_request demo_name_server \<lparr>rh_my_ipv4 = str_bytes ''ns.org'', rh_my_ipv6 = None, rh_nameservers = [], rh_prefix = Map.empty,
       rh_seeder = None\<rparr> (Panic :: (string, unit) result)
     (\<lambda>name t. get_records (dns.truncate demo_name_server) demo_ids name t demo_domains) \<lparr>q_name = [98], q_type = [65]\<rparr>
   = (Ok (Code NXDomain) :: (bytes dns_response, unit) result)"
proof -
  have n: "parse_name [98] = (Err OneLabel :: (bytes \<times> bytes option, pns_error) result)" by code_simp
  have own: "\<not> suffix (str_bytes ''ns.org'') [98]" by code_simp
  have ops: "name_to_string demo_name_server [98] = [98]" "name_to_ascii demo_name_server n = n" "rr_name demo_name_server r = r"
      "name_num_labels demo_name_server [98] = 1" for n r
    by (simp_all add: demo_name_server_def demo_dns_def dns.defs dns_server.defs)
  have none: "\<forall>sub tld i dm. parse_name [98] = Ok (sub, tld) \<and> demo_domains i = Some dm
      \<longrightarrow> \<not> (sub = dm_name dm \<or> suffix (dot # dm_name dm) sub)"
    by (simp add: n)
  have fin: "finite (dom demo_domains)" by (simp add: demo_domains_def)
  let ?q = "\<lparr>q_name = [98], q_type = [65]\<rparr>"
  let ?h = "\<lparr>rh_my_ipv4 = str_bytes ''ns.org'', rh_my_ipv6 = None, rh_nameservers = [], rh_prefix = Map.empty,
    rh_seeder = None\<rparr> :: (bytes, bytes) req_handler"
  have h: "[98] = name_to_string demo_name_server (q_name ?q)" "\<not> suffix (name_to_ascii demo_name_server (rr_name demo_name_server (rh_my_ipv4 ?h))) [98]"
      "\<not> (name_num_labels demo_name_server (q_name ?q) = 2 \<and> prefix (str_bytes ''pkt.'') [98])"
    using own by (simp_all add: ops)
  show ?thesis using domain_query_reply [OF demo_ids_ok fin h refl] none by blast
qed

end
