(* ===== verification/Ip6_Text.thy ===== *)
theory Ip6_Text
  imports Keys
begin

text \<open>
  The text of an IPv6 address (\<^verbatim>\<open>cjdns-keys/src/ip6.rs\<close>) can be read back: \<open>ip6_insert_colons\<close> puts a colon
  behind each group of four digits, and reading takes the colons out again.
\<close>

fun colonize :: "nat \<Rightarrow> string \<Rightarrow> string" where
  "colonize 0 r = r"
| "colonize (Suc n) r = take 4 r @ CHR '':'' # colonize n (drop 4 r)"

lemma ip6_insert_colons_eq:
  "n \<le> 7 \<Longrightarrow> length p = 5 * (7 - n) \<Longrightarrow> 4 * n \<le> length r \<Longrightarrow> ip6_insert_colons n (p @ r) = p @ colonize n r"
proof (induction n arbitrary: p r)
  case 0
  show ?case by simp
next
  case (Suc n)
  have pos: "4 * (7 - n) + (7 - n) - 1 = length p + 4" using Suc.prems by linarith
  have "ip6_insert_colons (Suc n) (p @ r) = ip6_insert_colons n ((p @ take 4 r @ [CHR '':'']) @ drop 4 r)"
    by (simp only: ip6_insert_colons.simps Let_def pos) simp
  also have "\<dots> = (p @ take 4 r @ [CHR '':'']) @ colonize n (drop 4 r)"
    using Suc.prems by (intro Suc.IH) auto
  finally show ?case by simp
qed

lemma lower_not_colon: "is_lower_xdigit c \<Longrightarrow> c \<noteq> CHR '':''"
  by (auto simp: is_lower_xdigit_def is_dec_digit_def)

lemma filter_colonize:
  "list_all is_lower_xdigit r \<Longrightarrow> List.filter (\<lambda>c. c \<noteq> CHR '':'') (colonize n r) = r"
proof (induction n r rule: colonize.induct)
  case (1 r)
  then show ?case by (auto simp: list_all_iff filter_id_conv dest: lower_not_colon)
next
  case (2 n r)
  have "list_all is_lower_xdigit (take 4 r)" "list_all is_lower_xdigit (drop 4 r)"
    using 2(2) by (auto simp: list_all_iff dest: in_set_takeD in_set_dropD)
  moreover from this(1) have "List.filter (\<lambda>c. c \<noteq> CHR '':'') (take 4 r) = take 4 r"
    by (auto simp: list_all_iff filter_id_conv dest: lower_not_colon)
  ultimately show ?case using 2(1) by simp
qed

lemma length_colonize: "4 * n \<le> length r \<Longrightarrow> length (colonize n r) = length r + n"
  by (induction n r rule: colonize.induct) auto

lemma nth_colonize:
  "list_all is_lower_xdigit r \<Longrightarrow> length r = 4 * Suc n \<Longrightarrow> i < length r + n \<Longrightarrow>
   (if i mod 5 = 4 then colonize n r ! i = CHR '':'' else is_lower_xdigit (colonize n r ! i))"
proof (induction n r arbitrary: i rule: colonize.induct)
  case (1 r)
  then show ?case by (auto simp: list_all_length)
next
  case (2 n r)
  consider "i < 4" | "i = 4" | j where "i = 5 + j" by (metis le_iff_add less_Suc_eq not_less eval_nat_numeral(3))
  then show ?case
  proof cases
    case 1
    then have "is_lower_xdigit (r ! i)" using 2(2,3) by (simp add: list_all_length)
    then show ?thesis using 1 2(3) by (simp add: nth_append)
  next
    case 2
    then show ?thesis using "2.prems" by (simp add: nth_append)
  next
    case (3 j)
    have "list_all is_lower_xdigit (drop 4 r)" using 2(2) by (auto simp: list_all_iff dest: in_set_dropD)
    then have "if j mod 5 = 4 then colonize n (drop 4 r) ! j = CHR '':'' else is_lower_xdigit (colonize n (drop 4 r) ! j)"
      using 2(3,4) 3 by (intro "2.IH") auto
    moreover have "colonize (Suc n) r ! i = colonize n (drop 4 r) ! j" using 3 2(3) by (simp add: nth_append)
    ultimately show ?thesis using 3 by (simp add: mod_add_left_eq)
  qed
qed

lemma take_colonize: "m \<le> 4 \<Longrightarrow> 4 \<le> length r \<Longrightarrow> take m (colonize (Suc n) r) = take m r"
  by simp

text \<open>What is used of the hexadecimal code: it can be undone, and the code of an address is 32 small digits
  that begin with the first byte.\<close>

definition hex_ok :: "(bytes \<Rightarrow> string) \<Rightarrow> (string \<Rightarrow> bytes option) \<Rightarrow> bool" where
  "hex_ok enc dec \<longleftrightarrow> (\<forall>b. length b = 16 \<and> b ! 0 = IP6_FIRST_BYTE \<longrightarrow>
     length (enc b) = 32 \<and> list_all is_lower_xdigit (enc b) \<and> take 2 (enc b) = ''fc'' \<and> dec (enc b) = Some b)"

lemma ip6_text:
  assumes "hex_ok enc dec" and "length k = 16" and "k ! 0 = IP6_FIRST_BYTE"
  shows "ip6_try_from_str dec (ip6_to_string enc k) = Ok k"
proof -
  from assms have e: "length (enc k) = 32" "list_all is_lower_xdigit (enc k)" "take 2 (enc k) = ''fc''" "dec (enc k) = Some k"
    by (auto simp: hex_ok_def)
  have t: "ip6_to_string enc k = colonize 7 (enc k)"
    using ip6_insert_colons_eq [of 7 "[]" "enc k"] e(1) by (simp add: ip6_to_string_def)
  have "take 2 (colonize 7 (enc k)) = take 2 (enc k)" using e(1) take_colonize [of 2 "enc k" 6] by simp
  moreover have "\<forall>i < 39. if i mod 5 = 4 then colonize 7 (enc k) ! i = CHR '':'' else is_lower_xdigit (colonize 7 (enc k) ! i)"
    using nth_colonize [OF e(2), of 7] e(1) by simp
  ultimately have "ip6_re (colonize 7 (enc k))"
    using e length_colonize [of 7 "enc k"] by (simp add: ip6_re_def)
  then show ?thesis
    using e assms(2) by (simp add: t ip6_try_from_str_def filter_colonize vec_to_array_def)
qed

end
