(* ===== verification/Ptest.thy ===== *)
theory Ptest
  imports Peering_Line Ip6_Text Admin_Client Seeder_Inv
begin

text \<open>
  The peering tester (\<^verbatim>\<open>cjdns-ptest\<close>): it fetches the credentials that a supernode has, connects to each of
  them through a cjdns node and posts back which of them work. First the calls to the node
  (\<^verbatim>\<open>cjdns.rs\<close>), then one test, the agent that repeats it and the cycle of the main task (\<^verbatim>\<open>main.rs\<close>).

  \<open>invoke\<close> is what a call of a function of the node returns. What the calls of one test bring is the
  record \<open>test_env\<close>, by the number of the attempt. Errors are their texts.
\<close>

section \<open>Calls to the node\<close>

datatype node_error =
    NoLeadingV | NoDot | NoSecondDot | AddressTooShort | NodeObject obj_error | NodeCall call_error | NoInterface | PingFailed bytes

type_synonym invoke = "bytes \<Rightarrow> dict \<Rightarrow> (dict, call_error) result"

definition find_index :: "'a \<Rightarrow> 'a list \<Rightarrow> nat option" where
  "find_index x xs = (if x \<in> set xs then Some (length (takeWhile (\<lambda>y. y \<noteq> x) xs)) else None)"

definition parse_address :: "bytes \<Rightarrow> (bytes \<times> bytes, node_error) result" where
  "parse_address address =
     (if take 1 address \<noteq> str_bytes ''v'' then Err NoLeadingV
      else case find_index 46 address of
        None \<Rightarrow> Err NoDot
      | Some dot0 \<Rightarrow>
          if \<not> (dot0 + 20 < length address \<and> address ! (dot0 + 20) = 46) then Err NoSecondDot
          else if length address < 25 then Err AddressTooShort
          else Ok (take 19 (drop (dot0 + 1) address), drop (dot0 + 21) address))"

record peer_stats =
  ps_addr :: bytes
  ps_bytes_in :: int
  ps_bytes_out :: int
  ps_duplicates :: int
  ps_if_num :: int
  ps_is_incoming :: int
  ps_last :: int
  ps_lladdr :: bytes
  ps_lost_packets :: int
  ps_noise_proto :: int
  ps_received_out_of_range :: int
  ps_received_packets :: int
  ps_recv_kbps :: int
  ps_send_kbps :: int
  ps_state :: bytes
  ps_user :: "bytes option"

abbreviation field :: "'a conv \<Rightarrow> dict \<Rightarrow> string \<Rightarrow> ('a, obj_error) result" where
  "field conv d k \<equiv> get_as conv dict_try_get_obj d (str_bytes k)"

definition peer_stats_try_from :: "dict \<Rightarrow> (peer_stats, obj_error) result" where
  "peer_stats_try_from d =
     and_then (field as_str d ''addr'') (\<lambda>a.
     and_then (field as_int d ''bytesIn'') (\<lambda>bi.
     and_then (field as_int d ''bytesOut'') (\<lambda>bo.
     and_then (field as_u32 d ''duplicates'') (\<lambda>dup.
     and_then (field as_u32 d ''ifNum'') (\<lambda>n.
     and_then (field as_u8 d ''isIncoming'') (\<lambda>inc.
     and_then (field as_int d ''last'') (\<lambda>l.
     and_then (field as_str d ''lladdr'') (\<lambda>ll.
     and_then (field as_u32 d ''lostPackets'') (\<lambda>lost.
     and_then (field as_u32 d ''noiseProto'') (\<lambda>np.
     and_then (field as_u32 d ''receivedOutOfRange'') (\<lambda>oor.
     and_then (field as_int d ''receivedPackets'') (\<lambda>rp.
     and_then (field as_u32 d ''recvKbps'') (\<lambda>rk.
     and_then (field as_u32 d ''sendKbps'') (\<lambda>sk.
     and_then (field as_str d ''state'') (\<lambda>st.
     and_then (try_get as_str dict_try_get_obj d (str_bytes ''user'')) (\<lambda>u.
     Ok \<lparr>ps_addr = a, ps_bytes_in = bi, ps_bytes_out = bo, ps_duplicates = dup, ps_if_num = n, ps_is_incoming = inc,
         ps_last = l, ps_lladdr = ll, ps_lost_packets = lost, ps_noise_proto = np, ps_received_out_of_range = oor,
         ps_received_packets = rp, ps_recv_kbps = rk, ps_send_kbps = sk, ps_state = st, ps_user = u\<rparr>))))))))))))))))"

record iface =
  if_beacon_state :: bytes
  if_if_num :: int
  if_name :: bytes

definition interface_try_from :: "dict \<Rightarrow> (iface, obj_error) result" where
  "interface_try_from d =
     and_then (field as_str d ''beaconState'') (\<lambda>b.
     and_then (field as_int d ''ifNum'') (\<lambda>n.
     and_then (field as_str d ''name'') (\<lambda>nm.
     Ok \<lparr>if_beacon_state = b, if_if_num = n, if_name = nm\<rparr>)))"

fun read_entries :: "(dict \<Rightarrow> ('a, obj_error) result) \<Rightarrow> object list \<Rightarrow> ('a list, obj_error) result" where
  "read_entries f [] = Ok []"
| "read_entries f (x # xs) =
     and_then (as_dict x) (\<lambda>d. and_then (f d) (\<lambda>a. map_ok (Cons a) (read_entries f xs)))"

text \<open>
  Lists come in pages, as long as a page says that there is more; a node that always says so keeps the
  caller busy. \<open>fn\<close> is the function of the node, \<open>key\<close> the list in its reply.
\<close>

definition page_args :: "nat \<Rightarrow> dict" where
  "page_args page = dict_insert (str_bytes ''page'') (Object_Integer (int page)) []"

partial_function (option) load_pages ::
  "invoke \<Rightarrow> bytes \<Rightarrow> bytes \<Rightarrow> (dict \<Rightarrow> ('a, obj_error) result) \<Rightarrow> nat \<Rightarrow> 'a list \<Rightarrow> ('a list, node_error) result option" where
  [code]: "load_pages invoke fn key f page out =
     (case invoke fn (page_args page) of
        Err e \<Rightarrow> Some (Err (NodeCall e))
      | Panic \<Rightarrow> Some Panic
      | Ok ret \<Rightarrow>
          (case and_then (get_list dict_try_get_obj ret key) (read_entries f) of
             Err e \<Rightarrow> Some (Err (NodeObject e))
           | Panic \<Rightarrow> Some Panic
           | Ok xs \<Rightarrow>
               if get_has dict_try_get_obj ret (str_bytes ''more'') then load_pages invoke fn key f (page + 1) (out @ xs)
               else Some (Ok (out @ xs))))"

definition load_peer_stats :: "invoke \<Rightarrow> (peer_stats list, node_error) result option" where
  "load_peer_stats invoke = load_pages invoke (str_bytes ''InterfaceController_peerStats'') (str_bytes ''peers'') peer_stats_try_from 0 []"

definition get_interfaces :: "invoke \<Rightarrow> (iface list, node_error) result option" where
  "get_interfaces invoke =
     load_pages invoke (str_bytes ''InterfaceController_interfaces'') (str_bytes ''ifaces'') interface_try_from 0 []"

text \<open>The first peer whose address contains the key.\<close>

definition peer_stats_of :: "invoke \<Rightarrow> bytes \<Rightarrow> (peer_stats option, node_error) result option" where
  "peer_stats_of invoke pk =
     map_option (map_ok (find (\<lambda>p. sublist pk (ps_addr p)))) (load_peer_stats invoke)"

definition best_iface :: "bool \<Rightarrow> iface list \<Rightarrow> (int, node_error) result" where
  "best_iface v6 ifaces =
     (case find (\<lambda>i. prefix (str_bytes (if v6 then ''UDP/IPv6/'' else ''UDP/IPv4/'')) (if_name i)) ifaces of
        Some i \<Rightarrow> Ok (if_if_num i)
      | None \<Rightarrow> Err NoInterface)"

definition get_best_iface :: "invoke \<Rightarrow> socket_addr \<Rightarrow> (int, node_error) result option" where
  "get_best_iface invoke sa = map_option (\<lambda>r. and_then r (best_iface (is_ipv6 sa))) (get_interfaces invoke)"

definition get_snode :: "invoke \<Rightarrow> bytes \<Rightarrow> (bytes option, node_error) result" where
  "get_snode invoke address =
     and_then (parse_address address) (\<lambda>(path, _).
     and_then (map_err NodeCall (invoke (str_bytes ''SwitchPinger_ping'')
       (dict_insert (str_bytes ''snode'') (Object_Integer 1) (dict_insert (str_bytes ''path'') (Object_Bytes path) [])))) (\<lambda>reply.
     and_then (map_err NodeObject (get_str dict_try_get_obj reply (str_bytes ''result''))) (\<lambda>res.
     if res \<noteq> str_bytes ''pong'' then Err (PingFailed res)
     else map_err NodeObject (try_get as_str dict_try_get_obj reply (str_bytes ''snode'')))))"

definition begin_conn_args :: "int \<Rightarrow> nat \<Rightarrow> peering_line \<Rightarrow> dict" where
  "begin_conn_args iface_num worker peer =
     dict_from_iter
       [(str_bytes ''address'', Object_Bytes (str_bytes (pl_address peer))),
        (str_bytes ''publicKey'', Object_Bytes (str_bytes (pl_public_key peer))),
        (str_bytes ''interfaceNumber'', Object_Integer iface_num),
        (str_bytes ''login'', Object_Bytes (str_bytes (pl_login peer))),
        (str_bytes ''password'', Object_Bytes (str_bytes (pl_password peer))),
        (str_bytes ''peerName'', Object_Bytes (str_bytes (''TESTING/'' @ dec_string worker @ ''/'' @ pl_address peer))),
        (str_bytes ''version'', Object_Integer (uint (pl_version peer)))]"

definition begin_conn :: "invoke \<Rightarrow> int \<Rightarrow> nat \<Rightarrow> peering_line \<Rightarrow> (unit, node_error) result" where
  "begin_conn invoke iface_num worker peer =
     map_ok (\<lambda>_. ()) (map_err NodeCall (invoke (str_bytes ''UDPInterface_beginConnection'') (begin_conn_args iface_num worker peer)))"

text \<open>The connections of one agent, or of all, are those that carry its name. The peers that the node is told to
  disconnect are listed.\<close>

definition conn_template :: "nat option \<Rightarrow> bytes" where
  "conn_template worker =
     str_bytes (case worker of Some w \<Rightarrow> ''TESTING/'' @ dec_string w @ ''/'' | None \<Rightarrow> ''TESTING/'')"

fun disconnect_all :: "invoke \<Rightarrow> bytes \<Rightarrow> peer_stats list \<Rightarrow> bytes list \<Rightarrow> (unit, node_error) result \<times> bytes list" where
  "disconnect_all invoke template [] gone = (Ok (), gone)"
| "disconnect_all invoke template (p # ps) gone =
     (case ps_user p of
        None \<Rightarrow> disconnect_all invoke template ps gone
      | Some user \<Rightarrow>
          if \<not> prefix template user then disconnect_all invoke template ps gone
          else case parse_address (ps_addr p) of
            Err e \<Rightarrow> (Err e, gone)
          | Panic \<Rightarrow> (Panic, gone)
          | Ok (_, key) \<Rightarrow>
              (case invoke (str_bytes ''InterfaceController_disconnectPeer'')
                      (dict_insert (str_bytes ''pubkey'') (Object_Bytes key) []) of
                 Err e \<Rightarrow> (Err (NodeCall e), gone)
               | Panic \<Rightarrow> (Panic, gone)
               | Ok _ \<Rightarrow> disconnect_all invoke template ps (gone @ [key])))"

definition remove_conns :: "invoke \<Rightarrow> nat option \<Rightarrow> ((unit, node_error) result \<times> bytes list) option" where
  "remove_conns invoke worker =
     map_option (\<lambda>r. case r of
         Ok ps \<Rightarrow> disconnect_all invoke (conn_template worker) ps []
       | Err e \<Rightarrow> (Err e, [])
       | Panic \<Rightarrow> (Panic, [])) (load_peer_stats invoke)"

section \<open>One test\<close>

datatype status = StatusOk | ConnectTimeout | SnodeError string | NoSnode | WrongSnode | Other string

record test_env =
  te_remove :: "(unit, string) result"
  te_iface :: "(int, string) result"
  te_before :: "(peer_stats option, string) result"
  te_begin :: "(unit, string) result"
  te_stats :: "nat \<Rightarrow> (peer_stats option, string) result"
  te_snode :: "nat \<Rightarrow> (string option, string) result"

text \<open>The peer as the node shows it once it is connected, or None when that takes too long.\<close>

function wait_established :: "string \<Rightarrow> (nat \<Rightarrow> (peer_stats option, string) result) \<Rightarrow> nat \<Rightarrow> (peer_stats option, string) result" where
  "wait_established address stats i =
     (let i = i + 1 in
      case stats i of
        Err e \<Rightarrow> Err e
      | Panic \<Rightarrow> Panic
      | Ok None \<Rightarrow>
          if i < 30 then wait_established address stats i
          else Err (''Peer '' @ address @ '' did not register in peer stats within 30 seconds'')
      | Ok (Some pso) \<Rightarrow>
          if ps_state pso = str_bytes ''ESTABLISHED'' then Ok (Some pso)
          else if i > 60 then Ok None
          else wait_established address stats i)"
  by pat_completeness auto

termination
  by (relation "measure (\<lambda>(address, stats, i). 61 - i)") auto

declare wait_established.simps [simp del]

function ask_snode :: "(nat \<Rightarrow> (string option, string) result) \<Rightarrow> nat \<Rightarrow> (string option, string) result" where
  "ask_snode snode i =
     (let i = i + 1 in
      case snode i of
        Err e \<Rightarrow> if i \<ge> 5 then Err e else ask_snode snode i
      | r \<Rightarrow> r)"
  by pat_completeness auto

termination
  by (relation "measure (\<lambda>(snode, i). 5 - i)") auto

declare ask_snode.simps [simp del]

definition snode_status :: "string option \<Rightarrow> (string option, string) result \<Rightarrow> (status, string) result" where
  "snode_status require_snode res =
     (case res of
        Err e \<Rightarrow> Ok (SnodeError e)
      | Panic \<Rightarrow> Panic
      | Ok None \<Rightarrow> Ok NoSnode
      | Ok (Some snode) \<Rightarrow>
          (case require_snode of
             Some required \<Rightarrow> if snode \<noteq> required then Ok WrongSnode else Ok StatusOk
           | None \<Rightarrow> Ok StatusOk))"

definition test_peer :: "text_codecs \<Rightarrow> string option \<Rightarrow> test_env \<Rightarrow> list_peer \<Rightarrow> (status, string) result" where
  "test_peer c require_snode env peer =
     (let address = pl_address (lp_peer peer) in
      and_then (ok_or (sock_parse c address) ''invalid socket address syntax'') (\<lambda>_.
      and_then (te_remove env) (\<lambda>_.
      and_then (te_iface env) (\<lambda>_.
      and_then (te_before env) (\<lambda>before.
      if before \<noteq> None then Err (''Can'' @ [CHR 0x27] @ ''t test peer '' @ address @ '' because we are already connected'')
      else and_then (te_begin env) (\<lambda>_.
        and_then (wait_established address (te_stats env) 0) (\<lambda>pso.
        if pso = None then Ok ConnectTimeout
        else snode_status require_snode (ask_snode (te_snode env) 0))))))))"

text \<open>What the agent makes of an attempt: its result, or None if it took more than five minutes.\<close>

definition attempt_status :: "(status, string) result option \<Rightarrow> (status, string) result" where
  "attempt_status r =
     (case r of
        Some (Ok x) \<Rightarrow> Ok x
      | Some (Err e) \<Rightarrow> Ok (Other e)
      | Some Panic \<Rightarrow> Panic
      | None \<Rightarrow> Ok (Other ''Test function timed out''))"

function agent_attempts :: "(nat \<Rightarrow> (status, string) result option) \<Rightarrow> nat \<Rightarrow> (status, string) result" where
  "agent_attempts outcome i =
     (let i = i + 1 in
      case attempt_status (outcome i) of
        Ok StatusOk \<Rightarrow> Ok StatusOk
      | Ok res \<Rightarrow> if i > 3 then Ok res else agent_attempts outcome i
      | r \<Rightarrow> r)"
  by pat_completeness auto

termination
  by (relation "measure (\<lambda>(outcome, i). 4 - i)") auto

declare agent_attempts.simps [simp del]

section \<open>The main task\<close>

text \<open>
  What is being tested since when, the list that the status page shows, the tests handed to the agents
  and the results that have come back. The two queues hold 512 entries in the code; here they have room.
\<close>

record tester =
  tr_testing :: "(string \<times> nat) list"
  tr_state :: "list_peer list"
  tr_tasks :: "list_peer list"
  tr_results :: "(list_peer \<times> status) list"

datatype cycle_error = FetchFailed | BadKey key_creation_error | BadTestedAddress | PostFailed

fun drop_old_tests :: "nat \<Rightarrow> (string \<times> nat) list \<Rightarrow> (string \<times> nat) list" where
  "drop_old_tests cutoff [] = []"
| "drop_old_tests cutoff ((a, since) # ts) = (if since > cutoff then (a, since) # ts else drop_old_tests cutoff ts)"

text \<open>When a peer is to be tested again; the sum of \<open>u64\<close> values can overflow.\<close>

definition retest_due :: "nat \<Rightarrow> nat \<Rightarrow> list_peer \<Rightarrow> (bool, 'e) result" where
  "retest_due retest_after_minutes nows p =
     (let due = lp_last_check_sec p + retest_after_minutes * 60
      in if due < 2 ^ 64 then Ok (due \<le> nows) else Panic)"

fun schedule :: "nat \<Rightarrow> nat \<Rightarrow> list_peer list \<Rightarrow> tester \<Rightarrow> (unit, cycle_error) result \<times> tester" where
  "schedule retest nows [] s = (Ok (), s)"
| "schedule retest nows (p # ps) s =
     (case retest_due retest nows p of
        Ok due \<Rightarrow>
          if \<not> due \<or> pl_address (lp_peer p) \<in> fst ` set (tr_testing s) then schedule retest nows ps s
          else schedule retest nows ps
                 (s\<lparr>tr_testing := tr_testing s @ [(pl_address (lp_peer p), nows)], tr_tasks := tr_tasks s @ [p]\<rparr>)
      | Err e \<Rightarrow> (Err e, s)
      | Panic \<Rightarrow> (Panic, s))"

text \<open>The text of a status; \<open>show\<close> quotes a string.\<close>

fun status_debug :: "(string \<Rightarrow> string) \<Rightarrow> status \<Rightarrow> string" where
  "status_debug show StatusOk = ''Ok''"
| "status_debug show ConnectTimeout = ''ConnectTimeout''"
| "status_debug show (SnodeError e) = ''SnodeError('' @ show e @ '')''"
| "status_debug show NoSnode = ''NoSnode''"
| "status_debug show WrongSnode = ''WrongSnode''"
| "status_debug show (Other e) = ''Other('' @ show e @ '')''"

definition result_node ::
  "(bytes \<Rightarrow> bytes) \<Rightarrow> text_codecs \<Rightarrow> (string \<Rightarrow> string) \<Rightarrow> list_peer \<Rightarrow> status \<Rightarrow> (test_node, cycle_error) result" where
  "result_node sha c show slp stat =
     and_then (map_err BadKey (public_key_try_from_str (base32_dec c) (pl_public_key (lp_peer slp)))) (\<lambda>pk.
     and_then (map_err BadKey (ip6_try_from_key sha pk)) (\<lambda>ip6.
     and_then (ok_or (sock_parse c (pl_address (lp_peer slp))) BadTestedAddress) (\<lambda>a.
     Ok \<lparr>tn_addr = a, tn_ip6 = ip6_to_string (hex_enc c) ip6,
         tn_error = (if stat \<noteq> StatusOk then Some (status_debug show stat) else None)\<rparr>)))"

text \<open>Results are taken from the queue until it is empty or one of them is faulty; those taken before are lost then.\<close>

fun collect_results ::
  "(bytes \<Rightarrow> bytes) \<Rightarrow> text_codecs \<Rightarrow> (string \<Rightarrow> string) \<Rightarrow> (list_peer \<times> status) list \<Rightarrow> test_node list
     \<Rightarrow> (test_node list, cycle_error) result \<times> (list_peer \<times> status) list" where
  "collect_results sha c show [] nodes = (Ok nodes, [])"
| "collect_results sha c show ((slp, stat) # rs) nodes =
     (case result_node sha c show slp stat of
        Ok n \<Rightarrow> collect_results sha c show rs (nodes @ [n])
      | Err e \<Rightarrow> (Err e, rs)
      | Panic \<Rightarrow> (Panic, rs))"

definition retain_recent :: "nat \<Rightarrow> list_peer list \<Rightarrow> list_peer list" where
  "retain_recent cutoff peers = filter (\<lambda>p. lp_last_report_sec p \<ge> cutoff) peers"

text \<open>
  One cycle: \<open>fetched\<close> is the listing of the supernode, \<open>post_ok\<close> whether it takes the results, \<open>now\<close> and
  \<open>nows\<close> the two readings of the clock. The last part of the result is what is posted.
\<close>

definition post_results ::
  "(bytes \<Rightarrow> bytes) \<Rightarrow> text_codecs \<Rightarrow> (string \<Rightarrow> string) \<Rightarrow> bool \<Rightarrow> tester \<Rightarrow> (unit, cycle_error) result \<times> tester \<times> test_node list" where
  "post_results sha c show post_ok s =
     (case collect_results sha c show (tr_results s) [] of
        (Ok nodes, rs) \<Rightarrow>
          (if nodes = [] then (Ok (), s\<lparr>tr_results := rs\<rparr>, [])
           else (if post_ok then Ok () else Err PostFailed, s\<lparr>tr_results := rs\<rparr>, nodes))
      | (Err e, rs) \<Rightarrow> (Err e, s\<lparr>tr_results := rs\<rparr>, [])
      | (Panic, rs) \<Rightarrow> (Panic, s\<lparr>tr_results := rs\<rparr>, []))"

definition main_loop_cycle ::
  "(bytes \<Rightarrow> bytes) \<Rightarrow> text_codecs \<Rightarrow> (string \<Rightarrow> string) \<Rightarrow> nat \<Rightarrow> list_peer list option \<Rightarrow> bool \<Rightarrow> nat \<Rightarrow> nat \<Rightarrow> tester
     \<Rightarrow> (unit, cycle_error) result \<times> tester \<times> test_node list" where
  "main_loop_cycle sha c show retest fetched post_ok now nows s =
     (case fetched of
        None \<Rightarrow> (Err FetchFailed, s, [])
      | Some peers \<Rightarrow>
          if now < 60 * 30 then (Panic, s, [])
          else let peers = retain_recent (now - 60 * 30) peers;
                   s = s\<lparr>tr_state := peers\<rparr>
               in if tr_testing s \<noteq> [] \<and> nows < 60 * 20 then (Panic, s, [])
                  else case schedule retest nows peers (s\<lparr>tr_testing := drop_old_tests (nows - 60 * 20) (tr_testing s)\<rparr>) of
                    (Ok _, s) \<Rightarrow> post_results sha c show post_ok s
                  | (Err e, s) \<Rightarrow> (Err e, s, [])
                  | (Panic, s) \<Rightarrow> (Panic, s, []))"

text \<open>An agent takes a test and puts its result into the queue.\<close>

definition agent_step :: "(nat \<Rightarrow> (status, string) result option) \<Rightarrow> tester \<Rightarrow> tester option" where
  "agent_step outcome s =
     (case tr_tasks s of
        [] \<Rightarrow> None
      | p # ps \<Rightarrow>
          (case agent_attempts outcome 0 of
             Ok res \<Rightarrow> Some (s\<lparr>tr_tasks := ps, tr_results := tr_results s @ [(p, res)]\<rparr>)
           | _ \<Rightarrow> Some (s\<lparr>tr_tasks := ps\<rparr>)))"

record http_status_peer =
  hs_last_check_sec :: nat
  hs_last_report_sec :: nat
  hs_ring :: u32
  hs_check_error :: "string option"
  hs_public_key :: string
  hs_address :: string
  hs_peer_id :: string

definition http_status :: "tester \<Rightarrow> http_status_peer list" where
  "http_status s = map (\<lambda>p.
     \<lparr>hs_last_check_sec = lp_last_check_sec p, hs_last_report_sec = lp_last_report_sec p, hs_ring = lp_ring p,
      hs_check_error = (if lp_last_check_sec p > 0 then lp_check_error p else Some ''NotYetTested''),
      hs_public_key = pl_public_key (lp_peer p), hs_address = ''REDACTED'', hs_peer_id = lp_id p\<rparr>) (tr_state s)"

section \<open>Lemmas\<close>

lemma attempt_status_ok_iff: "attempt_status x = Ok StatusOk \<longleftrightarrow> x = Some (Ok StatusOk)"
  by (auto simp: attempt_status_def split: option.splits result.splits)

lemma attempt_status_not_Err [simp]: "attempt_status x \<noteq> Err e"
  by (auto simp: attempt_status_def split: option.splits result.splits)

lemma agent_attempts_stop:
  "attempt_status (outcome (i + 1)) = Ok res \<Longrightarrow> res = StatusOk \<or> 2 < i \<Longrightarrow> agent_attempts outcome i = Ok res"
  by (subst agent_attempts.simps) (auto split: status.splits)

lemma agent_attempts_again:
  "attempt_status (outcome (i + 1)) = Ok res \<Longrightarrow> res \<noteq> StatusOk \<Longrightarrow> i \<le> 2 \<Longrightarrow> agent_attempts outcome i = agent_attempts outcome (i + 1)"
  by (subst agent_attempts.simps) (auto split: status.splits)

text \<open>An agent makes at most four attempts and reports success exactly if one of them succeeds.\<close>

theorem agent_attempts_spec:
  assumes "i < 4" and "\<And>k. attempt_status (outcome k) \<noteq> Panic"
  shows "\<exists>res. agent_attempts outcome i = Ok res
    \<and> (res = StatusOk \<longleftrightarrow> (\<exists>k. i < k \<and> k \<le> 4 \<and> outcome k = Some (Ok StatusOk)))"
  using assms(1)
proof (induction "4 - i" arbitrary: i rule: less_induct)
  case less
  obtain res where res: "attempt_status (outcome (i + 1)) = Ok res"
    using assms(2) [of "i + 1"] by (cases "attempt_status (outcome (i + 1))") auto
  have here: "res = StatusOk \<longleftrightarrow> outcome (i + 1) = Some (Ok StatusOk)"
    using attempt_status_ok_iff [of "outcome (i + 1)"] res by auto
  show ?case
  proof (cases "res = StatusOk \<or> 2 < i")
    case True
    have "(\<exists>k. i < k \<and> k \<le> 4 \<and> outcome k = Some (Ok StatusOk)) \<longleftrightarrow> res = StatusOk"
    proof
      assume "\<exists>k. i < k \<and> k \<le> 4 \<and> outcome k = Some (Ok StatusOk)"
      then obtain k where k: "i < k" "k \<le> 4" "outcome k = Some (Ok StatusOk)" by blast
      show "res = StatusOk"
      proof (rule ccontr)
        assume "res \<noteq> StatusOk"
        then have "k = i + 1" using True k by simp
        then show False using k here \<open>res \<noteq> StatusOk\<close> by simp
      qed
    next
      assume "res = StatusOk"
      then show "\<exists>k. i < k \<and> k \<le> 4 \<and> outcome k = Some (Ok StatusOk)"
        using here less.prems by (intro exI [of _ "i + 1"]) auto
    qed
    then show ?thesis using agent_attempts_stop [of outcome i res] res True by auto
  next
    case False
    then obtain r where r: "agent_attempts outcome (i + 1) = Ok r"
      "r = StatusOk \<longleftrightarrow> (\<exists>k. i + 1 < k \<and> k \<le> 4 \<and> outcome k = Some (Ok StatusOk))"
    proof -
      have "4 - (i + 1) < 4 - i" "i + 1 < 4" using False by auto
      then show thesis using less.hyps [of "i + 1"] that by blast
    qed
    have "i < k \<longleftrightarrow> k = i + 1 \<or> i + 1 < k" for k by auto
    then have "(\<exists>k. i < k \<and> k \<le> 4 \<and> outcome k = Some (Ok StatusOk)) \<longleftrightarrow> r = StatusOk"
      using r(2) here False by auto
    then show ?thesis using agent_attempts_again [of outcome i res] res False r(1) by auto
  qed
qed

lemma result_node_of_listed:
  assumes "codecs_ok c (sp_creds sp)" and "length (peer_pubkey (sp_creds sp)) = 32"
    and "ip6_try_from_key sha (peer_pubkey (sp_creds sp)) = Ok (sp_ip sp)"
  shows "result_node sha c show (list_peer_from c sp) stat =
    Ok \<lparr>tn_addr = peer_address (sp_creds sp), tn_ip6 = ip6_to_string (hex_enc c) (sp_ip sp),
        tn_error = (if stat \<noteq> StatusOk then Some (status_debug show stat) else None)\<rparr>"
  using assms key_text(3) [of "base32_enc c" "base32_dec c" "peer_pubkey (sp_creds sp)"]
  by (simp add: result_node_def list_peer_from_def peering_line_of_def codecs_ok_def)

lemma update_first_other: "\<forall>y \<in> set xs. \<not> P y \<Longrightarrow> update_first P f xs = xs"
  by (induction xs) auto

lemma update_first_unique:
  "distinct xs \<Longrightarrow> x \<in> set xs \<Longrightarrow> (\<And>y. y \<in> set xs \<Longrightarrow> P y \<longleftrightarrow> y = x) \<Longrightarrow>
   update_first P f xs = map (\<lambda>y. if y = x then f y else y) xs"
proof (induction xs)
  case Nil
  then show ?case by simp
next
  case (Cons y ys)
  show ?case
  proof (cases "y = x")
    case True
    then have "map (\<lambda>z. if z = x then f z else z) ys = ys" using Cons.prems(1) by (intro map_idI) auto
    then show ?thesis using True Cons.prems(3) [of y] by simp
  next
    case False
    then have "update_first P f ys = map (\<lambda>z. if z = x then f z else z) ys"
      using Cons.prems by (intro Cons.IH) auto
    then show ?thesis using False Cons.prems(3) [of y] by simp
  qed
qed

text \<open>The name of a node as the admin interface gives it is the one that Addr prints.\<close>

theorem parse_address_of_name:
  assumes "base32_ok enc dec" and "length (addr_pubkey a) = 32" and "label_ok (addr_label a)"
  shows "parse_address (str_bytes (address_to_string enc a)) =
    Ok (str_bytes (label_to_string (addr_label a)), str_bytes (public_key_to_string enc (addr_pubkey a)))"
proof -
  let ?v = "dec_string (unat (addr_version a))"
  let ?l = "label_to_string (addr_label a)"
  let ?k = "public_key_to_string enc (addr_pubkey a)"
  have len: "length ?l = 19" "length ?k = 54" using label_text(1) [OF assms(3)] key_text(2) [OF assms(1,2)] by simp_all
  have dot: "of_char c \<noteq> (46 :: u8)" if "is_dec_digit c" for c
  proof
    assume "of_char c = (46 :: u8)"
    then have "str_bytes [c] = str_bytes [CHR ''.'']" by (simp add: str_bytes_def)
    then have "c = CHR ''.''" unfolding str_bytes_eq_iff by simp
    with that show False by (simp add: is_dec_digit_def)
  qed
  then have v: "46 \<notin> set (str_bytes (CHR ''v'' # ?v))"
    using dec_string_facts [of "unat (addr_version a)"] by (auto simp: str_bytes_def list_all_iff)
  have s: "str_bytes (address_to_string enc a) = str_bytes (CHR ''v'' # ?v) @ 46 # str_bytes ?l @ 46 # str_bytes ?k"
    by (simp add: address_to_string_def str_bytes_def)
  have "find_index 46 (str_bytes (address_to_string enc a)) = Some (length (str_bytes (CHR ''v'' # ?v)))"
    unfolding s find_index_def using v by (simp add: takeWhile_append)
  moreover have "take 1 (str_bytes (address_to_string enc a)) = str_bytes ''v''" unfolding s by (simp add: str_bytes_def)
  ultimately show ?thesis
    using len unfolding parse_address_def s
    by (simp add: nth_append) (simp add: str_bytes_def)
qed

text \<open>A list is read to its end if some page does not announce another one.\<close>

theorem load_pages_returns:
  assumes "page \<le> end_page" and "\<And>ret. invoke fn (page_args end_page) = Ok ret \<Longrightarrow> \<not> get_has dict_try_get_obj ret (str_bytes ''more'')"
  shows "\<exists>r. load_pages invoke fn key f page out = Some r"
  using assms(1)
proof (induction page arbitrary: out rule: inc_induct)
  case base
  then show ?case using assms(2) by (subst load_pages.simps) (auto split: result.splits)
next
  case (step page)
  then show ?case by (subst load_pages.simps) (auto split: result.splits)
qed

text \<open>One result that cannot be reported takes those before it with it: nothing is posted and they are no longer queued.\<close>

theorem faulty_result_loses_others:
  assumes "\<And>slp stat. (slp, stat) \<in> set good \<Longrightarrow> \<exists>n. result_node sha c show slp stat = Ok n"
    and "result_node sha c show bad stat = Err e" and "tr_results s = good @ (bad, stat) # rest"
  shows "post_results sha c show post_ok s = (Err e, s\<lparr>tr_results := rest\<rparr>, [])"
proof -
  have "collect_results sha c show (good @ (bad, stat) # rest) nodes = (Err e, rest)" for nodes
    using assms(1)
  proof (induction good arbitrary: nodes)
    case Nil
    then show ?case using assms(2) by simp
  next
    case (Cons g good)
    obtain slp st where g: "g = (slp, st)" by force
    then obtain n where "result_node sha c show slp st = Ok n" using Cons.prems by fastforce
    then show ?case using Cons g by simp
  qed
  then show ?thesis using assms(3) by (simp add: post_results_def)
qed

lemma update_first_not:
  "\<not> P (xs ! j) \<Longrightarrow> j < length xs \<Longrightarrow> update_first P f xs ! j = xs ! j"
  by (induction xs arbitrary: j) (auto simp: nth_Cons split: nat.splits)

lemma update_first_behind:
  "i < j \<Longrightarrow> j < length xs \<Longrightarrow> P (xs ! i) = P (xs ! j) \<Longrightarrow> update_first P f xs ! j = xs ! j"
proof (induction xs arbitrary: i j)
  case Nil
  then show ?case by simp
next
  case (Cons x xs)
  obtain j' where j: "j = Suc j'" using Cons.prems(1) by (cases j) auto
  show ?case
  proof (cases i)
    case 0
    then show ?thesis using Cons.prems j by (auto simp: update_first_not)
  next
    case (Suc i')
    then show ?thesis using Cons.prems Cons.IH [of i' j'] j by auto
  qed
qed

lemma update_first_length: "length (update_first P f xs) = length xs"
  by (induction xs) auto

lemma update_first_key:
  "(\<And>x. g (f x) = g x) \<Longrightarrow> k < length xs \<Longrightarrow> g (update_first P f xs ! k) = g (xs ! k)"
  by (induction xs arbitrary: k) (auto simp: nth_Cons split: nat.splits)

text \<open>Credentials that were changed while node and address stay the same get no result as long as the old entry is there.\<close>

theorem changed_credentials_never_tested:
  assumes "record_tests hex_dec now nodes m = (r, m')" and "i < j" and "j < length (sd_peers m)"
    and "sp_ip (sd_peers m ! i) = sp_ip (sd_peers m ! j)"
    and "peer_address (sp_creds (sd_peers m ! i)) = peer_address (sp_creds (sd_peers m ! j))"
  shows "sd_peers m' ! j = sd_peers m ! j"
  using assms
proof (induction nodes arbitrary: m)
  case Nil
  then show ?case by simp
next
  case (Cons n nodes)
  show ?case
  proof (cases "ip6_try_from_str hex_dec (tn_ip6 n)")
    case (Ok ip)
    let ?P = "\<lambda>sp. peer_address (sp_creds sp) = tn_addr n \<and> sp_ip sp = ip"
    let ?f = "\<lambda>sp. sp\<lparr>sp_check_error := tn_error n, sp_last_check := now\<rparr>"
    let ?m = "m\<lparr>sd_peers := update_first ?P ?f (sd_peers m)\<rparr>"
    have len: "length (sd_peers ?m) = length (sd_peers m)" by (simp add: update_first_length)
    have ip: "sp_ip (sd_peers ?m ! k) = sp_ip (sd_peers m ! k)" if "k < length (sd_peers m)" for k
      using update_first_key [where g = sp_ip and f = ?f and P = ?P, OF _ that] by simp
    have ad: "peer_address (sp_creds (sd_peers ?m ! k)) = peer_address (sp_creds (sd_peers m ! k))" if "k < length (sd_peers m)" for k
      using update_first_key [where g = "\<lambda>sp. peer_address (sp_creds sp)" and f = ?f and P = ?P, OF _ that] by simp
    have i: "i < length (sd_peers m)" using Cons.prems(2,3) by simp
    have run: "record_tests hex_dec now nodes ?m = (r, m')" using Cons.prems(1) Ok by simp
    have "sd_peers m' ! j = sd_peers ?m ! j"
      by (rule Cons.IH [OF run Cons.prems(2)])
         (simp_all only: len ip [OF i] ip [OF Cons.prems(3)] ad [OF i] ad [OF Cons.prems(3)] Cons.prems)
    moreover have "sd_peers ?m ! j = sd_peers m ! j" using Cons.prems by (simp add: update_first_behind)
    ultimately show ?thesis by simp
  qed (use Cons.prems in auto)
qed

section \<open>Properties\<close>

text \<open>C40: The way of a test result: what the tester posts for credentials that the supernode listed names their
  socket address and the address of their key, and the supernode records status and time with these credentials
  and leaves every other entry alone, provided no other entry has the same two addresses.\<close>

theorem test_result_recorded:
  assumes "seeder_ok sha m" and "sp \<in> set (sd_peers m)" and "codecs_ok c (sp_creds sp)"
    and "hex_ok (hex_enc c) hex_dec" and "sp_ip sp ! 0 = IP6_FIRST_BYTE"
    and "\<And>p. p \<in> set (sd_peers m) \<Longrightarrow> sp_ip p = sp_ip sp \<Longrightarrow> peer_address (sp_creds p) = peer_address (sp_creds sp) \<Longrightarrow> p = sp"
    and "tr_results s = [(list_peer_from c sp, stat)]" and "passwd \<in> set (tester_passwds cfg)"
  shows "\<exists>nodes. post_results sha c show True s = (Ok (), s\<lparr>tr_results := []\<rparr>, nodes)
     \<and> testres hex_dec cfg now passwd nodes m =
         (Ok (), m\<lparr>sd_peers := map (\<lambda>p. if p = sp then p\<lparr>sp_check_error :=
             (if stat \<noteq> StatusOk then Some (status_debug show stat) else None), sp_last_check := now\<rparr> else p) (sd_peers m)\<rparr>)"
proof -
  have e: "entry_ok sha sp" "distinct (map (\<lambda>p. (sp_ip p, sp_creds p)) (sd_peers m))"
    using assms(1,2) by (auto simp: seeder_ok_def)
  then have k: "ip6_try_from_key sha (peer_pubkey (sp_creds sp)) = Ok (sp_ip sp)" "length (peer_pubkey (sp_creds sp)) = 32"
    by (auto simp: entry_ok_def Dnsseed.peer_ok_def)
  then have "length (sp_ip sp) = 16" using ip6_try_from_key_ok by (auto simp: ip6_ok_def)
  then have ip: "ip6_try_from_str hex_dec (ip6_to_string (hex_enc c) (sp_ip sp)) = Ok (sp_ip sp)"
    using assms(4,5) by (intro ip6_text)
  let ?n = "\<lparr>tn_addr = peer_address (sp_creds sp), tn_ip6 = ip6_to_string (hex_enc c) (sp_ip sp),
        tn_error = (if stat \<noteq> StatusOk then Some (status_debug show stat) else None)\<rparr>"
  have n: "result_node sha c show (list_peer_from c sp) stat = Ok ?n"
    using assms(3) k by (intro result_node_of_listed)
  have "post_results sha c show True s = (Ok (), s\<lparr>tr_results := []\<rparr>, [?n])"
    using n assms(7) by (simp add: post_results_def)
  moreover have "distinct (sd_peers m)" using e(2) by (metis distinct_map)
  then have "update_first (\<lambda>p. peer_address (sp_creds p) = tn_addr ?n \<and> sp_ip p = sp_ip sp) f (sd_peers m)
      = map (\<lambda>p. if p = sp then f p else p) (sd_peers m)" for f
    using assms(2,6) by (intro update_first_unique) auto
  ultimately show ?thesis using ip assms(8) by (auto simp: testres_def)
qed


section \<open>Witnesses\<close>

text \<open>Hex digits in pairs.\<close>

definition demo_hex :: "bytes \<Rightarrow> string" where
  "demo_hex b = concat (map (\<lambda>x. [lower_digit (unat x div 16), lower_digit (unat x mod 16)]) b)"

fun demo_unhex :: "string \<Rightarrow> bytes option" where
  "demo_unhex (a # b # s) = map_option (Cons (word_of_nat (16 * xdigit_val a + xdigit_val b))) (demo_unhex s)"
| "demo_unhex s = (if s = [] then Some [] else None)"

lemma u8_halves: "unat x div 16 < 16" "unat x mod 16 < 16" for x :: u8
  using unsigned_less [of x, where ?'a = nat] by (simp_all add: less_mult_imp_div_less)

lemma lower_digit_hex: "d < 16 \<Longrightarrow> is_lower_xdigit (lower_digit d)"
  by (auto simp: is_lower_xdigit_def is_dec_digit_def lower_digit_def)

lemma demo_hex_facts:
  "length (demo_hex b) = 2 * length b" "list_all is_lower_xdigit (demo_hex b)" "demo_unhex (demo_hex b) = Some b"
  using u8_halves by (induction b) (simp_all add: demo_hex_def lower_digit_hex)

lemma demo_hex_ok: "hex_ok demo_hex demo_unhex"
  unfolding hex_ok_def
proof (intro allI impI)
  fix b :: bytes
  assume b: "length b = 16 \<and> b ! 0 = IP6_FIRST_BYTE"
  then obtain xs where "b = IP6_FIRST_BYTE # xs" by (cases b) auto
  then have "take 2 (demo_hex b) = ''fc''" by (simp add: demo_hex_def IP6_FIRST_BYTE_def lower_digit_def char_of_eq_iff)
  then show "length (demo_hex b) = 32 \<and> list_all is_lower_xdigit (demo_hex b) \<and> take 2 (demo_hex b) = ''fc'' \<and> demo_unhex (demo_hex b) = Some b"
    using b by (simp add: demo_hex_facts)
qed

definition demo_tester_codecs :: text_codecs where
  "demo_tester_codecs = \<lparr>sock_show = (\<lambda>_. ''10.0.0.1:1000''), sock_parse = (\<lambda>_. Some (V4 [10, 0, 0, 1] 1000)),
     base64_enc = map (\<lambda>b. char_of (unat b)), base64_dec = (\<lambda>s. Some (map (\<lambda>c. word_of_nat (of_char c)) s)),
     base32_enc = demo_encode, base32_dec = Addr.demo_decode, hex_enc = demo_hex\<rparr>"

lemma demo_tester_codecs_ok: "codecs_ok demo_tester_codecs (demo_creds 1)"
proof -
  have "unat b mod 256 = unat b" for b :: u8
    using unsigned_less [of b, where ?'a = nat] by simp
  then show ?thesis
    using demo_base32 by (simp add: codecs_ok_def demo_tester_codecs_def o_def map_idI) (simp add: demo_creds_def)
qed

text \<open>The first listed credentials could not be connected to.\<close>

definition demo_entry :: seeder_peer where
  "demo_entry = new_peer 7 (demo_ip 1) PUB_prefix (demo_creds 1) 0"

definition demo_tester :: tester where
  "demo_tester = \<lparr>tr_testing = [], tr_state = [], tr_tasks = [],
     tr_results = [(list_peer_from demo_tester_codecs demo_entry, ConnectTimeout)]\<rparr>"

theorem test_result_recorded_witness:
  "\<exists>nodes. post_results demo_sha demo_tester_codecs (\<lambda>s. s) True demo_tester = (Ok (), demo_tester\<lparr>tr_results := []\<rparr>, nodes)
     \<and> testres demo_unhex demo_cfg 60 ''t'' nodes demo_seeder =
         (Ok (), demo_seeder\<lparr>sd_peers := [demo_entry\<lparr>sp_check_error := Some ''ConnectTimeout'', sp_last_check := 60\<rparr>]\<rparr>)"
proof -
  have m: "sd_peers demo_seeder = [demo_entry]" by (simp add: demo_seeder_def demo_entry_def)
  have "seeder_ok demo_sha demo_seeder"
    using demo_key [of 1]
    by (simp add: seeder_ok_def m entry_ok_def demo_entry_def new_peer_def Dnsseed.peer_ok_def)
       (simp add: demo_seeder_def demo_creds_def addr_ok_def)
  moreover have "codecs_ok demo_tester_codecs (sp_creds demo_entry)"
    using demo_tester_codecs_ok by (simp add: demo_entry_def new_peer_def)
  moreover have "hex_ok (hex_enc demo_tester_codecs) demo_unhex"
    using demo_hex_ok by (simp add: demo_tester_codecs_def)
  moreover have "sp_ip demo_entry ! 0 = IP6_FIRST_BYTE"
    by (simp add: demo_entry_def new_peer_def demo_ip_def IP6_FIRST_BYTE_def)
  ultimately show ?thesis
    using test_result_recorded [of demo_sha demo_seeder demo_entry demo_tester_codecs demo_unhex demo_tester ConnectTimeout "''t''" demo_cfg
        "\<lambda>s. s" 60]
    by (simp add: m demo_tester_def) (simp add: demo_cfg_def)
qed

end
