(* ===== verification/Spec2Isabelle.thy ===== *)
theory Spec2Isabelle
  imports Json_Spec Service_Spec Admin_Client Ethrpc Nameserver Ptest
begin

text \<open>
  A model of the cjdns route server. A cjdns network is a mesh in which every node announces, signed
  and a few times an hour, the links it has to its neighbours. A supernode collects the announcements,
  keeps the graph of links, exchanges announcements with other supernodes and answers the questions of
  its nodes: which route leads from one node to another, which state of mine do you know, whom may I
  peer with. The repository is that supernode (\<^verbatim>\<open>cjdns-snode\<close>) with the crates below it, and beside it a
  name server, which serves peers for new nodes and the domains of a contract on a blockchain, and a
  tester, which tries out the peers that were posted.

  \<^bold>\<open>Parts and their theories\<close>

  \<^item> Prelude, State, Text, Bytes, Reader, Stdio: results with an explicit panic, state passing, digits,
    byte orders, the readers and writers of \<^verbatim>\<open>cjdns-bytes/src/utils.rs\<close> and the parts of \<^verbatim>\<open>std::io\<close> in use.
  \<^item> Labels, Encoding, Splice, Strconv, Addr (\<^verbatim>\<open>cjdns-core\<close>): routing labels over any word width, encoding
    schemes and their packed form, the label functions \<open>splice\<close>, \<open>unsplice\<close>, \<open>re_encode\<close>, \<open>build_label\<close>
    and \<open>routes_through\<close>, text of labels, names of nodes.
  \<^item> Msg_Buf, Varint, Tlv, Dnsseed (\<^verbatim>\<open>cjdns-bytes\<close>), Netchecksum (\<^verbatim>\<open>netchecksum\<close>), Keys (\<^verbatim>\<open>cjdns-keys\<close>), Hdr
    (\<^verbatim>\<open>cjdns-hdr\<close>), Ctrl (\<^verbatim>\<open>cjdns-ctrl\<close>): buffers, integers, lists and headers on the wire.
  \<^item> Benc_Object, Bencode, Benc_Spec, Json, Json_Spec (\<^verbatim>\<open>cjdns-bencode\<close>): values, the parser and serializer
    of bencode, and the JSON dialect of the configuration with its checks and repair.
  \<^item> Ann, Ann_Format (\<^verbatim>\<open>cjdns-ann\<close>): announcement packets, their signature and their entities.
  \<^item> Frontier, Dijkstra, Numtraits, Float64, Cost (\<^verbatim>\<open>cjdns-snode/src/pathsearch\<close>): the queue, the two
    searches, and binary64 costs as their weights.
  \<^item> Wire_Message, Peers (\<^verbatim>\<open>message.rs\<close>, \<^verbatim>\<open>peer.rs\<close>, \<^verbatim>\<open>peer/\<close>): what supernodes say to each other, the list
    of announcements they serve and the connections.
  \<^item> Link, Nodes, Server, Server_Inv, Server_Spec (\<^verbatim>\<open>server.rs\<close>, \<^verbatim>\<open>server/link.rs\<close>, \<^verbatim>\<open>server/nodes.rs\<close>,
    \<^verbatim>\<open>server/hash.rs\<close>): links and their samples, the table of nodes, the handling of an announcement, the
    invariant of it all.
  \<^item> Route (\<^verbatim>\<open>server/route.rs\<close>): the graph of mutual links, the route cache and the label of a route.
  \<^item> Seeder, Seeder_Inv (\<^verbatim>\<open>seeder/mod.rs\<close>): peering credentials.
  \<^item> Sniff (\<^verbatim>\<open>cjdns-sniff\<close>), Service, Service_Spec (\<^verbatim>\<open>server/service.rs\<close>): the messages of the local node and
    their answers. Here table, routes and seeder meet; \<open>supernode_reachable\<close> are the runs of the whole.
  \<^item> Admin_Dispatch, Admin_Client (\<^verbatim>\<open>cjdns-admin\<close>): the task that hands the datagrams of the local node to
    the calls that wait for them, and the client's calls, their configuration and the function list.

  \<^item> Slices: pieces of lists and strings as \<^verbatim>\<open>chunks\<close>, \<^verbatim>\<open>split\<close> and \<^verbatim>\<open>strip_prefix\<close> make them.
  \<^item> Pns_Record, Pns, Pns_Spec (\<^verbatim>\<open>cjdns-pns\<close>): DNS records packed into a domain, the cache of domains with its
    loading and its events, names and the answers to queries. Ethrpc (\<^verbatim>\<open>cjdns-eth-rpc\<close>): calls of a server
    of the blockchain with their retries, and the check that an event is handled once.
  \<^item> Peering_Line (\<^verbatim>\<open>dnsseed.rs\<close>, \<^verbatim>\<open>cjdns-snode-wire\<close>), Ip6_Text: credentials as text, from the seeder to
    the programs that read its listing. Nameserver (\<^verbatim>\<open>cjdns-nameserver\<close>): the seed record, queries, tools.
    Ptest (\<^verbatim>\<open>cjdns-ptest\<close>): the calls to a node, one test, the agents and the main cycle.

  An announcement comes in through Service (from a node) or Peers (from another supernode), is read by
  Ann, checked and stored by Server, which updates Link and Nodes and offers it through Peers; a query
  goes from Service to Route, which searches the graph of Nodes and Link with Dijkstra and makes the
  label with Splice. The seeder's listing goes through Peering_Line to Nameserver, which makes a seed record of
  Dnsseed from it, and to Ptest, whose results come back to the seeder.

  \<^bold>\<open>Correspondence\<close>

  Definitions have the names of the functions, types and fields they model, with a suffix or prefix where
  HOL or another theory has the name. A struct is a record, an enum a datatype, \<open>u8\<close> to \<open>u64\<close> are
  words, \<open>usize\<close> is \<open>nat\<close>, \<open>i64\<close> an integer within range. \<open>Result\<close> is the type \<open>result\<close> of the prelude with
  the third case \<open>Panic\<close>: an out of range index, an overflow of checked arithmetic, \<open>unwrap\<close> and
  \<open>expect\<close>. The one place that follows release builds is \<open>into_ord\<close> on infinite costs, whose debug
  assertion is left out (theory Cost). Functions with \<open>&mut self\<close> return the state they leave, also when
  they fail; the locks of the source do not poison. One handler is one step with one time: tasks interleave between
  handlers, also where the source takes a lock several times (the credentials of one post). Bounded channels
  (connections, announcements, test results) are lists without a bound. A lock that is taken twice or a loop that does not end makes the value \<open>None\<close>.

  A hash map is a partial function; where the code iterates over it, the order is the parameter \<open>order\<close>,
  of which only \<open>order_ok\<close> (or \<open>ids_ok\<close>) is known: it lists every key once. \<open>BTreeMap\<close> is an association list in key
  order. A handle to a node of the table is its address. Strings that the code handles as bytes are lists
  of \<open>u8\<close> in UTF-8, others lists of characters. System time is in nanoseconds (an integer), \<open>Instant\<close> the
  same (a natural number); each operation takes the time it reads. \<open>f64\<close> is its bit pattern, with
  rational arithmetic and one rounding.

  Third-party code is a parameter: SHA-512, signatures and Curve25519, random draws, the hex, base 32 and
  MessagePack codecs, sockets, the answers of the local node, names and records of the hickory crate (the
  record \<open>dns\<close>) and the outcome of a call over alloy (the record \<open>attempt\<close>). Where a theorem needs a fact about
  such code it is a hypothesis, and its witness has an instance.

  \<^bold>\<open>Bounds and termination\<close>

  Functions with recursion over their input are total, with a measure where it is not structural.
  Loops that may not end are \<open>partial_function (option)\<close>: the searches of Dijkstra, which are proved to end
  on a finite graph, the handler pages of Sniff, which end if the node sends an empty page, and the lists of Ptest and Admin_Client,
  which end with a page that announces no other. The parser
  of bencode has the nesting limit of the code as a parameter, and no stack depth is modelled. The key
  generation takes its random draws from a list, whose end is \<open>None\<close>.

  \<^bold>\<open>What is shown\<close>

  \<^item> Invariants: of the peer side (\<open>peers_invariant\<close>), of the server (\<open>supernode_invariant\<close>), of the whole
    supernode (\<open>service_invariant\<close>), by induction over the runs.
  \<^item> What the supernode does with announcements: stored and served if accepted, nothing if refused, node
    times never go back, the exact messages that crash it; requested announcements only, and delivery.
  \<^item> Routes: a reply is a walk of least cost over mutual links, with the labels of its hops; a lookup
    returns exactly if no node is linked to itself; which label an answered query carries.
  \<^item> Labels: the functions are concatenation, prefix test and prefix removal on the paths that labels
    stand for, with their exact errors; the label of every hop of a built label. Schemes: the exact
    conditions of acceptance, and where they are weaker than documented.
  \<^item> Search: both searches end and are complete and cheapest; the queue implements a map of costs.
  \<^item> Formats: round trips of bencode, JSON, announcements, schemes, headers, control, peer and node messages,
    names; the exact inputs that parsers accept or panic on.
  \<^item> Domains: the cache holds decoded records in every run, which queries fail, what an answer is made of,
    that a takeover changes no answer; an event is handled from one socket. Seed text decodes to posted
    credentials, and a test result reaches the credentials that were tested.
  \<^item> Link tables and samples, the seeder's answers, the message buffer as a stack of bytes, the checksum.

  Locales state the contracts that several operations share: codecs of fields (Reader), byte sources and
  byte stacks (Stdio), ordered maps (Benc_Object), the queue of the search (Frontier); each is
  interpreted on the model.

  \<^bold>\<open>Not modelled\<close>

  Log output, socket and task plumbing, HTTP requests and the web server's pages, the admin client's
  transport, the command line programs apart from the tools of Nameserver, the generated contract bindings
  and the parts of \<^verbatim>\<open>cjdns-eth-rpc\<close> that only pass values to alloy.
\<close>

end
